(* ===== verification/Prelude.thy ===== *)
theory Prelude
  imports Main "HOL-Library.Word" "HOL-Library.Signed_Division"
begin

text \<open>
  Shared vocabulary of the development: machine integers, the kernel computations
  (\<open>('s, 'a) kop\<close>, a state transformer with the outcomes a kernel routine can have),
  a weakest-precondition calculus that the simplifier runs, loops over index ranges,
  and reachability in a transition system.
\<close>

unbundle bit_operations_syntax

named_theorems wp_simps \<open>weakest preconditions of the kernel operations\<close>
named_theorems frame_simps \<open>fields an operation leaves alone\<close>
named_theorems kdefs \<open>definitions of kernel operations that proofs unfold\<close>

section \<open>Machine integers\<close>

type_synonym u8 = "8 word"
type_synonym u16 = "16 word"
type_synonym u32 = "32 word"

text \<open>A C \<open>int\<close> is a 32-bit word read with \<^const>\<open>sint\<close> where the code compares it.\<close>

type_synonym i32 = "32 word"

abbreviation minus_one :: i32 where
  "minus_one \<equiv> - 1"

lemma sint_eq: "sint (x :: i32) = (if uint x < 2 ^ 31 then uint x else uint x - 2 ^ 32)"
proof -
  have x: "0 \<le> uint x" "uint x < 2 ^ 32"
    using uint_bounded [of x] by simp_all
  have sx: "sint x = (uint x + 2 ^ 31) mod 2 ^ 32 - 2 ^ 31"
    by (simp add: sint_uint signed_take_bit_eq_take_bit_shift take_bit_eq_mod)
  show ?thesis
  proof (cases "uint x < 2 ^ 31")
    case True
    then show ?thesis using x sx by (simp add: mod_pos_pos_trivial)
  next
    case False
    have "(uint x + 2 ^ 31) mod 2 ^ 32 = (uint x - 2 ^ 31 + 2 ^ 32) mod 2 ^ 32"
      by (simp add: add.commute)
    also have "\<dots> = uint x - 2 ^ 31"
      using x False by (simp only: mod_add_self2) (intro mod_pos_pos_trivial, simp_all)
    finally show ?thesis using False sx by simp
  qed
qed

lemma uint_uminus:
  fixes x :: i32
  assumes "sint x < 0"
  shows "uint (- x) = - sint x"
proof -
  have x: "0 < uint x" "uint x < 2 ^ 32"  "\<not> uint x < 2 ^ 31"
    using uint_bounded [of x] assms by (auto simp: sint_eq split: if_splits)
  have "uint (- x) = (- uint x) mod 2 ^ 32"
    by (simp add: uint_word_ariths)
  also have "\<dots> = (2 ^ 32 - uint x) mod 2 ^ 32"
    by simp
  also have "\<dots> = 2 ^ 32 - uint x"
    using x by (intro mod_pos_pos_trivial) simp_all
  finally show ?thesis using x by (simp add: sint_eq)
qed
lemma unat_lt32: "unat (x :: u32) < 4294967296"
  by (rule order_less_le_trans [OF unsigned_less]) simp

lemma ucast_scast_u8: "ucast (scast (b :: u8) :: u32) = b"
  by (rule bit_word_eqI) (auto simp: bit_simps)

lemma ucast_ucast_u8: "ucast (ucast (b :: u8) :: u32) = b"
  by (rule bit_word_eqI) (auto simp: bit_simps)

lemma of_char_ucast: "(of_char c :: u32) = ucast (of_char c :: u8)"
proof -
  have "take_bit 8 (of_char c :: nat) = of_char c"
    using nat_of_char_less_256 [of c] by (simp add: take_bit_nat_eq_self)
  then have "ucast (word_of_nat (of_char c) :: u8) = (word_of_nat (of_char c) :: u32)"
    by (simp only: unsigned_of_nat) simp
  then show ?thesis by (simp only: of_nat_of_char)
qed

section \<open>Outcomes of a kernel routine\<close>

text \<open>
  \<open>Done a s\<close>: the routine returned \<open>a\<close> in state \<open>s\<close>.
  \<open>Switch s\<close>: it called \<open>swtch\<close> into the scheduler in state \<open>s\<close>; the rest of the routine
  runs when the process is next scheduled.
  \<open>Spin\<close>: it spins on a lock another CPU holds (or on a machine that has panicked);
  the step has not happened.
  \<open>Panic m\<close>: it called \<open>panic(m)\<close>.
\<close>

datatype ('a, 's) kres = Done 'a 's | Switch 's | Spin | Panic string

type_synonym ('s, 'a) kop = "'s \<Rightarrow> ('a, 's) kres"

definition retk :: "'a \<Rightarrow> ('s, 'a) kop" where
  "retk a s = Done a s"

definition panick :: "string \<Rightarrow> ('s, 'a) kop" where
  "panick m s = Panic m"

definition getk :: "('s \<Rightarrow> 'a) \<Rightarrow> ('s, 'a) kop" where
  "getk f s = Done (f s) s"

definition modk :: "('s \<Rightarrow> 's) \<Rightarrow> ('s, unit) kop" where
  "modk f s = Done () (f s)"

definition bindk :: "('s, 'a) kop \<Rightarrow> ('a \<Rightarrow> ('s, 'b) kop) \<Rightarrow> ('s, 'b) kop" where
  "bindk m f s = (case m s of
      Done a t \<Rightarrow> f a t
    | Switch t \<Rightarrow> Switch t
    | Spin \<Rightarrow> Spin
    | Panic e \<Rightarrow> Panic e)"

definition seqk :: "('s, 'a) kop \<Rightarrow> ('s, 'b) kop \<Rightarrow> ('s, 'b) kop" where
  "seqk m n = bindk m (\<lambda>_. n)"

text \<open>\<open>unlessk b m\<close> runs \<open>m\<close> when \<open>b\<close> fails: the shape of the code's panic guards.\<close>

definition unlessk :: "bool \<Rightarrow> ('s, unit) kop \<Rightarrow> ('s, unit) kop" where
  "unlessk b m = (if b then retk () else m)"

text \<open>A \<open>for\<close> loop over a list of indices whose body has no \<open>break\<close>.\<close>

primrec forallk :: "('i \<Rightarrow> ('s, unit) kop) \<Rightarrow> 'i list \<Rightarrow> ('s, unit) kop" where
  "forallk f [] = retk ()"
| "forallk f (i # is) = seqk (f i) (forallk f is)"

lemma retk_apply: "retk a s = Done a s"
  by (simp add: retk_def)

lemma panick_apply [simp]: "panick m s = Panic m"
  by (simp add: panick_def)

lemma getk_apply [simp]: "getk f s = Done (f s) s"
  by (simp add: getk_def)

lemma modk_apply [simp]: "modk f s = Done () (f s)"
  by (simp add: modk_def)

lemma bindk_Done: "m s = Done a t \<Longrightarrow> bindk m f s = f a t"
  by (simp add: bindk_def)

lemma bindk_retk [simp]: "bindk (retk a) f s = f a s"
  by (simp add: bindk_def retk_def)

lemma bindk_getk [simp]: "bindk (getk g) f s = f (g s) s"
  by (simp add: bindk_def)

lemma bindk_modk [simp]: "bindk (modk g) f s = f () (g s)"
  by (simp add: bindk_def)

lemma bindk_panick [simp]: "bindk (panick e) f s = Panic e"
  by (simp add: bindk_def)

lemma seqk_modk [simp]: "seqk (modk g) m s = m (g s)"
  by (simp add: seqk_def)

lemma seqk_retk [simp]: "seqk (retk a) m s = m s"
  by (simp add: seqk_def)

lemma seqk_panick [simp]: "seqk (panick e) m s = Panic e"
  by (simp add: seqk_def)

lemma seqk_Done: "m s = Done a t \<Longrightarrow> seqk m n s = n t"
  by (simp add: seqk_def bindk_def)

lemma bindk_if [simp]:
  "bindk (if b then m else n) f s = (if b then bindk m f s else bindk n f s)"
  by simp

lemma bindk_assoc: "bindk (bindk m f) g = bindk m (\<lambda>a. bindk (f a) g)"
  by (auto simp: bindk_def fun_eq_iff split: kres.splits)

lemma bindk_assoc_apply [simp]:
  "bindk (bindk m f) g s = bindk m (\<lambda>a. bindk (f a) g) s"
  "bindk (seqk m' n) h s = seqk m' (bindk n h) s"
  "seqk (bindk m f) n' s = bindk m (\<lambda>a. seqk (f a) n') s"
  "seqk (seqk m' n) k s = seqk m' (seqk n k) s"
  by (simp_all add: seqk_def bindk_assoc)

lemma bindk_eq_Done:
  "bindk m f s = Done b u \<longleftrightarrow> (\<exists>a t. m s = Done a t \<and> f a t = Done b u)"
  by (auto simp: bindk_def split: kres.splits)

lemma seqk_eq_Done:
  "seqk m n s = Done b u \<longleftrightarrow> (\<exists>a t. m s = Done a t \<and> n t = Done b u)"
  by (simp add: seqk_def bindk_eq_Done)

section \<open>Weakest preconditions\<close>

text \<open>
  \<open>wpk m Q R s\<close>: from \<open>s\<close>, \<open>m\<close> does not panic, establishes \<open>Q\<close> if it returns and \<open>R\<close> if
  it switches to the scheduler. \<open>wlpk\<close> is the version that says nothing about panics.
\<close>

definition wpk :: "('s, 'a) kop \<Rightarrow> ('a \<Rightarrow> 's \<Rightarrow> bool) \<Rightarrow> ('s \<Rightarrow> bool) \<Rightarrow> 's \<Rightarrow> bool" where
  "wpk m Q R s = (case m s of
      Done a t \<Rightarrow> Q a t | Switch t \<Rightarrow> R t | Spin \<Rightarrow> True | Panic _ \<Rightarrow> False)"

definition wlpk :: "('s, 'a) kop \<Rightarrow> ('a \<Rightarrow> 's \<Rightarrow> bool) \<Rightarrow> ('s \<Rightarrow> bool) \<Rightarrow> 's \<Rightarrow> bool" where
  "wlpk m Q R s = (case m s of
      Done a t \<Rightarrow> Q a t | Switch t \<Rightarrow> R t | Spin \<Rightarrow> True | Panic _ \<Rightarrow> True)"

lemma wpk_basic [simp]:
  "wpk (retk a) Q R s = Q a s"
  "wpk (getk f) Q' R s = Q' (f s) s"
  "wpk (modk h) P R s = P () (h s)"
  "wpk (panick e) P' R s = False"
  by (simp_all add: wpk_def retk_def)

lemma wpk_retk_fun [simp]: "wpk (retk a) Q R = Q a"
  by (rule ext) simp

lemma wpk_bindk [simp]: "wpk (bindk m f) Q R s = wpk m (\<lambda>a. wpk (f a) Q R) R s"
  by (simp add: wpk_def bindk_def split: kres.splits)

lemma wpk_seqk [simp]: "wpk (seqk m n) Q R s = wpk m (\<lambda>_. wpk n Q R) R s"
  by (simp add: seqk_def)

lemma wpk_if [simp]:
  "wpk (if b then m else n) Q R s = (if b then wpk m Q R s else wpk n Q R s)"
  by simp

lemma wpk_unlessk [simp]: "wpk (unlessk b m) Q R s = (if b then Q () s else wpk m Q R s)"
  by (simp add: unlessk_def)

lemma wpk_mono:
  assumes "wpk m Q R s" and "\<And>a t. Q a t \<Longrightarrow> Q' a t" and "\<And>t. R t \<Longrightarrow> R' t"
  shows "wpk m Q' R' s"
  using assms by (auto simp: wpk_def split: kres.splits)

lemma wlpk_basic [simp]:
  "wlpk (retk a) Q R s = Q a s"
  "wlpk (getk f) Q' R s = Q' (f s) s"
  "wlpk (modk h) P R s = P () (h s)"
  "wlpk (panick e) P' R s"
  by (simp_all add: wlpk_def retk_def)

lemma wlpk_retk_fun [simp]: "wlpk (retk a) Q R = Q a"
  by (rule ext) simp

lemma wlpk_bindk [simp]: "wlpk (bindk m f) Q R s = wlpk m (\<lambda>a. wlpk (f a) Q R) R s"
  by (simp add: wlpk_def bindk_def split: kres.splits)

lemma wlpk_seqk [simp]: "wlpk (seqk m n) Q R s = wlpk m (\<lambda>_. wlpk n Q R) R s"
  by (simp add: seqk_def)

lemma wlpk_if [simp]:
  "wlpk (if b then m else n) Q R s = (if b then wlpk m Q R s else wlpk n Q R s)"
  by simp

lemma wlpk_unlessk [simp]: "wlpk (unlessk b m) Q R s = (if b then Q () s else wlpk m Q R s)"
  by (simp add: unlessk_def)

lemma wlpk_mono:
  assumes "wlpk m Q R s" and "\<And>a t. Q a t \<Longrightarrow> Q' a t" and "\<And>t. R t \<Longrightarrow> R' t"
  shows "wlpk m Q' R' s"
  using assms by (auto simp: wlpk_def split: kres.splits)

lemma wpk_imp_wlpk: "wpk m Q R s \<Longrightarrow> wlpk m Q R s"
  by (auto simp: wpk_def wlpk_def split: kres.splits)

lemma wpkD_Done: "wpk m Q R s \<Longrightarrow> m s = Done a t \<Longrightarrow> Q a t"
  by (simp add: wpk_def)

lemma wpkD_Switch: "wpk m Q R s \<Longrightarrow> m s = Switch t \<Longrightarrow> R t"
  by (simp add: wpk_def)

lemma wpkD_Panic: "wpk m Q R s \<Longrightarrow> m s \<noteq> Panic e"
  by (auto simp: wpk_def)

lemma wlpkD_Done: "wlpk m Q R s \<Longrightarrow> m s = Done a t \<Longrightarrow> Q a t"
  by (simp add: wlpk_def)

lemma wlpkD_Switch: "wlpk m Q R s \<Longrightarrow> m s = Switch t \<Longrightarrow> R t"
  by (simp add: wlpk_def)

text \<open>A \<open>for\<close> loop keeps what its body keeps.\<close>

lemma wlpk_forallk:
  assumes "\<And>i t. i \<in> set is \<Longrightarrow> I t \<Longrightarrow> wlpk (f i) (\<lambda>_. I) R t" and "I s"
  shows "wlpk (forallk f is) (\<lambda>_. I) R s"
  using assms
proof (induction "is" arbitrary: s)
  case Nil
  then show ?case by simp
next
  case (Cons i "is")
  have "wlpk (f i) (\<lambda>_. I) R s"
    using Cons.prems by simp
  then have "wlpk (f i) (\<lambda>_. wlpk (forallk f is) (\<lambda>_. I) R) R s"
    by (rule wlpk_mono) (use Cons in auto)
  then show ?case by simp
qed

lemma wpk_forallk:
  assumes "\<And>i t. i \<in> set is \<Longrightarrow> I t \<Longrightarrow> wpk (f i) (\<lambda>_. I) R t" and "I s"
  shows "wpk (forallk f is) (\<lambda>_. I) R s"
  using assms
proof (induction "is" arbitrary: s)
  case Nil
  then show ?case by simp
next
  case (Cons i "is")
  have "wpk (f i) (\<lambda>_. I) R s"
    using Cons.prems by simp
  then have "wpk (f i) (\<lambda>_. wpk (forallk f is) (\<lambda>_. I) R) R s"
    by (rule wpk_mono) (use Cons in auto)
  then show ?case by simp
qed

text \<open>An operation keeps a predicate when no outcome of it breaks it.\<close>

definition keepsk :: "('s \<Rightarrow> bool) \<Rightarrow> ('s, 'a) kop \<Rightarrow> bool" where
  "keepsk I m \<longleftrightarrow> (\<forall>s. I s \<longrightarrow> wlpk m (\<lambda>_. I) I s)"

lemma keepskI: "(\<And>s. I s \<Longrightarrow> wlpk m (\<lambda>_. I) I s) \<Longrightarrow> keepsk I m"
  by (simp add: keepsk_def)

lemma keepskD: "keepsk I m \<Longrightarrow> I s \<Longrightarrow> wlpk m (\<lambda>_. I) I s"
  by (simp add: keepsk_def)

lemma keepsk_bindk:
  assumes "keepsk I m" and "\<And>a. keepsk I (f a)"
  shows "keepsk I (bindk m f)"
proof (rule keepskI)
  fix s assume "I s"
  with assms(1) have "wlpk m (\<lambda>_. I) I s" by (rule keepskD)
  then have "wlpk m (\<lambda>a. wlpk (f a) (\<lambda>_. I) I) I s"
    by (rule wlpk_mono) (auto intro: keepskD [OF assms(2)])
  then show "wlpk (bindk m f) (\<lambda>_. I) I s" by simp
qed

lemma keepsk_seqk: "keepsk I m \<Longrightarrow> keepsk I n \<Longrightarrow> keepsk I (seqk m n)"
  by (simp add: seqk_def keepsk_bindk)

lemma keepsk_basic [simp]:
  "keepsk I (retk a)" "keepsk I (getk f)" "keepsk I (panick e)"
  by (auto simp: keepsk_def)

section \<open>Reachability\<close>

text \<open>The states a transition system can reach, and the invariant rule for it.\<close>

inductive reach :: "('s \<Rightarrow> bool) \<Rightarrow> ('s \<Rightarrow> 's \<Rightarrow> bool) \<Rightarrow> 's \<Rightarrow> bool"
  for init :: "'s \<Rightarrow> bool" and step :: "'s \<Rightarrow> 's \<Rightarrow> bool" where
  reach_init: "init s \<Longrightarrow> reach init step s"
| reach_step: "reach init step s \<Longrightarrow> step s t \<Longrightarrow> reach init step t"

locale inductive_invariant =
  fixes init :: "'s \<Rightarrow> bool" and step :: "'s \<Rightarrow> 's \<Rightarrow> bool" and inv :: "'s \<Rightarrow> bool"
  assumes init_inv: "init s \<Longrightarrow> inv s"
    and step_inv: "inv s \<Longrightarrow> step s t \<Longrightarrow> inv t"
begin

lemma reach_inv: "reach init step s \<Longrightarrow> inv s"
  by (induction rule: reach.induct) (auto intro: init_inv step_inv)

lemma rtranclp_inv: "inv s \<Longrightarrow> step\<^sup>*\<^sup>* s t \<Longrightarrow> inv t"
  by (rotate_tac, induction rule: rtranclp_induct) (auto intro: step_inv)

end

text \<open>A concrete system simulates an abstract one while the invariant \<open>inv\<close> holds.\<close>

locale simulation =
  fixes cinit :: "'c \<Rightarrow> bool" and cstep :: "'c \<Rightarrow> 'c \<Rightarrow> bool"
    and ainit :: "'a \<Rightarrow> bool" and astep :: "'a \<Rightarrow> 'a \<Rightarrow> bool"
    and inv :: "'c \<Rightarrow> bool" and abst :: "'c \<Rightarrow> 'a"
  assumes sim_init: "cinit s \<Longrightarrow> inv s \<and> ainit (abst s)"
    and sim_step: "inv s \<Longrightarrow> cstep s t \<Longrightarrow> inv t \<and> (abst s = abst t \<or> astep (abst s) (abst t))"
begin

lemma sim_reach: "reach cinit cstep s \<Longrightarrow> inv s \<and> reach ainit astep (abst s)"
  by (induction rule: reach.induct) (metis reach.intros sim_init sim_step)+

end

section \<open>Search loops\<close>

text \<open>
  \<open>find_index P n\<close>: the first index below \<open>n\<close> where \<open>P\<close> holds, as the code's
  \<open>for(p = table; p < &table[n]; p++) if(P(p)) return p;\<close> finds it.
\<close>

definition find_index :: "(nat \<Rightarrow> bool) \<Rightarrow> nat \<Rightarrow> nat option" where
  "find_index P n = List.find P [0..<n]"

lemma find_upt_Some:
  "List.find P [k..<n] = Some i \<longleftrightarrow> k \<le> i \<and> i < n \<and> P i \<and> (\<forall>j. k \<le> j \<and> j < i \<longrightarrow> \<not> P j)"
proof (induction "n - k" arbitrary: k)
  case 0
  then show ?case by simp
next
  case (Suc d)
  from Suc.hyps(2) have lt: "k < n" by simp
  have IH: "List.find P [Suc k..<n] = Some i \<longleftrightarrow>
      Suc k \<le> i \<and> i < n \<and> P i \<and> (\<forall>j. Suc k \<le> j \<and> j < i \<longrightarrow> \<not> P j)"
    by (rule Suc.hyps(1)) (use Suc.hyps(2) in simp)
  show ?case
  proof (cases "P k")
    case True
    then have "List.find P [k..<n] = Some k"
      using lt by (simp add: upt_conv_Cons)
    then show ?thesis
      using True lt by (metis (no_types, opaque_lifting) le_neq_implies_less order_refl option.inject not_less_iff_gr_or_eq)
  next
    case False
    then have "List.find P [k..<n] = List.find P [Suc k..<n]"
      using lt by (simp add: upt_conv_Cons)
    then show ?thesis
      using IH False by (metis Suc_leD Suc_leI le_neq_implies_less)
  qed
qed

lemma find_index_Some:
  "find_index P n = Some i \<longleftrightarrow> i < n \<and> P i \<and> (\<forall>j<i. \<not> P j)"
  by (simp add: find_index_def find_upt_Some)

lemma find_index_None: "find_index P n = None \<longleftrightarrow> (\<forall>i<n. \<not> P i)"
  by (auto simp: find_index_def find_None_iff)

lemma find_index_SomeD:
  assumes "find_index P n = Some i"
  shows "i < n" and "P i"
  using assms by (simp_all add: find_index_Some)

lemma find_index_first:
  assumes "i < n" and "P i" and "\<And>j. j < i \<Longrightarrow> \<not> P j"
  shows "find_index P n = Some i"
  using assms by (simp add: find_index_Some)

lemma find_index_cong:
  "(\<And>i. i < n \<Longrightarrow> P i = Q i) \<Longrightarrow> find_index P n = find_index Q n"
  unfolding find_index_def by (rule find_cong) auto

end
