(* ===== verification/Memory.thy ===== *)
theory Memory
  imports Prelude
begin

text \<open>
  Byte-addressed memory with 32-bit little-endian accesses, and the kernel's memory and
  string routines of \<open>src/string.c\<close> with the \<open>rep stos\<close> wrappers of \<open>src/x86.h\<close> they use.
  The routines are the code's loops over memory; the lemmas give their effect in closed
  form, for overlapping and address-wrapping arguments too where the code handles them.
\<close>

type_synonym memory = "u32 \<Rightarrow> u8"

section \<open>Loads and stores\<close>

definition load32 :: "memory \<Rightarrow> u32 \<Rightarrow> u32" where
  "load32 m a = ucast (m a) OR push_bit 8 (ucast (m (a + 1)))
     OR push_bit 16 (ucast (m (a + 2))) OR push_bit 24 (ucast (m (a + 3)))"

definition store32 :: "memory \<Rightarrow> u32 \<Rightarrow> u32 \<Rightarrow> memory" where
  "store32 m a v = m(a := ucast v, a + 1 := ucast (drop_bit 8 v),
     a + 2 := ucast (drop_bit 16 v), a + 3 := ucast (drop_bit 24 v))"

section \<open>x86 string stores\<close>

fun stosb :: "memory \<Rightarrow> u32 \<Rightarrow> u8 \<Rightarrow> nat \<Rightarrow> memory" where
  "stosb m a b 0 = m"
| "stosb m a b (Suc n) = stosb (m(a := b)) (a + 1) b n"

fun stosl :: "memory \<Rightarrow> u32 \<Rightarrow> u32 \<Rightarrow> nat \<Rightarrow> memory" where
  "stosl m a v 0 = m"
| "stosl m a v (Suc n) = stosl (store32 m a v) (a + 4) v n"

section \<open>string.c\<close>

definition memset :: "memory \<Rightarrow> u32 \<Rightarrow> i32 \<Rightarrow> u32 \<Rightarrow> memory" where
  "memset m dst c n =
     (if sint dst smod 4 = 0 \<and> n mod 4 = 0
      then (let c = c AND 0xFF
            in stosl m dst (push_bit 24 c OR push_bit 16 c OR push_bit 8 c OR c) (unat (n div 4)))
      else stosb m dst (ucast c) (unat n))"

text \<open>The value of \<open>*s1 - *s2\<close>, two \<open>uchar\<close>s promoted to \<open>int\<close>.\<close>

definition byte_diff :: "u8 \<Rightarrow> u8 \<Rightarrow> int" where
  "byte_diff x y = uint x - uint y"

fun memcmp :: "memory \<Rightarrow> u32 \<Rightarrow> u32 \<Rightarrow> nat \<Rightarrow> int" where
  "memcmp m s1 s2 0 = 0"
| "memcmp m s1 s2 (Suc n) =
     (if m s1 \<noteq> m s2 then byte_diff (m s1) (m s2) else memcmp m (s1 + 1) (s2 + 1) n)"

text \<open>The two copying loops of \<open>memmove\<close>: \<open>*--d = *--s\<close> and \<open>*d++ = *s++\<close>, \<open>n\<close> times.\<close>

fun copy_down :: "memory \<Rightarrow> u32 \<Rightarrow> u32 \<Rightarrow> nat \<Rightarrow> memory" where
  "copy_down m d s 0 = m"
| "copy_down m d s (Suc n) = copy_down (m(d - 1 := m (s - 1))) (d - 1) (s - 1) n"

fun copy_up :: "memory \<Rightarrow> u32 \<Rightarrow> u32 \<Rightarrow> nat \<Rightarrow> memory" where
  "copy_up m d s 0 = m"
| "copy_up m d s (Suc n) = copy_up (m(d := m s)) (d + 1) (s + 1) n"

definition memmove :: "memory \<Rightarrow> u32 \<Rightarrow> u32 \<Rightarrow> u32 \<Rightarrow> memory" where
  "memmove m dst src n =
     (if src < dst \<and> src + n > dst
      then copy_down m (dst + n) (src + n) (unat n)
      else copy_up m dst src (unat n))"

definition memcpy :: "memory \<Rightarrow> u32 \<Rightarrow> u32 \<Rightarrow> u32 \<Rightarrow> memory" where
  "memcpy m dst src n = memmove m dst src n"

fun strncmp :: "memory \<Rightarrow> u32 \<Rightarrow> u32 \<Rightarrow> nat \<Rightarrow> int" where
  "strncmp m p q 0 = 0"
| "strncmp m p q (Suc n) =
     (if m p \<noteq> 0 \<and> m p = m q then strncmp m (p + 1) (q + 1) n
      else byte_diff (m p) (m q))"

text \<open>
  \<open>strncpy\<close>: the first loop copies up to and including the NUL, the second pads with NULs;
  \<open>n\<close> is an \<open>int\<close>, and both loops stop when it is not positive.
\<close>

fun pad_nul :: "memory \<Rightarrow> u32 \<Rightarrow> nat \<Rightarrow> memory" where
  "pad_nul m s 0 = m"
| "pad_nul m s (Suc n) = pad_nul (m(s := 0)) (s + 1) n"

fun strncpy_loop :: "memory \<Rightarrow> u32 \<Rightarrow> u32 \<Rightarrow> nat \<Rightarrow> memory" where
  "strncpy_loop m s t 0 = m"
| "strncpy_loop m s t (Suc n) =
     (let m' = m(s := m t)
      in if m t \<noteq> 0 then strncpy_loop m' (s + 1) (t + 1) n else pad_nul m' (s + 1) n)"

definition strncpy :: "memory \<Rightarrow> u32 \<Rightarrow> u32 \<Rightarrow> i32 \<Rightarrow> memory" where
  "strncpy m s t n = strncpy_loop m s t (nat (sint n))"

text \<open>\<open>safestrcpy\<close>: \<open>while(--n > 0 && (*s++ = *t++) != 0);\<close> then \<open>*s = 0\<close>.\<close>

fun safestrcpy_loop :: "memory \<Rightarrow> u32 \<Rightarrow> u32 \<Rightarrow> nat \<Rightarrow> memory" where
  "safestrcpy_loop m s t 0 = m(s := 0)"
| "safestrcpy_loop m s t (Suc n) =
     (let m' = m(s := m t)
      in if m t \<noteq> 0 then safestrcpy_loop m' (s + 1) (t + 1) n else m'(s + 1 := 0))"

definition safestrcpy :: "memory \<Rightarrow> u32 \<Rightarrow> u32 \<Rightarrow> i32 \<Rightarrow> memory" where
  "safestrcpy m s t n =
     (if sint n \<le> 0 then m else safestrcpy_loop m s t (nat (sint n - 1)))"

text \<open>\<open>strlen\<close> does not return on memory without a NUL: \<open>None\<close> then.\<close>

partial_function (option) strlen_from :: "memory \<Rightarrow> u32 \<Rightarrow> u32 \<Rightarrow> u32 option" where
  "strlen_from m s n = (if m (s + n) = 0 then Some n else strlen_from m s (n + 1))"

definition strlen :: "memory \<Rightarrow> u32 \<Rightarrow> u32 option" where
  "strlen m s = strlen_from m s 0"

section \<open>Word facts\<close>

lemma unat_minus_Suc:
  fixes a d :: u32
  assumes "a \<noteq> d"
  shows "unat (a - (d + 1)) < k \<longleftrightarrow> unat (a - d) < Suc k"
proof -
  have "a - d \<noteq> 0" using assms by simp
  then have "unat (a - d) = Suc (unat (a - d - 1))"
    by (simp add: unat_minus_one unat_gt_0 Suc_diff_1)
  then show ?thesis by (simp add: diff_diff_eq)
qed

text \<open>\<open>in_range d k a\<close>: address \<open>a\<close> is one of the \<open>k\<close> bytes from \<open>d\<close> on.\<close>

definition in_range :: "u32 \<Rightarrow> nat \<Rightarrow> u32 \<Rightarrow> bool" where
  "in_range d k a \<longleftrightarrow> unat (a - d) < k"

lemma in_range_0 [simp]: "\<not> in_range d 0 a"
  by (simp add: in_range_def)

lemma in_range_Suc: "in_range d (Suc k) a \<longleftrightarrow> a = d \<or> in_range (d + 1) k a"
proof (cases "a = d")
  case True
  then show ?thesis by (simp add: in_range_def)
next
  case False
  then show ?thesis by (simp add: in_range_def unat_minus_Suc)
qed

lemma not_in_range_self:
  fixes d :: u32
  assumes "k < 2 ^ 32"
  shows "\<not> in_range (d + 1) k d"
proof -
  have "unat (d - (d + 1)) = 2 ^ 32 - 1"
    by (simp add: unsigned_minus_1_eq_mask mask_eq_exp_minus_1)
  then show ?thesis using assms by (simp add: in_range_def)
qed

lemma in_range_iff_ex:
  fixes d :: u32
  assumes "k \<le> 2 ^ 32"
  shows "in_range d k a \<longleftrightarrow> (\<exists>i<k. a = d + of_nat i)"
proof
  assume "in_range d k a"
  then show "\<exists>i<k. a = d + of_nat i"
    by (intro exI [of _ "unat (a - d)"]) (simp add: in_range_def)
next
  assume "\<exists>i<k. a = d + of_nat i"
  then obtain i where "i < k" "a = d + of_nat i" by blast
  then show "in_range d k a"
    using assms by (simp add: in_range_def unat_of_nat)
qed

section \<open>Loads after stores\<close>

lemma load32_store32_same [simp]: "load32 (store32 m a v) a = v"
proof -
  have "load32 (store32 m a v) a =
      ucast (ucast v :: u8) OR push_bit 8 (ucast (ucast (drop_bit 8 v) :: u8))
      OR push_bit 16 (ucast (ucast (drop_bit 16 v) :: u8))
      OR push_bit 24 (ucast (ucast (drop_bit 24 v) :: u8))"
    by (simp add: load32_def store32_def)
  also have "\<dots> = v"
    apply (rule bit_word_eqI)
    apply (auto simp: bit_simps not_less)
    subgoal for n by (cases "24 \<le> n") auto
    done
  finally show ?thesis .
qed

section \<open>Effect of the copying and filling loops\<close>

lemma stosb_eq:
  assumes "k < 2 ^ 32"
  shows "stosb m d b k a = (if in_range d k a then b else m a)"
  using assms
proof (induction k arbitrary: m d)
  case 0
  then show ?case by simp
next
  case (Suc k)
  have "stosb m d b (Suc k) a = (if in_range (d + 1) k a then b else (m(d := b)) a)"
    unfolding stosb.simps by (intro Suc.IH) (use Suc.prems in auto)
  then show ?case by (simp add: in_range_Suc)
qed

lemma in_range_add:
  fixes d :: u32
  assumes "j + k < 2 ^ 32"
  shows "in_range d (j + k) a \<longleftrightarrow> in_range d j a \<or> in_range (d + of_nat j) k a"
  using assms
proof (induction j arbitrary: d)
  case 0
  then show ?case by simp
next
  case (Suc j)
  have "in_range d (Suc j + k) a \<longleftrightarrow> a = d \<or> in_range (d + 1) (j + k) a"
    by (simp add: in_range_Suc)
  also have "\<dots> \<longleftrightarrow> a = d \<or> in_range (d + 1) j a \<or> in_range (d + 1 + of_nat j) k a"
    using Suc by simp
  finally show ?case by (simp add: in_range_Suc algebra_simps)
qed

lemma stosl_bytes:
  fixes c :: u32
  assumes "c' = ucast c" "v = push_bit 24 c OR push_bit 16 c OR push_bit 8 c OR c" and "c = ucast (c' :: u8)"
  shows "store32 m a v = m(a := c', a + 1 := c', a + 2 := c', a + 3 := c')"
proof -
  have bits: "bit c n \<longleftrightarrow> n < 8 \<and> bit c' n" for n
    unfolding assms(3) by (auto simp: bit_simps dest: bit_imp_le_length)
  have 0: "(ucast v :: u8) = c'"
    by (rule bit_word_eqI) (auto simp: assms(2) bit_simps bits)
  have 1: "(ucast (drop_bit 8 v) :: u8) = c'"
    by (rule bit_word_eqI) (auto simp: assms(2) bit_simps bits)
  have 2: "(ucast (drop_bit 16 v) :: u8) = c'"
    by (rule bit_word_eqI) (auto simp: assms(2) bit_simps bits)
  have 3: "(ucast (drop_bit 24 v) :: u8) = c'"
    by (rule bit_word_eqI) (auto simp: assms(2) bit_simps bits)
  show ?thesis by (simp add: store32_def 0 1 2 3)
qed

lemma stosl_eq_stosb:
  assumes "\<And>m a. store32 m a v = m(a := c, a + 1 := c, a + 2 := c, a + 3 := c)"
  shows "stosl m d v k = stosb m d c (4 * k)"
proof (induction k arbitrary: m d)
  case 0
  then show ?case by simp
next
  case (Suc k)
  have "4 * Suc k = Suc (Suc (Suc (Suc (4 * k))))" by simp
  then show ?case
    by (simp only: stosl.simps stosb.simps assms Suc.IH add.assoc) (simp add: fun_upd_def)
qed

lemma memset_eq: "memset m dst c n a = (if in_range dst (unat n) a then ucast c else m a)"
proof -
  have lt: "unat n < 2 ^ 32"
    using unsigned_less [of n] by simp
  show ?thesis
  proof (cases "sint dst smod 4 = 0 \<and> n mod 4 = 0")
    case False
    then show ?thesis by (auto simp: memset_def stosb_eq [OF lt])
  next
    case True
    let ?c = "c AND 0xFF" and ?b = "ucast c :: u8"
    let ?v = "push_bit 24 ?c OR push_bit 16 ?c OR push_bit 8 ?c OR ?c"
    have "unat (n mod 4) = 0"
      using True by simp
    then have "unat n mod 4 = 0"
      by (simp only: unat_mod_distrib) simp
    then have n: "4 * unat (n div 4) = unat n"
      by (simp add: unat_div_distrib) presburger
    have mask: "(0xFF :: u32) = mask 8"
      by (simp add: mask_eq_exp_minus_1)
    have c: "?c = ucast ?b"
      by (rule bit_word_eqI) (auto simp: bit_simps mask)
    have b: "?b = ucast ?c"
      by (rule bit_word_eqI) (auto simp: bit_simps mask)
    have "memset m dst c n = stosl m dst ?v (unat (n div 4))"
      using True by (simp add: memset_def Let_def)
    also have "\<dots> = stosb m dst ?b (unat n)"
      by (simp only: stosl_eq_stosb [OF stosl_bytes [OF b refl c]] n)
    finally show ?thesis by (simp add: stosb_eq [OF lt])
  qed
qed

lemma copy_up_eq:
  assumes "k < 2 ^ 32" and "\<And>i. 0 < i \<Longrightarrow> i < k \<Longrightarrow> d \<noteq> s + of_nat i"
  shows "copy_up m d s k a = (if in_range d k a then m (s + (a - d)) else m a)"
  using assms
proof (induction k arbitrary: m d s)
  case 0
  then show ?case by simp
next
  case (Suc k)
  let ?m = "m(d := m s)"
  have "d + 1 \<noteq> s + 1 + of_nat i" if "0 < i" "i < k" for i
    using Suc.prems(2) [of i] that by (simp add: add.commute add.left_commute)
  then have IH: "copy_up ?m (d + 1) (s + 1) k a =
      (if in_range (d + 1) k a then ?m (s + 1 + (a - (d + 1))) else ?m a)"
    by (intro Suc.IH) (use Suc.prems(1) in auto)
  have ne: "s + (a - d) \<noteq> d" if "in_range (d + 1) k a" "a \<noteq> d"
  proof -
    have "in_range d (Suc k) a" using that by (simp add: in_range_Suc)
    then have "unat (a - d) < Suc k" by (simp add: in_range_def)
    moreover have "0 < unat (a - d)" using that(2) by (simp add: unat_gt_0)
    ultimately have "d \<noteq> s + of_nat (unat (a - d))" by (intro Suc.prems(2))
    then show ?thesis by simp
  qed
  have self: "\<not> in_range (d + 1) k d"
    using not_in_range_self [of k d] Suc.prems(1) by simp
  have "s + 1 + (a - (d + 1)) = s + (a - d)" by simp
  with IH ne self show ?case
    by (cases "a = d") (auto simp: in_range_Suc)
qed

lemma in_range_snoc:
  fixes d :: u32
  assumes "Suc k < 2 ^ 32"
  shows "in_range d (Suc k) a \<longleftrightarrow> in_range d k a \<or> a = d + of_nat k"
proof -
  have "in_range (d + of_nat k) 1 a \<longleftrightarrow> a = d + of_nat k"
    using in_range_Suc [of "d + of_nat k" 0 a] by simp
  then show ?thesis
    using in_range_add [of k 1 d a] assms by simp
qed

lemma copy_down_eq:
  assumes "k < 2 ^ 32" and "\<And>i. 0 < i \<Longrightarrow> i < k \<Longrightarrow> s \<noteq> d + of_nat i"
  shows "copy_down m (d + of_nat k) (s + of_nat k) k a
       = (if in_range d k a then m (s + (a - d)) else m a)"
  using assms
proof (induction k arbitrary: m)
  case 0
  then show ?case by simp
next
  case (Suc k)
  let ?m = "m(d + of_nat k := m (s + of_nat k))"
  have IH: "copy_down ?m (d + of_nat k) (s + of_nat k) k a =
      (if in_range d k a then ?m (s + (a - d)) else ?m a)"
    by (intro Suc.IH) (use Suc.prems in auto)
  have ne: "s + (a - d) \<noteq> d + of_nat k" if "in_range d k a"
  proof
    assume eq: "s + (a - d) = d + of_nat k"
    have lt: "unat (a - d) < k" using that by (simp add: in_range_def)
    then have "of_nat (k - unat (a - d)) = (of_nat k - (a - d) :: u32)"
      by (simp add: of_nat_diff)
    then have "s = d + of_nat (k - unat (a - d))"
      using eq by (metis add_diff_eq eq_diff_eq)
    moreover have "s \<noteq> d + of_nat (k - unat (a - d))"
    proof (cases "unat (a - d) = 0")
      case False
      with lt show ?thesis by (intro Suc.prems(2)) auto
    next
      case True
      with lt show ?thesis by (intro Suc.prems(2)) auto
    qed
    ultimately show False by simp
  qed
  have top: "\<not> in_range d k (d + of_nat k)"
    using Suc.prems(1) by (simp add: in_range_def unat_of_nat)
  have "copy_down m (d + of_nat (Suc k)) (s + of_nat (Suc k)) (Suc k) a
      = copy_down ?m (d + of_nat k) (s + of_nat k) k a"
    by (simp add: algebra_simps)
  then show ?case
    using IH ne top Suc.prems(1)
    by (cases "a = d + of_nat k") (auto simp: in_range_snoc)
qed

lemma memmove_eq:
  assumes "unat src + unat n < 2 ^ 32" and "unat dst + unat n < 2 ^ 32"
  shows "memmove m dst src n a = (if in_range dst (unat n) a then m (src + (a - dst)) else m a)"
proof (cases "src < dst \<and> src + n > dst")
  case True
  have "src \<noteq> dst + of_nat i" if "0 < i" "i < unat n" for i
  proof -
    have "unat (dst + of_nat i) = unat dst + i"
      using that assms(2) by (subst unat_add_lem [THEN iffD1]) (auto simp: unat_of_nat)
    moreover have "unat src < unat dst" using True by (simp add: word_less_nat_alt)
    ultimately show ?thesis by auto
  qed
  then show ?thesis
    using True copy_down_eq [of "unat n" src dst m a] assms by (simp add: memmove_def)
next
  case False
  have sn: "unat (src + n) = unat src + unat n"
    using assms(1) by (subst unat_add_lem [THEN iffD1]) auto
  have "dst \<noteq> src + of_nat i" if "0 < i" "i < unat n" for i
  proof -
    have "unat (src + of_nat i) = unat src + i"
      using that assms(1) by (subst unat_add_lem [THEN iffD1]) (auto simp: unat_of_nat)
    moreover have "\<not> (unat src < unat dst \<and> unat dst < unat src + unat n)"
      using False sn by (simp add: word_less_nat_alt)
    ultimately show ?thesis using that by auto
  qed
  then show ?thesis
    using False copy_up_eq [of "unat n" dst src m a] assms by (auto simp: memmove_def)
qed

section \<open>NUL-terminated strings\<close>

text \<open>\<open>cstr m p xs\<close>: the C string at \<open>p\<close> is \<open>xs\<close>; \<open>bytes_at m p xs\<close>: the bytes from \<open>p\<close> on are \<open>xs\<close>.\<close>

fun cstr :: "memory \<Rightarrow> u32 \<Rightarrow> u8 list \<Rightarrow> bool" where
  "cstr m p [] \<longleftrightarrow> m p = 0"
| "cstr m p (x # xs) \<longleftrightarrow> x \<noteq> 0 \<and> m p = x \<and> cstr m (p + 1) xs"

fun bytes_at :: "memory \<Rightarrow> u32 \<Rightarrow> u8 list \<Rightarrow> bool" where
  "bytes_at m p [] \<longleftrightarrow> True"
| "bytes_at m p (x # xs) \<longleftrightarrow> m p = x \<and> bytes_at m (p + 1) xs"

lemma cstr_cong:
  assumes "\<And>i. i \<le> length xs \<Longrightarrow> m' (p + of_nat i) = m (p + of_nat i)"
  shows "cstr m' p xs = cstr m p xs"
  using assms
proof (induction xs arbitrary: p)
  case Nil
  then show ?case using Nil [of 0] by simp
next
  case (Cons x xs)
  have "m' p = m p" using Cons.prems [of 0] by simp
  moreover have "cstr m' (p + 1) xs = cstr m (p + 1) xs"
  proof (rule Cons.IH)
    fix i assume "i \<le> length xs"
    then show "m' (p + 1 + of_nat i) = m (p + 1 + of_nat i)"
      using Cons.prems [of "Suc i"] by (simp add: add.assoc)
  qed
  ultimately show ?case by simp
qed

lemma bytes_at_cong:
  assumes "\<And>i. i < length xs \<Longrightarrow> m' (p + of_nat i) = m (p + of_nat i)"
  shows "bytes_at m' p xs = bytes_at m p xs"
  using assms
proof (induction xs arbitrary: p)
  case Nil
  then show ?case by simp
next
  case (Cons x xs)
  have "m' p = m p" using Cons.prems [of 0] by simp
  moreover have "bytes_at m' (p + 1) xs = bytes_at m (p + 1) xs"
  proof (rule Cons.IH)
    fix i assume "i < length xs"
    then show "m' (p + 1 + of_nat i) = m (p + 1 + of_nat i)"
      using Cons.prems [of "Suc i"] by (simp add: add.assoc)
  qed
  ultimately show ?case by simp
qed

lemma strlen_from_cstr: "cstr m (s + n) xs \<Longrightarrow> strlen_from m s n = Some (n + of_nat (length xs))"
proof (induction xs arbitrary: n)
  case Nil
  then show ?case by (subst strlen_from.simps) simp
next
  case (Cons x xs)
  then have "strlen_from m s (n + 1) = Some (n + 1 + of_nat (length xs))"
    by (simp add: add.assoc)
  with Cons.prems show ?case by (subst strlen_from.simps) (simp add: add.assoc)
qed

lemma strlen_cstr: "cstr m s xs \<Longrightarrow> strlen m s = Some (of_nat (length xs))"
  using strlen_from_cstr [of m s 0 xs] by (simp add: strlen_def)

lemma byte_diff_0 [simp]: "byte_diff x y = 0 \<longleftrightarrow> x = y"
  by (auto simp: byte_diff_def intro: word_uint_eqI)

lemma strncmp_cstr:
  assumes "cstr m p xs" and "cstr m q ys"
  shows "strncmp m p q n = 0 \<longleftrightarrow> take n xs = take n ys"
  using assms
proof (induction n arbitrary: p q xs ys)
  case 0
  then show ?case by simp
next
  case (Suc n)
  show ?case
  proof (cases xs; cases ys)
    fix x xs' y ys' assume "xs = x # xs'" "ys = y # ys'"
    with Suc show ?thesis by auto
  qed (use Suc.prems in auto)
qed

text \<open>The \<open>n\<close>-byte buffer at \<open>s\<close> and the string \<open>xs\<close> at \<open>t\<close> (NUL included) do not overlap.\<close>

definition sep_buf :: "u32 \<Rightarrow> nat \<Rightarrow> u32 \<Rightarrow> nat \<Rightarrow> bool" where
  "sep_buf s n t k \<longleftrightarrow> (\<forall>i<n. \<forall>j<k. s + of_nat i \<noteq> t + of_nat j)"

lemma sep_buf_step: "sep_buf s (Suc n) t (Suc k) \<Longrightarrow> sep_buf (s + 1) n (t + 1) k"
  unfolding sep_buf_def
proof (intro allI impI)
  fix i j assume H: "\<forall>i<Suc n. \<forall>j<Suc k. s + of_nat i \<noteq> t + of_nat j" and "i < n" "j < k"
  then have "s + of_nat (Suc i) \<noteq> t + of_nat (Suc j)" by blast
  then show "s + 1 + of_nat i \<noteq> t + 1 + of_nat j"
    by (simp only: of_nat_Suc add.assoc) simp
qed

lemma sep_buf_cstr:
  assumes "sep_buf s (Suc n) t (Suc (length xs))"
  shows "cstr (m(s := v)) t xs = cstr m t xs"
proof (rule cstr_cong)
  fix i assume "i \<le> length xs"
  then have "s + of_nat 0 \<noteq> t + of_nat i"
    using assms unfolding sep_buf_def by (meson le_imp_less_Suc zero_less_Suc)
  then show "(m(s := v)) (t + of_nat i) = m (t + of_nat i)" by simp
qed

lemma pad_nul_eq:
  assumes "k < 2 ^ 32"
  shows "pad_nul m s k a = (if in_range s k a then 0 else m a)"
  using assms
proof (induction k arbitrary: m s)
  case 0
  then show ?case by simp
next
  case (Suc k)
  have "pad_nul m s (Suc k) a = (if in_range (s + 1) k a then 0 else (m(s := 0)) a)"
    unfolding pad_nul.simps by (intro Suc.IH) (use Suc.prems in auto)
  then show ?case by (simp add: in_range_Suc)
qed

lemma bytes_at_zeros:
  assumes "k < 2 ^ 32"
  shows "bytes_at (pad_nul m s k) s (replicate k 0)"
  using assms
proof (induction k arbitrary: m s)
  case 0
  then show ?case by simp
next
  case (Suc k)
  have "bytes_at (pad_nul (m(s := 0)) (s + 1) k) (s + 1) (replicate k 0)"
    by (intro Suc.IH) (use Suc.prems in auto)
  moreover have "pad_nul (m(s := 0)) (s + 1) k s = 0"
    using Suc.prems by (simp add: pad_nul_eq [where a = s])
  ultimately show ?case by simp
qed

lemma strncpy_loop_frame:
  assumes "k < 2 ^ 32" and "\<not> in_range s k a"
  shows "strncpy_loop m s t k a = m a"
  using assms
proof (induction k arbitrary: m s t)
  case 0
  then show ?case by simp
next
  case (Suc k)
  then have "a \<noteq> s" and out: "\<not> in_range (s + 1) k a" by (auto simp: in_range_Suc)
  show ?case
  proof (cases "m t = 0")
    case True
    then show ?thesis
      using \<open>a \<noteq> s\<close> out Suc.prems(1) by (simp add: pad_nul_eq [where a = a])
  next
    case False
    have "strncpy_loop (m(s := m t)) (s + 1) (t + 1) k a = (m(s := m t)) a"
      by (intro Suc.IH) (use Suc.prems out in auto)
    with False \<open>a \<noteq> s\<close> show ?thesis by (simp add: Let_def)
  qed
qed

lemma strncpy_loop_bytes:
  assumes "k < 2 ^ 32" and "cstr m t xs" and "sep_buf s k t (Suc (length xs))"
  shows "bytes_at (strncpy_loop m s t k) s (take k (xs @ replicate k 0))"
  using assms
proof (induction k arbitrary: m s t xs)
  case 0
  then show ?case by simp
next
  case (Suc k)
  have self: "\<not> in_range (s + 1) k s"
    using not_in_range_self [of k s] Suc.prems(1) by simp
  show ?case
  proof (cases xs)
    case Nil
    have "bytes_at (pad_nul (m(s := 0)) (s + 1) k) (s + 1) (replicate k 0)"
      using Suc.prems(1) by (intro bytes_at_zeros) simp
    then show ?thesis
      using Nil Suc.prems(1,2) self by (simp add: pad_nul_eq [where a = s])
  next
    case (Cons x xs')
    let ?m = "m(s := m t)"
    have "cstr ?m t xs"
      using Suc.prems(2,3) sep_buf_cstr by blast
    then have c: "cstr ?m (t + 1) xs'" by (simp only: Cons cstr.simps)
    have "bytes_at (strncpy_loop ?m (s + 1) (t + 1) k) (s + 1) (take k (xs' @ replicate k 0))"
    proof (rule Suc.IH)
      show "k < 2 ^ 32" using Suc.prems(1) by simp
      show "cstr ?m (t + 1) xs'" by (rule c)
      show "sep_buf (s + 1) k (t + 1) (Suc (length xs'))"
        using Suc.prems(3) Cons by (auto dest: sep_buf_step)
    qed
    moreover have "take k (xs' @ replicate k 0) = take k (xs' @ replicate (Suc k) 0)"
      by (simp add: min_def del: replicate_Suc)
    moreover have "strncpy_loop ?m (s + 1) (t + 1) k s = x"
      using strncpy_loop_frame [of k "s + 1" s ?m "t + 1"] self Suc.prems Cons by auto
    ultimately show ?thesis
      using Cons Suc.prems(2) by (simp add: Let_def)
  qed
qed

lemma safestrcpy_loop_frame:
  assumes "Suc k < 2 ^ 32" and "\<not> in_range s (Suc k) a"
  shows "safestrcpy_loop m s t k a = m a"
  using assms
proof (induction k arbitrary: m s t)
  case 0
  then show ?case by (auto simp: in_range_Suc)
next
  case (Suc k)
  then have "a \<noteq> s" and out: "\<not> in_range (s + 1) (Suc k) a" by (auto simp: in_range_Suc)
  show ?case
  proof (cases "m t = 0")
    case True
    then show ?thesis
      using \<open>a \<noteq> s\<close> out by (auto simp: in_range_Suc)
  next
    case False
    have "safestrcpy_loop (m(s := m t)) (s + 1) (t + 1) k a = (m(s := m t)) a"
      by (intro Suc.IH) (use Suc.prems out in auto)
    with False \<open>a \<noteq> s\<close> show ?thesis by (simp add: Let_def)
  qed
qed

lemma safestrcpy_loop_cstr:
  assumes "Suc k < 2 ^ 32" and "cstr m t xs" and "sep_buf s (Suc k) t (Suc (length xs))"
  shows "cstr (safestrcpy_loop m s t k) s (take k xs)"
  using assms
proof (induction k arbitrary: m s t xs)
  case 0
  then show ?case by simp
next
  case (Suc k)
  have self: "\<not> in_range (s + 1) (Suc k) s"
    using not_in_range_self [of "Suc k" s] Suc.prems(1) by simp
  show ?case
  proof (cases xs)
    case Nil
    then show ?thesis using Suc.prems(2) by simp
  next
    case (Cons x xs')
    let ?m = "m(s := m t)"
    have "cstr ?m t xs"
      using Suc.prems(2,3) sep_buf_cstr by blast
    then have c: "cstr ?m (t + 1) xs'" by (simp only: Cons cstr.simps)
    have "cstr (safestrcpy_loop ?m (s + 1) (t + 1) k) (s + 1) (take k xs')"
    proof (rule Suc.IH)
      show "Suc k < 2 ^ 32" using Suc.prems(1) by simp
      show "cstr ?m (t + 1) xs'" by (rule c)
      show "sep_buf (s + 1) (Suc k) (t + 1) (Suc (length xs'))"
        using Suc.prems(3) Cons by (auto dest: sep_buf_step)
    qed
    moreover have "safestrcpy_loop ?m (s + 1) (t + 1) k s = x"
      using safestrcpy_loop_frame [of k "s + 1" s ?m "t + 1"] self Suc.prems Cons by auto
    ultimately show ?thesis
      using Cons Suc.prems(2) by (simp add: Let_def)
  qed
qed

section \<open>Properties\<close>

text \<open>
  \<open>memmove\<close> copies correctly however source and destination overlap: afterwards byte
  \<open>i\<close> of the destination is what byte \<open>i\<close> of the source was before the call, and every
  other address is unchanged. Neither buffer may reach the top of the address space.
\<close>

theorem memmove_overlap_correct:
  assumes "unat src + unat n < 2 ^ 32" and "unat dst + unat n < 2 ^ 32"
  shows "(\<forall>i < unat n. memmove m dst src n (dst + of_nat i) = m (src + of_nat i))
       \<and> (\<forall>a. (\<forall>i < unat n. a \<noteq> dst + of_nat i) \<longrightarrow> memmove m dst src n a = m a)"
proof (intro conjI allI impI)
  fix i assume "i < unat n"
  then show "memmove m dst src n (dst + of_nat i) = m (src + of_nat i)"
    using assms by (simp add: memmove_eq [where a = "dst + of_nat i"] in_range_def unat_of_nat)
next
  fix a assume "\<forall>i < unat n. a \<noteq> dst + of_nat i"
  then have "\<not> in_range dst (unat n) a"
    using assms by (simp add: in_range_iff_ex)
  then show "memmove m dst src n a = m a"
    using assms by (simp add: memmove_eq [where a = a])
qed

theorem memmove_overlap_correct_witness:
  "unat (0 :: u32) + unat (4 :: u32) < 2 ^ 32 \<and> unat (2 :: u32) + unat (4 :: u32) < 2 ^ 32
   \<and> memmove (\<lambda>a. ucast a) 2 0 4 5 = 3 \<and> memmove (\<lambda>a. ucast a) 2 0 4 1 = 1"
proof -
  have h: "unat (0 :: u32) + unat (4 :: u32) < 2 ^ 32" "unat (2 :: u32) + unat (4 :: u32) < 2 ^ 32"
    by simp_all
  note th = memmove_overlap_correct [OF h, of "\<lambda>a. ucast a"]
  have "memmove (\<lambda>a. ucast a) 2 0 4 (2 + of_nat 3) = ucast (0 + of_nat 3 :: u32)"
    by (rule th [THEN conjunct1, rule_format]) simp
  moreover have "memmove (\<lambda>a. ucast a) 2 0 4 1 = ucast (1 :: u32)"
  proof (rule th [THEN conjunct2, rule_format])
    fix i assume "i < unat (4 :: u32)"
    then have "i = 0 \<or> i = 1 \<or> i = 2 \<or> i = 3" by auto
    then show "(1 :: u32) \<noteq> 2 + of_nat i" by auto
  qed
  ultimately show ?thesis using h by simp
qed

text \<open>
  \<open>safestrcpy(s, t, n)\<close> with \<open>n > 0\<close> always leaves a NUL-terminated string at \<open>s\<close>, the
  first \<open>n - 1\<close> bytes of the source string, and writes only the \<open>n\<close> bytes of the buffer.
\<close>

theorem safestrcpy_terminates:
  assumes "0 < sint n" and "cstr m t xs" and "sep_buf s (nat (sint n)) t (Suc (length xs))"
  shows "cstr (safestrcpy m s t n) s (take (nat (sint n) - 1) xs)
       \<and> (\<forall>a. \<not> in_range s (nat (sint n)) a \<longrightarrow> safestrcpy m s t n a = m a)"
proof -
  define k where "k = nat (sint n - 1)"
  have "sint n < 2 ^ 31"
    using sint_lt [of n] by simp
  with assms(1) have k: "nat (sint n) = Suc k" "Suc k < 2 ^ 32"
    by (simp_all add: k_def)
  have eq: "safestrcpy m s t n = safestrcpy_loop m s t k"
    using assms(1) by (simp add: safestrcpy_def k_def)
  show ?thesis
    using safestrcpy_loop_cstr [of k m t xs s] safestrcpy_loop_frame [of k s _ m t] assms(2,3) k
    by (auto simp: eq)
qed

theorem safestrcpy_terminates_witness:
  "0 < sint (3 :: i32) \<and> cstr (\<lambda>a. if a < 4 then 65 else 0) 0 [65, 65, 65, 65]
   \<and> sep_buf 100 3 0 5
   \<and> cstr (safestrcpy (\<lambda>a. if a < 4 then 65 else 0) 100 0 3) 100 [65, 65]"
proof -
  have h1: "0 < sint (3 :: i32)" by simp
  have h2: "cstr (\<lambda>a. if a < 4 then 65 else 0) 0 [65, 65, 65, 65]" by simp
  have sep: "sep_buf 100 3 0 5"
    unfolding sep_buf_def
  proof (intro allI impI)
    fix i j assume "i < (3 :: nat)" "j < (5 :: nat)"
    then have "i = 0 \<or> i = 1 \<or> i = 2" "j = 0 \<or> j = 1 \<or> j = 2 \<or> j = 3 \<or> j = 4" by auto
    then show "(100 :: u32) + of_nat i \<noteq> 0 + of_nat j" by (elim disjE) simp_all
  qed
  then have h3: "sep_buf 100 (nat (sint (3 :: i32))) 0 (Suc (length [65, 65, 65, 65 :: u8]))"
    by (simp add: eval_nat_numeral)
  show ?thesis
    using safestrcpy_terminates [OF h1 h2 h3] h1 h2 sep by simp
qed

end
