(* ===== verification/Spinlock.thy ===== *)
theory Spinlock
  imports Memory
begin

text \<open>
  The machine state every kernel routine works on, and the spin locks of
  \<open>src/spinlock.c\<close> with the x86 instructions of \<open>src/x86.h\<close> they use. The state is an
  extensible record: each component adds its own globals to it, so the operations here
  apply to the state of every later component.

  An \<open>acquire\<close> of a lock that another CPU holds has the outcome \<^const>\<open>Spin\<close>. Mutual
  exclusion between CPUs is proved on a step relation that interleaves the individual
  memory accesses of \<open>acquire\<close> and \<open>release\<close>.
\<close>

section \<open>Machine state\<close>

definition FL_IF :: u32 where
  "FL_IF = 0x200"

definition KERNBASE :: u32 where
  "KERNBASE = 0x80000000"

text \<open>The bit fields of \<open>struct segdesc\<close>, each held in a word.\<close>

record segdesc =
  lim_15_0 :: u32
  base_15_0 :: u32
  base_23_16 :: u32
  sd_type :: u32
  sd_s :: u32
  sd_dpl :: u32
  sd_p :: u32
  lim_19_16 :: u32
  sd_avl :: u32
  sd_rsv1 :: u32
  sd_db :: u32
  sd_g :: u32
  base_31_24 :: u32

text \<open>\<open>struct cpu\<close> with the fields of its task state that the code sets, and the CPU's flags,
  page-table and task registers; \<open>cproc\<close> is \<open>cpu->proc\<close>, an index of the process table.\<close>

record cpu =
  ncli :: int
  intena :: u32
  eflags :: u32
  cproc :: "nat option"
  cr3 :: u32
  gdt :: "nat \<Rightarrow> segdesc"
  ts_ss0 :: u32
  ts_esp0 :: u32
  ts_iomb :: u32
  tr :: u32

record spinlock =
  lk_name :: string
  lk_locked :: u32
  lk_cpu :: "nat option"
  lk_pcs :: "u32 list"

text \<open>Names for the kernel's sleep locks and spin locks, in place of their addresses.\<close>

datatype slid = BufSl nat | InodeSl nat

datatype lockid = PtableLk | KmemLk | TicksLk | ConsLk | IdeLk | BcacheLk | LogLk
  | IcacheLk | FtableLk | PipeLk u32 | SleepLk slid

text \<open>
  \<open>cur_cpu\<close> is the CPU that executes the routine (\<open>cpunum()\<close>), \<open>lk_arg\<close> the stack address of
  the argument \<open>lk\<close> of \<open>acquire\<close>, from which \<open>getcallerpcs\<close> finds the frame pointers.
\<close>

record mach =
  cpus :: "nat \<Rightarrow> cpu"
  cur_cpu :: nat
  slocks :: "lockid \<Rightarrow> spinlock"
  mem :: memory
  lk_arg :: u32

abbreviation thiscpu :: "'a mach_scheme \<Rightarrow> cpu" where
  "thiscpu s \<equiv> cpus s (cur_cpu s)"

definition upd_cpu :: "(cpu \<Rightarrow> cpu) \<Rightarrow> 'a mach_scheme \<Rightarrow> 'a mach_scheme" where
  "upd_cpu f s = s\<lparr>cpus := (cpus s)(cur_cpu s := f (thiscpu s))\<rparr>"

definition upd_lock :: "lockid \<Rightarrow> (spinlock \<Rightarrow> spinlock) \<Rightarrow> 'a mach_scheme \<Rightarrow> 'a mach_scheme" where
  "upd_lock l f s = s\<lparr>slocks := (slocks s)(l := f (slocks s l))\<rparr>"

section \<open>x86.h\<close>

definition readeflags :: "'a mach_scheme \<Rightarrow> u32" where
  "readeflags s = eflags (thiscpu s)"

definition cli :: "('a mach_scheme, unit) kop" where
  "cli = modk (upd_cpu (\<lambda>c. c\<lparr>eflags := eflags c AND NOT FL_IF\<rparr>))"

definition sti :: "('a mach_scheme, unit) kop" where
  "sti = modk (upd_cpu (\<lambda>c. c\<lparr>eflags := eflags c OR FL_IF\<rparr>))"

text \<open>\<open>xchg(&lk->locked, v)\<close>: the old value and the lock with the new one, in one step.\<close>

definition xchg :: "spinlock \<Rightarrow> u32 \<Rightarrow> u32 \<times> spinlock" where
  "xchg lk v = (lk_locked lk, lk\<lparr>lk_locked := v\<rparr>)"

section \<open>spinlock.c\<close>

definition initlock :: "lockid \<Rightarrow> string \<Rightarrow> ('a mach_scheme, unit) kop" where
  "initlock l name = modk (upd_lock l (\<lambda>lk. lk\<lparr>lk_name := name, lk_locked := 0, lk_cpu := None\<rparr>))"

definition pushcli :: "('a mach_scheme, unit) kop" where
  "pushcli = bindk (getk readeflags) (\<lambda>e.
     seqk cli (seqk
       (modk (\<lambda>s. if ncli (thiscpu s) = 0 then upd_cpu (\<lambda>c. c\<lparr>intena := e AND FL_IF\<rparr>) s else s))
       (modk (upd_cpu (\<lambda>c. c\<lparr>ncli := ncli c + 1\<rparr>)))))"

definition popcli :: "('a mach_scheme, unit) kop" where
  "popcli = bindk (getk readeflags) (\<lambda>e.
     if e AND FL_IF \<noteq> 0 then panick ''popcli - interruptible''
     else seqk (modk (upd_cpu (\<lambda>c. c\<lparr>ncli := ncli c - 1\<rparr>)))
       (bindk (getk thiscpu) (\<lambda>c.
          if ncli c < 0 then panick ''popcli''
          else if ncli c = 0 \<and> intena c \<noteq> 0 then sti else retk ())))"

definition lk_holding :: "nat \<Rightarrow> spinlock \<Rightarrow> bool" where
  "lk_holding c lk \<longleftrightarrow> lk_locked lk \<noteq> 0 \<and> lk_cpu lk = Some c"

definition holding :: "lockid \<Rightarrow> 'a mach_scheme \<Rightarrow> bool" where
  "holding l s = lk_holding (cur_cpu s) (slocks s l)"

text \<open>
  \<open>getcallerpcs\<close>: follow the saved frame pointers from \<open>v\<close> (as \<open>(uint*)v - 2\<close>), recording at
  most ten return addresses, and fill the rest with zeros.
\<close>

fun pcs_from :: "memory \<Rightarrow> u32 \<Rightarrow> nat \<Rightarrow> u32 list" where
  "pcs_from m ebp 0 = []"
| "pcs_from m ebp (Suc i) =
     (if ebp = 0 \<or> ebp < KERNBASE \<or> ebp = 0xffffffff then replicate (Suc i) 0
      else load32 m (ebp + 4) # pcs_from m (load32 m ebp) i)"

definition getcallerpcs :: "memory \<Rightarrow> u32 \<Rightarrow> u32 list" where
  "getcallerpcs m v = pcs_from m (v - 8) 10"

text \<open>The lock's fields as the statements of \<open>acquire\<close> and \<open>release\<close> write them.\<close>

definition record_owner :: "nat \<Rightarrow> u32 list \<Rightarrow> spinlock \<Rightarrow> spinlock" where
  "record_owner c pcs lk = lk\<lparr>lk_cpu := Some c, lk_pcs := pcs\<rparr>"

definition clear_owner :: "spinlock \<Rightarrow> spinlock" where
  "clear_owner lk = lk\<lparr>lk_pcs := (lk_pcs lk)[0 := 0], lk_cpu := None\<rparr>"

definition store_unlocked :: "spinlock \<Rightarrow> spinlock" where
  "store_unlocked lk = lk\<lparr>lk_locked := 0\<rparr>"

definition acquire :: "lockid \<Rightarrow> ('a mach_scheme, unit) kop" where
  "acquire l = seqk pushcli (bindk (getk (holding l)) (\<lambda>h.
     if h then panick ''acquire''
     else bindk (getk (\<lambda>s. fst (xchg (slocks s l) 1))) (\<lambda>old.
       if old \<noteq> 0 then (\<lambda>s. Spin)
       else seqk (modk (upd_lock l (\<lambda>lk. snd (xchg lk 1))))
         (modk (\<lambda>s. upd_lock l (record_owner (cur_cpu s) (getcallerpcs (mem s) (lk_arg s))) s)))))"

definition release :: "lockid \<Rightarrow> ('a mach_scheme, unit) kop" where
  "release l = bindk (getk (holding l)) (\<lambda>h.
     if \<not> h then panick ''release''
     else seqk (modk (upd_lock l clear_owner))
       (seqk (modk (upd_lock l store_unlocked)) popcli))"

section \<open>Interleaving of the lock's memory accesses\<close>

text \<open>
  One spin lock and any number of CPUs, each at a point of \<open>acquire\<close> or \<open>release\<close>; every step reads or
  writes one word of the lock. \<open>AcqCheck\<close>, \<open>AcqCheckCpu\<close>: about to read \<open>lk->locked\<close> and \<open>lk->cpu\<close> for
  \<open>holding\<close>; \<open>AcqXchg\<close>: in the \<open>xchg\<close> loop; \<open>AcqRecord\<close>: about to write \<open>lk->cpu\<close>; \<open>AcqPcs i\<close>: about to
  write \<open>lk->pcs[i]\<close>; \<open>Critical\<close>: after \<open>acquire\<close>; \<open>RelCheck\<close>, \<open>RelCheckCpu\<close>: the two reads of \<open>holding\<close> in
  \<open>release\<close>; \<open>RelClear\<close>, \<open>RelClearCpu\<close>, \<open>RelStore\<close>: about to clear \<open>lk->pcs[0]\<close>, \<open>lk->cpu\<close> and
  \<open>lk->locked\<close>; \<open>Panicked\<close>: after \<open>panic\<close>. What \<open>getcallerpcs\<close> finds on the stack is any word.
\<close>

datatype lkpc = Outside | AcqCheck | AcqCheckCpu | AcqXchg | AcqRecord | AcqPcs nat | Critical
  | RelCheck | RelCheckCpu | RelClear | RelClearCpu | RelStore | Panicked

record lksys =
  lkpcs :: "nat \<Rightarrow> lkpc"
  lkst :: spinlock

definition lk_goto :: "nat \<Rightarrow> lkpc \<Rightarrow> lksys \<Rightarrow> lksys" where
  "lk_goto c p s = s\<lparr>lkpcs := (lkpcs s)(c := p)\<rparr>"

definition lk_write :: "(spinlock \<Rightarrow> spinlock) \<Rightarrow> lksys \<Rightarrow> lksys" where
  "lk_write f s = s\<lparr>lkst := f (lkst s)\<rparr>"

inductive lk_step :: "lksys \<Rightarrow> lksys \<Rightarrow> bool" where
  enter: "lkpcs s c = Outside \<Longrightarrow> lk_step s (lk_goto c AcqCheck s)"
| acq_check: "lkpcs s c = AcqCheck \<Longrightarrow>
    lk_step s (lk_goto c (if lk_locked (lkst s) \<noteq> 0 then AcqCheckCpu else AcqXchg) s)"
| acq_check_cpu: "lkpcs s c = AcqCheckCpu \<Longrightarrow>
    lk_step s (lk_goto c (if lk_cpu (lkst s) = Some c then Panicked else AcqXchg) s)"
| acq_xchg: "lkpcs s c = AcqXchg \<Longrightarrow> xchg (lkst s) 1 = (old, lk) \<Longrightarrow>
    lk_step s (lk_goto c (if old \<noteq> 0 then AcqXchg else AcqRecord) (lk_write (\<lambda>_. lk) s))"
| acq_record: "lkpcs s c = AcqRecord \<Longrightarrow>
    lk_step s (lk_goto c (AcqPcs 0) (lk_write (lk_cpu_update (\<lambda>_. Some c)) s))"
| acq_pcs: "lkpcs s c = AcqPcs i \<Longrightarrow>
    lk_step s (lk_goto c (if i + 1 < 10 then AcqPcs (i + 1) else Critical)
      (lk_write (lk_pcs_update (\<lambda>pcs. pcs[i := pc])) s))"
| leave: "lkpcs s c = Critical \<Longrightarrow> lk_step s (lk_goto c RelCheck s)"
| rel_check: "lkpcs s c = RelCheck \<Longrightarrow>
    lk_step s (lk_goto c (if lk_locked (lkst s) \<noteq> 0 then RelCheckCpu else Panicked) s)"
| rel_check_cpu: "lkpcs s c = RelCheckCpu \<Longrightarrow>
    lk_step s (lk_goto c (if lk_cpu (lkst s) = Some c then RelClear else Panicked) s)"
| rel_clear: "lkpcs s c = RelClear \<Longrightarrow>
    lk_step s (lk_goto c RelClearCpu (lk_write (lk_pcs_update (\<lambda>pcs. pcs[0 := 0])) s))"
| rel_clear_cpu: "lkpcs s c = RelClearCpu \<Longrightarrow>
    lk_step s (lk_goto c RelStore (lk_write (lk_cpu_update (\<lambda>_. None)) s))"
| rel_store: "lkpcs s c = RelStore \<Longrightarrow>
    lk_step s (lk_goto c Outside (lk_write store_unlocked s))"

definition lk_init :: "lksys \<Rightarrow> bool" where
  "lk_init s \<longleftrightarrow> (\<forall>c. lkpcs s c = Outside) \<and> lk_locked (lkst s) = 0 \<and> lk_cpu (lkst s) = None"

section \<open>Invariant of the interleaving\<close>

text \<open>The CPUs between a successful \<open>xchg\<close> and the store that frees the lock, and those whose
  number is in \<open>lk->cpu\<close>.\<close>

primrec owns :: "lkpc \<Rightarrow> bool" where
  "owns Outside = False"
| "owns AcqCheck = False"
| "owns AcqCheckCpu = False"
| "owns AcqXchg = False"
| "owns AcqRecord = True"
| "owns (AcqPcs i) = True"
| "owns Critical = True"
| "owns RelCheck = True"
| "owns RelCheckCpu = True"
| "owns RelClear = True"
| "owns RelClearCpu = True"
| "owns RelStore = True"
| "owns Panicked = False"

primrec recorded :: "lkpc \<Rightarrow> bool" where
  "recorded Outside = False"
| "recorded AcqCheck = False"
| "recorded AcqCheckCpu = False"
| "recorded AcqXchg = False"
| "recorded AcqRecord = False"
| "recorded (AcqPcs i) = True"
| "recorded Critical = True"
| "recorded RelCheck = True"
| "recorded RelCheckCpu = True"
| "recorded RelClear = True"
| "recorded RelClearCpu = True"
| "recorded RelStore = False"
| "recorded Panicked = False"

lemma recorded_owns: "recorded p \<Longrightarrow> owns p"
  by (cases p) simp_all

definition lk_inv :: "lksys \<Rightarrow> bool" where
  "lk_inv s \<longleftrightarrow>
     (\<forall>c d. owns (lkpcs s c) \<longrightarrow> owns (lkpcs s d) \<longrightarrow> c = d)
     \<and> (\<forall>c. owns (lkpcs s c) \<longrightarrow> lk_locked (lkst s) \<noteq> 0)
     \<and> (\<forall>c. lk_cpu (lkst s) = Some c \<longleftrightarrow> recorded (lkpcs s c))
     \<and> (\<forall>c. lkpcs s c \<noteq> Panicked)"

lemma lk_invI:
  assumes "\<And>c d. owns (lkpcs s c) \<Longrightarrow> owns (lkpcs s d) \<Longrightarrow> c = d"
    and "\<And>c. owns (lkpcs s c) \<Longrightarrow> lk_locked (lkst s) \<noteq> 0"
    and "\<And>c. lk_cpu (lkst s) = Some c \<longleftrightarrow> recorded (lkpcs s c)"
    and "\<And>c. lkpcs s c \<noteq> Panicked"
  shows "lk_inv s"
  using assms by (simp add: lk_inv_def)

lemma lk_invD:
  assumes "lk_inv s"
  shows "owns (lkpcs s c) \<Longrightarrow> owns (lkpcs s d) \<Longrightarrow> c = d"
    and "owns (lkpcs s c) \<Longrightarrow> lk_locked (lkst s) \<noteq> 0"
    and "lk_cpu (lkst s) = Some c \<longleftrightarrow> recorded (lkpcs s c)"
    and "lkpcs s c \<noteq> Panicked"
  using assms unfolding lk_inv_def by blast+

text \<open>What the invariant says once one CPU owns the lock.\<close>

lemma lk_owner:
  assumes "lk_inv s" and "owns (lkpcs s c)"
  shows "owns (lkpcs s d) \<longleftrightarrow> d = c"
    and "lk_locked (lkst s) \<noteq> 0"
    and "recorded (lkpcs s d) \<longleftrightarrow> d = c \<and> recorded (lkpcs s c)"
    and "lk_cpu (lkst s) = (if recorded (lkpcs s c) then Some c else None)"
proof -
  show own: "owns (lkpcs s d) \<longleftrightarrow> d = c" for d
    using lk_invD(1) [OF assms(1)] assms(2) by blast
  show "lk_locked (lkst s) \<noteq> 0"
    using lk_invD(2) [OF assms(1)] assms(2) by blast
  show rec: "recorded (lkpcs s d) \<longleftrightarrow> d = c \<and> recorded (lkpcs s c)" for d
    using own [of d] recorded_owns [of "lkpcs s d"] by auto
  show "lk_cpu (lkst s) = (if recorded (lkpcs s c) then Some c else None)"
    using lk_invD(3) [OF assms(1)] rec by (metis option.exhaust)
qed

lemmas lk_field_defs = lk_holding_def xchg_def record_owner_def clear_owner_def store_unlocked_def

lemma lk_init_inv: "lk_init s \<Longrightarrow> lk_inv s"
  by (simp add: lk_init_def lk_inv_def)

text \<open>A step of the owner of the lock, and one that takes it, keep the invariant.\<close>

lemma owner_inv:
  assumes "lk_inv s" and "owns (lkpcs s c)" and "p \<noteq> Panicked"
    and "owns p \<Longrightarrow> lk_locked lk \<noteq> 0"
    and "lk_cpu lk = (if recorded p then Some c else None)"
  shows "lk_inv (lk_goto c p (s\<lparr>lkst := lk\<rparr>))"
proof -
  have others: "\<not> owns (lkpcs s d)" "\<not> recorded (lkpcs s d)" "lkpcs s d \<noteq> Panicked" if "d \<noteq> c" for d
    using lk_owner(1,3) [OF assms(1,2), of d] lk_invD(4) [OF assms(1), of d] that by simp_all
  show ?thesis
  proof (rule lk_invI)
    show "d = e" if "owns (lkpcs (lk_goto c p (s\<lparr>lkst := lk\<rparr>)) d)" "owns (lkpcs (lk_goto c p (s\<lparr>lkst := lk\<rparr>)) e)" for d e
      using that others(1) by (simp add: lk_goto_def split: if_splits)
    show "lk_locked (lkst (lk_goto c p (s\<lparr>lkst := lk\<rparr>))) \<noteq> 0" if "owns (lkpcs (lk_goto c p (s\<lparr>lkst := lk\<rparr>)) d)" for d
      using that others(1) assms(4) by (simp add: lk_goto_def split: if_splits)
    show "lk_cpu (lkst (lk_goto c p (s\<lparr>lkst := lk\<rparr>))) = Some d \<longleftrightarrow> recorded (lkpcs (lk_goto c p (s\<lparr>lkst := lk\<rparr>)) d)" for d
      using others(2) assms(5) by (simp add: lk_goto_def)
    show "lkpcs (lk_goto c p (s\<lparr>lkst := lk\<rparr>)) d \<noteq> Panicked" for d
      using others(3) assms(3) by (simp add: lk_goto_def)
  qed
qed

lemma other_inv:
  assumes "lk_inv s" and "\<not> owns (lkpcs s c)" and "p \<noteq> Panicked" and "\<not> owns p"
  shows "lk_inv (lk_goto c p s)"
  using assms lk_invD [OF assms(1)] recorded_owns [of p] recorded_owns [of "lkpcs s c"]
  by (intro lk_invI) (auto simp: lk_goto_def split: if_splits)

lemma xchg_inv:
  assumes "lk_inv s" and "lkpcs s c = AcqXchg" and "lk_locked (lkst s) = 0"
  shows "lk_inv (lk_goto c AcqRecord (lk_write (\<lambda>_. (lkst s)\<lparr>lk_locked := 1\<rparr>) s))"
proof -
  have "\<not> owns (lkpcs s d)" for d
    using lk_invD(2) [OF assms(1)] assms(3) by blast
  then show ?thesis
    using assms lk_invD [OF assms(1)]
    by (intro lk_invI) (auto simp: lk_goto_def lk_write_def dest: recorded_owns split: if_splits)
qed

lemma busy_inv:
  assumes "lk_inv s" and "lkpcs s c = AcqXchg" and "lk_locked (lkst s) \<noteq> 0"
  shows "lk_inv (lk_goto c AcqXchg (lk_write (\<lambda>_. (lkst s)\<lparr>lk_locked := 1\<rparr>) s))"
  using assms lk_invD [OF assms(1)]
  by (intro lk_invI) (auto simp: lk_goto_def lk_write_def split: if_splits)

lemma owner_stays:
  assumes "lk_inv s" and "owns (lkpcs s c)" and "owns p" and "recorded p = recorded (lkpcs s c)"
  shows "lk_inv (lk_goto c p s)"
  using owner_inv [OF assms(1,2), of p "lkst s"] assms(3,4) lk_owner(2,4) [OF assms(1,2)]
  by (cases p) simp_all

lemma lk_step_inv:
  assumes "lk_inv s" and "lk_step s t"
  shows "lk_inv t"
  using assms(2)
proof (cases rule: lk_step.cases)
  case (enter c)
  then show ?thesis by (simp add: other_inv [OF assms(1)])
next
  case (acq_check c)
  then show ?thesis by (simp add: other_inv [OF assms(1)])
next
  case (acq_check_cpu c)
  then have "lk_cpu (lkst s) \<noteq> Some c"
    using lk_invD(3) [OF assms(1), of c] by simp
  with acq_check_cpu show ?thesis
    by (simp add: other_inv [OF assms(1)])
next
  case (acq_xchg c old lk)
  then show ?thesis
    using xchg_inv [OF assms(1), of c] busy_inv [OF assms(1), of c] by (auto simp: xchg_def)
next
  case (acq_record c)
  then show ?thesis
    using lk_owner(2) [OF assms(1), of c] by (simp add: lk_write_def owner_inv [OF assms(1)])
next
  case (acq_pcs c i pc)
  then show ?thesis
    using lk_owner(2,4) [OF assms(1), of c] by (simp add: lk_write_def owner_inv [OF assms(1)])
next
  case (leave c)
  then show ?thesis by (simp add: owner_stays [OF assms(1)])
next
  case (rel_check c)
  then show ?thesis
    using lk_owner(2) [OF assms(1), of c] by (simp add: owner_stays [OF assms(1)])
next
  case (rel_check_cpu c)
  then show ?thesis
    using lk_owner(4) [OF assms(1), of c] by (simp add: owner_stays [OF assms(1)])
next
  case (rel_clear c)
  then show ?thesis
    using lk_owner(2,4) [OF assms(1), of c] by (simp add: lk_write_def owner_inv [OF assms(1)])
next
  case (rel_clear_cpu c)
  then show ?thesis
    using lk_owner(2) [OF assms(1), of c] by (simp add: lk_write_def owner_inv [OF assms(1)])
next
  case (rel_store c)
  then show ?thesis
    using lk_owner(4) [OF assms(1), of c] owner_inv [OF assms(1), of c Outside "store_unlocked (lkst s)"]
    by (simp add: lk_write_def store_unlocked_def)
qed

interpretation lk_sys: inductive_invariant lk_init lk_step lk_inv
  by unfold_locales (auto intro: lk_init_inv lk_step_inv)


section \<open>Effects of acquire and release\<close>

text \<open>
  The state a successful \<open>acquire\<close> or \<open>release\<close> leaves, as one record update: whatever a
  later component adds to the state is untouched by it, and the simplifier sees this.
\<close>

definition acquired_cpu :: "cpu \<Rightarrow> cpu" where
  "acquired_cpu c = c\<lparr>eflags := eflags c AND NOT FL_IF,
     intena := (if ncli c = 0 then eflags c AND FL_IF else intena c), ncli := ncli c + 1\<rparr>"

definition released_cpu :: "cpu \<Rightarrow> cpu" where
  "released_cpu c = c\<lparr>ncli := ncli c - 1,
     eflags := (if ncli c = 1 \<and> intena c \<noteq> 0 then eflags c OR FL_IF else eflags c)\<rparr>"

definition acquired :: "lockid \<Rightarrow> 'a mach_scheme \<Rightarrow> 'a mach_scheme" where
  "acquired l s = s\<lparr>cpus := (cpus s)(cur_cpu s := acquired_cpu (thiscpu s)),
     slocks := (slocks s)(l := (slocks s l)\<lparr>lk_locked := 1, lk_cpu := Some (cur_cpu s),
       lk_pcs := getcallerpcs (mem s) (lk_arg s)\<rparr>)\<rparr>"

definition released :: "lockid \<Rightarrow> 'a mach_scheme \<Rightarrow> 'a mach_scheme" where
  "released l s = s\<lparr>cpus := (cpus s)(cur_cpu s := released_cpu (thiscpu s)),
     slocks := (slocks s)(l := store_unlocked (clear_owner (slocks s l)))\<rparr>"

text \<open>Interrupts are off while a lock is held, and the nesting depth is not negative.\<close>

definition cpu_wf :: "cpu \<Rightarrow> bool" where
  "cpu_wf c \<longleftrightarrow> 0 \<le> ncli c \<and> (0 < ncli c \<longrightarrow> eflags c AND FL_IF = 0)"

definition cpu_locked :: "cpu \<Rightarrow> bool" where
  "cpu_locked c \<longleftrightarrow> 0 < ncli c \<and> eflags c AND FL_IF = 0"

definition lk_free :: "lockid \<Rightarrow> 'a mach_scheme \<Rightarrow> bool" where
  "lk_free l s \<longleftrightarrow> lk_locked (slocks s l) = 0"

lemma flag_off: "(e AND NOT m) AND m = (0 :: u32)"
  by (simp add: and.assoc and.left_commute)

lemma flag_on_off: "e AND m = m \<Longrightarrow> (e AND NOT m) OR m = (e :: u32)"
  by (auto simp: bit_eq_iff bit_simps)

lemma flag_clear: "e AND m = 0 \<Longrightarrow> e AND NOT m = (e :: u32)"
  by (auto simp: bit_eq_iff bit_simps)

lemma FL_IF_cases: "e AND FL_IF = 0 \<or> e AND FL_IF = FL_IF"
proof -
  have FL: "FL_IF = 2 ^ 9"
    by (simp add: FL_IF_def)
  show ?thesis
  proof (cases "bit e 9")
    case True
    then have "e AND 2 ^ 9 = 2 ^ 9"
      by (intro bit_word_eqI) (auto simp only: bit_and_iff bit_exp_iff)
    then show ?thesis by (simp only: FL simp_thms)
  next
    case False
    then show ?thesis by (simp only: FL and_exp_eq_0_iff_not_bit simp_thms)
  qed
qed

lemma FL_IF_neq_0 [simp]: "FL_IF \<noteq> 0"
  by (simp add: FL_IF_def)

lemma pushcli_eq: "pushcli s = Done () (upd_cpu acquired_cpu s)"
  by (simp add: pushcli_def cli_def acquired_cpu_def upd_cpu_def readeflags_def)

lemma acquire_eq:
  "acquire l s = (if holding l s then Panic ''acquire''
     else if lk_locked (slocks s l) \<noteq> 0 then Spin else Done () (acquired l s))"
  by (simp add: acquire_def seqk_Done [OF pushcli_eq] acquired_def holding_def upd_cpu_def
      upd_lock_def lk_field_defs)

lemma popcli_eq:
  "popcli s = (if eflags (thiscpu s) AND FL_IF \<noteq> 0 then Panic ''popcli - interruptible''
     else if ncli (thiscpu s) \<le> 0 then Panic ''popcli''
     else Done () (upd_cpu released_cpu s))"
  by (auto simp: popcli_def sti_def released_cpu_def upd_cpu_def readeflags_def retk_def)

lemma release_eq:
  "release l s = (if \<not> holding l s then Panic ''release''
     else if eflags (thiscpu s) AND FL_IF \<noteq> 0 then Panic ''popcli - interruptible''
     else if ncli (thiscpu s) \<le> 0 then Panic ''popcli''
     else Done () (released l s))"
  by (simp add: release_def popcli_eq released_def holding_def upd_cpu_def upd_lock_def)


lemma released_acquired_cpu:
  assumes "cpu_wf c"
  shows "released_cpu (acquired_cpu c)
    = c\<lparr>intena := (if ncli c = 0 then eflags c AND FL_IF else intena c)\<rparr>"
proof (cases "ncli c = 0")
  case True
  then show ?thesis
    using FL_IF_cases [of "eflags c"]
    by (auto simp: released_cpu_def acquired_cpu_def flag_on_off flag_clear)
next
  case False
  then have "eflags c AND NOT FL_IF = eflags c"
    using assms by (simp add: cpu_wf_def flag_clear)
  with False assms show ?thesis
    by (simp add: released_cpu_def acquired_cpu_def cpu_wf_def)
qed

lemma cpu_locked_acquired [simp]: "cpu_wf c \<Longrightarrow> cpu_locked (acquired_cpu c)"
  by (simp add: cpu_locked_def acquired_cpu_def cpu_wf_def flag_off)

lemma cpu_wf_locked: "cpu_locked c \<Longrightarrow> cpu_wf c"
  by (simp add: cpu_locked_def cpu_wf_def)

lemma cpu_wf_released: "cpu_locked c \<Longrightarrow> cpu_wf (released_cpu c)"
  by (auto simp: cpu_locked_def released_cpu_def cpu_wf_def)

text \<open>The two operations in the calculus, and when they return.\<close>

lemma wlpk_acquire [simp]:
  "wlpk (acquire l) Q R s
    \<longleftrightarrow> (lk_locked (slocks s l) = 0 \<longrightarrow> Q () (acquired l s))"
  by (simp add: wlpk_def acquire_eq holding_def lk_holding_def)

lemma wlpk_release [simp]:
  "wlpk (release l) Q R s
    \<longleftrightarrow> (holding l s \<and> cpu_locked (thiscpu s) \<longrightarrow> Q () (released l s))"
  by (auto simp: wlpk_def release_eq cpu_locked_def)

lemma acquire_Done: "lk_free l s \<Longrightarrow> acquire l s = Done () (acquired l s)"
  by (simp add: acquire_eq lk_free_def holding_def lk_holding_def)

lemma release_Done: "holding l s \<Longrightarrow> cpu_locked (thiscpu s) \<Longrightarrow> release l s = Done () (released l s)"
  by (simp add: release_eq cpu_locked_def)

lemma seqk_acquire: "lk_free l s \<Longrightarrow> seqk (acquire l) n s = n (acquired l s)"
  by (rule seqk_Done) (rule acquire_Done)

lemma seqk_release: "holding l s \<Longrightarrow> cpu_locked (thiscpu s) \<Longrightarrow> seqk (release l) n s = n (released l s)"
  by (rule seqk_Done) (rule release_Done)

lemma holding_acquired [simp]: "holding l (acquired l s)"
  by (simp add: acquired_def holding_def lk_holding_def)

lemma cur_cpu_locked [simp]:
  "cur_cpu (acquired l s) = cur_cpu s" "cur_cpu (released l s) = cur_cpu s"
  "mem (acquired l s) = mem s" "mem (released l s) = mem s"
  "lk_arg (acquired l s) = lk_arg s" "lk_arg (released l s) = lk_arg s"
  by (simp_all add: acquired_def released_def)

lemma cpus_locked [simp]:
  "cpus (acquired l s) = (cpus s)(cur_cpu s := acquired_cpu (thiscpu s))"
  "cpus (released l s) = (cpus s)(cur_cpu s := released_cpu (thiscpu s))"
  by (simp_all add: acquired_def released_def)

lemma slocks_locked [simp]:
  "slocks (acquired l s) k = (if k = l then (slocks s l)\<lparr>lk_locked := 1,
     lk_cpu := Some (cur_cpu s), lk_pcs := getcallerpcs (mem s) (lk_arg s)\<rparr> else slocks s k)"
  "slocks (released l s) k = (if k = l then store_unlocked (clear_owner (slocks s l)) else slocks s k)"
  by (simp_all add: acquired_def released_def)

lemma lk_free_released [simp]: "lk_free k (released l s) \<longleftrightarrow> k = l \<or> lk_free k s"
  by (simp add: lk_free_def store_unlocked_def)

lemma lk_free_acquired [simp]: "lk_free k (acquired l s) \<longleftrightarrow> k \<noteq> l \<and> lk_free k s"
  by (simp add: lk_free_def)

text \<open>A critical section whose body returns and leaves the CPU and the lock alone.\<close>

lemma critical_section:
  assumes "lk_free l s" and "cpu_wf (thiscpu s)" and "m (acquired l s) = Done a t"
    and "cur_cpu t = cur_cpu s" and "thiscpu t = acquired_cpu (thiscpu s)"
    and "slocks t l = slocks (acquired l s) l"
  shows "seqk (acquire l) (bindk m (\<lambda>a. seqk (release l) (n a))) s = n a (released l t)"
proof -
  have "holding l t" and "cpu_locked (thiscpu t)"
    using assms by (simp_all add: holding_def lk_holding_def)
  then show ?thesis
    using assms(1,3) by (simp add: seqk_Done [OF acquire_Done] bindk_Done seqk_Done [OF release_Done])
qed

text \<open>
  \<open>quiet s t\<close>: between \<open>s\<close> and \<open>t\<close> the CPU took and released locks but ended as it began, up
  to the value of \<open>intena\<close> it saved while no lock was held.
\<close>

definition quiet_cpu :: "cpu \<Rightarrow> cpu \<Rightarrow> bool" where
  "quiet_cpu c d \<longleftrightarrow> ncli d = ncli c \<and> eflags d = eflags c \<and> cproc d = cproc c \<and> cr3 d = cr3 c
     \<and> (ncli c \<noteq> 0 \<longrightarrow> intena d = intena c)"

definition quiet :: "'a mach_scheme \<Rightarrow> 'a mach_scheme \<Rightarrow> bool" where
  "quiet s t \<longleftrightarrow> cur_cpu t = cur_cpu s \<and> (\<forall>c. quiet_cpu (cpus s c) (cpus t c))
     \<and> (\<forall>l. lk_locked (slocks t l) = lk_locked (slocks s l)
          \<and> (lk_locked (slocks s l) \<noteq> 0 \<longrightarrow> lk_cpu (slocks t l) = lk_cpu (slocks s l)))"

lemma quiet_refl [simp]: "quiet s s"
  by (simp add: quiet_def quiet_cpu_def)

lemma quiet_trans: "quiet s t \<Longrightarrow> quiet t u \<Longrightarrow> quiet s u"
  by (simp add: quiet_def quiet_cpu_def)

lemma quietD:
  assumes "quiet s t"
  shows "cur_cpu t = cur_cpu s" "cpu_wf (cpus t c) = cpu_wf (cpus s c)"
    "cpu_locked (cpus t c) = cpu_locked (cpus s c)" "lk_free l t = lk_free l s"
    "holding l t = holding l s" "eflags (cpus t c) = eflags (cpus s c)"
    "ncli (cpus t c) = ncli (cpus s c)" "cproc (cpus t c) = cproc (cpus s c)"
    "cr3 (cpus t c) = cr3 (cpus s c)"
  using assms
  by (auto simp: quiet_def quiet_cpu_def cpu_wf_def cpu_locked_def lk_free_def holding_def lk_holding_def)

lemma quiet_section:
  assumes "lk_free l s" and "cpu_wf (thiscpu s)"
    and "cur_cpu t = cur_cpu s" and "cpus t = cpus (acquired l s)" and "slocks t = slocks (acquired l s)"
  shows "quiet s (released l t)"
  unfolding quiet_def
proof (intro conjI allI)
  show "cur_cpu (released l t) = cur_cpu s"
    using assms by simp
  show "quiet_cpu (cpus s c) (cpus (released l t) c)" for c
    using assms by (simp add: released_acquired_cpu quiet_cpu_def)
  fix k
  show "lk_locked (slocks (released l t) k) = lk_locked (slocks s k)"
    using assms(1,5) by (simp add: lk_free_def store_unlocked_def)
  show "lk_locked (slocks s k) \<noteq> 0 \<longrightarrow> lk_cpu (slocks (released l t) k) = lk_cpu (slocks s k)"
    using assms(1,5) by (simp add: lk_free_def)
qed

section \<open>Properties\<close>

text \<open>C4: mutual exclusion. In every state that any number of CPUs can reach by interleaving
  the memory accesses of \<open>acquire\<close> and \<open>release\<close> on one lock, at most one CPU is between the
  end of its \<open>acquire\<close> and the start of its \<open>release\<close>, and no CPU has hit the panics of
  \<open>acquire\<close> and \<open>release\<close>.\<close>

theorem spinlock_mutual_exclusion:
  assumes "reach lk_init lk_step s"
  shows "(lkpcs s c = Critical \<and> lkpcs s d = Critical \<longrightarrow> c = d) \<and> lkpcs s c \<noteq> Panicked"
  using lk_invD(1) [OF lk_sys.reach_inv [OF assms], of c d] lk_invD(4) [OF lk_sys.reach_inv [OF assms]]
  by auto

text \<open>A critical section restores the CPU. Taking a free lock, running a body that does not
  touch the CPU or the lock, and releasing it returns with the lock free again and with the
  interrupt flag and the nesting depth of \<open>pushcli\<close> as they were before.\<close>

theorem acquire_release_restores:
  assumes "lk_free l s" and "cpu_wf (thiscpu s)"
    and "\<And>t. cpus (f t) = cpus t \<and> cur_cpu (f t) = cur_cpu t \<and> slocks (f t) = slocks t"
  shows "\<exists>t. seqk (acquire l) (seqk (modk f) (release l)) s = Done () t \<and> lk_free l t
    \<and> eflags (thiscpu t) = eflags (thiscpu s) \<and> ncli (thiscpu t) = ncli (thiscpu s)"
proof -
  let ?t = "f (acquired l s)"
  have t: "cpus ?t = cpus (acquired l s)" "cur_cpu ?t = cur_cpu s" "slocks ?t = slocks (acquired l s)"
    using assms(3) by simp_all
  have "cpu_locked (thiscpu ?t)" and "holding l ?t"
    using assms(2) t by (simp_all add: holding_def lk_holding_def)
  then have "seqk (acquire l) (seqk (modk f) (release l)) s = Done () (released l ?t)"
    using assms(1) by (simp add: seqk_Done [OF acquire_Done] release_Done)
  then show ?thesis
    using t assms(2) by (simp add: released_acquired_cpu)
qed

text \<open>A machine with one running CPU and every lock free, on which the witnesses run.\<close>

definition null_seg :: segdesc where
  "null_seg = \<lparr>lim_15_0 = 0, base_15_0 = 0, base_23_16 = 0, sd_type = 0, sd_s = 0, sd_dpl = 0, sd_p = 0,
     lim_19_16 = 0, sd_avl = 0, sd_rsv1 = 0, sd_db = 0, sd_g = 0, base_31_24 = 0\<rparr>"

definition idle_cpu :: cpu where
  "idle_cpu = \<lparr>ncli = 0, intena = 0, eflags = FL_IF, cproc = None, cr3 = 0, gdt = \<lambda>_. null_seg,
     ts_ss0 = 0, ts_esp0 = 0, ts_iomb = 0, tr = 0\<rparr>"

definition free_lock :: spinlock where
  "free_lock = \<lparr>lk_name = ''lock'', lk_locked = 0, lk_cpu = None, lk_pcs = replicate 10 0\<rparr>"

definition idle_mach :: mach where
  "idle_mach = \<lparr>cpus = \<lambda>_. idle_cpu, cur_cpu = 0, slocks = \<lambda>_. free_lock, mem = \<lambda>_. 0, lk_arg = 0\<rparr>"

theorem acquire_release_restores_witness:
  "\<exists>t. seqk (acquire TicksLk) (seqk (modk (mem_update (\<lambda>m. m(4 := 7)))) (release TicksLk)) idle_mach
      = Done () t \<and> lk_free TicksLk t
    \<and> eflags (thiscpu t) = eflags (thiscpu idle_mach) \<and> ncli (thiscpu t) = ncli (thiscpu idle_mach)"
  by (rule acquire_release_restores)
    (simp_all add: idle_mach_def idle_cpu_def free_lock_def lk_free_def cpu_wf_def)

text \<open>CPU 0 in its critical section while CPU 1 spins in \<open>acquire\<close>.\<close>

definition contended :: lksys where
  "contended = \<lparr>lkpcs = (\<lambda>_. Outside)(0 := Critical, 1 := AcqXchg),
     lkst = free_lock\<lparr>lk_locked := 1, lk_cpu := Some 0\<rparr>\<rparr>"

lemma same_pcs: "lk_write (lk_pcs_update (\<lambda>pcs. pcs[i := lk_pcs (lkst s) ! i])) s = s"
  by (cases s; cases "lkst s") (simp add: lk_write_def)

lemma pcs_reach:
  assumes "reach lk_init lk_step s" and "lkpcs s c = AcqPcs (9 - k)" and "k < 10"
  shows "reach lk_init lk_step (lk_goto c Critical s)"
  using assms
proof (induction k arbitrary: s)
  case (Suc k)
  have k: "9 - Suc k + 1 < 10" "9 - Suc k + 1 = 9 - k"
    using Suc.prems(3) by simp_all
  have "reach lk_init lk_step (lk_goto c (AcqPcs (9 - k)) s)"
    using reach_step [OF Suc.prems(1) lk_step.acq_pcs [OF Suc.prems(2), of "lk_pcs (lkst s) ! (9 - Suc k)"]]
    unfolding k(2) if_P [OF k(1) [unfolded k(2)]] by (simp only: same_pcs)
  from Suc.IH [OF this] Suc.prems(3) show ?case
    by (simp add: lk_goto_def)
next
  case 0
  then show ?case
    using reach_step [OF 0(1) lk_step.acq_pcs [OF 0(2), of "lk_pcs (lkst s) ! (9 - 0)"]]
    unfolding same_pcs by simp
qed

lemma contended_reach: "reach lk_init lk_step contended"
proof -
  let ?s = "\<lambda>p q l. \<lparr>lkpcs = (\<lambda>_. Outside)(0 := p, 1 := q), lkst = l\<rparr>"
  let ?lk = "free_lock\<lparr>lk_locked := 1\<rparr>"
  let ?own = "?lk\<lparr>lk_cpu := Some 0\<rparr>"
  have "reach lk_init lk_step (?s Outside Outside free_lock)"
    by (rule reach_init) (simp add: lk_init_def free_lock_def)
  from reach_step [OF this lk_step.enter [of _ 0]]
  have "reach lk_init lk_step (?s AcqCheck Outside free_lock)"
    by (simp add: lk_goto_def fun_upd_twist)
  from reach_step [OF this lk_step.acq_check [of _ 0]]
  have "reach lk_init lk_step (?s AcqXchg Outside free_lock)"
    by (simp add: lk_goto_def fun_upd_twist free_lock_def)
  from reach_step [OF this lk_step.acq_xchg [of _ 0 0 ?lk]]
  have "reach lk_init lk_step (?s AcqRecord Outside ?lk)"
    by (simp add: lk_goto_def lk_write_def fun_upd_twist xchg_def free_lock_def)
  from reach_step [OF this lk_step.acq_record [of _ 0]]
  have "reach lk_init lk_step (?s (AcqPcs 0) Outside ?own)"
    by (simp add: lk_goto_def lk_write_def fun_upd_twist)
  from pcs_reach [OF this, of 0 9]
  have "reach lk_init lk_step (?s Critical Outside ?own)"
    by (simp add: lk_goto_def fun_upd_twist)
  from reach_step [OF this lk_step.enter [of _ 1]]
  have "reach lk_init lk_step (?s Critical AcqCheck ?own)"
    by (simp add: lk_goto_def)
  from reach_step [OF this lk_step.acq_check [of _ 1]]
  have "reach lk_init lk_step (?s Critical AcqCheckCpu ?own)"
    by (simp add: lk_goto_def)
  from reach_step [OF this lk_step.acq_check_cpu [of _ 1]] show ?thesis
    by (simp add: lk_goto_def contended_def)
qed

theorem spinlock_mutual_exclusion_witness:
  "lkpcs contended 0 = Critical \<and> lkpcs contended 1 \<noteq> Critical \<and> lkpcs contended 0 \<noteq> Panicked"
proof -
  have "lkpcs contended 0 = Critical"
    by (simp add: contended_def)
  with spinlock_mutual_exclusion [OF contended_reach, of 0 1] show ?thesis
    by simp
qed

end
