(* ===== verification/Console.thy ===== *)
theory Console
  imports Spinlock
begin

text \<open>
  Console output of \<open>src/console.c\<close> and \<open>src/uart.c\<close>: number formatting, \<open>cprintf\<close>, the
  CGA screen with its cursor registers, the serial port and \<open>panic\<close>. The bytes sent to the
  serial port and the cells of the CGA memory are fields of the state. (The input side of
  the console needs processes and is modelled later.)
\<close>

section \<open>State\<close>

text \<open>
  \<open>locking\<close> is \<open>cons.locking\<close>, \<open>has_uart\<close> the flag \<open>uart\<close>, \<open>crt_cursor\<close> the cursor location
  held in the CRT controller's registers 14 and 15, \<open>uart_out\<close> what has been written to \<open>COM1\<close>.
\<close>

record conout = mach +
  panicked :: i32
  locking :: i32
  has_uart :: i32
  uart_out :: "u8 list"
  crt :: "nat \<Rightarrow> u16"
  crt_cursor :: u16

definition BACKSPACE :: u32 where
  "BACKSPACE = 0x100"

abbreviation chr32 :: "char \<Rightarrow> u32" where
  "chr32 c \<equiv> of_char c"

section \<open>Output devices\<close>

definition uartputc :: "u32 \<Rightarrow> ('a conout_scheme, unit) kop" where
  "uartputc c = modk (\<lambda>s. if has_uart s = 0 then s else s\<lparr>uart_out := uart_out s @ [ucast c]\<rparr>)"

text \<open>The cells after the scroll: \<open>memmove(crt, crt+80, sizeof(crt[0])*23*80)\<close> and the
  \<open>memset\<close> from the new cursor position to the end of row 23.\<close>

definition cga_scroll :: "int \<Rightarrow> (nat \<Rightarrow> u16) \<Rightarrow> nat \<Rightarrow> u16" where
  "cga_scroll pos m = (\<lambda>i. if nat pos \<le> i \<and> i < 24 * 80 then 0
     else if i < 23 * 80 then m (i + 80) else m i)"

definition cgaputc :: "u32 \<Rightarrow> ('a conout_scheme, unit) kop" where
  "cgaputc c s = (let
     pos = uint (crt_cursor s);
     (pos, m) = (if c = 10 then (pos + (80 - pos mod 80), crt s)
       else if c = BACKSPACE then (if pos > 0 then pos - 1 else pos, crt s)
       else (pos + 1, (crt s)(nat pos := ucast (c AND 0xff) OR 0x0700)))
     in if pos < 0 \<or> pos > 25 * 80 then Panic ''pos under/overflow''
     else let (pos, m) = (if pos div 80 \<ge> 24 then (pos - 80, cga_scroll (pos - 80) m) else (pos, m))
       in Done () (s\<lparr>crt := m(nat pos := 0x20 OR 0x0700), crt_cursor := word_of_int pos\<rparr>))"

definition consputc :: "u32 \<Rightarrow> ('a conout_scheme, unit) kop" where
  "consputc c s = (if panicked s \<noteq> 0 then seqk cli (\<lambda>_. Spin) s
     else seqk (if c = BACKSPACE
         then seqk (uartputc 8) (seqk (uartputc 0x20) (uartputc 8))
         else uartputc c) (cgaputc c) s)"

section \<open>Formatted output\<close>

definition hexdigits :: "char list" where
  "hexdigits = ''0123456789abcdef''"

text \<open>The digits in the order the \<open>do\<close> loop stores them in \<open>buf\<close>, least significant first.\<close>

function rev_digits :: "u32 \<Rightarrow> u32 \<Rightarrow> char list" where
  "rev_digits base x = hexdigits ! unat (x mod base) #
     (if base \<le> 1 \<or> x div base = 0 then [] else rev_digits base (x div base))"
  by auto

termination
proof (relation "measure (\<lambda>(b, x). unat x)")
  fix base x :: u32
  assume A: "\<not> (base \<le> 1 \<or> x div base = 0)"
  then have "1 < unat base" and "0 < unat x"
    by (auto simp: word_le_nat_alt unat_gt_0)
  then show "((base, x div base), base, x) \<in> measure (\<lambda>(b, x). unat x)"
    by (simp add: unat_div_distrib)
qed simp

declare rev_digits.simps [simp del]

definition printint_buf :: "i32 \<Rightarrow> u32 \<Rightarrow> bool \<Rightarrow> char list" where
  "printint_buf xx base sign = (let neg = sign \<and> sint xx < 0; x = (if neg then - xx else xx)
     in rev_digits base x @ (if neg then ''-'' else []))"

definition printint :: "i32 \<Rightarrow> u32 \<Rightarrow> bool \<Rightarrow> ('a conout_scheme, unit) kop" where
  "printint xx base sign = forallk (\<lambda>c. consputc (chr32 c)) (rev (printint_buf xx base sign))"

text \<open>The variable arguments of \<open>cprintf\<close>: words, or pointers to strings (\<open>None\<close> for a null
  pointer). The callers pass as many as the format consumes.\<close>

datatype carg = CInt u32 | CStr "string option"

fun arg_int :: "carg list \<Rightarrow> u32" where
  "arg_int (CInt n # _) = n"
| "arg_int _ = 0"

fun arg_str :: "carg list \<Rightarrow> string option" where
  "arg_str (CStr s # _) = s"
| "arg_str _ = None"

definition putstr :: "string \<Rightarrow> ('a conout_scheme, unit) kop" where
  "putstr s = forallk (\<lambda>c. consputc (scast (of_char c :: u8))) s"

fun cprintf_loop :: "string \<Rightarrow> carg list \<Rightarrow> ('a conout_scheme, unit) kop" where
  "cprintf_loop [] args = retk ()"
| "cprintf_loop (c # cs) args =
     (if c \<noteq> CHR ''%'' then seqk (consputc (chr32 c)) (cprintf_loop cs args)
      else case cs of
        [] \<Rightarrow> retk ()
      | d # ds \<Rightarrow>
          if d = CHR ''d'' then seqk (printint (arg_int args) 10 True) (cprintf_loop ds (tl args))
          else if d = CHR ''x'' \<or> d = CHR ''p''
          then seqk (printint (arg_int args) 16 False) (cprintf_loop ds (tl args))
          else if d = CHR ''s''
          then seqk (putstr (case arg_str args of None \<Rightarrow> ''(null)'' | Some s \<Rightarrow> s))
                 (cprintf_loop ds (tl args))
          else if d = CHR ''%'' then seqk (consputc (chr32 CHR ''%'')) (cprintf_loop ds args)
          else seqk (consputc (chr32 CHR ''%'')) (seqk (consputc (chr32 d)) (cprintf_loop ds args)))"

definition cprintf :: "string option \<Rightarrow> carg list \<Rightarrow> ('a conout_scheme, unit) kop" where
  "cprintf fmt args = bindk (getk locking) (\<lambda>locking.
     seqk (unlessk (locking = 0) (acquire ConsLk))
     (case fmt of
       None \<Rightarrow> panick ''null fmt''
     | Some fmt \<Rightarrow> seqk (cprintf_loop fmt args) (unlessk (locking = 0) (release ConsLk))))"

text \<open>\<open>panic\<close> up to the endless loop at its end; \<open>v\<close> is the address of its argument.\<close>

definition panic :: "u32 \<Rightarrow> u32 \<Rightarrow> string \<Rightarrow> ('a conout_scheme, unit) kop" where
  "panic apicid v m = seqk cli (seqk (modk (\<lambda>s. s\<lparr>locking := 0\<rparr>))
     (seqk (cprintf (Some ''cpu with apicid %d: panic: '') [CInt apicid])
     (seqk (cprintf (Some m) [])
     (seqk (cprintf (Some [CHR 0x0A]) [])
     (bindk (getk (\<lambda>s. getcallerpcs (mem s) v)) (\<lambda>pcs.
       seqk (forallk (\<lambda>pc. cprintf (Some '' %p'') [CInt pc]) pcs)
         (modk (\<lambda>s. s\<lparr>panicked := 1\<rparr>))))))))"


section \<open>Number formatting\<close>

text \<open>Reading the digits back: \<open>read_digits b\<close> is the value of a string of digits, most
  significant first, and \<open>read_int\<close> allows a leading minus sign.\<close>

definition digit_val :: "char \<Rightarrow> nat" where
  "digit_val c = (let n = of_char c in if n < 58 then n - 48 else n - 87)"

definition read_digits :: "nat \<Rightarrow> char list \<Rightarrow> nat" where
  "read_digits b cs = foldl (\<lambda>a c. a * b + digit_val c) 0 cs"

fun read_int :: "nat \<Rightarrow> char list \<Rightarrow> int" where
  "read_int b [] = 0"
| "read_int b (c # cs) = (if c = CHR ''-'' then - int (read_digits b cs) else int (read_digits b (c # cs)))"

lemma hexdigits_props: "k < 16 \<Longrightarrow> digit_val (hexdigits ! k) = k \<and> hexdigits ! k \<noteq> CHR ''-''"
proof -
  have "\<forall>k\<in>set [0..<16]. digit_val (hexdigits ! k) = k \<and> hexdigits ! k \<noteq> CHR ''-''"
    by code_simp
  then show "k < 16 \<Longrightarrow> ?thesis" by simp
qed

lemma read_digits_snoc: "read_digits b (cs @ [c]) = read_digits b cs * b + digit_val c"
  by (simp add: read_digits_def)

lemma unat_mod_lt: "0 < unat b \<Longrightarrow> unat b \<le> 16 \<Longrightarrow> unat (x mod b) < 16"
  by (simp add: unat_mod_distrib) (meson mod_less_divisor order_less_le_trans)

lemma read_rev_digits:
  assumes "1 < b" and "b \<le> 16"
  shows "read_digits (unat b) (rev (rev_digits b x)) = unat x"
  using assms
proof (induction b x rule: rev_digits.induct)
  case (1 b x)
  have b: "1 < unat b" "unat b \<le> 16"
    using 1(2,3) by (simp_all add: word_less_nat_alt word_le_nat_alt)
  have d: "digit_val (hexdigits ! unat (x mod b)) = unat x mod unat b"
    using hexdigits_props [OF unat_mod_lt [of b x]] b by (simp add: unat_mod_distrib)
  show ?case
  proof (cases "x div b = 0")
    case True
    then have "unat x div unat b = 0"
      by (metis unat_0 unat_div_distrib)
    then show ?thesis
      using True b d 1(2) by (simp add: rev_digits.simps [of b x] read_digits_def mod_less div_eq_0_iff)
  next
    case False
    then have "read_digits (unat b) (rev (rev_digits b (x div b))) = unat (x div b)"
      using 1 by (simp add: not_le)
    moreover have "\<not> b \<le> 1"
      using 1(2) by simp
    ultimately show ?thesis
      using False d by (simp add: rev_digits.simps [of b x] read_digits_snoc unat_div_distrib)
  qed
qed

lemma set_rev_digits:
  assumes "1 < b" and "b \<le> 16"
  shows "CHR ''-'' \<notin> set (rev_digits b x)"
  using assms
proof (induction b x rule: rev_digits.induct)
  case (1 b x)
  have "0 < unat b" "unat b \<le> 16"
    using 1(2,3) by (simp_all add: word_less_nat_alt word_le_nat_alt)
  with 1 show ?case
    using hexdigits_props [OF unat_mod_lt [of b x]] by (auto simp: rev_digits.simps [of b x] not_le)
qed

lemma length_rev_digits:
  assumes "1 < b" and "unat x < unat b ^ Suc n"
  shows "length (rev_digits b x) \<le> Suc n"
  using assms
proof (induction n arbitrary: x)
  case 0
  then have "unat (x div b) = 0"
    by (simp add: unat_div_distrib)
  then have "x div b = 0"
    by (simp add: unsigned_eq_0_iff)
  then show ?case by (simp add: rev_digits.simps [of b x])
next
  case (Suc n)
  then have "unat (x div b) < unat b ^ Suc n"
    by (simp add: unat_div_distrib less_mult_imp_div_less mult.commute)
  with Suc show ?case by (simp add: rev_digits.simps [of b x])
qed


lemma rev_digits_neq_Nil [simp]: "rev_digits b x \<noteq> []"
  by (simp add: rev_digits.simps [of b x])

lemma read_int_digits: "ds \<noteq> [] \<Longrightarrow> CHR ''-'' \<notin> set ds \<Longrightarrow> read_int b ds = int (read_digits b ds)"
  by (cases ds) auto

lemma read_int_rev_digits:
  assumes "1 < b" and "b \<le> 16"
  shows "read_int (unat b) (rev (rev_digits b x)) = int (unat x)"
  using assms set_rev_digits [OF assms, of x] by (simp add: read_int_digits read_rev_digits)

lemma printint_buf_digits:
  assumes "1 < b" and "b \<le> 16"
  shows "read_int (unat b) (rev (printint_buf xx b True)) = sint xx"
    and "read_int (unat b) (rev (printint_buf xx b False)) = uint xx"
proof -
  show "read_int (unat b) (rev (printint_buf xx b True)) = sint xx"
  proof (cases "sint xx < 0")
    case True
    then show ?thesis
      using assms by (simp add: printint_buf_def read_rev_digits uint_uminus)
  next
    case False
    then have "uint xx = sint xx"
      using uint_bounded [of xx] by (auto simp: sint_eq split: if_splits)
    with False assms show ?thesis
      by (simp add: printint_buf_def read_int_rev_digits)
  qed
  show "read_int (unat b) (rev (printint_buf xx b False)) = uint xx"
    using assms by (simp add: printint_buf_def read_int_rev_digits)
qed

lemma length_printint_buf: "length (printint_buf xx 10 sign) \<le> 11" "length (printint_buf xx 16 sign) \<le> 9"
proof -
  have "length (rev_digits 10 x) \<le> Suc 9" "length (rev_digits 16 x) \<le> Suc 7" for x
    using unat_lt32 [of x] by (intro length_rev_digits; simp)+
  from this [of xx] this [of "- xx"] show
    "length (printint_buf xx 10 sign) \<le> 11" "length (printint_buf xx 16 sign) \<le> 9"
    by (auto simp: printint_buf_def Let_def)
qed

section \<open>Screen and serial port\<close>

text \<open>
  The console is usable: no CPU has panicked, and the cursor is on one of the 24 rows above
  the scroll line.
\<close>

definition con_ok :: "'a conout_scheme \<Rightarrow> bool" where
  "con_ok s \<longleftrightarrow> panicked s = 0 \<and> uint (crt_cursor s) < 24 * 80"

text \<open>\<open>prints bs s t\<close>: \<open>t\<close> is \<open>s\<close> after the bytes \<open>bs\<close> went to the serial port, with some new
  screen whose cursor is in place; nothing else of the state differs.\<close>

definition prints :: "u8 list \<Rightarrow> 'a conout_scheme \<Rightarrow> 'a conout_scheme \<Rightarrow> bool" where
  "prints bs s t \<longleftrightarrow> (\<exists>m p. t = s\<lparr>uart_out := uart_out s @ (if has_uart s = 0 then [] else bs),
     crt := m, crt_cursor := p\<rparr> \<and> uint p < 24 * 80)"

lemma prints_con_ok: "con_ok s \<Longrightarrow> prints bs s t \<Longrightarrow> con_ok t"
  by (auto simp: con_ok_def prints_def)

lemma prints_trans: "prints a s t \<Longrightarrow> prints b t u \<Longrightarrow> prints (a @ b) s u"
  unfolding prints_def by (elim exE conjE, hypsubst, simp) blast

lemma prints_refl: "con_ok s \<Longrightarrow> prints [] s s"
proof -
  assume "con_ok s"
  then have "s = s\<lparr>uart_out := uart_out s @ (if has_uart s = 0 then [] else []), crt := crt s,
      crt_cursor := crt_cursor s\<rparr> \<and> uint (crt_cursor s) < 24 * 80"
    by (simp add: con_ok_def)
  then show ?thesis unfolding prints_def by blast
qed

text \<open>The bytes \<open>consputc\<close> sends to the serial port.\<close>

definition consbytes :: "u32 \<Rightarrow> u8 list" where
  "consbytes c = (if c = BACKSPACE then [8, 0x20, 8] else [ucast c])"


lemma cgaputc_prints:
  assumes "con_ok s"
  shows "\<exists>m p. cgaputc c s = Done () (s\<lparr>crt := m, crt_cursor := p\<rparr>) \<and> uint p < 24 * 80"
proof -
  define pos where "pos = uint (crt_cursor s)"
  have pos: "0 \<le> pos" "pos < 24 * 80"
    using assms by (simp_all add: con_ok_def pos_def)
  define f where "f = (\<lambda>q m. if q < 0 \<or> q > 25 * 80 then Panic ''pos under/overflow''
    else let (q, m) = (if q div 80 \<ge> 24 then (q - 80, cga_scroll (q - 80) m) else (q, m))
      in Done () (s\<lparr>crt := m(nat q := 0x20 OR 0x0700), crt_cursor := word_of_int q\<rparr>))"
  have fin: "\<exists>m' p. f q m = Done () (s\<lparr>crt := m', crt_cursor := p\<rparr>) \<and> uint p < 24 * 80"
    if "0 \<le> q" "q \<le> 24 * 80" for q m
  proof -
    have "uint (word_of_int (if q div 80 \<ge> 24 then q - 80 else q) :: u16) < 24 * 80"
      using that by (auto simp: uint_word_of_int mod_pos_pos_trivial)
    then show ?thesis
      using that by (auto simp: f_def) blast+
  qed
  have nl: "0 \<le> pos + (80 - pos mod 80)" "pos + (80 - pos mod 80) \<le> 24 * 80"
    using pos by presburger+
  have "cgaputc c s = (if c = 10 then f (pos + (80 - pos mod 80)) (crt s)
      else if c = BACKSPACE then f (if pos > 0 then pos - 1 else pos) (crt s)
      else f (pos + 1) ((crt s)(nat pos := ucast (c AND 0xff) OR 0x0700)))"
    by (simp add: cgaputc_def f_def pos_def Let_def)
  then show ?thesis
    using fin [OF nl] fin [of "if pos > 0 then pos - 1 else pos"] fin [of "pos + 1"] pos by auto
qed

lemma consputc_prints:
  assumes "con_ok s"
  shows "\<exists>t. consputc c s = Done () t \<and> prints (consbytes c) s t"
proof -
  define t where "t = s\<lparr>uart_out := uart_out s @ (if has_uart s = 0 then [] else consbytes c)\<rparr>"
  have "consputc c s = cgaputc c t"
    using assms by (auto simp: consputc_def con_ok_def consbytes_def t_def uartputc_def)
  moreover have "con_ok t"
    using assms by (simp add: con_ok_def t_def)
  ultimately show ?thesis
    using cgaputc_prints [of t c] unfolding prints_def t_def by fastforce
qed

text \<open>What \<open>cprintf\<close> prints, as a function of its arguments.\<close>

definition bytes_of :: "char list \<Rightarrow> u8 list" where
  "bytes_of = map of_char"

fun render :: "string \<Rightarrow> carg list \<Rightarrow> char list" where
  "render [] args = []"
| "render [c] args = (if c = CHR ''%'' then [] else [c])"
| "render (c # d # ds) args =
     (if c \<noteq> CHR ''%'' then c # render (d # ds) args
      else if d = CHR ''d'' then rev (printint_buf (arg_int args) 10 True) @ render ds (tl args)
      else if d = CHR ''x'' \<or> d = CHR ''p''
      then rev (printint_buf (arg_int args) 16 False) @ render ds (tl args)
      else if d = CHR ''s'' then (case arg_str args of None \<Rightarrow> ''(null)'' | Some s \<Rightarrow> s) @ render ds (tl args)
      else if d = CHR ''%'' then CHR ''%'' # render ds args
      else CHR ''%'' # d # render ds args)"


lemma consbytes_char:
  "consbytes (chr32 c) = [of_char c]" "consbytes (scast (of_char c :: u8)) = [of_char c]"
proof -
  have "ucast b \<noteq> BACKSPACE" for b :: u8
    using ucast_ucast_u8 [of b] by (auto simp: BACKSPACE_def)
  then show "consbytes (chr32 c) = [of_char c]"
    by (simp add: consbytes_def of_char_ucast ucast_ucast_u8)
  have "scast b \<noteq> BACKSPACE" for b :: u8
    using ucast_scast_u8 [of b] by (auto simp: BACKSPACE_def)
  then show "consbytes (scast (of_char c :: u8)) = [of_char c]"
    by (simp add: consbytes_def ucast_scast_u8)
qed

text \<open>\<open>outputs m cs\<close>: on a usable console \<open>m\<close> returns and prints \<open>cs\<close>.\<close>

definition outputs :: "('a conout_scheme, unit) kop \<Rightarrow> char list \<Rightarrow> bool" where
  "outputs m cs \<longleftrightarrow> (\<forall>s. con_ok s \<longrightarrow> (\<exists>t. m s = Done () t \<and> prints (bytes_of cs) s t))"

lemma outputsD: "outputs m cs \<Longrightarrow> con_ok s \<Longrightarrow> \<exists>t. m s = Done () t \<and> prints (bytes_of cs) s t"
  by (simp add: outputs_def)

lemma outputs_retk: "outputs (retk ()) []"
  by (simp add: outputs_def retk_def prints_refl bytes_of_def)

lemma outputs_seqk:
  assumes "outputs m a" and "outputs n b"
  shows "outputs (seqk m n) (a @ b)"
  unfolding outputs_def
proof (intro allI impI)
  fix s :: "'a conout_scheme"
  assume s: "con_ok s"
  from outputsD [OF assms(1) s] obtain t where t: "m s = Done () t" "prints (bytes_of a) s t"
    by blast
  from outputsD [OF assms(2) prints_con_ok [OF s t(2)]] obtain u
    where u: "n t = Done () u" "prints (bytes_of b) t u" by blast
  show "\<exists>u. seqk m n s = Done () u \<and> prints (bytes_of (a @ b)) s u"
    using t u prints_trans [OF t(2) u(2)] by (simp add: seqk_Done bytes_of_def)
qed

lemma outputs_forallk:
  "(\<And>i. outputs (f i) [g i]) \<Longrightarrow> outputs (forallk f is) (map g is)"
proof (induction "is")
  case Nil
  then show ?case by (simp add: outputs_retk)
next
  case (Cons i "is")
  then show ?case
    using outputs_seqk [of "f i" "[g i]" "forallk f is" "map g is"] by simp
qed

lemma outputs_consputc:
  "outputs (consputc (chr32 c)) [c]" "outputs (consputc (scast (of_char c :: u8))) [c]"
  unfolding outputs_def bytes_of_def
  using consputc_prints [where c = "chr32 c", unfolded consbytes_char]
    consputc_prints [where c = "scast (of_char c :: u8)", unfolded consbytes_char] by simp_all blast+

lemma outputs_chars: "(\<And>c. outputs (f c) [c]) \<Longrightarrow> outputs (forallk f cs) cs"
  using outputs_forallk [of f "\<lambda>c. c"] by simp

lemma outputs_printint: "outputs (printint n b sg) (rev (printint_buf n b sg))"
  unfolding printint_def by (intro outputs_chars outputs_consputc)

lemma outputs_putstr: "outputs (putstr cs) cs"
  unfolding putstr_def by (intro outputs_chars outputs_consputc)

lemma outputs_putc: "outputs n cs \<Longrightarrow> outputs (seqk (consputc (chr32 c)) n) (c # cs)"
  using outputs_seqk [OF outputs_consputc(1), of n cs] by simp

lemmas outputs_intros = outputs_putc outputs_putc [where c = "CHR ''%''", simplified] outputs_seqk outputs_retk outputs_printint outputs_putstr

lemma cprintf_loop_outputs: "outputs (cprintf_loop fmt args) (render fmt args)"
proof (induction fmt args rule: render.induct)
  case (2 c args)
  then show ?case by (simp add: outputs_intros)
next
  case (3 c d ds args)
  then show ?case by (simp add: outputs_intros)
qed (simp add: outputs_retk)


lemma cprintf_eq:
  assumes "con_ok s" and "locking s \<noteq> 0 \<longrightarrow> lk_free ConsLk s \<and> cpu_wf (thiscpu s)"
  shows "\<exists>t. prints (bytes_of (render fmt args)) (if locking s = 0 then s else acquired ConsLk s) t
    \<and> cprintf (Some fmt) args s = Done () (if locking s = 0 then t else released ConsLk t)"
proof (cases "locking s = 0")
  case True
  then show ?thesis
    using outputsD [OF cprintf_loop_outputs assms(1), of fmt args]
    by (auto simp: cprintf_def unlessk_def seqk_Done retk_def)
next
  case False
  have "con_ok (acquired ConsLk s)"
    using assms(1) by (simp add: con_ok_def acquired_def)
  from outputsD [OF cprintf_loop_outputs this, of fmt args] obtain t
    where t: "cprintf_loop fmt args (acquired ConsLk s) = Done () t"
      "prints (bytes_of (render fmt args)) (acquired ConsLk s) t" by blast
  have "holding ConsLk t" and "cpu_locked (thiscpu t)"
    using t(2) assms(2) False by (auto simp: prints_def holding_def lk_holding_def)
  then show ?thesis
    using t False assms(2)
    by (auto simp: cprintf_def unlessk_def seqk_Done [OF acquire_Done] seqk_Done release_Done)
qed

text \<open>The step of a console operation: the locks end as they began, and only the console's
  devices change.\<close>

definition con_step :: "'a conout_scheme \<Rightarrow> 'a conout_scheme \<Rightarrow> bool" where
  "con_step s t \<longleftrightarrow> quiet s t
     \<and> (\<exists>c l u m p. t = s\<lparr>cpus := c, slocks := l, uart_out := u, crt := m, crt_cursor := p\<rparr>)"

lemma cprintf_step:
  assumes "con_ok s" and "lk_free ConsLk s" and "cpu_wf (thiscpu s)"
  shows "\<exists>t. cprintf (Some fmt) args s = Done () t \<and> con_step s t \<and> con_ok t"
proof -
  let ?bs = "bytes_of (render fmt args)"
  let ?s = "if locking s = 0 then s else acquired ConsLk s"
  obtain t where t: "prints ?bs ?s t"
    "cprintf (Some fmt) args s = Done () (if locking s = 0 then t else released ConsLk t)"
    using cprintf_eq [of s fmt args] assms by blast
  from t(1) obtain m p where p: "t = ?s\<lparr>uart_out := uart_out ?s @ (if has_uart ?s = 0 then [] else ?bs),
      crt := m, crt_cursor := p\<rparr>" "uint p < 24 * 80" unfolding prints_def by blast
  let ?u = "if locking s = 0 then t else released ConsLk t"
  have "?u = s\<lparr>cpus := cpus ?u, slocks := slocks ?u, uart_out := uart_out ?u, crt := m, crt_cursor := p\<rparr>"
    by (rule conout.equality) (simp_all add: p released_def acquired_def)
  moreover have "quiet s ?u"
  proof (cases "locking s = 0")
    case True
    then show ?thesis by (simp add: p quiet_def quiet_cpu_def)
  next
    case False
    then show ?thesis using assms by (auto simp: p intro!: quiet_section)
  qed
  moreover have "con_ok ?u"
    using assms(1) p by (simp add: con_ok_def released_def acquired_def)
  ultimately show ?thesis using t(2) unfolding con_step_def by blast
qed

section \<open>Properties\<close>

text \<open>\<open>printint\<close> formats every 32-bit value correctly. The characters \<open>cprintf("%d")\<close> prints
  for \<open>xx\<close>, read back as a signed decimal number, are the value of \<open>xx\<close> as a C \<open>int\<close> (the
  most negative one included), those of \<open>%x\<close> read in base 16 its unsigned value, and the
  digits with the sign fit the 16 bytes of \<open>buf\<close>.\<close>

theorem printint_roundtrip:
  "read_int 10 (rev (printint_buf xx 10 True)) = sint xx
   \<and> read_int 16 (rev (printint_buf xx 16 False)) = uint xx
   \<and> length (printint_buf xx 10 True) \<le> 16 \<and> length (printint_buf xx 16 False) \<le> 16"
proof -
  have "read_int 10 (rev (printint_buf xx 10 True)) = sint xx"
    using printint_buf_digits(1) [of 10 xx] by simp
  moreover have "read_int 16 (rev (printint_buf xx 16 False)) = uint xx"
    using printint_buf_digits(2) [of 16 xx] by simp
  ultimately show ?thesis
    using length_printint_buf(1) [of xx True] length_printint_buf(2) [of xx False] by simp
qed

text \<open>\<open>cprintf\<close> is functionally correct. On a console whose cursor is above the scroll line
  and whose lock is free it returns without a panic, the serial port has received exactly the
  formatted text, the cursor is above the scroll line again, the lock is free and memory is
  unchanged.\<close>

theorem cprintf_correct:
  assumes "con_ok s" and "lk_free ConsLk s" and "cpu_wf (thiscpu s)" and "has_uart s \<noteq> 0"
  shows "\<exists>t. cprintf (Some fmt) args s = Done () t
    \<and> uart_out t = uart_out s @ bytes_of (render fmt args)
    \<and> con_ok t \<and> lk_free ConsLk t \<and> mem t = mem s \<and> eflags (thiscpu t) = eflags (thiscpu s)"
proof -
  obtain t where "prints (bytes_of (render fmt args)) (if locking s = 0 then s else acquired ConsLk s) t"
    "cprintf (Some fmt) args s = Done () (if locking s = 0 then t else released ConsLk t)"
    using cprintf_eq [of s fmt args] assms by blast
  then show ?thesis
    using assms
    by (auto simp: prints_def con_ok_def released_def acquired_def lk_free_def store_unlocked_def
        released_acquired_cpu split: if_splits)
qed

definition idle_con :: conout where
  "idle_con = mach.extend idle_mach (conout.fields 0 1 1 [] (\<lambda>_. 0) 0)"

theorem cprintf_correct_witness:
  "\<exists>t. cprintf (Some ''pid %d: %s'') [CInt 42, CStr (Some ''sh'')] idle_con = Done () t
    \<and> uart_out t = bytes_of ''pid 42: sh'' \<and> con_ok t \<and> lk_free ConsLk t
    \<and> mem t = mem idle_con \<and> eflags (thiscpu t) = eflags (thiscpu idle_con)"
proof -
  have "render ''pid %d: %s'' [CInt 42, CStr (Some ''sh'')] = ''pid 42: sh''"
    by code_simp
  with cprintf_correct [of idle_con "''pid %d: %s''" "[CInt 42, CStr (Some ''sh'')]"] show ?thesis
    by (simp add: idle_con_def mach.defs conout.defs idle_mach_def idle_cpu_def free_lock_def lk_free_def
        cpu_wf_def con_ok_def)
qed

end
