(* ===== verification/Kalloc.thy ===== *)
theory Kalloc
  imports Console
begin

text \<open>
  The physical page allocator of \<open>src/kalloc.c\<close>: a list of free pages linked through the
  pages themselves. The free list is refined to a HOL list of distinct pages, and the
  allocator's contract is the locale \<open>page_allocator\<close>, whose lemmas the page-table and
  process code use.
\<close>

section \<open>Constants\<close>

definition PGSIZE :: u32 where
  "PGSIZE = 4096"

definition PHYSTOP :: u32 where
  "PHYSTOP = 0xE000000"

definition PGROUNDUP :: "u32 \<Rightarrow> u32" where
  "PGROUNDUP sz = (sz + PGSIZE - 1) AND NOT (PGSIZE - 1)"

definition PGROUNDDOWN :: "u32 \<Rightarrow> u32" where
  "PGROUNDDOWN a = a AND NOT (PGSIZE - 1)"

definition V2P :: "u32 \<Rightarrow> u32" where
  "V2P a = a - KERNBASE"

definition P2V :: "u32 \<Rightarrow> u32" where
  "P2V a = a + KERNBASE"

section \<open>State and operations\<close>

text \<open>The fields of \<open>kmem\<close>; \<open>kend\<close> is the linker's symbol \<open>end\<close>.\<close>

record kmem = conout +
  use_lock :: i32
  freelist :: u32
  kend :: u32

text \<open>\<open>if(kmem.use_lock)\<close> around the lock operations.\<close>

definition kmem_acquire :: "('a kmem_scheme, unit) kop" where
  "kmem_acquire = bindk (getk use_lock) (\<lambda>u. unlessk (u = 0) (acquire KmemLk))"

definition kmem_release :: "('a kmem_scheme, unit) kop" where
  "kmem_release = bindk (getk use_lock) (\<lambda>u. unlessk (u = 0) (release KmemLk))"

definition kfree :: "u32 \<Rightarrow> ('a kmem_scheme, unit) kop" where
  "kfree v = bindk (getk kend) (\<lambda>e.
     if v mod PGSIZE \<noteq> 0 \<or> v < e \<or> V2P v \<ge> PHYSTOP then panick ''kfree''
     else seqk (modk (\<lambda>s. s\<lparr>mem := memset (mem s) v 1 PGSIZE\<rparr>))
       (seqk kmem_acquire
       (seqk (modk (\<lambda>s. s\<lparr>mem := store32 (mem s) v (freelist s)\<rparr>))
       (seqk (modk (\<lambda>s. s\<lparr>freelist := v\<rparr>))
         kmem_release))))"

definition kalloc :: "('a kmem_scheme, u32) kop" where
  "kalloc = seqk kmem_acquire (bindk (getk freelist) (\<lambda>r.
     seqk (modk (\<lambda>s. if r \<noteq> 0 then s\<lparr>freelist := load32 (mem s) r\<rparr> else s))
       (seqk kmem_release (retk r))))"

text \<open>The loop of \<open>freerange\<close>; \<open>n\<close> bounds its iterations (the address space has \<open>2^20\<close> pages),
  and a loop that exceeds the bound does not return.\<close>

fun freerange_loop :: "nat \<Rightarrow> u32 \<Rightarrow> u32 \<Rightarrow> ('a kmem_scheme, unit) kop" where
  "freerange_loop 0 p vend s = Spin"
| "freerange_loop (Suc n) p vend s =
     (if p + PGSIZE \<le> vend then seqk (kfree p) (freerange_loop n (p + PGSIZE) vend) s
      else Done () s)"

definition freerange :: "u32 \<Rightarrow> u32 \<Rightarrow> ('a kmem_scheme, unit) kop" where
  "freerange vstart vend = freerange_loop (2 ^ 20) (PGROUNDUP vstart) vend"

definition kinit1 :: "u32 \<Rightarrow> u32 \<Rightarrow> ('a kmem_scheme, unit) kop" where
  "kinit1 vstart vend = seqk (initlock KmemLk ''kmem'')
     (seqk (modk (\<lambda>s. s\<lparr>use_lock := 0\<rparr>)) (freerange vstart vend))"

definition kinit2 :: "u32 \<Rightarrow> u32 \<Rightarrow> ('a kmem_scheme, unit) kop" where
  "kinit2 vstart vend = seqk (freerange vstart vend) (modk (\<lambda>s. s\<lparr>use_lock := 1\<rparr>))"

section \<open>Pages\<close>

text \<open>A page \<open>kfree\<close> accepts.\<close>

definition page_ok :: "u32 \<Rightarrow> u32 \<Rightarrow> bool" where
  "page_ok e v \<longleftrightarrow> v mod PGSIZE = 0 \<and> e \<le> v \<and> V2P v < PHYSTOP"

abbreviation in_page :: "u32 \<Rightarrow> u32 \<Rightarrow> bool" where
  "in_page p a \<equiv> in_range p 4096 a"

lemma aligned_unat: "(p :: u32) mod PGSIZE = 0 \<longleftrightarrow> unat p mod 4096 = 0"
proof -
  have "p mod PGSIZE = 0 \<longleftrightarrow> unat (p mod PGSIZE) = 0"
    by (simp add: unsigned_eq_0_iff)
  then show ?thesis
    by (simp add: unat_mod_distrib PGSIZE_def)
qed

lemma in_page_unat:
  assumes "p mod PGSIZE = 0"
  shows "in_page p a \<longleftrightarrow> unat p = 4096 * (unat a div 4096)"
proof -
  have al: "4096 dvd unat p"
    using assms by (simp add: aligned_unat dvd_eq_mod_eq_0)
  have lt: "unat p + k < 4294967296" if "k < 4096" for k
  proof -
    from al obtain j where "unat p = 4096 * j" by (auto simp: dvd_def)
    with unat_lt32 [of p] that show ?thesis by simp
  qed
  show ?thesis
  proof
    assume "in_page p a"
    then have k: "unat (a - p) < 4096" by (simp add: in_range_def)
    have "unat a = unat (p + (a - p))" by simp
    also have "\<dots> = unat p + unat (a - p)"
      using lt [OF k] by (subst unat_add_lem [symmetric]) simp
    finally show "unat p = 4096 * (unat a div 4096)"
      using al k by (auto simp: dvd_def)
  next
    assume *: "unat p = 4096 * (unat a div 4096)"
    then have "unat p \<le> unat a" by simp
    then have "unat (a - p) = unat a - unat p"
      by (simp add: unat_sub word_le_nat_alt)
    also have "\<dots> < 4096" using * by simp
    finally show "in_page p a" by (simp add: in_range_def)
  qed
qed

lemma in_page_unique:
  assumes "p mod PGSIZE = 0" and "q mod PGSIZE = 0" and "in_page p a" and "in_page q a"
  shows "p = q"
  using assms by (metis in_page_unat unsigned_word_eqI)

lemma page_ok_neq_0: "page_ok e v \<Longrightarrow> v \<noteq> 0"
  by (auto simp: page_ok_def V2P_def KERNBASE_def PHYSTOP_def)


text \<open>The linked list of free pages in memory, as a HOL list.\<close>

fun chain :: "memory \<Rightarrow> u32 \<Rightarrow> u32 list \<Rightarrow> bool" where
  "chain m p [] \<longleftrightarrow> p = 0"
| "chain m p (x # xs) \<longleftrightarrow> p = x \<and> x \<noteq> 0 \<and> chain m (load32 m x) xs"

lemma load32_cong:
  assumes "\<And>i. i < 4 \<Longrightarrow> m' (a + i) = m (a + i)"
  shows "load32 m' a = load32 m a"
  using assms [of 0] assms [of 1] assms [of 2] assms [of 3] by (simp add: load32_def)

lemma load32_page_cong:
  assumes "\<And>b. in_page a b \<Longrightarrow> m' b = m b"
  shows "load32 m' a = load32 m a"
proof (rule load32_cong)
  fix i :: u32 assume "i < 4"
  then have "in_page a (a + i)"
    by (simp add: in_range_def word_less_nat_alt)
  then show "m' (a + i) = m (a + i)" by (rule assms)
qed

lemma chain_cong:
  "(\<And>x b. x \<in> set xs \<Longrightarrow> in_page x b \<Longrightarrow> m' b = m b) \<Longrightarrow> chain m' p xs = chain m p xs"
proof (induction xs arbitrary: p)
  case (Cons x xs)
  then have "load32 m' x = load32 m x"
    by (intro load32_page_cong) auto
  moreover have "chain m' q xs = chain m q xs" for q
    by (rule Cons.IH) (use Cons.prems in auto)
  ultimately show ?case by simp
qed simp

lemma chain_0: "chain m 0 xs \<longleftrightarrow> xs = []"
  by (cases xs) auto

text \<open>The allocator can be entered, and its free pages are \<open>F\<close>.\<close>

definition kmem_ready :: "'a kmem_scheme \<Rightarrow> bool" where
  "kmem_ready s \<longleftrightarrow> (use_lock s \<noteq> 0 \<longrightarrow> lk_free KmemLk s \<and> cpu_wf (thiscpu s))"

definition free_chain :: "'a kmem_scheme \<Rightarrow> u32 list \<Rightarrow> bool" where
  "free_chain s xs \<longleftrightarrow> chain (mem s) (freelist s) xs \<and> distinct xs \<and> (\<forall>x\<in>set xs. page_ok (kend s) x)"

definition kmem_pool :: "'a kmem_scheme \<Rightarrow> u32 set \<Rightarrow> bool" where
  "kmem_pool s F \<longleftrightarrow> kmem_ready s \<and> (\<exists>xs. set xs = F \<and> free_chain s xs)"

text \<open>The step of a \<open>kmem\<close> operation: only these fields change, and the locks end as they began.\<close>

definition kmem_step :: "'a kmem_scheme \<Rightarrow> 'a kmem_scheme \<Rightarrow> bool" where
  "kmem_step s t \<longleftrightarrow> quiet s t
     \<and> (\<exists>c l m f. t = s\<lparr>cpus := c, slocks := l, mem := m, freelist := f\<rparr>)"

lemma kmem_stepI:
  "quiet s t \<Longrightarrow> t = s\<lparr>cpus := c, slocks := l, mem := m, freelist := f\<rparr> \<Longrightarrow> kmem_step s t"
  unfolding kmem_step_def by blast

lemma kmem_step_trans: "kmem_step s t \<Longrightarrow> kmem_step t u \<Longrightarrow> kmem_step s u"
  unfolding kmem_step_def by (auto intro: quiet_trans) blast

lemma kmem_stepD:
  assumes "kmem_step s t"
  shows "use_lock t = use_lock s" "kend t = kend s" "cur_cpu t = cur_cpu s"
    "kmem_ready t = kmem_ready s" "quiet s t"
proof -
  show "quiet s t" "use_lock t = use_lock s" "kend t = kend s" "cur_cpu t = cur_cpu s"
    using assms by (auto simp: kmem_step_def)
  then show "kmem_ready t = kmem_ready s"
    by (simp add: kmem_ready_def quietD)
qed

text \<open>One access to the free list under its lock.\<close>

definition kacq :: "'a kmem_scheme \<Rightarrow> 'a kmem_scheme" where
  "kacq s = (if use_lock s = 0 then s else acquired KmemLk s)"

definition krel :: "'a kmem_scheme \<Rightarrow> 'a kmem_scheme" where
  "krel s = (if use_lock s = 0 then s else released KmemLk s)"

lemma kmem_acquire_Done: "kmem_ready s \<Longrightarrow> kmem_acquire s = Done () (kacq s)"
  by (simp add: kmem_acquire_def kmem_ready_def kacq_def unlessk_def acquire_Done retk_def)

lemma kmem_release_Done:
  assumes "kmem_ready s"
  shows "kmem_release ((kacq s)\<lparr>mem := m, freelist := f\<rparr>) = Done () (krel ((kacq s)\<lparr>mem := m, freelist := f\<rparr>))"
proof (cases "use_lock s = 0")
  case False
  let ?t = "(acquired KmemLk s)\<lparr>mem := m, freelist := f\<rparr>"
  have "holding KmemLk ?t" "cpu_locked (thiscpu ?t)"
    using assms False by (simp_all add: kmem_ready_def holding_def lk_holding_def)
  moreover have "use_lock ?t = use_lock s" by (simp add: acquired_def)
  ultimately show ?thesis
    using False by (simp add: kmem_release_def kacq_def krel_def unlessk_def release_Done)
qed (simp add: kmem_release_def kacq_def krel_def unlessk_def retk_def)

lemma krel_kacq:
  assumes "kmem_ready s"
  shows "kmem_step s (krel ((kacq s)\<lparr>mem := m, freelist := f\<rparr>))"
    and "mem (krel ((kacq s)\<lparr>mem := m, freelist := f\<rparr>)) = m"
    and "freelist (krel ((kacq s)\<lparr>mem := m, freelist := f\<rparr>)) = f"
proof -
  show "kmem_step s (krel ((kacq s)\<lparr>mem := m, freelist := f\<rparr>))"
  proof (cases "use_lock s = 0")
    case True
    then show ?thesis
      by (intro kmem_stepI [where c = "cpus s" and l = "slocks s" and m = m and f = f])
        (simp_all add: krel_def kacq_def quiet_def quiet_cpu_def)
  next
    case False
    let ?t = "released KmemLk ((acquired KmemLk s)\<lparr>mem := m, freelist := f\<rparr>)"
    have "quiet s ?t"
      using assms False by (intro quiet_section) (simp_all add: kmem_ready_def)
    moreover have "?t = s\<lparr>cpus := cpus ?t, slocks := slocks ?t, mem := m, freelist := f\<rparr>"
      by (rule kmem.equality) (simp_all add: released_def acquired_def)
    moreover have "krel ((kacq s)\<lparr>mem := m, freelist := f\<rparr>) = ?t"
      using False by (simp add: krel_def kacq_def acquired_def)
    ultimately show ?thesis
      using kmem_stepI by metis
  qed
qed (simp_all add: krel_def kacq_def released_def acquired_def)


lemma seqk_kmem_acquire: "kmem_ready s \<Longrightarrow> seqk kmem_acquire n s = n (kacq s)"
  by (rule seqk_Done) (rule kmem_acquire_Done)

lemma kacq_fields [simp]: "freelist (kacq s) = freelist s" "mem (kacq s) = mem s"
  by (simp_all add: kacq_def acquired_def)

lemma kalloc_eq:
  assumes "kmem_ready s"
  shows "kalloc s = Done (freelist s)
    (krel ((kacq s)\<lparr>mem := mem s, freelist := (if freelist s = 0 then 0 else load32 (mem s) (freelist s))\<rparr>))"
    (is "_ = Done ?r (krel ?t)")
proof -
  have "kalloc s = seqk kmem_release (retk ?r)
      (if ?r \<noteq> 0 then (kacq s)\<lparr>freelist := load32 (mem (kacq s)) ?r\<rparr> else kacq s)"
    using assms by (simp add: kalloc_def seqk_kmem_acquire)
  also have "(if ?r \<noteq> 0 then (kacq s)\<lparr>freelist := load32 (mem (kacq s)) ?r\<rparr> else kacq s) = ?t"
    by (auto intro!: kmem.equality)
  also have "seqk kmem_release (retk ?r) ?t = retk ?r (krel ?t)"
    by (rule seqk_Done) (rule kmem_release_Done [OF assms])
  finally show ?thesis by (simp add: retk_def)
qed

lemma kfree_eq:
  assumes "kmem_ready s" and "page_ok (kend s) v"
  defines "t \<equiv> s\<lparr>mem := memset (mem s) v 1 PGSIZE\<rparr>"
  shows "kfree v s = Done () (krel ((kacq t)\<lparr>mem := store32 (mem t) v (freelist s), freelist := v\<rparr>))"
proof -
  have r: "kmem_ready t"
    using assms(1) by (simp add: kmem_ready_def lk_free_def t_def)
  have f: "freelist t = freelist s"
    by (simp add: t_def)
  have "kfree v s = seqk kmem_acquire
       (seqk (modk (\<lambda>s. s\<lparr>mem := store32 (mem s) v (freelist s)\<rparr>))
       (seqk (modk (\<lambda>s. s\<lparr>freelist := v\<rparr>)) kmem_release)) t"
    using assms(2) by (auto simp: kfree_def page_ok_def t_def)
  also have "\<dots> = kmem_release ((kacq t)\<lparr>mem := store32 (mem t) v (freelist s), freelist := v\<rparr>)"
    by (simp add: seqk_kmem_acquire [OF r] f)
  finally show ?thesis using kmem_release_Done [OF r] by simp
qed


section \<open>The contract of the page allocator\<close>

text \<open>
  \<open>pool s F\<close>: in state \<open>s\<close> the free pages are \<open>F\<close>; \<open>step\<close> relates the states before and after
  an operation; \<open>valid s p\<close>: \<open>p\<close> is a page the allocator manages.
\<close>

locale page_allocator =
  fixes pool :: "'s \<Rightarrow> u32 set \<Rightarrow> bool"
    and valid :: "'s \<Rightarrow> u32 \<Rightarrow> bool"
    and step :: "'s \<Rightarrow> 's \<Rightarrow> bool"
    and content :: "'s \<Rightarrow> memory"
    and alloc :: "('s, u32) kop"
    and free :: "u32 \<Rightarrow> ('s, unit) kop"
  assumes alloc_empty: "pool s {} \<Longrightarrow> \<exists>t. alloc s = Done 0 t \<and> pool t {} \<and> step s t \<and> content t = content s"
    and alloc_page: "pool s F \<Longrightarrow> F \<noteq> {} \<Longrightarrow>
      \<exists>p t. alloc s = Done p t \<and> p \<in> F \<and> pool t (F - {p}) \<and> step s t \<and> content t = content s"
    and free_page: "pool s F \<Longrightarrow> valid s p \<Longrightarrow> p \<notin> F \<Longrightarrow>
      \<exists>t. free p s = Done () t \<and> pool t (insert p F) \<and> step s t
        \<and> (\<forall>a. \<not> in_page p a \<longrightarrow> content t a = content s a)"
    and pool_valid: "pool s F \<Longrightarrow> p \<in> F \<Longrightarrow> valid s p \<and> p \<noteq> 0"
    and pool_finite: "pool s F \<Longrightarrow> finite F"
    and step_valid: "step s t \<Longrightarrow> valid t p = valid s p"
    and step_refl: "step s s"
    and step_trans: "step s t \<Longrightarrow> step t u \<Longrightarrow> step s u"
begin

text \<open>Allocating until \<open>n\<close> pages are taken or memory is exhausted.\<close>

fun alloc_n :: "nat \<Rightarrow> ('s, u32 list) kop" where
  "alloc_n 0 s = Done [] s"
| "alloc_n (Suc n) s = bindk alloc (\<lambda>p. if p = 0 then retk [] else bindk (alloc_n n) (\<lambda>ps. retk (p # ps))) s"

lemma alloc_cases:
  assumes "pool s F"
  obtains (empty) t where "F = {}" "alloc s = Done 0 t" "pool t {}" "step s t" "content t = content s"
  | (page) p t where "alloc s = Done p t" "p \<in> F" "p \<noteq> 0" "valid s p" "pool t (F - {p})" "step s t"
      "content t = content s"
  using alloc_empty alloc_page [OF assms] pool_valid [OF assms] assms by blast

lemma alloc_n_pages:
  "pool s F \<Longrightarrow> \<exists>ps t. alloc_n n s = Done ps t \<and> distinct ps \<and> set ps \<subseteq> F
     \<and> length ps = min n (card F) \<and> pool t (F - set ps) \<and> step s t \<and> content t = content s"
proof (induction n arbitrary: s F)
  case 0
  then show ?case using step_refl by auto
next
  case (Suc n)
  from Suc.prems show ?case
  proof (cases rule: alloc_cases)
    case (empty t)
    then show ?thesis by (auto simp: bindk_Done retk_def)
  next
    case (page p t)
    from Suc.IH [OF page(5)] obtain ps u where u: "alloc_n n t = Done ps u" "distinct ps"
      "set ps \<subseteq> F - {p}" "length ps = min n (card (F - {p}))" "pool u (F - {p} - set ps)"
      "step t u" "content u = content t" by blast
    have "card F = Suc (card (F - {p}))"
      using page(2) pool_finite [OF Suc.prems] by (metis card.remove)
    moreover have "F - {p} - set ps = F - insert p (set ps)" by blast
    ultimately show ?thesis
      using page u step_trans [OF page(6) u(6)]
      by (intro exI [of _ "p # ps"] exI [of _ u]) (auto simp: bindk_Done retk_def)
  qed
qed

text \<open>Freeing the page just allocated restores the pool.\<close>

lemma alloc_free:
  assumes "pool s F" and "F \<noteq> {}"
  shows "\<exists>p t. bindk alloc (\<lambda>p. seqk (free p) (retk p)) s = Done p t \<and> p \<in> F \<and> pool t F \<and> step s t"
  using assms(1)
proof (cases rule: alloc_cases)
  case (page p t)
  have "valid t p" using page step_valid by blast
  from free_page [OF page(5) this] obtain u
    where "free p t = Done () u" "pool u (insert p (F - {p}))" "step t u" by auto
  then show ?thesis
    using page step_trans [OF page(6)] by (auto simp: bindk_Done seqk_Done retk_def insert_absorb)
qed (use assms(2) in simp)

end

section \<open>kalloc and kfree implement the contract\<close>

lemma kalloc_step:
  assumes "kmem_ready s"
  shows "\<exists>t. kalloc s = Done (freelist s) t \<and> kmem_step s t \<and> mem t = mem s
    \<and> freelist t = (if freelist s = 0 then 0 else load32 (mem s) (freelist s))"
  using kalloc_eq [OF assms] krel_kacq [OF assms] by blast

lemma kfree_step:
  assumes "kmem_ready s" and "page_ok (kend s) v"
  shows "\<exists>t. kfree v s = Done () t \<and> kmem_step s t \<and> freelist t = v
    \<and> mem t = store32 (memset (mem s) v 1 PGSIZE) v (freelist s)"
proof -
  let ?t = "s\<lparr>mem := memset (mem s) v 1 PGSIZE\<rparr>"
  have r: "kmem_ready ?t"
    using assms(1) by (simp add: kmem_ready_def lk_free_def)
  have "kmem_step s ?t"
    by (intro kmem_stepI [where c = "cpus s" and l = "slocks s" and m = "mem ?t" and f = "freelist s"])
      (simp_all add: quiet_def quiet_cpu_def)
  then show ?thesis
    using kfree_eq [OF assms] krel_kacq [OF r] kmem_step_trans by simp blast
qed

lemma store32_outside: "\<not> in_range v 4 a \<Longrightarrow> store32 m v w a = m a"
proof -
  assume "\<not> in_range v 4 a"
  then have "a \<noteq> v + of_nat i" if "i < 4" for i
    using that in_range_iff_ex [of 4 v a] by auto
  from this [of 0] this [of 1] this [of 2] this [of 3] show ?thesis
    by (simp add: store32_def)
qed

lemma kfree_mem_outside:
  assumes "\<not> in_page v a"
  shows "store32 (memset m v 1 PGSIZE) v w a = m a"
proof -
  have "\<not> in_range v 4 a"
    using assms by (simp add: in_range_def)
  then show ?thesis
    using assms by (simp add: store32_outside memset_eq PGSIZE_def)
qed

lemma kalloc_pool:
  assumes "kmem_pool s F"
  shows "if F = {} then \<exists>t. kalloc s = Done 0 t \<and> kmem_pool t {} \<and> kmem_step s t \<and> mem t = mem s
    else \<exists>p t. kalloc s = Done p t \<and> p \<in> F \<and> kmem_pool t (F - {p}) \<and> kmem_step s t \<and> mem t = mem s"
proof -
  from assms obtain xs where xs: "kmem_ready s" "set xs = F" "free_chain s xs"
    by (auto simp: kmem_pool_def)
  from kalloc_step [OF xs(1)] obtain t where t: "kalloc s = Done (freelist s) t" "kmem_step s t"
    "mem t = mem s" "freelist t = (if freelist s = 0 then 0 else load32 (mem s) (freelist s))" by blast
  show ?thesis
  proof (cases xs)
    case Nil
    then have "freelist s = 0" and "F = {}" and "free_chain t []"
      using xs t by (auto simp: free_chain_def)
    then show ?thesis
      using t xs(1) kmem_stepD(4) [OF t(2)] by (auto simp: kmem_pool_def)
  next
    case (Cons x ys)
    then have "freelist s = x" "x \<noteq> 0" "x \<in> F" "F - {x} = set ys" "free_chain t ys"
      using xs t kmem_stepD(2) [OF t(2)] by (auto simp: free_chain_def)
    then show ?thesis
      using t xs(1) kmem_stepD(4) [OF t(2)] by (auto simp: kmem_pool_def)
  qed
qed

lemma kfree_pool:
  assumes "kmem_pool s F" and "page_ok (kend s) v" and "v \<notin> F"
  shows "\<exists>t. kfree v s = Done () t \<and> kmem_pool t (insert v F) \<and> kmem_step s t
    \<and> (\<forall>a. \<not> in_page v a \<longrightarrow> mem t a = mem s a)"
proof -
  from assms obtain xs where xs: "kmem_ready s" "set xs = F" "free_chain s xs"
    by (auto simp: kmem_pool_def)
  from kfree_step [OF xs(1) assms(2)] obtain t where t: "kfree v s = Done () t" "kmem_step s t"
    "freelist t = v" "mem t = store32 (memset (mem s) v 1 PGSIZE) v (freelist s)" by blast
  have out: "\<not> in_page v a \<Longrightarrow> mem t a = mem s a" for a
    by (simp add: t(4) kfree_mem_outside)
  have "chain (mem t) (freelist s) xs = chain (mem s) (freelist s) xs"
  proof (rule chain_cong)
    fix x b assume "x \<in> set xs" "in_page x b"
    then show "mem t b = mem s b"
      using xs assms(2,3) in_page_unique [of v x b]
      by (intro out) (auto simp: free_chain_def page_ok_def)
  qed
  then have "free_chain t (v # xs)"
    using xs t assms(2,3) page_ok_neq_0 [OF assms(2)] kmem_stepD(2) [OF t(2)]
    by (auto simp: free_chain_def)
  then show ?thesis
    using t xs out kmem_stepD(4) [OF t(2)] by (auto simp: kmem_pool_def intro!: exI [of _ "v # xs"])
qed

interpretation pages: page_allocator kmem_pool "\<lambda>s. page_ok (kend s)" kmem_step mem kalloc kfree
proof
  fix s t u :: "'a kmem_scheme" and F p
  show "kmem_pool s {} \<Longrightarrow> \<exists>t. kalloc s = Done 0 t \<and> kmem_pool t {} \<and> kmem_step s t \<and> mem t = mem s"
    using kalloc_pool [of s "{}"] by simp
  show "kmem_pool s F \<Longrightarrow> F \<noteq> {} \<Longrightarrow>
      \<exists>p t. kalloc s = Done p t \<and> p \<in> F \<and> kmem_pool t (F - {p}) \<and> kmem_step s t \<and> mem t = mem s"
    using kalloc_pool [of s F] by simp
  show "kmem_pool s F \<Longrightarrow> page_ok (kend s) p \<Longrightarrow> p \<notin> F \<Longrightarrow>
      \<exists>t. kfree p s = Done () t \<and> kmem_pool t (insert p F) \<and> kmem_step s t
        \<and> (\<forall>a. \<not> in_page p a \<longrightarrow> mem t a = mem s a)"
    by (rule kfree_pool)
  show "kmem_pool s F \<Longrightarrow> p \<in> F \<Longrightarrow> page_ok (kend s) p \<and> p \<noteq> 0"
    using page_ok_neq_0 by (auto simp: kmem_pool_def free_chain_def)
  show "kmem_pool s F \<Longrightarrow> finite F"
    by (auto simp: kmem_pool_def)
  show "kmem_step s t \<Longrightarrow> page_ok (kend t) p = page_ok (kend s) p"
    by (simp add: kmem_stepD)
  show "kmem_step s s"
    by (intro kmem_stepI [where c = "cpus s" and l = "slocks s" and m = "mem s" and f = "freelist s"]) simp_all
  show "kmem_step s t \<Longrightarrow> kmem_step t u \<Longrightarrow> kmem_step s u"
    by (rule kmem_step_trans)
qed

section \<open>Filling the pool\<close>

text \<open>The whole pages of \<open>[p, e)\<close>.\<close>

definition range_pages :: "u32 \<Rightarrow> u32 \<Rightarrow> u32 set" where
  "range_pages p e = {q. q mod PGSIZE = 0 \<and> p \<le> q \<and> unat q + 4096 \<le> unat e}"

lemma range_pages_step:
  assumes "p mod PGSIZE = 0"
  shows "unat p + 4096 \<le> unat e \<Longrightarrow> range_pages p e = insert p (range_pages (p + PGSIZE) e)"
    and "\<not> unat p + 4096 \<le> unat e \<Longrightarrow> range_pages p e = {}"
proof -
  show "range_pages p e = {}" if "\<not> unat p + 4096 \<le> unat e"
    using that by (auto simp: range_pages_def word_le_nat_alt)
  assume le: "unat p + 4096 \<le> unat e"
  then have s: "unat (p + PGSIZE) = unat p + 4096"
    using unat_lt32 [of e] by (subst unat_add_lem [THEN iffD1]) (simp_all add: PGSIZE_def)
  have key: "p \<le> q \<longleftrightarrow> q = p \<or> p + PGSIZE \<le> q" if "q mod PGSIZE = 0" for q
  proof -
    have "4096 dvd unat p" "4096 dvd unat q"
      using assms that by (simp_all add: aligned_unat dvd_eq_mod_eq_0)
    then have "unat p \<le> unat q \<longleftrightarrow> unat q = unat p \<or> unat p + 4096 \<le> unat q"
      by (auto simp: dvd_def)
    then show ?thesis
      by (auto simp: word_le_nat_alt s intro: unsigned_word_eqI)
  qed
  have "x \<in> range_pages p e \<longleftrightarrow> x \<in> insert p (range_pages (p + PGSIZE) e)" for x
    using key [of x] assms le unfolding range_pages_def
    by (cases "x mod PGSIZE = 0"; cases "x = p") simp_all
  then show "range_pages p e = insert p (range_pages (p + PGSIZE) e)"
    by blast
qed

lemma page_okI:
  assumes "v mod PGSIZE = 0" and "e \<le> v" and "KERNBASE \<le> v" and "v < KERNBASE + PHYSTOP"
  shows "page_ok e v"
proof -
  have "unat v < unat KERNBASE + unat PHYSTOP"
    using assms(4) by (simp add: word_less_nat_alt KERNBASE_def PHYSTOP_def)
  then have "V2P v < PHYSTOP"
    using assms(3) by (simp add: V2P_def word_less_nat_alt word_le_nat_alt unat_sub)
  then show ?thesis using assms by (simp add: page_ok_def)
qed

lemma freerange_loop_pool:
  assumes "p mod PGSIZE = 0" and "kend s \<le> p" and "KERNBASE \<le> p" and "p \<le> KERNBASE + PHYSTOP"
    and "e \<le> KERNBASE + PHYSTOP" and "kmem_pool s F" and "F \<inter> range_pages p e = {}"
    and "(unat e - unat p) div 4096 < n"
  shows "\<exists>t. freerange_loop n p e s = Done () t \<and> kmem_pool t (F \<union> range_pages p e) \<and> kmem_step s t"
  using assms
proof (induction n arbitrary: p s F)
  case 0
  then show ?case by simp
next
  case (Suc n)
  have p: "unat (p + PGSIZE) = unat p + 4096"
    using Suc.prems(4) by (subst unat_add_lem [THEN iffD1]) (simp_all add: PGSIZE_def word_le_nat_alt KERNBASE_def PHYSTOP_def)
  show ?case
  proof (cases "unat p + 4096 \<le> unat e")
    case False
    then show ?thesis
      using Suc.prems p pages.step_refl by (simp add: range_pages_step word_le_nat_alt)
  next
    case True
    then have "p < KERNBASE + PHYSTOP"
      using Suc.prems(5) by (simp add: word_less_nat_alt word_le_nat_alt)
    then have ok: "page_ok (kend s) p"
      using Suc.prems by (intro page_okI) simp_all
    have rp: "range_pages p e = insert p (range_pages (p + PGSIZE) e)"
      using True Suc.prems(1) by (rule range_pages_step(1) [rotated])
    have np: "p \<notin> range_pages (p + PGSIZE) e"
      by (simp add: range_pages_def word_le_nat_alt p)
    from kfree_pool [OF Suc.prems(6) ok] Suc.prems(7) rp obtain t where t: "kfree p s = Done () t"
      "kmem_pool t (insert p F)" "kmem_step s t" by auto
    have al: "(p + PGSIZE) mod PGSIZE = 0"
      using Suc.prems(1) p by (simp add: aligned_unat)
    have "\<exists>u. freerange_loop n (p + PGSIZE) e t = Done () u
        \<and> kmem_pool u (insert p F \<union> range_pages (p + PGSIZE) e) \<and> kmem_step t u"
    proof (rule Suc.IH [OF al _ _ _ Suc.prems(5) t(2)])
      show "kend t \<le> p + PGSIZE" "KERNBASE \<le> p + PGSIZE"
        using Suc.prems(2,3) kmem_stepD(2) [OF t(3)] p by (simp_all add: word_le_nat_alt)
      show "p + PGSIZE \<le> KERNBASE + PHYSTOP"
        using True Suc.prems(5) p by (simp add: word_le_nat_alt)
      show "insert p F \<inter> range_pages (p + PGSIZE) e = {}"
        using Suc.prems(7) rp np by auto
      show "(unat e - unat (p + PGSIZE)) div 4096 < n"
        using Suc.prems(8) True p by simp
    qed
    then obtain u where u: "freerange_loop n (p + PGSIZE) e t = Done () u"
      "kmem_pool u (insert p F \<union> range_pages (p + PGSIZE) e)" "kmem_step t u" by blast
    then show ?thesis
      using t True p rp kmem_step_trans [OF t(3) u(3)] by (auto simp: word_le_nat_alt seqk_Done)
  qed
qed

lemma unat_PGROUNDDOWN: "unat (PGROUNDDOWN a) = unat a div 4096 * 4096"
proof -
  have m: "(PGSIZE - 1 :: u32) = mask 12"
    by (simp add: PGSIZE_def mask_eq_exp_minus_1)
  have "PGROUNDDOWN a = push_bit 12 (drop_bit 12 a)"
    unfolding PGROUNDDOWN_def m by (rule bit_word_eqI) (auto simp: bit_simps)
  also have "\<dots> = a div 4096 * 4096"
    by (simp add: push_bit_eq_mult drop_bit_eq_div)
  finally show ?thesis
    using unat_lt32 [of a]
    by simp (subst unat_mult_lem [THEN iffD1], simp_all add: unat_div_distrib order_le_less_trans [OF div_times_less_eq_dividend])
qed

lemma PGROUNDUP_eq: "PGROUNDUP a = PGROUNDDOWN (a + PGSIZE - 1)"
  by (simp add: PGROUNDUP_def PGROUNDDOWN_def)

lemma PGROUNDUP_props:
  assumes "unat a + 4095 < 4294967296"
  shows "PGROUNDUP a mod PGSIZE = 0" and "a \<le> PGROUNDUP a" and "unat (PGROUNDUP a) < unat a + 4096"
proof -
  have "unat (a + PGSIZE - 1) = unat a + 4095"
    using assms by (simp add: PGSIZE_def) (subst unat_add_lem [THEN iffD1], simp_all)
  then have "unat (PGROUNDUP a) = (unat a + 4095) div 4096 * 4096"
    by (simp add: PGROUNDUP_eq unat_PGROUNDDOWN)
  then show "PGROUNDUP a mod PGSIZE = 0" "a \<le> PGROUNDUP a" "unat (PGROUNDUP a) < unat a + 4096"
    by (simp_all add: aligned_unat word_le_nat_alt)
qed

section \<open>Properties\<close>

text \<open>C5: \<open>kalloc\<close> never hands out a page twice. From a pool of free pages \<open>F\<close> it returns either
  0, exactly when \<open>F\<close> is empty, or a page of \<open>F\<close> that the pool then no longer has; memory is
  unchanged and the locks end as they began.\<close>

theorem kalloc_contract:
  assumes "kmem_pool s F"
  shows "\<exists>p t. kalloc s = Done p t \<and> kmem_pool t (F - {p}) \<and> mem t = mem s \<and> quiet s t
    \<and> (if F = {} then p = 0 else p \<in> F \<and> page_ok (kend s) p)"
  using assms
proof (cases rule: pages.alloc_cases)
  case (empty t)
  then show ?thesis using kmem_stepD(5) [OF empty(4)] by auto
next
  case (page p t)
  then show ?thesis using kmem_stepD(5) [OF page(6)] by auto
qed

text \<open>C6: \<open>kfree\<close> returns an allocated page to the pool. It does not panic on a page of the
  managed range, the pool grows by that page, and no byte outside the page changes.\<close>

theorem kfree_contract:
  assumes "kmem_pool s F" and "page_ok (kend s) v" and "v \<notin> F"
  shows "\<exists>t. kfree v s = Done () t \<and> kmem_pool t (insert v F) \<and> quiet s t
    \<and> (\<forall>a. \<not> in_page v a \<longrightarrow> mem t a = mem s a)"
  using kfree_pool [OF assms] kmem_stepD(5) by blast

text \<open>\<open>kinit1\<close> builds the pool. Started on an empty free list it frees every whole page
  between \<open>vstart\<close> and \<open>vend\<close>: the loop of \<open>freerange\<close> ends, without a panic, and the pool is
  exactly the set of those pages.\<close>

theorem kinit1_pool:
  assumes "freelist s = 0" and "kend s \<le> vstart" and "KERNBASE \<le> vstart" and "vstart \<le> vend"
    and "vend \<le> KERNBASE + PHYSTOP"
  shows "\<exists>t. kinit1 vstart vend s = Done () t \<and> kmem_pool t (range_pages (PGROUNDUP vstart) vend)"
proof -
  let ?p = "PGROUNDUP vstart"
  let ?s = "(upd_lock KmemLk (\<lambda>lk. lk\<lparr>lk_name := ''kmem'', lk_locked := 0, lk_cpu := None\<rparr>) s)\<lparr>use_lock := 0\<rparr>"
  have le: "unat vstart \<le> unat vend" "unat vend \<le> 0x8E000000"
    using assms(4,5) by (simp_all add: word_le_nat_alt KERNBASE_def PHYSTOP_def)
  then have p: "?p mod PGSIZE = 0" "vstart \<le> ?p" "unat ?p < unat vstart + 4096"
    using PGROUNDUP_props [of vstart] by simp_all
  from p(1) obtain j where "unat ?p = 4096 * j"
    by (auto simp: aligned_unat dvd_def simp flip: dvd_eq_mod_eq_0)
  then have top: "?p \<le> KERNBASE + PHYSTOP"
    using p(3) le by (simp add: word_le_nat_alt KERNBASE_def PHYSTOP_def)
  have "kmem_pool ?s {}"
    using assms(1) by (simp add: kmem_pool_def kmem_ready_def free_chain_def upd_lock_def)
  moreover have "kend ?s = kend s" by (simp add: upd_lock_def)
  moreover have "(unat vend - unat ?p) div 4096 < 2 ^ 20"
    using le by (simp add: div_less_iff_less_mult)
  ultimately have "\<exists>t. freerange_loop (2 ^ 20) ?p vend ?s = Done () t
      \<and> kmem_pool t ({} \<union> range_pages ?p vend) \<and> kmem_step ?s t"
    using assms p top by (intro freerange_loop_pool) auto
  then show ?thesis
    by (simp add: kinit1_def initlock_def freerange_def) blast
qed

text \<open>A machine whose allocator has the single free page at \<open>p\<close> (none for 0).\<close>

definition idle_kmem :: "u32 \<Rightarrow> kmem" where
  "idle_kmem p = conout.extend idle_con (kmem.fields 1 p 0x80100000)"

lemma idle_kmem_sel [simp]:
  "use_lock (idle_kmem p) = 1" "freelist (idle_kmem p) = p" "kend (idle_kmem p) = 0x80100000"
  "mem (idle_kmem p) = (\<lambda>_. 0)" "cur_cpu (idle_kmem p) = 0"
  by (simp_all add: idle_kmem_def idle_con_def idle_mach_def mach.defs conout.defs kmem.defs)

lemma idle_kmem_ready: "kmem_ready (idle_kmem p)"
  by (simp add: kmem_ready_def lk_free_def cpu_wf_def idle_kmem_def idle_con_def idle_mach_def
      idle_cpu_def free_lock_def mach.defs conout.defs kmem.defs)

lemma idle_page: "page_ok 0x80100000 0x80400000"
  by (simp add: page_ok_def PGSIZE_def V2P_def KERNBASE_def PHYSTOP_def)

lemma idle_kmem_pool: "kmem_pool (idle_kmem 0x80400000) {0x80400000}" "kmem_pool (idle_kmem 0) {}"
proof -
  have "free_chain (idle_kmem 0x80400000) [0x80400000]" "free_chain (idle_kmem 0) []"
    using idle_page by (simp_all add: free_chain_def load32_def)
  then show "kmem_pool (idle_kmem 0x80400000) {0x80400000}" "kmem_pool (idle_kmem 0) {}"
    using idle_kmem_ready unfolding kmem_pool_def by (metis list.set)+
qed

theorem kalloc_contract_witness:
  "\<exists>t. kalloc (idle_kmem 0x80400000) = Done 0x80400000 t \<and> kmem_pool t {}"
  using kalloc_contract [OF idle_kmem_pool(1)] by auto

theorem kfree_contract_witness:
  "\<exists>t. kfree 0x80400000 (idle_kmem 0) = Done () t \<and> kmem_pool t {0x80400000}"
  using kfree_contract [OF idle_kmem_pool(2), of "0x80400000"] idle_page by auto

theorem kinit1_pool_witness:
  "\<exists>t. kinit1 0x80100010 0x80104000 (idle_kmem 0) = Done () t
    \<and> kmem_pool t (range_pages 0x80101000 0x80104000)"
proof -
  have "PGROUNDUP 0x80100010 = 0x80101000"
    by (simp add: PGROUNDUP_def PGSIZE_def)
  then show ?thesis
    using kinit1_pool [of "idle_kmem 0" "0x80100010" "0x80104000"]
    by (simp add: KERNBASE_def PHYSTOP_def)
qed

end
