(* ===== verification/Vm.thy ===== *)
theory Vm
  imports Kalloc
begin

text \<open>
  The page tables of \<open>src/vm.c\<close> with the macros of \<open>src/mmu.h\<close>: two-level tables in kernel
  memory, read and written word by word. Addresses above \<open>KERNBASE\<close> are mapped one to one, so
  the kernel's own loads and stores go to \<^const>\<open>mem\<close> directly; user addresses are translated
  by the hardware walk \<open>translate\<close>. Loops carry a bound on their iterations that exceeds the
  number of pages of the address space; a loop that runs past it does not return.
\<close>

section \<open>mmu.h\<close>

definition PTE_P :: u32 where "PTE_P = 0x001"
definition PTE_W :: u32 where "PTE_W = 0x002"
definition PTE_U :: u32 where "PTE_U = 0x004"

definition PTE_ADDR :: "u32 \<Rightarrow> u32" where
  "PTE_ADDR pte = pte AND NOT 0xFFF"

definition PTE_FLAGS :: "u32 \<Rightarrow> u32" where
  "PTE_FLAGS pte = pte AND 0xFFF"

definition PDX :: "u32 \<Rightarrow> u32" where
  "PDX va = drop_bit 22 va AND 0x3FF"

definition PTX :: "u32 \<Rightarrow> u32" where
  "PTX va = drop_bit 12 va AND 0x3FF"

definition EXTMEM :: u32 where "EXTMEM = 0x100000"
definition KERNLINK :: u32 where "KERNLINK = KERNBASE + EXTMEM"
definition DEVSPACE :: u32 where "DEVSPACE = 0xFE000000"
definition KSTACKSIZE :: u32 where "KSTACKSIZE = 4096"

definition NPDENTRIES :: nat where "NPDENTRIES = 1024"
definition NPTENTRIES :: u32 where "NPTENTRIES = 1024"

definition SEG_KCODE :: nat where "SEG_KCODE = 1"
definition SEG_KDATA :: nat where "SEG_KDATA = 2"
definition SEG_KCPU :: nat where "SEG_KCPU = 3"
definition SEG_UCODE :: nat where "SEG_UCODE = 4"
definition SEG_UDATA :: nat where "SEG_UDATA = 5"
definition SEG_TSS :: nat where "SEG_TSS = 6"

definition DPL_USER :: u32 where "DPL_USER = 3"
definition STA_X :: u32 where "STA_X = 8"
definition STA_W :: u32 where "STA_W = 2"
definition STA_R :: u32 where "STA_R = 2"
definition STS_T32A :: u32 where "STS_T32A = 9"

definition SEG :: "u32 \<Rightarrow> u32 \<Rightarrow> u32 \<Rightarrow> u32 \<Rightarrow> segdesc" where
  "SEG ty base lim dpl = \<lparr>lim_15_0 = drop_bit 12 lim AND 0xffff, base_15_0 = base AND 0xffff,
     base_23_16 = drop_bit 16 base AND 0xff, sd_type = ty, sd_s = 1, sd_dpl = dpl, sd_p = 1,
     lim_19_16 = drop_bit 28 lim, sd_avl = 0, sd_rsv1 = 0, sd_db = 1, sd_g = 1,
     base_31_24 = drop_bit 24 base\<rparr>"

definition SEG16 :: "u32 \<Rightarrow> u32 \<Rightarrow> u32 \<Rightarrow> u32 \<Rightarrow> segdesc" where
  "SEG16 ty base lim dpl = \<lparr>lim_15_0 = lim AND 0xffff, base_15_0 = base AND 0xffff,
     base_23_16 = drop_bit 16 base AND 0xff, sd_type = ty, sd_s = 1, sd_dpl = dpl, sd_p = 1,
     lim_19_16 = drop_bit 16 lim, sd_avl = 0, sd_rsv1 = 0, sd_db = 1, sd_g = 0,
     base_31_24 = drop_bit 24 base\<rparr>"

section \<open>State\<close>

text \<open>\<open>kdata\<close> is the linker's symbol \<open>data\<close>; \<open>ts_addr c\<close> and \<open>cpu_addr c\<close> are the addresses of
  \<open>cpus[c].ts\<close> and \<open>cpus[c].cpu\<close>.\<close>

record vmst = kmem +
  kpgdir :: u32
  kdata :: u32
  ts_addr :: "nat \<Rightarrow> u32"
  cpu_addr :: "nat \<Rightarrow> u32"

section \<open>Page tables\<close>

definition seginit :: "('a vmst_scheme, unit) kop" where
  "seginit = modk (\<lambda>s. upd_cpu (\<lambda>c. c\<lparr>gdt := (gdt c)(
      SEG_KCODE := SEG (STA_X OR STA_R) 0 0xffffffff 0,
      SEG_KDATA := SEG STA_W 0 0xffffffff 0,
      SEG_UCODE := SEG (STA_X OR STA_R) 0 0xffffffff DPL_USER,
      SEG_UDATA := SEG STA_W 0 0xffffffff DPL_USER,
      SEG_KCPU := SEG STA_W (cpu_addr s (cur_cpu s)) 8 0), cproc := None\<rparr>) s)"

definition walkpgdir :: "u32 \<Rightarrow> u32 \<Rightarrow> bool \<Rightarrow> ('a vmst_scheme, u32) kop" where
  "walkpgdir pgdir va alloc = (let pde = pgdir + 4 * PDX va in
     bindk (getk (\<lambda>s. load32 (mem s) pde)) (\<lambda>e.
       if e AND PTE_P \<noteq> 0 then retk (P2V (PTE_ADDR e) + 4 * PTX va)
       else if \<not> alloc then retk 0
       else bindk kalloc (\<lambda>pgtab.
         if pgtab = 0 then retk 0
         else seqk (modk (\<lambda>s. s\<lparr>mem := memset (mem s) pgtab 0 PGSIZE\<rparr>))
           (seqk (modk (\<lambda>s. s\<lparr>mem := store32 (mem s) pde (V2P pgtab OR PTE_P OR PTE_W OR PTE_U)\<rparr>))
             (retk (pgtab + 4 * PTX va))))))"

fun mappages_loop :: "nat \<Rightarrow> u32 \<Rightarrow> u32 \<Rightarrow> u32 \<Rightarrow> u32 \<Rightarrow> u32 \<Rightarrow> ('a vmst_scheme, i32) kop" where
  "mappages_loop 0 pgdir a lst pa perm = (\<lambda>_. Spin)"
| "mappages_loop (Suc n) pgdir a lst pa perm =
     bindk (walkpgdir pgdir a True) (\<lambda>pte.
       if pte = 0 then retk (- 1)
       else bindk (getk (\<lambda>s. load32 (mem s) pte)) (\<lambda>e.
         if e AND PTE_P \<noteq> 0 then panick ''remap''
         else seqk (modk (\<lambda>s. s\<lparr>mem := store32 (mem s) pte (pa OR perm OR PTE_P)\<rparr>))
           (if a = lst then retk 0
            else mappages_loop n pgdir (a + PGSIZE) lst (pa + PGSIZE) perm)))"

definition mappages :: "u32 \<Rightarrow> u32 \<Rightarrow> u32 \<Rightarrow> u32 \<Rightarrow> u32 \<Rightarrow> ('a vmst_scheme, i32) kop" where
  "mappages pgdir va sz pa perm =
     mappages_loop (2 ^ 20) pgdir (PGROUNDDOWN va) (PGROUNDDOWN (va + sz - 1)) pa perm"

text \<open>The table \<open>kmap\<close>: \<open>virt\<close>, \<open>phys_start\<close>, \<open>phys_end\<close> and \<open>perm\<close> of each mapping.\<close>

definition kmap :: "'a vmst_scheme \<Rightarrow> (u32 \<times> u32 \<times> u32 \<times> u32) list" where
  "kmap s = [(KERNBASE, 0, EXTMEM, PTE_W), (KERNLINK, V2P KERNLINK, V2P (kdata s), 0),
     (kdata s, V2P (kdata s), PHYSTOP, PTE_W), (DEVSPACE, DEVSPACE, 0, PTE_W)]"

fun kmap_loop :: "u32 \<Rightarrow> (u32 \<times> u32 \<times> u32 \<times> u32) list \<Rightarrow> ('a vmst_scheme, u32) kop" where
  "kmap_loop pgdir [] = retk pgdir"
| "kmap_loop pgdir ((virt, phys_start, phys_end, perm) # ks) =
     bindk (mappages pgdir virt (phys_end - phys_start) phys_start perm) (\<lambda>r.
       if sint r < 0 then retk 0 else kmap_loop pgdir ks)"

definition setupkvm :: "('a vmst_scheme, u32) kop" where
  "setupkvm = bindk kalloc (\<lambda>pgdir.
     if pgdir = 0 then retk 0
     else seqk (modk (\<lambda>s. s\<lparr>mem := memset (mem s) pgdir 0 PGSIZE\<rparr>))
       (if P2V PHYSTOP > DEVSPACE then panick ''PHYSTOP too high''
        else bindk (getk kmap) (kmap_loop pgdir)))"

definition lcr3 :: "u32 \<Rightarrow> ('a mach_scheme, unit) kop" where
  "lcr3 v = modk (upd_cpu (\<lambda>c. c\<lparr>cr3 := v\<rparr>))"

definition switchkvm :: "('a vmst_scheme, unit) kop" where
  "switchkvm = bindk (getk kpgdir) (\<lambda>d. lcr3 (V2P d))"

definition kvmalloc :: "('a vmst_scheme, unit) kop" where
  "kvmalloc = bindk setupkvm (\<lambda>d. seqk (modk (\<lambda>s. s\<lparr>kpgdir := d\<rparr>)) switchkvm)"

text \<open>\<open>switchuvm(p)\<close> with \<open>proc->kstack\<close> and \<open>p->pgdir\<close> as arguments; \<open>sizeof(cpu->ts)\<close> is 104.\<close>

definition switchuvm :: "u32 \<Rightarrow> u32 \<Rightarrow> ('a vmst_scheme, unit) kop" where
  "switchuvm kstack pgdir = seqk pushcli
     (seqk (modk (\<lambda>s. upd_cpu (\<lambda>c. c\<lparr>gdt := (gdt c)(SEG_TSS :=
          (SEG16 STS_T32A (ts_addr s (cur_cpu s)) (104 - 1) 0)\<lparr>sd_s := 0\<rparr>),
        ts_ss0 := of_nat SEG_KDATA * 8, ts_esp0 := kstack + KSTACKSIZE, ts_iomb := 0xFFFF,
        tr := of_nat SEG_TSS * 8\<rparr>) s))
     (if pgdir = 0 then panick ''switchuvm: no pgdir''
      else seqk (lcr3 (V2P pgdir)) popcli))"

definition inituvm :: "u32 \<Rightarrow> u32 \<Rightarrow> u32 \<Rightarrow> ('a vmst_scheme, unit) kop" where
  "inituvm pgdir init sz =
     (if sz \<ge> PGSIZE then panick ''inituvm: more than a page''
      else bindk kalloc (\<lambda>m.
        seqk (modk (\<lambda>s. s\<lparr>mem := memset (mem s) m 0 PGSIZE\<rparr>))
        (seqk (mappages pgdir 0 PGSIZE (V2P m) (PTE_W OR PTE_U))
          (modk (\<lambda>s. s\<lparr>mem := memmove (mem s) m init sz\<rparr>)))))"

section \<open>User memory\<close>

fun deallocuvm_loop :: "nat \<Rightarrow> u32 \<Rightarrow> u32 \<Rightarrow> u32 \<Rightarrow> ('a vmst_scheme, unit) kop" where
  "deallocuvm_loop 0 pgdir a oldsz = (\<lambda>_. Spin)"
| "deallocuvm_loop (Suc n) pgdir a oldsz =
     (if \<not> a < oldsz then retk ()
      else bindk (walkpgdir pgdir a False) (\<lambda>pte.
        if pte = 0 then deallocuvm_loop n pgdir (a + (NPTENTRIES - 1) * PGSIZE + PGSIZE) oldsz
        else bindk (getk (\<lambda>s. load32 (mem s) pte)) (\<lambda>e.
          if e AND PTE_P \<noteq> 0 then
            (if PTE_ADDR e = 0 then panick ''kfree''
             else seqk (kfree (P2V (PTE_ADDR e)))
               (seqk (modk (\<lambda>s. s\<lparr>mem := store32 (mem s) pte 0\<rparr>))
                 (deallocuvm_loop n pgdir (a + PGSIZE) oldsz)))
          else deallocuvm_loop n pgdir (a + PGSIZE) oldsz)))"

definition deallocuvm :: "u32 \<Rightarrow> u32 \<Rightarrow> u32 \<Rightarrow> ('a vmst_scheme, u32) kop" where
  "deallocuvm pgdir oldsz newsz =
     (if newsz \<ge> oldsz then retk oldsz
      else seqk (deallocuvm_loop (2 ^ 20) pgdir (PGROUNDUP newsz) oldsz) (retk newsz))"

fun allocuvm_loop :: "nat \<Rightarrow> u32 \<Rightarrow> u32 \<Rightarrow> u32 \<Rightarrow> u32 \<Rightarrow> ('a vmst_scheme, u32) kop" where
  "allocuvm_loop 0 pgdir a oldsz newsz = (\<lambda>_. Spin)"
| "allocuvm_loop (Suc n) pgdir a oldsz newsz =
     (if \<not> a < newsz then retk newsz
      else bindk kalloc (\<lambda>m.
        if m = 0 then
          seqk (cprintf (Some (''allocuvm out of memory'' @ [CHR 0x0A])) [])
            (seqk (deallocuvm pgdir newsz oldsz) (retk 0))
        else seqk (modk (\<lambda>s. s\<lparr>mem := memset (mem s) m 0 PGSIZE\<rparr>))
          (bindk (mappages pgdir a PGSIZE (V2P m) (PTE_W OR PTE_U)) (\<lambda>r.
            if sint r < 0 then
              seqk (cprintf (Some (''allocuvm out of memory (2)'' @ [CHR 0x0A])) [])
                (seqk (deallocuvm pgdir newsz oldsz) (seqk (kfree m) (retk 0)))
            else allocuvm_loop n pgdir (a + PGSIZE) oldsz newsz))))"

definition allocuvm :: "u32 \<Rightarrow> u32 \<Rightarrow> u32 \<Rightarrow> ('a vmst_scheme, u32) kop" where
  "allocuvm pgdir oldsz newsz =
     (if newsz \<ge> KERNBASE then retk 0
      else if newsz < oldsz then retk oldsz
      else allocuvm_loop (2 ^ 20) pgdir (PGROUNDUP oldsz) oldsz newsz)"

definition freevm :: "u32 \<Rightarrow> ('a vmst_scheme, unit) kop" where
  "freevm pgdir =
     (if pgdir = 0 then panick ''freevm: no pgdir''
      else seqk (deallocuvm pgdir KERNBASE 0)
        (seqk (forallk (\<lambda>i. bindk (getk (\<lambda>s. load32 (mem s) (pgdir + 4 * of_nat i))) (\<lambda>e.
             unlessk (e AND PTE_P = 0) (kfree (P2V (PTE_ADDR e))))) [0..<NPDENTRIES])
          (kfree pgdir)))"

definition clearpteu :: "u32 \<Rightarrow> u32 \<Rightarrow> ('a vmst_scheme, unit) kop" where
  "clearpteu pgdir uva = bindk (walkpgdir pgdir uva False) (\<lambda>pte.
     if pte = 0 then panick ''clearpteu''
     else modk (\<lambda>s. s\<lparr>mem := store32 (mem s) pte (load32 (mem s) pte AND NOT PTE_U)\<rparr>))"

fun copyuvm_loop :: "nat \<Rightarrow> u32 \<Rightarrow> u32 \<Rightarrow> u32 \<Rightarrow> u32 \<Rightarrow> ('a vmst_scheme, u32) kop" where
  "copyuvm_loop 0 d pgdir i sz = (\<lambda>_. Spin)"
| "copyuvm_loop (Suc n) d pgdir i sz =
     (if \<not> i < sz then retk d
      else bindk (walkpgdir pgdir i False) (\<lambda>pte.
        if pte = 0 then panick ''copyuvm: pte should exist''
        else bindk (getk (\<lambda>s. load32 (mem s) pte)) (\<lambda>e.
          if e AND PTE_P = 0 then panick ''copyuvm: page not present''
          else bindk kalloc (\<lambda>m.
            if m = 0 then seqk (freevm d) (retk 0)
            else seqk (modk (\<lambda>s. s\<lparr>mem := memmove (mem s) m (P2V (PTE_ADDR e)) PGSIZE\<rparr>))
              (bindk (mappages d i PGSIZE (V2P m) (PTE_FLAGS e)) (\<lambda>r.
                if sint r < 0 then seqk (freevm d) (retk 0)
                else copyuvm_loop n d pgdir (i + PGSIZE) sz))))))"

definition copyuvm :: "u32 \<Rightarrow> u32 \<Rightarrow> ('a vmst_scheme, u32) kop" where
  "copyuvm pgdir sz = bindk setupkvm (\<lambda>d.
     if d = 0 then retk 0 else copyuvm_loop (2 ^ 20 + 1) d pgdir 0 sz)"

text \<open>
  The hardware's translation of a user address. A kernel access to an address that is not
  mapped traps, and \<open>trap\<close> panics.
\<close>

definition translate :: "memory \<Rightarrow> u32 \<Rightarrow> u32 \<Rightarrow> u32 option" where
  "translate m pgdir va = (let e = load32 m (pgdir + 4 * PDX va) in
     if e AND PTE_P = 0 then None
     else let p = load32 m (P2V (PTE_ADDR e) + 4 * PTX va) in
       if p AND PTE_P = 0 then None else Some (P2V (PTE_ADDR p) + (va AND 0xFFF)))"

definition cur_pgdir :: "'a mach_scheme \<Rightarrow> u32" where
  "cur_pgdir s = P2V (cr3 (thiscpu s))"

definition ubyte :: "'a mach_scheme \<Rightarrow> u32 \<Rightarrow> u8 option" where
  "ubyte s va = map_option (mem s) (translate (mem s) (cur_pgdir s) va)"

definition uload32 :: "u32 \<Rightarrow> ('a mach_scheme, u32) kop" where
  "uload32 va s = (case (ubyte s va, ubyte s (va + 1), ubyte s (va + 2), ubyte s (va + 3)) of
       (Some a, Some b, Some c, Some d) \<Rightarrow>
         Done (ucast a OR push_bit 8 (ucast b) OR push_bit 16 (ucast c) OR push_bit 24 (ucast d)) s
     | _ \<Rightarrow> Panic ''trap'')"

text \<open>\<open>uva2ka\<close> reads through \<open>pte\<close> without a test for 0: the load is then from user address 0.\<close>

definition uva2ka :: "u32 \<Rightarrow> u32 \<Rightarrow> ('a vmst_scheme, u32) kop" where
  "uva2ka pgdir uva = bindk (walkpgdir pgdir uva False) (\<lambda>pte.
     bindk (if pte = 0 then uload32 0 else getk (\<lambda>s. load32 (mem s) pte)) (\<lambda>e.
       if e AND PTE_P = 0 then retk 0
       else if e AND PTE_U = 0 then retk 0
       else retk (P2V (PTE_ADDR e))))"

fun copyout_loop :: "nat \<Rightarrow> u32 \<Rightarrow> u32 \<Rightarrow> u32 \<Rightarrow> u32 \<Rightarrow> ('a vmst_scheme, i32) kop" where
  "copyout_loop 0 pgdir va buf len = (\<lambda>_. Spin)"
| "copyout_loop (Suc k) pgdir va buf len =
     (if \<not> len > 0 then retk 0
      else let va0 = PGROUNDDOWN va in
        bindk (uva2ka pgdir va0) (\<lambda>pa0.
          if pa0 = 0 then retk (- 1)
          else let n = PGSIZE - (va - va0); n = (if n > len then len else n) in
            seqk (modk (\<lambda>s. s\<lparr>mem := memmove (mem s) (pa0 + (va - va0)) buf n\<rparr>))
              (copyout_loop k pgdir (va0 + PGSIZE) (buf + n) (len - n))))"

definition copyout :: "u32 \<Rightarrow> u32 \<Rightarrow> u32 \<Rightarrow> u32 \<Rightarrow> ('a vmst_scheme, i32) kop" where
  "copyout pgdir va p len = copyout_loop (2 ^ 20 + 2) pgdir va p len"

end
