(* ===== verification/Proc.thy ===== *)
theory Proc
  imports Vm
begin

text \<open>
  The process table of \<open>src/proc.h\<close> and \<open>src/proc.c\<close>: allocation of a slot, the priority
  scheduler and the round-robin one it replaces, \<open>sched\<close>, \<open>yield\<close>, \<open>sleep\<close> and \<open>wakeup\<close>,
  \<open>kill\<close> and the process listing. A process is an index of the table. A routine that gives up
  the CPU ends in the outcome \<^const>\<open>Switch\<close>; what it does when it is scheduled again is a
  definition of its own (\<open>sched_resume\<close> and so on).
\<close>

section \<open>State\<close>

definition NPROC :: nat where "NPROC = 64"
definition NOFILE :: nat where "NOFILE = 16"

datatype procstate = UNUSED | EMBRYO | SLEEPING | RUNNABLE | RUNNING | ZOMBIE

record trapframe =
  tf_edi :: u32
  tf_esi :: u32
  tf_ebp :: u32
  tf_oesp :: u32
  tf_ebx :: u32
  tf_edx :: u32
  tf_ecx :: u32
  tf_eax :: u32
  tf_gs :: u16
  tf_fs :: u16
  tf_es :: u16
  tf_ds :: u16
  tf_trapno :: u32
  tf_err :: u32
  tf_eip :: u32
  tf_cs :: u16
  tf_eflags :: u32
  tf_esp :: u32
  tf_ss :: u16

record ucontext =
  ctx_edi :: u32
  ctx_esi :: u32
  ctx_ebx :: u32
  ctx_ebp :: u32
  ctx_eip :: u32

text \<open>Sleep channels, in place of the addresses the code passes to \<open>sleep\<close> and \<open>wakeup\<close>.\<close>

datatype chan = ProcCh nat | TicksCh | InputCh | PipeReadCh u32 | PipeWriteCh u32 | BufCh nat
  | SleepLkCh slid | LogCh

text \<open>
  \<open>struct proc\<close>. The trap frame and the saved context are the structures its pointers refer
  to. \<open>p_name\<close> is the string in the 16-byte buffer \<open>name\<close>. \<open>p_intena\<close> is the local variable
  \<open>intena\<close> of \<open>sched\<close> on the process's kernel stack.
\<close>

record proc =
  p_sz :: u32
  p_pgdir :: u32
  p_kstack :: u32
  p_state :: procstate
  p_pid :: i32
  p_parent :: "nat option"
  p_tf :: trapframe
  p_context :: ucontext
  p_chan :: "chan option"
  p_killed :: i32
  p_ofile :: "nat \<Rightarrow> nat option"
  p_cwd :: "nat option"
  p_name :: string
  p_nice :: i32
  p_priority :: i32
  p_original_priority :: i32
  p_straced :: i32
  p_intena :: u32

text \<open>\<open>struct lock\<close> of the priority-inheritance system calls.\<close>

record ulock =
  held :: i32
  holder :: "nat option"

text \<open>\<open>forkret_a\<close> and \<open>trapret_a\<close> are the addresses of those routines, \<open>kregs\<close> the registers
  \<open>swtch\<close> saves.\<close>

record kproc = vmst +
  ptable :: "nat \<Rightarrow> proc"
  nextpid :: i32
  initproc :: "nat option"
  ulocks :: "nat \<Rightarrow> ulock"
  ticks :: u32
  forkret_a :: u32
  trapret_a :: u32
  kregs :: ucontext
  cpunum_n :: i32

definition T_UNSTRACE :: i32 where "T_UNSTRACE = 0"
definition T_STRACE :: i32 where "T_STRACE = 1"
definition T_FORK :: i32 where "T_FORK = 2"

definition upd_proc :: "nat \<Rightarrow> (proc \<Rightarrow> proc) \<Rightarrow> 'a kproc_scheme \<Rightarrow> 'a kproc_scheme" where
  "upd_proc i f s = s\<lparr>ptable := (ptable s)(i := f (ptable s i))\<rparr>"

text \<open>The variable \<open>proc\<close> (\<open>%gs:4\<close>).\<close>

definition curproc :: "'a kproc_scheme \<Rightarrow> nat option" where
  "curproc s = cproc (thiscpu s)"

text \<open>
  \<open>cpunum\<close> of \<open>src/lapic.c\<close> with its static counter \<open>cpunum_n\<close>. The lookup of the local APIC's
  identifier in \<open>cpus\<close> finds the CPU that executes it; \<open>ra\<close> is the caller's return address.
\<close>

definition cpunum :: "u32 \<Rightarrow> ('a kproc_scheme, nat) kop" where
  "cpunum ra = bindk (getk readeflags) (\<lambda>e.
     if e AND FL_IF \<noteq> 0 then
       bindk (getk cpunum_n) (\<lambda>n. seqk (modk (\<lambda>s. s\<lparr>cpunum_n := n + 1\<rparr>))
         (seqk (unlessk (n \<noteq> 0) (cprintf (Some (''cpu called from %x with interrupts enabled'' @ [CHR 0x0A])) [CInt ra]))
           (getk cur_cpu)))
     else getk cur_cpu)"

definition mycpu :: "u32 \<Rightarrow> ('a kproc_scheme, nat) kop" where
  "mycpu ra = cpunum ra"

definition myproc :: "u32 \<Rightarrow> ('a kproc_scheme, nat option) kop" where
  "myproc ra = bindk (mycpu ra) (\<lambda>c. getk (\<lambda>s. cproc (cpus s c)))"

text \<open>Code that reads a field of \<open>proc\<close>; with no process the access traps.\<close>

definition withproc :: "(nat \<Rightarrow> ('a kproc_scheme, 'b) kop) \<Rightarrow> ('a kproc_scheme, 'b) kop" where
  "withproc f = bindk (getk curproc) (\<lambda>r. case r of None \<Rightarrow> panick ''trap'' | Some i \<Rightarrow> f i)"

section \<open>Allocation\<close>

definition pinit :: "('a kproc_scheme, unit) kop" where
  "pinit = initlock PtableLk ''ptable''"

text \<open>The two sizes are \<open>sizeof(struct trapframe)\<close> and \<open>sizeof(struct context)\<close>.\<close>

definition allocproc :: "('a kproc_scheme, nat option) kop" where
  "allocproc = seqk (acquire PtableLk)
     (bindk (getk (\<lambda>s. find_index (\<lambda>i. p_state (ptable s i) = UNUSED) NPROC)) (\<lambda>r. case r of
       None \<Rightarrow> seqk (release PtableLk) (retk None)
     | Some i \<Rightarrow>
         seqk (modk (\<lambda>s. (upd_proc i (\<lambda>p. p\<lparr>p_state := EMBRYO, p_pid := nextpid s,
           p_straced := T_UNSTRACE\<rparr>) s)\<lparr>nextpid := nextpid s + 1\<rparr>))
         (seqk (release PtableLk)
         (seqk (modk (upd_proc i (\<lambda>p. p\<lparr>p_nice := 3, p_priority := 3, p_original_priority := - 1\<rparr>)))
         (bindk kalloc (\<lambda>k.
           seqk (modk (upd_proc i (\<lambda>p. p\<lparr>p_kstack := k\<rparr>)))
           (if k = 0 then seqk (modk (upd_proc i (\<lambda>p. p\<lparr>p_state := UNUSED\<rparr>))) (retk None)
            else seqk (modk (\<lambda>s. s\<lparr>mem := store32 (mem s) (k + KSTACKSIZE - 76 - 4) (trapret_a s)\<rparr>))
              (seqk (modk (\<lambda>s. upd_proc i (\<lambda>p. p\<lparr>p_context := \<lparr>ctx_edi = 0, ctx_esi = 0, ctx_ebx = 0,
                   ctx_ebp = 0, ctx_eip = forkret_a s\<rparr>\<rparr>) s))
                (retk (Some i))))))))))"

section \<open>Scheduling\<close>

text \<open>The scan for the RUNNABLE process with the lowest priority number, the first of them in
  the table.\<close>

fun pick_loop :: "(nat \<Rightarrow> proc) \<Rightarrow> nat list \<Rightarrow> nat option \<Rightarrow> nat option" where
  "pick_loop pt [] best = best"
| "pick_loop pt (p # ps) best =
     (if p_state (pt p) \<noteq> RUNNABLE then pick_loop pt ps best
      else case best of
        None \<Rightarrow> pick_loop pt ps (Some p)
      | Some b \<Rightarrow> if sint (p_priority (pt p)) < sint (p_priority (pt b))
          then pick_loop pt ps (Some p) else pick_loop pt ps (Some b))"

definition pick_priority :: "(nat \<Rightarrow> proc) \<Rightarrow> nat option" where
  "pick_priority pt = pick_loop pt [0..<NPROC] None"

definition dispatch :: "nat \<Rightarrow> ('a kproc_scheme, unit) kop" where
  "dispatch p = seqk (modk (upd_cpu (\<lambda>c. c\<lparr>cproc := Some p\<rparr>)))
     (bindk (getk (\<lambda>s. ptable s p)) (\<lambda>q.
       seqk (switchuvm (p_kstack q) (p_pgdir q))
         (modk (upd_proc p (\<lambda>q. q\<lparr>p_state := RUNNING\<rparr>)))))"

text \<open>The statements before the loop of \<open>scheduler\<close>.\<close>

definition scheduler_enter :: "u32 \<Rightarrow> ('a kproc_scheme, unit) kop" where
  "scheduler_enter ra = bindk (mycpu ra) (\<lambda>c.
     modk (\<lambda>s. s\<lparr>cpus := (cpus s)(c := (cpus s c)\<lparr>cproc := None\<rparr>)\<rparr>))"

text \<open>
  One round of the loop of \<open>scheduler\<close> up to the \<open>swtch\<close> into a process (\<open>Some p\<close>, with
  \<open>ptable.lock\<close> held), or to the end of the round when nothing is RUNNABLE (\<open>None\<close>).
\<close>

definition scheduler :: "('a kproc_scheme, nat option) kop" where
  "scheduler = seqk sti (seqk (acquire PtableLk)
     (bindk (getk (\<lambda>s. pick_priority (ptable s))) (\<lambda>r. case r of
       Some p \<Rightarrow> seqk (dispatch p) (retk (Some p))
     | None \<Rightarrow> seqk (release PtableLk) (retk None))))"

text \<open>The rest of the round, when the process has switched back.\<close>

definition scheduler_resume :: "('a kproc_scheme, unit) kop" where
  "scheduler_resume = seqk switchkvm (seqk (modk (upd_cpu (\<lambda>c. c\<lparr>cproc := None\<rparr>))) (release PtableLk))"

text \<open>The round-robin scheduler that is compiled without \<open>SCHEDULER_PRIORITY\<close>: the inner loop
  from slot \<open>k\<close> on, with the lock held.\<close>

definition pick_rr :: "nat \<Rightarrow> (nat \<Rightarrow> proc) \<Rightarrow> nat option" where
  "pick_rr k pt = List.find (\<lambda>i. p_state (pt i) = RUNNABLE) [k..<NPROC]"

definition scheduler_rr :: "nat \<Rightarrow> ('a kproc_scheme, nat option) kop" where
  "scheduler_rr k = bindk (getk (\<lambda>s. pick_rr k (ptable s))) (\<lambda>r. case r of
       Some p \<Rightarrow> seqk (dispatch p) (retk (Some p))
     | None \<Rightarrow> seqk (release PtableLk) (retk None))"

definition scheduler_rr_start :: "('a kproc_scheme, nat option) kop" where
  "scheduler_rr_start = seqk sti (seqk (acquire PtableLk) (scheduler_rr 0))"

definition scheduler_rr_resume :: "nat \<Rightarrow> ('a kproc_scheme, nat option) kop" where
  "scheduler_rr_resume p = seqk switchkvm
     (seqk (modk (upd_cpu (\<lambda>c. c\<lparr>cproc := None\<rparr>))) (scheduler_rr (Suc p)))"

definition sched :: "('a kproc_scheme, 'b) kop" where
  "sched = bindk (getk (holding PtableLk)) (\<lambda>h.
     if \<not> h then panick ''sched ptable.lock''
     else bindk (getk (\<lambda>s. ncli (thiscpu s))) (\<lambda>n.
       if n \<noteq> 1 then panick ''sched locks''
       else withproc (\<lambda>i. bindk (getk (\<lambda>s. p_state (ptable s i))) (\<lambda>st.
         if st = RUNNING then panick ''sched running''
         else bindk (getk readeflags) (\<lambda>e.
           if e AND FL_IF \<noteq> 0 then panick ''sched interruptible''
           else (\<lambda>s. Switch (upd_proc i (\<lambda>p. p\<lparr>p_intena := intena (thiscpu s), p_context := kregs s\<rparr>) s)))))))"

definition sched_resume :: "('a kproc_scheme, unit) kop" where
  "sched_resume = withproc (\<lambda>i. modk (\<lambda>s. upd_cpu (\<lambda>c. c\<lparr>intena := p_intena (ptable s i)\<rparr>) s))"

definition yield :: "('a kproc_scheme, unit) kop" where
  "yield = seqk (acquire PtableLk)
     (withproc (\<lambda>i. seqk (modk (upd_proc i (\<lambda>p. p\<lparr>p_state := RUNNABLE\<rparr>))) sched))"

definition yield_resume :: "('a kproc_scheme, unit) kop" where
  "yield_resume = seqk sched_resume (release PtableLk)"

section \<open>Sleep and wakeup\<close>

definition sleep :: "chan \<Rightarrow> lockid option \<Rightarrow> ('a kproc_scheme, 'b) kop" where
  "sleep chn lk = bindk (getk curproc) (\<lambda>r. case r of
     None \<Rightarrow> panick ''sleep''
   | Some i \<Rightarrow> (case lk of
       None \<Rightarrow> panick ''sleep without lk''
     | Some l \<Rightarrow>
         seqk (unlessk (l = PtableLk) (seqk (acquire PtableLk) (release l)))
         (seqk (modk (upd_proc i (\<lambda>p. p\<lparr>p_chan := Some chn, p_state := SLEEPING\<rparr>))) sched)))"

definition sleep_resume :: "lockid \<Rightarrow> ('a kproc_scheme, unit) kop" where
  "sleep_resume l = seqk sched_resume
     (withproc (\<lambda>i. seqk (modk (upd_proc i (\<lambda>p. p\<lparr>p_chan := None\<rparr>)))
       (unlessk (l = PtableLk) (seqk (release PtableLk) (acquire l)))))"

definition wake_proc :: "chan option \<Rightarrow> proc \<Rightarrow> proc" where
  "wake_proc chn p = (if p_state p = SLEEPING \<and> p_chan p = chn then p\<lparr>p_state := RUNNABLE\<rparr> else p)"

definition wakeup1 :: "chan option \<Rightarrow> ('a kproc_scheme, unit) kop" where
  "wakeup1 chn = forallk (\<lambda>i. modk (upd_proc i (wake_proc chn))) [0..<NPROC]"

definition wakeup :: "chan \<Rightarrow> ('a kproc_scheme, unit) kop" where
  "wakeup chn = seqk (acquire PtableLk) (seqk (wakeup1 (Some chn)) (release PtableLk))"

definition kill_proc :: "proc \<Rightarrow> proc" where
  "kill_proc p = p\<lparr>p_killed := 1, p_state := (if p_state p = SLEEPING then RUNNABLE else p_state p)\<rparr>"

definition kill :: "i32 \<Rightarrow> ('a kproc_scheme, i32) kop" where
  "kill pid = seqk (acquire PtableLk)
     (bindk (getk (\<lambda>s. find_index (\<lambda>i. p_pid (ptable s i) = pid) NPROC)) (\<lambda>r. case r of
       Some i \<Rightarrow> seqk (modk (upd_proc i kill_proc)) (seqk (release PtableLk) (retk 0))
     | None \<Rightarrow> seqk (release PtableLk) (retk (- 1))))"

section \<open>Process listing\<close>

fun state_name :: "procstate \<Rightarrow> string" where
  "state_name UNUSED = ''unused''"
| "state_name EMBRYO = ''embryo''"
| "state_name SLEEPING = ''sleep ''"
| "state_name RUNNABLE = ''runble''"
| "state_name RUNNING = ''run   ''"
| "state_name ZOMBIE = ''zombie''"

definition procdump_one :: "nat \<Rightarrow> ('a kproc_scheme, unit) kop" where
  "procdump_one i = bindk (getk (\<lambda>s. ptable s i)) (\<lambda>p.
     if p_state p = UNUSED then retk ()
     else seqk (cprintf (Some ''%d %s %s'')
         [CInt (p_pid p), CStr (Some (state_name (p_state p))), CStr (Some (p_name p))])
       (seqk (unlessk (p_state p \<noteq> SLEEPING)
           (bindk (getk (\<lambda>s. getcallerpcs (mem s) (ctx_ebp (p_context p) + 8))) (\<lambda>pcs.
             forallk (\<lambda>pc. cprintf (Some '' %p'') [CInt pc]) (takeWhile (\<lambda>pc. pc \<noteq> 0) pcs))))
         (cprintf (Some [CHR 0x0A]) [])))"

definition procdump :: "('a kproc_scheme, unit) kop" where
  "procdump = forallk procdump_one [0..<NPROC]"

section \<open>The choice of the scheduler\<close>

definition runnable :: "(nat \<Rightarrow> proc) \<Rightarrow> nat \<Rightarrow> bool" where
  "runnable pt i \<longleftrightarrow> i < NPROC \<and> p_state (pt i) = RUNNABLE"

abbreviation prio :: "(nat \<Rightarrow> proc) \<Rightarrow> nat \<Rightarrow> int" where
  "prio pt i \<equiv> sint (p_priority (pt i))"

text \<open>\<open>p\<close> is the first of the most urgent RUNNABLE processes among the slots below \<open>n\<close>.\<close>

definition best_below :: "(nat \<Rightarrow> proc) \<Rightarrow> nat \<Rightarrow> nat \<Rightarrow> bool" where
  "best_below pt n p \<longleftrightarrow> p < n \<and> p_state (pt p) = RUNNABLE
     \<and> (\<forall>q<n. p_state (pt q) = RUNNABLE \<longrightarrow> prio pt p \<le> prio pt q \<and> (q < p \<longrightarrow> prio pt p < prio pt q))"

definition best_opt :: "(nat \<Rightarrow> proc) \<Rightarrow> nat \<Rightarrow> nat option \<Rightarrow> bool" where
  "best_opt pt n r = (case r of None \<Rightarrow> \<forall>q<n. p_state (pt q) \<noteq> RUNNABLE | Some p \<Rightarrow> best_below pt n p)"

lemma best_opt_step:
  assumes "best_opt pt k r"
  shows "best_opt pt (Suc k) (if p_state (pt k) \<noteq> RUNNABLE then r
    else case r of None \<Rightarrow> Some k | Some b \<Rightarrow> if prio pt k < prio pt b then Some k else Some b)"
proof (cases r)
  case None
  then show ?thesis
    using assms by (auto simp: best_opt_def best_below_def less_Suc_eq)
next
  case (Some b)
  then have b: "best_below pt k b"
    using assms by (simp add: best_opt_def)
  show ?thesis
  proof (cases "p_state (pt k) = RUNNABLE \<and> prio pt k < prio pt b")
    case True
    then have "best_below pt (Suc k) k"
      using b unfolding best_below_def less_Suc_eq by force
    then show ?thesis
      using True Some by (simp add: best_opt_def)
  next
    case False
    then have "best_below pt (Suc k) b"
      using b unfolding best_below_def less_Suc_eq by force
    then show ?thesis
      using False Some by (auto simp: best_opt_def)
  qed
qed

lemma pick_loop_best: "k \<le> n \<Longrightarrow> best_opt pt k r \<Longrightarrow> best_opt pt n (pick_loop pt [k..<n] r)"
proof (induction "n - k" arbitrary: k r)
  case 0
  then show ?case by simp
next
  case (Suc d)
  then have lt: "k < n" by simp
  let ?r = "if p_state (pt k) \<noteq> RUNNABLE then r
    else case r of None \<Rightarrow> Some k | Some b \<Rightarrow> if prio pt k < prio pt b then Some k else Some b"
  have "pick_loop pt [k..<n] r = pick_loop pt [Suc k..<n] ?r"
    using lt by (simp add: upt_conv_Cons split: option.splits)
  moreover have "best_opt pt n (pick_loop pt [Suc k..<n] ?r)"
    by (rule Suc.hyps(1)) (use Suc.hyps(2) Suc.prems lt best_opt_step in auto)
  ultimately show ?case by simp
qed

lemma pick_priority_best: "best_opt pt NPROC (pick_priority pt)"
  unfolding pick_priority_def by (rule pick_loop_best) (simp_all add: best_opt_def)

lemma pick_priority_Some:
  assumes "pick_priority pt = Some p"
  shows "runnable pt p" and "\<And>q. runnable pt q \<Longrightarrow> prio pt p \<le> prio pt q"
    and "\<And>q. runnable pt q \<Longrightarrow> q < p \<Longrightarrow> prio pt p < prio pt q"
  using pick_priority_best [of pt] assms by (auto simp: best_opt_def best_below_def runnable_def)

lemma pick_priority_None: "pick_priority pt = None \<longleftrightarrow> (\<forall>q. \<not> runnable pt q)"
  using pick_priority_best [of pt]
  by (auto simp: best_opt_def best_below_def runnable_def split: option.splits)

text \<open>What both schedulers promise about their choice.\<close>

locale sched_policy =
  fixes pick :: "(nat \<Rightarrow> proc) \<Rightarrow> nat option"
  assumes pick_runnable: "pick pt = Some p \<Longrightarrow> runnable pt p"
    and pick_total: "runnable pt q \<Longrightarrow> pick pt \<noteq> None"
begin

lemma pick_None: "pick pt = None \<longleftrightarrow> (\<forall>q. \<not> runnable pt q)"
  using pick_runnable pick_total by (metis not_None_eq)

text \<open>A chosen process that is made RUNNING is not chosen again.\<close>

lemma pick_twice:
  "pick pt = Some p \<Longrightarrow> pick (pt(p := (pt p)\<lparr>p_state := RUNNING\<rparr>)) \<noteq> Some p"
  using pick_runnable [of "pt(p := (pt p)\<lparr>p_state := RUNNING\<rparr>)" p] by (auto simp: runnable_def)

end

interpretation priority_policy: sched_policy pick_priority
  by unfold_locales (auto dest: pick_priority_Some(1) simp: pick_priority_None)

interpretation rr_policy: sched_policy "pick_rr 0"
  by unfold_locales (auto simp: pick_rr_def runnable_def find_None_iff find_Some_iff)


section \<open>Hand-over of ptable.lock\<close>

lemma upd_proc_sel [simp]:
  "ptable (upd_proc i f s) = (ptable s)(i := f (ptable s i))"
  "cpus (upd_proc i f s) = cpus s" "cur_cpu (upd_proc i f s) = cur_cpu s"
  "slocks (upd_proc i f s) = slocks s" "mem (upd_proc i f s) = mem s"
  "kregs (upd_proc i f s) = kregs s" "nextpid (upd_proc i f s) = nextpid s"
  "kpgdir (upd_proc i f s) = kpgdir s" "ts_addr (upd_proc i f s) = ts_addr s"
  by (simp_all add: upd_proc_def)

lemma upd_cpu_sel [simp]:
  "cpus (upd_cpu f s) = (cpus s)(cur_cpu s := f (thiscpu s))" "cur_cpu (upd_cpu f s) = cur_cpu s"
  "slocks (upd_cpu f s) = slocks s" "mem (upd_cpu f s) = mem s"
  by (simp_all add: upd_cpu_def)

lemma upd_cpu_kproc [simp]:
  "ptable (upd_cpu f s) = ptable s" "kregs (upd_cpu f s) = kregs s"
  "kpgdir (upd_cpu f s) = kpgdir s" "ts_addr (upd_cpu f s) = ts_addr s" "nextpid (upd_cpu f s) = nextpid s"
  by (simp_all add: upd_cpu_def)

lemma locked_kproc [simp]:
  "ptable (acquired l s) = ptable s" "ptable (released l s) = ptable s"
  "kregs (acquired l s) = kregs s" "kregs (released l s) = kregs s"
  "kpgdir (acquired l s) = kpgdir s" "kpgdir (released l s) = kpgdir s"
  "ts_addr (acquired l s) = ts_addr s" "ts_addr (released l s) = ts_addr s"
  "nextpid (acquired l s) = nextpid s" "nextpid (released l s) = nextpid s"
  by (simp_all add: acquired_def released_def)

text \<open>A CPU that holds only \<open>ptable.lock\<close>, as \<open>sched\<close> demands.\<close>

definition in_sched :: "'a kproc_scheme \<Rightarrow> bool" where
  "in_sched s \<longleftrightarrow> holding PtableLk s \<and> ncli (thiscpu s) = 1 \<and> eflags (thiscpu s) AND FL_IF = 0"

lemma in_sched_acquired:
  "cpu_wf (thiscpu s) \<Longrightarrow> ncli (thiscpu s) = 0 \<Longrightarrow> in_sched (acquired PtableLk s)"
  by (simp add: in_sched_def acquired_cpu_def flag_off)

lemma in_sched_upd_proc [simp]: "in_sched (upd_proc i f s) = in_sched s"
  by (simp add: in_sched_def holding_def)

lemma in_sched_upd_cpu:
  "in_sched s \<Longrightarrow> ncli (f (thiscpu s)) = 1 \<Longrightarrow> eflags (f (thiscpu s)) = eflags (thiscpu s) \<Longrightarrow> in_sched (upd_cpu f s)"
  by (simp add: in_sched_def holding_def)

lemma release_in_sched: "in_sched s \<Longrightarrow> release PtableLk s = Done () (released PtableLk s)"
  by (rule release_Done) (simp_all add: in_sched_def cpu_locked_def)

lemma withproc_Some: "curproc s = Some i \<Longrightarrow> withproc f s = f i s"
  by (simp add: withproc_def)

lemma sched_eq:
  assumes "in_sched s" and "curproc s = Some i" and "p_state (ptable s i) \<noteq> RUNNING"
  shows "sched s = Switch (upd_proc i (\<lambda>p. p\<lparr>p_intena := intena (thiscpu s), p_context := kregs s\<rparr>) s)"
  using assms by (simp add: sched_def in_sched_def withproc_Some readeflags_def)

lemma scheduler_resume_eq:
  assumes "in_sched s"
  shows "scheduler_resume s = Done () (released PtableLk (upd_cpu (\<lambda>c. c\<lparr>cr3 := V2P (kpgdir s), cproc := None\<rparr>) s))"
proof -
  have "upd_cpu (\<lambda>c. c\<lparr>cproc := None\<rparr>) (upd_cpu (\<lambda>c. c\<lparr>cr3 := V2P (kpgdir s)\<rparr>) s)
      = upd_cpu (\<lambda>c. c\<lparr>cr3 := V2P (kpgdir s), cproc := None\<rparr>) s"
    by (simp add: upd_cpu_def)
  then show ?thesis
    using in_sched_upd_cpu [OF assms, of "\<lambda>c. c\<lparr>cr3 := V2P (kpgdir s), cproc := None\<rparr>"] assms
    by (simp add: scheduler_resume_def switchkvm_def lcr3_def release_in_sched in_sched_def)
qed

lemma curproc_simps [simp]:
  "curproc (upd_proc i f s) = curproc s" "curproc (acquired l s) = curproc s"
  by (simp_all add: curproc_def acquired_cpu_def)

lemma yield_eq:
  assumes "lk_free PtableLk s" and "cpu_wf (thiscpu s)" and "ncli (thiscpu s) = 0" and "curproc s = Some i"
  shows "yield s = Switch (upd_proc i (\<lambda>p. p\<lparr>p_state := RUNNABLE,
    p_intena := intena (acquired_cpu (thiscpu s)), p_context := kregs s\<rparr>) (acquired PtableLk s))"
proof -
  let ?t = "upd_proc i (\<lambda>p. p\<lparr>p_state := RUNNABLE\<rparr>) (acquired PtableLk s)"
  have "yield s = sched ?t"
    using assms(1,4) by (simp add: yield_def seqk_acquire withproc_Some)
  also have "\<dots> = Switch (upd_proc i (\<lambda>p. p\<lparr>p_intena := intena (thiscpu ?t), p_context := kregs ?t\<rparr>) ?t)"
    using assms by (intro sched_eq) (simp_all add: in_sched_acquired)
  finally show ?thesis
    by (simp add: upd_proc_def)
qed

lemma sleep_eq:
  assumes "curproc s = Some i" and "holding l s" and "l \<noteq> PtableLk" and "lk_free PtableLk s"
    and "cpu_wf (thiscpu s)" and "ncli (thiscpu s) = 1"
  shows "sleep chn (Some l) s = Switch (upd_proc i (\<lambda>p. p\<lparr>p_chan := Some chn, p_state := SLEEPING,
    p_intena := intena (thiscpu s), p_context := kregs s\<rparr>) (released l (acquired PtableLk s)))"
proof -
  let ?a = "acquired PtableLk s"
  let ?r = "released l ?a"
  let ?t = "upd_proc i (\<lambda>p. p\<lparr>p_chan := Some chn, p_state := SLEEPING\<rparr>) ?r"
  have h: "holding l ?a" "cpu_locked (thiscpu ?a)"
    using assms by (simp_all add: holding_def)
  have c: "thiscpu ?r = (thiscpu s)\<lparr>eflags := eflags (thiscpu s) AND NOT FL_IF\<rparr>"
    using assms(6) by (simp add: released_cpu_def acquired_cpu_def)
  have "in_sched ?r" "curproc ?r = Some i"
    using assms c by (simp_all add: in_sched_def holding_def lk_holding_def flag_off curproc_def)
  note r = this
  have "sleep chn (Some l) s = sched ?t"
    using assms h by (simp add: sleep_def unlessk_def seqk_acquire seqk_release)
  also have "\<dots> = Switch (upd_proc i (\<lambda>p. p\<lparr>p_intena := intena (thiscpu ?t), p_context := kregs ?t\<rparr>) ?t)"
    using r by (intro sched_eq) simp_all
  finally show ?thesis
    using c by (simp add: upd_proc_def)
qed

lemma sleep_ptable_eq:
  assumes "curproc s = Some i" and "in_sched s"
  shows "sleep chn (Some PtableLk) s = Switch (upd_proc i (\<lambda>p. p\<lparr>p_chan := Some chn, p_state := SLEEPING,
    p_intena := intena (thiscpu s), p_context := kregs s\<rparr>) s)"
proof -
  let ?t = "upd_proc i (\<lambda>p. p\<lparr>p_chan := Some chn, p_state := SLEEPING\<rparr>) s"
  have "sleep chn (Some PtableLk) s = sched ?t"
    using assms(1) by (simp add: sleep_def unlessk_def)
  also have "\<dots> = Switch (upd_proc i (\<lambda>p. p\<lparr>p_intena := intena (thiscpu ?t), p_context := kregs ?t\<rparr>) ?t)"
    using assms by (intro sched_eq) simp_all
  finally show ?thesis
    by (simp add: upd_proc_def)
qed

text \<open>\<open>wakeup1\<close> changes every slot in the way its loop body does.\<close>

definition on_slots :: "nat set \<Rightarrow> (proc \<Rightarrow> proc) \<Rightarrow> (nat \<Rightarrow> proc) \<Rightarrow> nat \<Rightarrow> proc" where
  "on_slots A f pt = (\<lambda>i. if i \<in> A then f (pt i) else pt i)"

lemma on_slots_apply: "on_slots A f pt i = (if i \<in> A then f (pt i) else pt i)"
  by (simp add: on_slots_def)

lemma forallk_upd_proc:
  "distinct xs \<Longrightarrow> forallk (\<lambda>i. modk (upd_proc i f)) xs s = Done () (s\<lparr>ptable := on_slots (set xs) f (ptable s)\<rparr>)"
proof (induction xs arbitrary: s)
  case Nil
  then show ?case by (simp add: retk_def on_slots_def)
next
  case (Cons x xs)
  have "on_slots (set xs) f ((ptable s)(x := f (ptable s x))) = on_slots (set (x # xs)) f (ptable s)"
    using Cons.prems by (auto simp: on_slots_def)
  then have eq: "(upd_proc x f s)\<lparr>ptable := on_slots (set xs) f (ptable (upd_proc x f s))\<rparr>
      = s\<lparr>ptable := on_slots (set (x # xs)) f (ptable s)\<rparr>"
    by (simp only: upd_proc_sel) (simp add: upd_proc_def)
  have "forallk (\<lambda>i. modk (upd_proc i f)) (x # xs) s = forallk (\<lambda>i. modk (upd_proc i f)) xs (upd_proc x f s)"
    by (simp only: forallk.simps seqk_modk)
  also have "\<dots> = Done () ((upd_proc x f s)\<lparr>ptable := on_slots (set xs) f (ptable (upd_proc x f s))\<rparr>)"
    by (rule Cons.IH) (use Cons.prems in simp)
  finally show ?case by (simp only: eq)
qed

lemma wakeup1_eq: "wakeup1 chn s = Done () (s\<lparr>ptable := on_slots {..<NPROC} (wake_proc chn) (ptable s)\<rparr>)"
  by (simp add: wakeup1_def forallk_upd_proc lessThan_atLeast0)

lemma wakeup_eq:
  assumes "lk_free PtableLk s" and "cpu_wf (thiscpu s)"
  shows "wakeup chn s = Done () (released PtableLk ((acquired PtableLk s)
    \<lparr>ptable := on_slots {..<NPROC} (wake_proc (Some chn)) (ptable s)\<rparr>))"
proof -
  let ?t = "(acquired PtableLk s)\<lparr>ptable := on_slots {..<NPROC} (wake_proc (Some chn)) (ptable s)\<rparr>"
  have "holding PtableLk ?t" "cpu_locked (thiscpu ?t)"
    using assms by (simp_all add: holding_def lk_holding_def)
  moreover have "wakeup1 (Some chn) (acquired PtableLk s) = Done () ?t"
    by (simp add: wakeup1_eq)
  ultimately show ?thesis
    using assms(1) by (simp add: wakeup_def seqk_acquire seqk_Done release_Done)
qed


end
