(* ===== verification/Sched.thy ===== *)
theory Sched
  imports Proc
begin

text \<open>
  The CPUs of the machine running processes: the abstract scheduler is a relation on which
  process each CPU runs and the state of every process; the concrete system interleaves the
  scheduler loop, \<open>yield\<close>, \<open>sleep\<close>, \<open>wakeup\<close> and \<open>kill\<close> of \<open>src/proc.c\<close> on any number of CPUs.
  The concrete system refines the abstract one, and the invariant proved there says that every
  RUNNING process is the current process of exactly one CPU.
\<close>

section \<open>The abstract scheduler\<close>

record sched_view =
  on_cpu :: "nat \<Rightarrow> nat option"
  pstate :: "nat \<Rightarrow> procstate"

inductive view_step :: "sched_view \<Rightarrow> sched_view \<Rightarrow> bool" where
  v_dispatch: "on_cpu v c = None \<Longrightarrow> p < NPROC \<Longrightarrow> pstate v p = RUNNABLE \<Longrightarrow>
    view_step v (v\<lparr>on_cpu := (on_cpu v)(c := Some p), pstate := (pstate v)(p := RUNNING)\<rparr>)"
| v_leave: "on_cpu v c = Some p \<Longrightarrow> st \<in> {RUNNABLE, SLEEPING, ZOMBIE} \<Longrightarrow>
    view_step v (v\<lparr>on_cpu := (on_cpu v)(c := None), pstate := (pstate v)(p := st)\<rparr>)"
| v_wake: "(\<And>p. st p = pstate v p \<or> (pstate v p = SLEEPING \<and> st p = RUNNABLE)) \<Longrightarrow>
    view_step v (v\<lparr>pstate := st\<rparr>)"

definition view_init :: "sched_view \<Rightarrow> bool" where
  "view_init v \<longleftrightarrow> (\<forall>c. on_cpu v c = None) \<and> (\<forall>p<NPROC. pstate v p \<noteq> RUNNING)"

definition view_inv :: "sched_view \<Rightarrow> bool" where
  "view_inv v \<longleftrightarrow> (\<forall>c p. on_cpu v c = Some p \<longrightarrow> p < NPROC \<and> pstate v p = RUNNING)
     \<and> (\<forall>c d p. on_cpu v c = Some p \<longrightarrow> on_cpu v d = Some p \<longrightarrow> c = d)
     \<and> (\<forall>p<NPROC. pstate v p = RUNNING \<longrightarrow> (\<exists>c. on_cpu v c = Some p))"

lemma view_invI:
  assumes "\<And>c p. on_cpu v c = Some p \<Longrightarrow> p < NPROC \<and> pstate v p = RUNNING"
    and "\<And>c d p. on_cpu v c = Some p \<Longrightarrow> on_cpu v d = Some p \<Longrightarrow> c = d"
    and "\<And>p. p < NPROC \<Longrightarrow> pstate v p = RUNNING \<Longrightarrow> \<exists>c. on_cpu v c = Some p"
  shows "view_inv v"
  using assms unfolding view_inv_def by blast

lemma view_invD:
  assumes "view_inv v"
  shows "on_cpu v c = Some p \<Longrightarrow> p < NPROC" and "on_cpu v c = Some p \<Longrightarrow> pstate v p = RUNNING"
    and "on_cpu v c = Some p \<Longrightarrow> on_cpu v d = Some p \<Longrightarrow> c = d"
    and "p < NPROC \<Longrightarrow> pstate v p = RUNNING \<Longrightarrow> \<exists>c. on_cpu v c = Some p"
  using assms unfolding view_inv_def by blast+

lemma view_init_inv: "view_init v \<Longrightarrow> view_inv v"
  by (simp add: view_init_def view_inv_def)

lemma view_step_inv:
  assumes "view_inv v" and "view_step v w"
  shows "view_inv w"
  using assms(2)
proof (cases rule: view_step.cases)
  case (v_dispatch c p)
  have np: "on_cpu v d \<noteq> Some p" for d
    using view_invD(2) [OF assms(1), of d p] v_dispatch by auto
  show ?thesis
  proof (rule view_invI)
    fix d q assume "on_cpu w d = Some q"
    then show "q < NPROC \<and> pstate w q = RUNNING"
      using v_dispatch view_invD(1,2) [OF assms(1), of d q] by (auto split: if_splits)
  next
    fix d e q assume "on_cpu w d = Some q" "on_cpu w e = Some q"
    then show "d = e"
      using v_dispatch np view_invD(3) [OF assms(1), of d q e] by (auto split: if_splits)
  next
    fix q assume q: "q < NPROC" "pstate w q = RUNNING"
    show "\<exists>d. on_cpu w d = Some q"
    proof (cases "q = p")
      case False
      then obtain d where "on_cpu v d = Some q"
        using q v_dispatch view_invD(4) [OF assms(1), of q] by auto
      with False v_dispatch show ?thesis by (auto intro!: exI [of _ d])
    qed (use v_dispatch in auto)
  qed
next
  case (v_leave c p st)
  show ?thesis
  proof (rule view_invI)
    fix d q assume d: "on_cpu w d = Some q"
    then have "d \<noteq> c" "on_cpu v d = Some q" using v_leave by (auto split: if_splits)
    moreover from this have "q \<noteq> p"
      using v_leave view_invD(3) [OF assms(1), of d q c] by auto
    ultimately show "q < NPROC \<and> pstate w q = RUNNING"
      using v_leave view_invD(1,2) [OF assms(1), of d q] by auto
  next
    fix d e q assume "on_cpu w d = Some q" "on_cpu w e = Some q"
    then show "d = e"
      using v_leave view_invD(3) [OF assms(1), of d q e] by (auto split: if_splits)
  next
    fix q assume q: "q < NPROC" "pstate w q = RUNNING"
    then have "q \<noteq> p" "pstate v q = RUNNING" using v_leave by (auto split: if_splits)
    then obtain d where "on_cpu v d = Some q"
      using q view_invD(4) [OF assms(1), of q] by auto
    with v_leave \<open>q \<noteq> p\<close> show "\<exists>d. on_cpu w d = Some q" by (auto intro!: exI [of _ d])
  qed
next
  case (v_wake st)
  have "st p = RUNNING \<longleftrightarrow> pstate v p = RUNNING" for p
    using v_wake(2) [of p] by auto
  then show ?thesis
    using assms(1) v_wake(1) by (simp add: view_inv_def)
qed

interpretation sched_spec: inductive_invariant view_init view_step view_inv
  by unfold_locales (fact view_init_inv, fact view_step_inv)


section \<open>Effects of the scheduler's operations\<close>

definition uvm_cpu :: "u32 \<Rightarrow> u32 \<Rightarrow> u32 \<Rightarrow> cpu \<Rightarrow> cpu" where
  "uvm_cpu ts kstack pgdir c = c\<lparr>gdt := (gdt c)(SEG_TSS := (SEG16 STS_T32A ts (104 - 1) 0)\<lparr>sd_s := 0\<rparr>),
     ts_ss0 := of_nat SEG_KDATA * 8, ts_esp0 := kstack + KSTACKSIZE, ts_iomb := 0xFFFF,
     tr := of_nat SEG_TSS * 8, cr3 := V2P pgdir\<rparr>"

lemma switchuvm_eq:
  assumes "cpu_locked (thiscpu s)" and "pgdir \<noteq> 0"
  shows "switchuvm k pgdir s = Done () (upd_cpu (uvm_cpu (ts_addr s (cur_cpu s)) k pgdir) s)"
proof -
  let ?c = "thiscpu s"
  have n: "0 < ncli ?c" "eflags ?c AND FL_IF = 0"
    using assms(1) by (simp_all add: cpu_locked_def)
  have "released_cpu (uvm_cpu ts k pgdir (acquired_cpu ?c)) = uvm_cpu ts k pgdir ?c" for ts
    using n by (simp add: released_cpu_def acquired_cpu_def uvm_cpu_def flag_clear)
  then show ?thesis
    using assms n
    by (simp add: switchuvm_def seqk_Done [OF pushcli_eq] lcr3_def popcli_eq flag_off)
      (simp add: upd_cpu_def uvm_cpu_def acquired_cpu_def flag_off)
qed


lemma wlpk_switchuvm:
  assumes "cpu_locked (thiscpu s)"
  shows "wlpk (switchuvm k pgdir) Q R s
    \<longleftrightarrow> (pgdir \<noteq> 0 \<longrightarrow> Q () (upd_cpu (uvm_cpu (ts_addr s (cur_cpu s)) k pgdir) s))"
proof (cases "pgdir = 0")
  case True
  then show ?thesis
    by (simp add: switchuvm_def wlpk_def seqk_Done [OF pushcli_eq])
next
  case False
  then show ?thesis
    using switchuvm_eq [OF assms False] by (simp add: wlpk_def)
qed

text \<open>The CPUs other than the one that runs are as before.\<close>

definition other_cpus :: "'a mach_scheme \<Rightarrow> 'a mach_scheme \<Rightarrow> bool" where
  "other_cpus s t \<longleftrightarrow> cur_cpu t = cur_cpu s \<and> (\<forall>d. d \<noteq> cur_cpu s \<longrightarrow> cpus t d = cpus s d)"

lemma other_cpus_simps [simp]:
  "other_cpus s s" "other_cpus s (acquired l t) = other_cpus s t"
  "other_cpus s (released l t) = other_cpus s t" "other_cpus s (upd_cpu f t) = other_cpus s t"
  by (auto simp: other_cpus_def)

lemma other_cpus_upd_proc [simp]: "other_cpus s (upd_proc i f t) = other_cpus s t"
  by (simp add: other_cpus_def)

lemma wlpk_dispatch:
  assumes "in_sched s"
  shows "wlpk (dispatch p) (\<lambda>_ t. in_sched t \<and> curproc t = Some p \<and> other_cpus s t
    \<and> ptable t = (ptable s)(p := (ptable s p)\<lparr>p_state := RUNNING\<rparr>)) R s"
proof -
  let ?s = "upd_cpu (\<lambda>c. c\<lparr>cproc := Some p\<rparr>) s"
  have "cpu_locked (thiscpu ?s)"
    using assms by (simp add: in_sched_def cpu_locked_def)
  moreover have "in_sched (upd_cpu (uvm_cpu ts k d) ?s)" for ts k d
    using assms by (intro in_sched_upd_cpu) (simp_all add: in_sched_def holding_def uvm_cpu_def)
  ultimately show ?thesis
    by (simp add: dispatch_def wlpk_switchuvm del: upd_cpu_sel(1)) (simp add: curproc_def uvm_cpu_def)
qed

section \<open>The concrete system\<close>

definition view_of :: "'a kproc_scheme \<Rightarrow> sched_view" where
  "view_of s = \<lparr>on_cpu = (\<lambda>c. cproc (cpus s c)), pstate = (\<lambda>i. p_state (ptable s i))\<rparr>"

text \<open>Between two steps no CPU holds a lock.\<close>

definition calm :: "'a kproc_scheme \<Rightarrow> bool" where
  "calm s \<longleftrightarrow> lk_free PtableLk s \<and> (\<forall>c. cpu_wf (cpus s c) \<and> ncli (cpus s c) = 0)"

definition at_cpu :: "nat \<Rightarrow> 'a mach_scheme \<Rightarrow> 'a mach_scheme" where
  "at_cpu c s = s\<lparr>cur_cpu := c\<rparr>"

text \<open>How a process continues when it is scheduled: it returns from \<open>yield\<close>, enters user space
  through \<open>forkret\<close>, or returns from a \<open>sleep\<close> and drops the lock it slept with.\<close>

datatype resume = RYield | RFork | RSleep lockid

primrec resume_op :: "resume \<Rightarrow> ('a kproc_scheme, unit) kop" where
  "resume_op RYield = yield_resume"
| "resume_op RFork = release PtableLk"
| "resume_op (RSleep l) = seqk (sleep_resume l) (release l)"

text \<open>
  The CPUs interleave whole rounds: a round of the scheduler into a process and out of the
  routine that had given up the CPU; a process that yields or sleeps, into the scheduler and to
  the end of its round; a wakeup and a kill.
\<close>

inductive cpu_step :: "'a kproc_scheme \<Rightarrow> 'a kproc_scheme \<Rightarrow> bool" where
  c_idle: "cproc (cpus s c) = None \<Longrightarrow> scheduler (at_cpu c s) = Done None t \<Longrightarrow> cpu_step s t"
| c_dispatch: "cproc (cpus s c) = None \<Longrightarrow> scheduler (at_cpu c s) = Done (Some p) t \<Longrightarrow>
    resume_op r t = Done () u \<Longrightarrow> cpu_step s u"
| c_yield: "cproc (cpus s c) = Some i \<Longrightarrow> yield (at_cpu c s) = Switch t \<Longrightarrow>
    scheduler_resume t = Done () u \<Longrightarrow> cpu_step s u"
| c_sleep: "cproc (cpus s c) = Some i \<Longrightarrow> seqk (acquire l) (sleep chn (Some l) :: ('a kproc_scheme, unit) kop) (at_cpu c s) = Switch t \<Longrightarrow>
    scheduler_resume t = Done () u \<Longrightarrow> cpu_step s u"
| c_wakeup: "wakeup chn (at_cpu c s) = Done () t \<Longrightarrow> cpu_step s t"
| c_kill: "kill pid (at_cpu c s) = Done r t \<Longrightarrow> cpu_step s t"

lemma at_cpu_sel [simp]:
  "cur_cpu (at_cpu c s) = c" "cpus (at_cpu c s) = cpus s" "slocks (at_cpu c s) = slocks s"
  by (simp_all add: at_cpu_def)

lemma at_cpu_kproc [simp]: "ptable (at_cpu c s) = ptable s"
  by (simp add: at_cpu_def)

lemma calm_at_cpu [simp]: "calm (at_cpu c s) = calm s"
  by (simp add: calm_def lk_free_def)

lemma view_of_at_cpu [simp]: "view_of (at_cpu c s) = view_of s"
  by (simp add: view_of_def)

lemma calmD:
  assumes "calm s"
  shows "lk_free PtableLk s" "cpu_wf (cpus s c)" "ncli (cpus s c) = 0"
  using assms by (auto simp: calm_def)

lemma calm_quiet: "calm s \<Longrightarrow> quiet s t \<Longrightarrow> calm t"
  by (simp add: calm_def quietD)

text \<open>Leaving a round: \<open>ptable.lock\<close> released on the CPU that held only it.\<close>

lemma calm_released:
  assumes "calm s" and "other_cpus s t" and "in_sched t"
  shows "calm (released PtableLk t)"
proof -
  have "cpu_locked (thiscpu t)"
    using assms(3) by (simp add: in_sched_def cpu_locked_def)
  then show ?thesis
    using assms cpu_wf_released [of "thiscpu t"]
    by (auto simp: calm_def other_cpus_def in_sched_def released_cpu_def)
qed

lemma view_of_released [simp]: "view_of (released l t) = view_of t"
  by (auto simp: view_of_def released_cpu_def fun_eq_iff)

lemma sti_wf: "calm s \<Longrightarrow> calm (upd_cpu (\<lambda>c. c\<lparr>eflags := eflags c OR FL_IF\<rparr>) s)"
  by (simp add: calm_def cpu_wf_def lk_free_def)

lemma view_of_acquired [simp]: "view_of (acquired l t) = view_of t"
  by (auto simp: view_of_def acquired_cpu_def fun_eq_iff)

lemma view_of_upd_cpu [simp]: "(\<And>c. cproc (f c) = cproc c) \<Longrightarrow> view_of (upd_cpu f t) = view_of t"
  by (auto simp: view_of_def fun_eq_iff)

lemma wlpk_scheduler:
  assumes "calm s"
  shows "wlpk scheduler (\<lambda>r t. r = pick_priority (ptable s) \<and> (case r of
      None \<Rightarrow> calm t \<and> view_of t = view_of s
    | Some p \<Rightarrow> runnable (ptable s) p \<and> in_sched t \<and> curproc t = Some p \<and> other_cpus s t
        \<and> ptable t = (ptable s)(p := (ptable s p)\<lparr>p_state := RUNNING\<rparr>))) R s"
proof -
  let ?s = "upd_cpu (\<lambda>c. c\<lparr>eflags := eflags c OR FL_IF\<rparr>) s"
  let ?a = "acquired PtableLk ?s"
  have c: "calm ?s" using assms(1) by (rule sti_wf)
  have a: "in_sched ?a"
    using calmD [OF c] by (intro in_sched_acquired)
  show ?thesis
  proof (cases "pick_priority (ptable s)")
    case None
    have "calm (released PtableLk ?a)"
      by (rule calm_released [OF assms]) (use a in simp_all)
    then show ?thesis
      using None by (simp add: scheduler_def sti_def)
  next
    case (Some p)
    have "wlpk (dispatch p) (\<lambda>_ t. runnable (ptable s) p \<and> in_sched t \<and> curproc t = Some p
        \<and> other_cpus s t \<and> ptable t = (ptable s)(p := (ptable s p)\<lparr>p_state := RUNNING\<rparr>)) R ?a"
      by (rule wlpk_mono [OF wlpk_dispatch [OF a]])
        (use pick_priority_Some(1) [OF Some] in \<open>auto simp: other_cpus_def\<close>)
    then show ?thesis
      using Some by (simp add: scheduler_def sti_def)
  qed
qed

lemma wlpk_withproc: "curproc s = Some i \<Longrightarrow> wlpk (withproc f) Q R s = wlpk (f i) Q R s"
  by (simp add: withproc_def)

text \<open>The resume operations release \<open>ptable.lock\<close> and keep the process on its CPU.\<close>

lemma wlpk_sched_resume:
  assumes "in_sched s" and "curproc s = Some p"
  shows "wlpk sched_resume (\<lambda>_ t. in_sched t \<and> curproc t = Some p \<and> other_cpus s t \<and> ptable t = ptable s
    \<and> view_of t = view_of s) R s"
proof -
  have "in_sched (upd_cpu (\<lambda>c. c\<lparr>intena := x\<rparr>) s)" for x
    using assms(1) by (intro in_sched_upd_cpu) (simp_all add: in_sched_def)
  then show ?thesis
    using assms(2) by (simp add: sched_resume_def withproc_def) (simp add: curproc_def)
qed

lemma wlpk_resume:
  assumes "calm s" and "other_cpus s t" and "in_sched t" and "curproc t = Some p"
  shows "wlpk (resume_op r) (\<lambda>_ u. calm u \<and> view_of u = view_of t) R t"
proof -
  have rel: "wlpk (release PtableLk) (\<lambda>_ u. calm u \<and> view_of u = view_of t) R u"
    if "in_sched u" "other_cpus t u" "view_of u = view_of t" for u
  proof -
    have "other_cpus s u" using assms(2) that(2) by (auto simp: other_cpus_def)
    then show ?thesis using calm_released [OF assms(1) _ that(1)] that(3) by simp
  qed
  show ?thesis
  proof (cases r)
    case RYield
    have "wlpk sched_resume (\<lambda>_. wlpk (release PtableLk) (\<lambda>_ u. calm u \<and> view_of u = view_of t) R) R t"
      by (rule wlpk_mono [OF wlpk_sched_resume [OF assms(3,4)]]) (blast intro: rel)+
    then show ?thesis using RYield by (simp add: yield_resume_def)
  next
    case RFork
    then show ?thesis using rel [OF assms(3)] by simp
  next
    case (RSleep l)
    let ?Q = "\<lambda>_ u. calm u \<and> view_of u = view_of t"
    have fin: "wlpk (unlessk (l = PtableLk) (seqk (release PtableLk) (acquire l))) (\<lambda>_. wlpk (release l) ?Q R) R u"
      if u: "in_sched u" "other_cpus t u" "view_of u = view_of t" for u
    proof (cases "l = PtableLk")
      case True
      then show ?thesis using rel [OF u] by simp
    next
      case False
      let ?r = "released PtableLk u"
      have r: "calm ?r" "view_of ?r = view_of t"
        using rel [OF u] u(1) by (simp_all add: in_sched_def cpu_locked_def)
      then have "calm (released l (acquired l ?r))" if "lk_free l ?r"
        using that calmD(2) [OF r(1), of "cur_cpu u"] by (intro calm_quiet [OF r(1) quiet_section]) simp_all
      then show ?thesis
        using False u(3) by (simp add: lk_free_def)
    qed
    have "wlpk sched_resume (\<lambda>_ v. wlpk (withproc (\<lambda>i. seqk (modk (upd_proc i (\<lambda>p. p\<lparr>p_chan := None\<rparr>)))
        (unlessk (l = PtableLk) (seqk (release PtableLk) (acquire l))))) (\<lambda>_. wlpk (release l) ?Q R) R v) R t"
    proof (rule wlpk_mono [OF wlpk_sched_resume [OF assms(3,4)]])
      fix a :: unit and v
      assume v: "in_sched v \<and> curproc v = Some p \<and> other_cpus t v \<and> ptable v = ptable t \<and> view_of v = view_of t"
      let ?u = "upd_proc p (\<lambda>p. p\<lparr>p_chan := None\<rparr>) v"
      have "view_of ?u = view_of v" by (auto simp: view_of_def fun_eq_iff)
      with v have "wlpk (unlessk (l = PtableLk) (seqk (release PtableLk) (acquire l))) (\<lambda>_. wlpk (release l) ?Q R) R ?u"
        by (intro fin) simp_all
      with v show "wlpk (withproc (\<lambda>i. seqk (modk (upd_proc i (\<lambda>p. p\<lparr>p_chan := None\<rparr>)))
        (unlessk (l = PtableLk) (seqk (release PtableLk) (acquire l))))) (\<lambda>_. wlpk (release l) ?Q R) R v"
        by (subst wlpk_withproc) (auto simp only: wlpk_seqk wlpk_basic)
    qed
    then show ?thesis using RSleep by (simp add: sleep_resume_def)
  qed
qed


section \<open>Refinement\<close>

lemma view_dispatched:
  assumes "curproc t = Some p" and "other_cpus s t"
    and "ptable t = (ptable s)(p := (ptable s p)\<lparr>p_state := RUNNING\<rparr>)"
  shows "view_of t = (view_of s)\<lparr>on_cpu := (on_cpu (view_of s))(cur_cpu s := Some p),
    pstate := (pstate (view_of s))(p := RUNNING)\<rparr>"
  using assms by (auto simp: view_of_def curproc_def other_cpus_def fun_eq_iff)

lemma scheduler_resume_view:
  assumes "calm s" and "other_cpus s t" and "in_sched t" and "scheduler_resume t = Done () u"
  shows "calm u" and "view_of u = (view_of t)\<lparr>on_cpu := (on_cpu (view_of t))(cur_cpu s := None)\<rparr>"
proof -
  let ?t = "upd_cpu (\<lambda>c. c\<lparr>cr3 := V2P (kpgdir t), cproc := None\<rparr>) t"
  have u: "u = released PtableLk ?t"
    using assms(4) scheduler_resume_eq [OF assms(3)] by simp
  have "in_sched ?t"
    using assms(3) by (intro in_sched_upd_cpu) (simp_all add: in_sched_def)
  then show "calm u"
    using calm_released [OF assms(1), of ?t] assms(2) u by simp
  show "view_of u = (view_of t)\<lparr>on_cpu := (on_cpu (view_of t))(cur_cpu s := None)\<rparr>"
    using assms(2) by (auto simp: u view_of_def other_cpus_def released_cpu_def fun_eq_iff)
qed

lemma step_dispatch:
  assumes "calm s" and "cproc (cpus s c) = None" and "scheduler (at_cpu c s) = Done (Some p) t"
    and "resume_op r t = Done () u"
  shows "calm u" and "view_step (view_of s) (view_of u)"
proof -
  let ?s = "at_cpu c s"
  have "calm ?s" using assms(1) by simp
  from wlpkD_Done [OF wlpk_scheduler [OF this] assms(3)]
  have t: "runnable (ptable ?s) p" "in_sched t" "curproc t = Some p" "other_cpus ?s t"
    "ptable t = (ptable ?s)(p := (ptable ?s p)\<lparr>p_state := RUNNING\<rparr>)" by simp_all
  from wlpkD_Done [OF wlpk_resume [OF \<open>calm ?s\<close> t(4,2,3)] assms(4)]
  have u: "calm u" "view_of u = view_of t" by simp_all
  show "calm u" by fact
  have "view_of t = (view_of s)\<lparr>on_cpu := (on_cpu (view_of s))(c := Some p),
      pstate := (pstate (view_of s))(p := RUNNING)\<rparr>"
    using view_dispatched [OF t(3,4,5)] by simp
  moreover have "on_cpu (view_of s) c = None" "p < NPROC" "pstate (view_of s) p = RUNNABLE"
    using assms(2) t(1) by (simp_all add: view_of_def runnable_def)
  ultimately show "view_step (view_of s) (view_of u)"
    using v_dispatch [of "view_of s" c p] u(2) by simp
qed

lemma step_leave:
  assumes "calm s" and "cproc (cpus s c) = Some i" and "st \<in> {RUNNABLE, SLEEPING, ZOMBIE}"
    and "other_cpus (at_cpu c s) t" and "in_sched t" and "scheduler_resume t = Done () u"
    and "view_of t = (view_of s)\<lparr>pstate := (pstate (view_of s))(i := st)\<rparr>"
  shows "calm u" and "view_step (view_of s) (view_of u)"
proof -
  have "calm (at_cpu c s)" using assms(1) by simp
  note u = scheduler_resume_view [OF this assms(4,5,6)]
  show "calm u" by (rule u(1))
  have "view_of u = (view_of s)\<lparr>on_cpu := (on_cpu (view_of s))(c := None),
      pstate := (pstate (view_of s))(i := st)\<rparr>"
    using u(2) assms(7) by simp
  moreover have "on_cpu (view_of s) c = Some i"
    using assms(2) by (simp add: view_of_def)
  ultimately show "view_step (view_of s) (view_of u)"
    using v_leave [of "view_of s" c i st] assms(3) by simp
qed

lemma step_yield:
  assumes "calm s" and "cproc (cpus s c) = Some i" and "yield (at_cpu c s) = Switch t"
    and "scheduler_resume t = Done () u"
  shows "calm u \<and> view_step (view_of s) (view_of u)"
proof -
  let ?s = "at_cpu c s"
  have s: "calm ?s" "curproc ?s = Some i" using assms(1,2) by (simp_all add: curproc_def)
  have t: "t = upd_proc i (\<lambda>p. p\<lparr>p_state := RUNNABLE, p_intena := intena (acquired_cpu (thiscpu ?s)),
      p_context := kregs ?s\<rparr>) (acquired PtableLk ?s)"
    using yield_eq [OF calmD(1) [OF s(1)] calmD(2,3) [OF s(1)] s(2)] assms(3) by simp
  have "in_sched (acquired PtableLk ?s)"
    using calmD [OF s(1)] by (intro in_sched_acquired)
  then have "in_sched t" by (simp add: t)
  moreover have "view_of t = (view_of s)\<lparr>pstate := (pstate (view_of s))(i := RUNNABLE)\<rparr>"
    by (auto simp: t view_of_def acquired_cpu_def fun_eq_iff)
  moreover have "other_cpus ?s t" by (simp add: t)
  ultimately show ?thesis
    using step_leave [OF assms(1,2), of RUNNABLE t u] assms(4) by simp
qed

lemma step_sleep:
  fixes s :: "'a kproc_scheme"
  assumes "calm s" and "cproc (cpus s c) = Some i"
    and "seqk (acquire l) (sleep chn (Some l) :: ('a kproc_scheme, unit) kop) (at_cpu c s) = Switch t" and "scheduler_resume t = Done () u"
  shows "calm u \<and> view_step (view_of s) (view_of u)"
proof -
  let ?s = "at_cpu c s"
  let ?a = "acquired l ?s"
  have s: "calm ?s" using assms(1) by simp
  have free: "lk_free l ?s"
    using assms(3) by (auto simp: seqk_def bindk_def acquire_eq lk_free_def split: if_splits)
  then have sl: "sleep chn (Some l) ?a = (Switch t :: (unit, _) kres)"
    using assms(3) by (simp add: seqk_acquire)
  have cur: "curproc ?a = Some i"
    using assms(2) by (simp add: curproc_def acquired_cpu_def)
  have a: "cpu_wf (thiscpu ?a)" "ncli (thiscpu ?a) = 1"
    using calmD [OF s] cpu_locked_acquired [of "cpus s c"] by (simp_all add: cpu_wf_locked acquired_cpu_def)
  have "\<exists>k r. t = upd_proc i (\<lambda>p. p\<lparr>p_chan := Some chn, p_state := SLEEPING, p_intena := k,
      p_context := r\<rparr>) (if l = PtableLk then ?a else released l (acquired PtableLk ?a))"
  proof (cases "l = PtableLk")
    case True
    have "in_sched ?a"
      using calmD [OF s] True by (simp add: in_sched_acquired)
    then show ?thesis
      using sleep_ptable_eq [OF cur, where 'b = unit and chn = chn] sl True by auto
  next
    case False
    then have "sleep chn (Some l) ?a = (Switch :: _ \<Rightarrow> (unit, _) kres) (upd_proc i (\<lambda>p. p\<lparr>p_chan := Some chn, p_state := SLEEPING,
        p_intena := intena (thiscpu ?a), p_context := kregs ?a\<rparr>) (released l (acquired PtableLk ?a)))"
      using calmD(1) [OF s] by (intro sleep_eq cur a) simp_all
    then show ?thesis using sl False by auto
  qed
  then obtain k r where t: "t = upd_proc i (\<lambda>p. p\<lparr>p_chan := Some chn, p_state := SLEEPING, p_intena := k,
      p_context := r\<rparr>) (if l = PtableLk then ?a else released l (acquired PtableLk ?a))" by blast
  have "in_sched t"
    using a calmD [OF s] by (auto simp: t in_sched_def holding_def lk_holding_def flag_off
        acquired_cpu_def released_cpu_def)
  moreover have "view_of t = (view_of s)\<lparr>pstate := (pstate (view_of s))(i := SLEEPING)\<rparr>"
    by (auto simp: t view_of_def acquired_cpu_def released_cpu_def fun_eq_iff)
  moreover have "other_cpus ?s t" by (simp add: t)
  ultimately show ?thesis
    using step_leave [OF assms(1,2), of SLEEPING t u] assms(4) by simp
qed

lemma view_step_table:
  assumes "view_of t = (view_of s)\<lparr>pstate := (\<lambda>i. p_state (pt i))\<rparr>"
    and "\<And>i. p_state (pt i) = p_state (ptable s i) \<or> p_state (ptable s i) = SLEEPING \<and> p_state (pt i) = RUNNABLE"
  shows "view_step (view_of s) (view_of t)"
proof -
  have "view_step (view_of s) ((view_of s)\<lparr>pstate := (\<lambda>i. p_state (pt i))\<rparr>)"
    by (rule v_wake) (use assms(2) in \<open>simp add: view_of_def\<close>)
  then show ?thesis using assms(1) by simp
qed

lemma view_of_ptable: "view_of (s\<lparr>ptable := pt\<rparr>) = (view_of s)\<lparr>pstate := (\<lambda>i. p_state (pt i))\<rparr>"
  by (simp add: view_of_def)

lemma step_locked_table:
  assumes "calm s" and "u = released PtableLk ((acquired PtableLk (at_cpu c s))\<lparr>ptable := pt\<rparr>)"
    and "\<And>i. p_state (pt i) = p_state (ptable s i) \<or> p_state (ptable s i) = SLEEPING \<and> p_state (pt i) = RUNNABLE"
  shows "calm u \<and> view_step (view_of s) (view_of u)"
proof -
  have s: "calm (at_cpu c s)" using assms(1) by simp
  have "calm u"
    unfolding assms(2) using calmD [OF s] by (intro calm_quiet [OF s quiet_section]) simp_all
  moreover have "view_of u = (view_of s)\<lparr>pstate := (\<lambda>i. p_state (pt i))\<rparr>"
    by (simp add: assms(2) view_of_ptable)
  ultimately show ?thesis using view_step_table assms(3) by blast
qed

definition kill_table :: "i32 \<Rightarrow> (nat \<Rightarrow> proc) \<Rightarrow> nat \<Rightarrow> proc" where
  "kill_table pid pt = (case find_index (\<lambda>i. p_pid (pt i) = pid) NPROC of
     None \<Rightarrow> pt | Some i \<Rightarrow> pt(i := kill_proc (pt i)))"

lemma kill_eq:
  assumes "lk_free PtableLk s" and "cpu_wf (thiscpu s)"
  shows "kill pid s = Done (if find_index (\<lambda>i. p_pid (ptable s i) = pid) NPROC = None then - 1 else 0)
    (released PtableLk ((acquired PtableLk s)\<lparr>ptable := kill_table pid (ptable s)\<rparr>))"
proof -
  let ?t = "\<lambda>pt. (acquired PtableLk s)\<lparr>ptable := pt\<rparr>"
  have h: "holding PtableLk (?t pt)" "cpu_locked (thiscpu (?t pt))" for pt
    using assms by (simp_all add: holding_def lk_holding_def)
  have same: "?t (ptable s) = acquired PtableLk s"
    by (simp add: acquired_def)
  have upd: "upd_proc i kill_proc (acquired PtableLk s) = ?t ((ptable s)(i := kill_proc (ptable s i)))" for i
    by (simp add: upd_proc_def)
  show ?thesis
  proof (cases "find_index (\<lambda>i. p_pid (ptable s i) = pid) NPROC")
    case None
    then show ?thesis
      using assms h [of "ptable s"]
      by (simp add: kill_def kill_table_def seqk_acquire seqk_release retk_def same)
  next
    case (Some i)
    then show ?thesis
      using assms h [of "(ptable s)(i := kill_proc (ptable s i))"]
      by (simp add: kill_def kill_table_def seqk_acquire seqk_release retk_def upd)
  qed
qed

lemma step_wakeup:
  assumes "calm s" and "wakeup chn (at_cpu c s) = Done () t"
  shows "calm t \<and> view_step (view_of s) (view_of t)"
proof -
  have s: "calm (at_cpu c s)" using assms(1) by simp
  have "t = released PtableLk ((acquired PtableLk (at_cpu c s))
      \<lparr>ptable := on_slots {..<NPROC} (wake_proc (Some chn)) (ptable s)\<rparr>)"
    using wakeup_eq [OF calmD(1,2) [OF s], of chn] assms(2) by simp
  then show ?thesis
    by (rule step_locked_table [OF assms(1)]) (simp add: on_slots_apply wake_proc_def)
qed

lemma step_kill:
  assumes "calm s" and "kill pid (at_cpu c s) = Done r t"
  shows "calm t \<and> view_step (view_of s) (view_of t)"
proof -
  have s: "calm (at_cpu c s)" using assms(1) by simp
  have "t = released PtableLk ((acquired PtableLk (at_cpu c s))\<lparr>ptable := kill_table pid (ptable s)\<rparr>)"
    using kill_eq [OF calmD(1,2) [OF s], of pid] assms(2) by simp
  then show ?thesis
    by (rule step_locked_table [OF assms(1)]) (auto simp: kill_table_def kill_proc_def split: option.split)
qed

lemma cpu_step_refines:
  assumes "calm s" and "cpu_step s t"
  shows "calm t \<and> (view_of s = view_of t \<or> view_step (view_of s) (view_of t))"
  using assms(2)
proof (cases rule: cpu_step.cases)
  case (c_idle c)
  have "calm (at_cpu c s)" using assms(1) by simp
  from wlpkD_Done [OF wlpk_scheduler [OF this] c_idle(2)] show ?thesis by simp
next
  case (c_dispatch c p u r)
  then show ?thesis using step_dispatch [OF assms(1)] by simp
next
  case (c_yield c i u)
  then show ?thesis using step_yield [OF assms(1)] by simp
next
  case (c_sleep c i l chn u)
  then show ?thesis using step_sleep [OF assms(1)] by simp
next
  case (c_wakeup chn c)
  then show ?thesis using step_wakeup [OF assms(1)] by simp
next
  case (c_kill pid c r)
  then show ?thesis using step_kill [OF assms(1)] by simp
qed

definition cpu_init :: "'a kproc_scheme \<Rightarrow> bool" where
  "cpu_init s \<longleftrightarrow> calm s \<and> (\<forall>c. cproc (cpus s c) = None) \<and> (\<forall>i<NPROC. p_state (ptable s i) \<noteq> RUNNING)"

interpretation sched_sim: simulation cpu_init cpu_step view_init view_step calm view_of
proof
  fix s t :: "'a kproc_scheme"
  show "cpu_init s \<Longrightarrow> calm s \<and> view_init (view_of s)"
    by (simp add: cpu_init_def view_init_def view_of_def)
  show "calm s \<Longrightarrow> cpu_step s t \<Longrightarrow> calm t \<and> (view_of s = view_of t \<or> view_step (view_of s) (view_of t))"
    by (rule cpu_step_refines)
qed


section \<open>The scheduler returns\<close>

lemma dispatch_Done:
  assumes "in_sched s" and "p_pgdir (ptable s p) \<noteq> 0"
  shows "\<exists>t. dispatch p s = Done () t"
proof -
  let ?s = "upd_cpu (\<lambda>c. c\<lparr>cproc := Some p\<rparr>) s"
  have "cpu_locked (thiscpu ?s)"
    using assms by (simp add: in_sched_def cpu_locked_def)
  from switchuvm_eq [OF this assms(2), of "p_kstack (ptable s p)"] show ?thesis
    by (simp add: dispatch_def seqk_def bindk_def)
qed

lemma scheduler_Done:
  assumes "calm s" and "\<And>i. runnable (ptable s) i \<Longrightarrow> p_pgdir (ptable s i) \<noteq> 0"
  shows "\<exists>t. scheduler s = Done (pick_priority (ptable s)) t"
proof -
  let ?s = "upd_cpu (\<lambda>c. c\<lparr>eflags := eflags c OR FL_IF\<rparr>) s"
  let ?a = "acquired PtableLk ?s"
  have c: "calm ?s" using assms(1) by (rule sti_wf)
  have a: "in_sched ?a"
    using calmD [OF c] by (intro in_sched_acquired)
  have f: "lk_free PtableLk ?s" using c by (rule calmD)
  show ?thesis
  proof (cases "pick_priority (ptable s)")
    case None
    then show ?thesis
      using f a by (simp add: scheduler_def sti_def seqk_acquire seqk_Done [where m = "release PtableLk", OF release_in_sched] retk_def)
  next
    case (Some p)
    then obtain t where "dispatch p ?a = Done () t"
      using dispatch_Done [OF a, of p] assms(2) [OF pick_priority_Some(1) [OF Some]] by auto
    then show ?thesis
      using Some f by (simp add: scheduler_def sti_def seqk_acquire seqk_Done retk_def)
  qed
qed

lemma pick_loop_cong:
  "(\<And>i. p_state (pt i) = p_state (qt i) \<and> p_priority (pt i) = p_priority (qt i)) \<Longrightarrow>
    pick_loop pt ps r = pick_loop qt ps r"
  by (induction ps arbitrary: r) (simp_all split: option.split)

lemma yield_scheduler_resume:
  assumes "calm s" and "cproc (cpus s c) = Some i" and "yield (at_cpu c s) = Switch t"
    and "scheduler_resume t = Done () u"
  shows "\<exists>k r. ptable u = (ptable s)(i := (ptable s i)\<lparr>p_state := RUNNABLE, p_intena := k, p_context := r\<rparr>)"
proof -
  have s: "calm (at_cpu c s)" "curproc (at_cpu c s) = Some i"
    using assms(1,2) by (simp_all add: curproc_def)
  have t: "t = upd_proc i (\<lambda>p. p\<lparr>p_state := RUNNABLE, p_intena := intena (acquired_cpu (thiscpu (at_cpu c s))),
      p_context := kregs (at_cpu c s)\<rparr>) (acquired PtableLk (at_cpu c s))"
    using yield_eq [OF calmD(1) [OF s(1)] calmD(2,3) [OF s(1)] s(2)] assms(3) by simp
  have "in_sched t"
    using calmD [OF s(1)] in_sched_acquired [of "at_cpu c s"] by (simp add: t)
  then have "u = released PtableLk (upd_cpu (\<lambda>c. c\<lparr>cr3 := V2P (kpgdir t), cproc := None\<rparr>) t)"
    using scheduler_resume_eq [of t] assms(4) by simp
  then have "ptable u = (ptable s)(i := (ptable s i)\<lparr>p_state := RUNNABLE,
      p_intena := intena (acquired_cpu (cpus s c)), p_context := kregs (at_cpu c s)\<rparr>)"
    by (simp add: t)
  then show ?thesis by blast
qed

lemma yield_fields:
  assumes "calm s" and "cproc (cpus s c) = Some i" and "yield (at_cpu c s) = Switch t"
    and "scheduler_resume t = Done () u"
  shows "p_state (ptable u j) = (if j = i then RUNNABLE else p_state (ptable s j))"
    and "p_priority (ptable u j) = p_priority (ptable s j)" and "p_pgdir (ptable u j) = p_pgdir (ptable s j)"
  using yield_scheduler_resume [OF assms] by auto

lemma yield_resume_table:
  assumes "in_sched t" and "curproc t = Some p" and "yield_resume t = Done () u"
  shows "ptable u = ptable t"
proof -
  have "wlpk yield_resume (\<lambda>_ u. ptable u = ptable t) R t"
    unfolding yield_resume_def wlpk_seqk
    by (rule wlpk_mono [OF wlpk_sched_resume [OF assms(1,2)]]) simp_all
  from wlpkD_Done [OF this assms(3)] show ?thesis .
qed

section \<open>Properties\<close>

text \<open>C1: no process runs on two CPUs. In every state the machine can reach by interleaving
  scheduler rounds, \<open>yield\<close>, \<open>sleep\<close>, \<open>wakeup\<close> and \<open>kill\<close> on its CPUs, the current process of a
  CPU is RUNNING and is not current on another CPU, and every RUNNING process is the current
  process of some CPU.\<close>

theorem running_exclusive:
  assumes "reach cpu_init cpu_step s"
  shows "(\<forall>c i. cproc (cpus s c) = Some i \<longrightarrow> i < NPROC \<and> p_state (ptable s i) = RUNNING)
    \<and> (\<forall>c d i. cproc (cpus s c) = Some i \<and> cproc (cpus s d) = Some i \<longrightarrow> c = d)
    \<and> (\<forall>i<NPROC. p_state (ptable s i) = RUNNING \<longrightarrow> (\<exists>c. cproc (cpus s c) = Some i))"
proof -
  have "view_inv (view_of s)"
    using sched_spec.reach_inv sched_sim.sim_reach [OF assms] by blast
  then show ?thesis
    by (simp add: view_inv_def view_of_def)
qed

text \<open>C2: the scheduler runs the most urgent process. When no lock is held, a round of
  \<open>scheduler\<close> returns; it finds nothing exactly when no process is RUNNABLE, and otherwise
  makes RUNNING, and current on its CPU, a process whose priority number no RUNNABLE process
  undercuts, the first such in the table.\<close>

theorem scheduler_picks_most_urgent:
  assumes "calm s" and "\<And>i. runnable (ptable s) i \<Longrightarrow> p_pgdir (ptable s i) \<noteq> 0"
  shows "\<exists>r t. scheduler s = Done r t \<and> (case r of
      None \<Rightarrow> \<forall>q. \<not> runnable (ptable s) q
    | Some p \<Rightarrow> runnable (ptable s) p \<and> curproc t = Some p \<and> p_state (ptable t p) = RUNNING
        \<and> (\<forall>q. runnable (ptable s) q \<longrightarrow> prio (ptable s) p \<le> prio (ptable s) q
             \<and> (q < p \<longrightarrow> prio (ptable s) p < prio (ptable s) q)))"
proof -
  let ?r = "pick_priority (ptable s)"
  obtain t where t: "scheduler s = Done ?r t"
    using scheduler_Done [OF assms] by blast
  note post = wlpkD_Done [OF wlpk_scheduler [OF assms(1)] t]
  show ?thesis
  proof (cases ?r)
    case None
    then show ?thesis
      using t pick_priority_None [of "ptable s"] by (intro exI [of _ None] exI [of _ t]) simp
  next
    case (Some p)
    then show ?thesis using t post pick_priority_Some [OF Some] by auto
  qed
qed

text \<open>C37: processes of equal priority do not take turns. When the process the scheduler chose
  yields at once, the next round chooses it again, although other RUNNABLE processes of the same
  priority wait: the scan starts at the first slot in every round.\<close>

theorem equal_priority_not_round_robin:
  assumes "calm s" and "cproc (cpus s c) = None" and "scheduler (at_cpu c s) = Done (Some p) t"
    and "yield_resume t = Done () u" and "yield (at_cpu c u) = Switch v"
    and "scheduler_resume v = Done () w" and "scheduler w = Done r x"
  shows "r = Some p"
proof -
  have s: "calm (at_cpu c s)" using assms(1) by simp
  note t = wlpkD_Done [OF wlpk_scheduler [OF s] assms(3)]
  have tbl: "ptable u = (ptable s)(p := (ptable s p)\<lparr>p_state := RUNNING\<rparr>)"
    using t yield_resume_table [of t p u] assms(4) by simp
  have "wlpk (resume_op RYield) (\<lambda>_ u. calm u \<and> view_of u = view_of t) (\<lambda>_. True) t"
    using t by (intro wlpk_resume [OF s, where p = p]) auto
  from wlpkD_Done [OF this, of "()" u] have "calm u" "view_of u = view_of t"
    using assms(4) by simp_all
  moreover have "cproc (cpus t c) = Some p"
    using t by (auto simp: curproc_def other_cpus_def)
  ultimately have u: "calm u" "cproc (cpus u c) = Some p"
    by (simp_all add: view_of_def fun_eq_iff)
  have w: "calm w"
    using step_yield [OF u assms(5,6)] by simp
  have "p_state (ptable w i) = p_state (ptable s i) \<and> p_priority (ptable w i) = p_priority (ptable s i)" for i
    using yield_fields [OF u assms(5,6), of i] t by (auto simp: tbl runnable_def)
  then have "pick_priority (ptable w) = pick_priority (ptable s)"
    unfolding pick_priority_def by (rule pick_loop_cong)
  then show ?thesis
    using t wlpkD_Done [OF wlpk_scheduler [OF w] assms(7)] by simp
qed


text \<open>\<open>wakeup\<close> wakes exactly the sleepers of its channel. It returns with the locks as they
  were; every process that sleeps on the channel is RUNNABLE afterwards, and no other process
  changes.\<close>

theorem wakeup_exact:
  assumes "lk_free PtableLk s" and "cpu_wf (thiscpu s)"
  shows "\<exists>t. wakeup chn s = Done () t \<and> quiet s t \<and> (\<forall>i. ptable t i =
    (if i < NPROC \<and> p_state (ptable s i) = SLEEPING \<and> p_chan (ptable s i) = Some chn
     then (ptable s i)\<lparr>p_state := RUNNABLE\<rparr> else ptable s i))"
proof -
  let ?t = "(acquired PtableLk s)\<lparr>ptable := on_slots {..<NPROC} (wake_proc (Some chn)) (ptable s)\<rparr>"
  have "quiet s (released PtableLk ?t)"
    using assms by (intro quiet_section) simp_all
  then show ?thesis
    by (intro exI [of _ "released PtableLk ?t"])
      (simp add: wakeup_eq [OF assms] on_slots_apply wake_proc_def)
qed

text \<open>\<open>kill\<close> marks one process. It returns -1 and changes no process when the pid is not in
  the table; otherwise it returns 0, sets \<open>killed\<close> in the first slot with the pid, wakes that
  process if it sleeps, and leaves all others alone.\<close>

theorem kill_correct:
  assumes "lk_free PtableLk s" and "cpu_wf (thiscpu s)"
  shows "\<exists>r t. kill pid s = Done r t \<and> quiet s t
    \<and> ((\<forall>i<NPROC. p_pid (ptable s i) \<noteq> pid) \<longrightarrow> r = - 1 \<and> ptable t = ptable s)
    \<and> (\<forall>i<NPROC. p_pid (ptable s i) = pid \<and> (\<forall>j<i. p_pid (ptable s j) \<noteq> pid) \<longrightarrow>
        r = 0 \<and> ptable t = (ptable s)(i := (ptable s i)\<lparr>p_killed := 1,
          p_state := (if p_state (ptable s i) = SLEEPING then RUNNABLE else p_state (ptable s i))\<rparr>))"
proof -
  let ?f = "find_index (\<lambda>i. p_pid (ptable s i) = pid) NPROC"
  let ?t = "(acquired PtableLk s)\<lparr>ptable := kill_table pid (ptable s)\<rparr>"
  have q: "quiet s (released PtableLk ?t)"
    using assms by (intro quiet_section) simp_all
  have k: "kill pid s = Done (if ?f = None then - 1 else 0) (released PtableLk ?t)"
    by (rule kill_eq [OF assms])
  have none: "?f = None \<and> kill_table pid (ptable s) = ptable s"
    if "\<forall>i<NPROC. p_pid (ptable s i) \<noteq> pid"
  proof -
    from that have "?f = None" by (simp add: find_index_None)
    then show ?thesis by (simp add: kill_table_def)
  qed
  have some: "?f \<noteq> None \<and> kill_table pid (ptable s) = (ptable s)(i := kill_proc (ptable s i))"
    if "i < NPROC" "p_pid (ptable s i) = pid" "\<forall>j<i. p_pid (ptable s j) \<noteq> pid" for i
  proof -
    from that have "?f = Some i" by (simp add: find_index_Some)
    then show ?thesis by (simp add: kill_table_def)
  qed
  show ?thesis
  proof (intro exI conjI allI impI)
    show "kill pid s = Done (if ?f = None then - 1 else 0) (released PtableLk ?t)" by (rule k)
    show "quiet s (released PtableLk ?t)" by (rule q)
  qed (use none some in \<open>simp_all add: kill_proc_def\<close>)
qed

text \<open>A machine with two RUNNABLE processes of equal priority, in slots 3 and 5.\<close>

definition null_tf :: trapframe where
  "null_tf = \<lparr>tf_edi = 0, tf_esi = 0, tf_ebp = 0, tf_oesp = 0, tf_ebx = 0, tf_edx = 0, tf_ecx = 0,
     tf_eax = 0, tf_gs = 0, tf_fs = 0, tf_es = 0, tf_ds = 0, tf_trapno = 0, tf_err = 0, tf_eip = 0,
     tf_cs = 0, tf_eflags = 0, tf_esp = 0, tf_ss = 0\<rparr>"

definition null_ctx :: ucontext where
  "null_ctx = \<lparr>ctx_edi = 0, ctx_esi = 0, ctx_ebx = 0, ctx_ebp = 0, ctx_eip = 0\<rparr>"

definition null_proc :: proc where
  "null_proc = \<lparr>p_sz = 0, p_pgdir = 0, p_kstack = 0, p_state = UNUSED, p_pid = 0, p_parent = None,
     p_tf = null_tf, p_context = null_ctx, p_chan = None, p_killed = 0, p_ofile = \<lambda>_. None, p_cwd = None,
     p_name = [], p_nice = 0, p_priority = 0, p_original_priority = 0, p_straced = 0, p_intena = 0\<rparr>"

definition ready_proc :: "i32 \<Rightarrow> proc" where
  "ready_proc n = null_proc\<lparr>p_state := RUNNABLE, p_pid := n, p_pgdir := 0x80500000,
     p_kstack := 0x80600000, p_priority := 2, p_original_priority := - 1, p_sz := 0x1000\<rparr>"

definition idle_table :: "nat \<Rightarrow> proc" where
  "idle_table = (\<lambda>_. null_proc)(3 := ready_proc 7, 5 := ready_proc 8)"

definition idle_kproc :: kproc where
  "idle_kproc = vmst.extend (kmem.extend (idle_kmem 0x80400000) (vmst.fields 0x80300000 0x80110000 (\<lambda>_. 0) (\<lambda>_. 0)))
     (kproc.fields idle_table 9 None
       (\<lambda>_. \<lparr>held = 0, holder = None\<rparr>) 0 0x80102000 0x80103000 null_ctx 0)"

lemmas idle_defs = idle_kproc_def idle_kmem_def idle_con_def idle_mach_def mach.defs conout.defs
  kmem.defs vmst.defs kproc.defs

lemma idle_kproc_sel [simp]:
  "cpus idle_kproc = (\<lambda>_. idle_cpu)" "cur_cpu idle_kproc = 0" "slocks idle_kproc = (\<lambda>_. free_lock)"
  "ptable idle_kproc = idle_table" "nextpid idle_kproc = 9"
  by (simp_all add: idle_defs)

lemma idle_cpu_wf [simp]: "cpu_wf idle_cpu" "ncli idle_cpu = 0" "cproc idle_cpu = None"
  by (simp_all add: idle_cpu_def cpu_wf_def)

lemma idle_calm: "calm idle_kproc"
  by (simp add: calm_def lk_free_def free_lock_def)

lemma idle_free: "lk_free l idle_kproc" "cpu_wf (thiscpu idle_kproc)"
  by (simp_all add: lk_free_def free_lock_def)

lemma idle_init: "cpu_init idle_kproc"
  using idle_calm by (simp add: cpu_init_def idle_table_def ready_proc_def null_proc_def)

lemma idle_table_sel [simp]:
  "p_state (idle_table i) = (if i = 3 \<or> i = 5 then RUNNABLE else UNUSED)"
  "p_pgdir (idle_table i) = (if i = 3 \<or> i = 5 then 0x80500000 else 0)"
  "p_priority (idle_table i) = (if i = 3 \<or> i = 5 then 2 else 0)"
  "p_pid (idle_table i) = (if i = 3 then 7 else if i = 5 then 8 else 0)"
  "p_chan (idle_table i) = None"
  by (simp_all add: idle_table_def ready_proc_def null_proc_def)

lemma idle_runnable: "runnable idle_table i \<longleftrightarrow> i = 3 \<or> i = 5"
  by (auto simp: runnable_def NPROC_def)

lemma idle_pgdir: "runnable (ptable idle_kproc) i \<Longrightarrow> p_pgdir (ptable idle_kproc i) \<noteq> 0"
  by (auto simp: idle_runnable)

lemma idle_pick: "pick_priority idle_table = Some 3"
  by code_simp

theorem scheduler_picks_most_urgent_witness:
  "\<exists>t. scheduler idle_kproc = Done (Some 3) t \<and> curproc t = Some 3 \<and> p_state (ptable t 3) = RUNNING"
proof -
  obtain r t where
    "scheduler idle_kproc = Done r t" "case r of None \<Rightarrow> \<forall>q. \<not> runnable (ptable idle_kproc) q
      | Some p \<Rightarrow> runnable (ptable idle_kproc) p \<and> curproc t = Some p \<and> p_state (ptable t p) = RUNNING
        \<and> (\<forall>q. runnable (ptable idle_kproc) q \<longrightarrow> prio (ptable idle_kproc) p \<le> prio (ptable idle_kproc) q
             \<and> (q < p \<longrightarrow> prio (ptable idle_kproc) p < prio (ptable idle_kproc) q))"
    using scheduler_picks_most_urgent [OF idle_calm idle_pgdir] by blast
  then show ?thesis
    by (cases r) (auto simp: idle_runnable)
qed

text \<open>One dispatch on CPU 0, up to the return of the chosen process from \<open>yield\<close>.\<close>

lemma idle_dispatch:
  obtains t u where "scheduler (at_cpu 0 idle_kproc) = Done (Some 3) t" "yield_resume t = Done () u"
    "cpu_step idle_kproc u" "cproc (cpus u 0) = Some 3" "calm u"
proof -
  have at: "at_cpu 0 idle_kproc = idle_kproc" by (simp add: at_cpu_def)
  obtain t where t: "scheduler idle_kproc = Done (Some 3) t"
    using scheduler_Done [OF idle_calm idle_pgdir] idle_pick by auto
  note post = wlpkD_Done [OF wlpk_scheduler [OF idle_calm] t]
  have in_t: "in_sched t" "curproc t = Some 3" and cur: "cur_cpu t = 0"
    using post by (simp_all add: other_cpus_def)
  let ?v = "upd_cpu (\<lambda>c. c\<lparr>intena := p_intena (ptable t 3)\<rparr>) t"
  have "in_sched ?v" using in_t by (intro in_sched_upd_cpu) (simp_all add: in_sched_def)
  then have u: "yield_resume t = Done () (released PtableLk ?v)"
    using in_t by (simp add: yield_resume_def sched_resume_def seqk_def withproc_def release_in_sched bindk_def)
  have step: "cpu_step idle_kproc (released PtableLk ?v)"
    by (rule c_dispatch [where c = 0 and p = 3 and t = t and r = RYield]) (simp_all add: at t u)
  have "cproc (cpus (released PtableLk ?v) 0) = Some 3"
    using in_t(2) cur by (simp add: curproc_def released_cpu_def)
  moreover have "calm (released PtableLk ?v)"
    using cpu_step_refines [OF idle_calm step] by simp
  ultimately show thesis using that t u step by (simp add: at)
qed

theorem running_exclusive_witness:
  "\<exists>s. reach cpu_init cpu_step (s :: kproc) \<and> cproc (cpus s 0) = Some 3 \<and> p_state (ptable s 3) = RUNNING
    \<and> (\<forall>d. cproc (cpus s d) = Some 3 \<longrightarrow> d = 0)"
proof -
  obtain u where u: "cpu_step idle_kproc u" "cproc (cpus u 0) = Some 3"
    by (rule idle_dispatch)
  have r: "reach cpu_init cpu_step u"
    by (rule reach_step, rule reach_init, rule idle_init, rule u(1))
  from running_exclusive [OF r] u(2) r show ?thesis by blast
qed

theorem equal_priority_not_round_robin_witness:
  "\<exists>t u v w x. scheduler (at_cpu 0 idle_kproc) = Done (Some 3) t \<and> yield_resume t = Done () u
    \<and> yield (at_cpu 0 u) = Switch v \<and> scheduler_resume v = Done () w \<and> scheduler w = Done (Some 3) x"
proof -
  obtain t u where t: "scheduler (at_cpu 0 idle_kproc) = Done (Some 3) t" "yield_resume t = Done () u"
    "cproc (cpus u 0) = Some 3" "calm u" by (rule idle_dispatch)
  have "calm (at_cpu 0 u)" "curproc (at_cpu 0 u) = Some 3"
    using t by (simp_all add: curproc_def)
  note at = this
  let ?a = "acquired PtableLk (at_cpu 0 u)"
  from yield_eq [OF calmD(1) [OF at(1)] calmD(2,3) [OF at(1)] at(2)]
  obtain f where v: "yield (at_cpu 0 u) = Switch (upd_proc 3 f ?a)" by blast
  have "in_sched (upd_proc 3 f ?a)"
    using calmD [OF at(1)] in_sched_acquired [of "at_cpu 0 u"] by simp
  from scheduler_resume_eq [OF this] obtain w where w: "scheduler_resume (upd_proc 3 f ?a) = Done () w" by blast
  have cw: "calm w"
    using step_yield [OF t(4,3) v w] by simp
  have "ptable u = ptable t" "ptable t = idle_table(3 := (idle_table 3)\<lparr>p_state := RUNNING\<rparr>)"
    using wlpkD_Done [OF wlpk_scheduler t(1)] idle_calm yield_resume_table [OF _ _ t(2), of 3] by auto
  then have "p_pgdir (ptable w i) \<noteq> 0" if "runnable (ptable w) i" for i
    using that yield_fields [OF t(4,3) v w, of i] by (auto simp: runnable_def split: if_splits)
  from scheduler_Done [OF cw this] obtain r x where x: "scheduler w = Done r x" by blast
  have "r = Some 3"
    by (rule equal_priority_not_round_robin [OF idle_calm _ t(1,2) v w x]) simp
  then show ?thesis using t v w x by blast
qed

theorem wakeup_exact_witness:
  "\<exists>t. wakeup TicksCh idle_kproc = Done () t \<and> quiet idle_kproc t \<and> p_state (ptable t 3) = RUNNABLE"
  using wakeup_exact [OF idle_free, of TicksCh] by auto

theorem kill_correct_witness:
  "\<exists>t. kill 8 idle_kproc = Done 0 t \<and> quiet idle_kproc t \<and> p_killed (ptable t 5) = 1"
proof -
  from kill_correct [OF idle_free, of 8] obtain r t where
    "kill 8 idle_kproc = Done r t" "quiet idle_kproc t"
    "5 < NPROC \<and> p_pid (ptable idle_kproc 5) = 8 \<and> (\<forall>j<5. p_pid (ptable idle_kproc j) \<noteq> 8) \<longrightarrow>
      r = 0 \<and> ptable t = (ptable idle_kproc)(5 := (ptable idle_kproc 5)\<lparr>p_killed := 1,
        p_state := (if p_state (ptable idle_kproc 5) = SLEEPING then RUNNABLE else p_state (ptable idle_kproc 5))\<rparr>)"
    by blast
  then show ?thesis by (simp add: NPROC_def)
qed


end
