(* ===== verification/Sysarg.thy ===== *)
theory Sysarg
  imports Sched
begin

text \<open>
  Fetching system-call arguments, \<open>src/syscall.c\<close>: the checks that keep every pointer a
  process passes inside its own memory. A result of 0 with a value stored through the pointer
  argument is \<open>Some\<close> of that value, a result of -1 is \<open>None\<close>.
\<close>

section \<open>Operations\<close>

text \<open>A load of one byte of the current process's memory.\<close>

definition uloadb :: "u32 \<Rightarrow> ('a mach_scheme, u8) kop" where
  "uloadb va s = (case ubyte s va of Some b \<Rightarrow> Done b s | None \<Rightarrow> Panic ''trap'')"

definition fetchint :: "u32 \<Rightarrow> ('a kproc_scheme, i32 option) kop" where
  "fetchint addr = withproc (\<lambda>i. bindk (getk (\<lambda>s. p_sz (ptable s i))) (\<lambda>sz.
     if addr \<ge> sz \<or> addr + 4 > sz then retk None
     else bindk (uload32 addr) (\<lambda>v. retk (Some v))))"

text \<open>The loop of \<open>fetchstr\<close>, with the number of bytes left before \<open>ep\<close>.\<close>

fun strscan :: "nat \<Rightarrow> u32 \<Rightarrow> u32 \<Rightarrow> ('a mach_scheme, i32 option) kop" where
  "strscan 0 s a = retk None"
| "strscan (Suc n) s a = bindk (uloadb s) (\<lambda>b. if b = 0 then retk (Some (s - a)) else strscan n (s + 1) a)"

text \<open>\<open>fetchstr\<close> sets \<open>*pp\<close> to \<open>addr\<close> and returns the length.\<close>

definition fetchstr :: "u32 \<Rightarrow> ('a kproc_scheme, i32 option) kop" where
  "fetchstr addr = withproc (\<lambda>i. bindk (getk (\<lambda>s. p_sz (ptable s i))) (\<lambda>sz.
     if addr \<ge> sz then retk None else strscan (unat (sz - addr)) addr addr))"

definition argint :: "u32 \<Rightarrow> ('a kproc_scheme, i32 option) kop" where
  "argint n = withproc (\<lambda>i. bindk (getk (\<lambda>s. tf_esp (p_tf (ptable s i)))) (\<lambda>esp. fetchint (esp + 4 + 4 * n)))"

definition argptr :: "u32 \<Rightarrow> i32 \<Rightarrow> ('a kproc_scheme, u32 option) kop" where
  "argptr n size' = bindk (argint n) (\<lambda>r. case r of
     None \<Rightarrow> retk None
   | Some a \<Rightarrow> withproc (\<lambda>i. bindk (getk (\<lambda>s. p_sz (ptable s i))) (\<lambda>sz.
       if sint size' < 0 \<or> a \<ge> sz \<or> a + size' > sz then retk None else retk (Some a))))"

definition argstr :: "u32 \<Rightarrow> ('a kproc_scheme, (u32 \<times> i32) option) kop" where
  "argstr n = bindk (argint n) (\<lambda>r. case r of
     None \<Rightarrow> retk None
   | Some addr \<Rightarrow> bindk (fetchstr addr) (\<lambda>l. retk (map_option (Pair addr) l)))"

section \<open>The fetches on a mapped address space\<close>

text \<open>The current process \<open>i\<close> is below the kernel and all its memory is mapped.\<close>

definition uspace :: "nat \<Rightarrow> 'a kproc_scheme \<Rightarrow> bool" where
  "uspace i s \<longleftrightarrow> curproc s = Some i \<and> p_sz (ptable s i) \<le> KERNBASE
     \<and> (\<forall>va < p_sz (ptable s i). ubyte s va \<noteq> None)"

definition uget :: "'a mach_scheme \<Rightarrow> u32 \<Rightarrow> u8" where
  "uget s va = the (ubyte s va)"

definition uword :: "'a mach_scheme \<Rightarrow> u32 \<Rightarrow> u32" where
  "uword s va = ucast (uget s va) OR push_bit 8 (ucast (uget s (va + 1)))
     OR push_bit 16 (ucast (uget s (va + 2))) OR push_bit 24 (ucast (uget s (va + 3)))"

lemma word_add_less:
  fixes a b n :: u32
  assumes "a < n" and "a + b \<le> n" and "n \<le> KERNBASE" and "b \<le> KERNBASE - 1" and "c < b"
  shows "a + c < n"
proof -
  have le: "unat a < unat n" "unat n \<le> 2147483648" "unat b \<le> 2147483647" "unat c < unat b"
    using assms by (simp_all add: word_less_nat_alt word_le_nat_alt KERNBASE_def)
  then have "unat (a + b) = unat a + unat b" "unat (a + c) = unat a + unat c"
    by (subst unat_add_lem [THEN iffD1]; simp)+
  then show ?thesis
    using assms(2) le by (simp add: word_less_nat_alt word_le_nat_alt)
qed

lemma fetchint_eq:
  assumes "uspace i s"
  shows "fetchint a s = Done (if a \<ge> p_sz (ptable s i) \<or> a + 4 > p_sz (ptable s i) then None
    else Some (uword s a)) s"
proof -
  let ?sz = "p_sz (ptable s i)"
  have "uload32 a s = Done (uword s a) s" if "\<not> a \<ge> ?sz" "\<not> a + 4 > ?sz"
  proof -
    have k: "a + c < ?sz" if "c < 4" for c
      using assms \<open>\<not> a \<ge> ?sz\<close> \<open>\<not> a + 4 > ?sz\<close> that
      by (intro word_add_less [where b = 4]) (simp_all add: uspace_def KERNBASE_def not_le not_less)
    have "ubyte s (a + c) = Some (uget s (a + c))" if "c < 4" for c
      using assms k [OF that] by (auto simp: uspace_def uget_def)
    from this [of 0] this [of 1] this [of 2] this [of 3] show ?thesis
      by (simp add: uload32_def uword_def)
  qed
  then show ?thesis
    using assms by (auto simp: fetchint_def withproc_def uspace_def bindk_def retk_def)
qed

lemma argint_eq:
  fixes n :: u32
  assumes "uspace i s"
  defines "a \<equiv> tf_esp (p_tf (ptable s i)) + 4 + 4 * n"
  shows "argint n s = Done (if a \<ge> p_sz (ptable s i) \<or> a + 4 > p_sz (ptable s i) then None
    else Some (uword s a)) s"
  using fetchint_eq [OF assms(1)] assms(1) by (simp add: argint_def withproc_def uspace_def a_def)

lemma strscan_Some:
  "strscan n s a t = Done (Some l) u \<Longrightarrow> \<exists>k<n. u = t \<and> ubyte t (s + of_nat k) = Some 0 \<and> l = s + of_nat k - a
     \<and> (\<forall>j<k. \<exists>b. ubyte t (s + of_nat j) = Some b \<and> b \<noteq> 0)"
proof (induction n arbitrary: s)
  case 0
  then show ?case by (simp add: retk_def)
next
  case (Suc n)
  from Suc.prems obtain b where b: "ubyte t s = Some b"
    by (auto simp: bindk_def uloadb_def split: option.splits)
  show ?case
  proof (cases "b = 0")
    case True
    then show ?thesis
      using Suc.prems b by (intro exI [of _ 0]) (simp add: bindk_def uloadb_def retk_def)
  next
    case False
    then have "strscan n (s + 1) a t = Done (Some l) u"
      using Suc.prems b by (simp add: bindk_def uloadb_def)
    from Suc.IH [OF this] obtain k where k: "k < n" "u = t" "ubyte t (s + 1 + of_nat k) = Some 0"
      "l = s + 1 + of_nat k - a" "\<forall>j<k. \<exists>b. ubyte t (s + 1 + of_nat j) = Some b \<and> b \<noteq> 0" by blast
    have "\<exists>b. ubyte t (s + of_nat j) = Some b \<and> b \<noteq> 0" if "j < Suc k" for j
      using that k(5) b False by (cases j) (auto simp: add.assoc)
    then show ?thesis
      using k by (intro exI [of _ "Suc k"]) (auto simp: algebra_simps)
  qed
qed

lemma strscan_total:
  assumes "\<And>j. j < n \<Longrightarrow> ubyte t (s + of_nat j) \<noteq> None"
  shows "\<exists>r. strscan n s a t = Done r t"
  using assms
proof (induction n arbitrary: s)
  case 0
  then show ?case by (simp add: retk_def)
next
  case (Suc n)
  from Suc.prems [of 0] obtain b where b: "ubyte t s = Some b" by auto
  have "\<exists>r. strscan n (s + 1) a t = Done r t"
    by (rule Suc.IH) (use Suc.prems [of "Suc j" for j] in \<open>simp add: add.assoc\<close>)
  then show ?case using b by (simp add: bindk_def uloadb_def retk_def)
qed

lemma unat_add_of_nat:
  fixes a m :: u32
  assumes "a < m" and "j < unat (m - a)"
  shows "unat (a + of_nat j) = unat a + j" and "unat a + j < unat m"
proof -
  have "unat (m - a) = unat m - unat a"
    using assms(1) by (simp add: unat_sub word_le_nat_alt word_less_nat_alt)
  then show lt: "unat a + j < unat m"
    using assms(2) by simp
  then have j: "unat (of_nat j :: u32) = j"
    using unat_lt32 [of m] by (simp add: unat_of_nat)
  then show "unat (a + of_nat j) = unat a + j"
    using lt unat_lt32 [of m] by (subst unat_add_lem [THEN iffD1]) simp_all
qed

lemma fetchstr_eq:
  assumes "uspace i s"
  shows "\<exists>r. fetchstr a s = Done r s \<and> (\<forall>l. r = Some l \<longrightarrow>
    unat a + unat l < unat (p_sz (ptable s i)) \<and> uget s (a + l) = 0
    \<and> (\<forall>j<unat l. uget s (a + of_nat j) \<noteq> 0))"
proof (cases "a < p_sz (ptable s i)")
  case False
  then show ?thesis
    using assms by (simp add: fetchstr_def withproc_def uspace_def retk_def not_less)
next
  case True
  let ?m = "p_sz (ptable s i)"
  let ?n = "unat (?m - a)"
  note add = unat_add_of_nat [OF True]
  have "ubyte s (a + of_nat j) \<noteq> None" if "j < ?n" for j
    using assms add [OF that] by (simp add: uspace_def word_less_nat_alt)
  then obtain r where r: "strscan ?n a a s = Done r s"
    using strscan_total by blast
  have "unat a + unat l < unat ?m \<and> uget s (a + l) = 0 \<and> (\<forall>j<unat l. uget s (a + of_nat j) \<noteq> 0)"
    if l: "r = Some l" for l
  proof -
    from strscan_Some [of ?n a a s l s] r l obtain k where k: "k < ?n" "ubyte s (a + of_nat k) = Some 0"
      "l = of_nat k" "\<forall>j<k. \<exists>b. ubyte s (a + of_nat j) = Some b \<and> b \<noteq> 0" by auto
    have "unat l = k"
      using add(1) [OF k(1)] add(2) [OF k(1)] unat_lt32 [of ?m] k(3) by (simp add: unat_of_nat)
    with k add(2) [OF k(1)] show ?thesis by (auto simp: uget_def)
  qed
  then show ?thesis
    using True [folded not_le] assms r by (simp add: fetchstr_def withproc_def uspace_def)
qed

section \<open>Properties\<close>

text \<open>C8: \<open>argptr\<close> never lets a pointer out of the process's memory. For a process below
  \<open>KERNBASE\<close> it returns in every case, and when it accepts a pointer the whole block of the
  requested size lies inside \<open>[0, proc->sz)\<close>, with no wrap-around of the addition.\<close>

theorem argptr_in_bounds:
  assumes "uspace i s"
  shows "\<exists>r. argptr n sz s = Done r s \<and> (\<forall>a. r = Some a \<longrightarrow>
    0 \<le> sint sz \<and> uint a + sint sz \<le> uint (p_sz (ptable s i)) \<and> a < p_sz (ptable s i))"
proof -
  let ?m = "p_sz (ptable s i)"
  obtain r where r: "argint n s = Done r s"
    using argint_eq [OF assms] by blast
  have "uint a + sint sz \<le> uint ?m" if "0 \<le> sint sz" "a < ?m" "a + sz \<le> ?m" for a
  proof -
    have sz: "sint sz = int (unat sz)" "uint sz < 2147483648"
      using that(1) uint_bounded [of sz] by (auto simp: sint_eq split: if_splits)
    then have "unat sz < 2147483648"
      by (simp add: nat_less_iff flip: nat_uint_eq)
    note sz = sz(1) this
    have "unat a < unat ?m" "unat ?m \<le> 2147483648"
      using assms that(2) by (simp_all add: uspace_def word_less_nat_alt word_le_nat_alt KERNBASE_def)
    then have "unat (a + sz) = unat a + unat sz"
      using sz by (subst unat_add_lem [THEN iffD1]) simp_all
    then have "unat a + unat sz \<le> unat ?m"
      using that(3) by (simp add: word_le_nat_alt)
    then have "int (unat a + unat sz) \<le> int (unat ?m)"
      by (rule of_nat_mono)
    then show ?thesis using sz(1) by simp
  qed
  then show ?thesis
    using r assms by (auto simp: argptr_def bindk_def withproc_def uspace_def retk_def not_less not_le split: option.split)
qed

text \<open>C9: \<open>argstr\<close> accepts only terminated strings inside the process. It returns in every
  case; when it accepts, the bytes before the reported length are not NUL, the byte at that
  length is NUL, and all of them are below \<open>proc->sz\<close>.\<close>

theorem argstr_terminated:
  assumes "uspace i s"
  shows "\<exists>r. argstr n s = Done r s \<and> (\<forall>a l. r = Some (a, l) \<longrightarrow>
    unat a + unat l < unat (p_sz (ptable s i)) \<and> uget s (a + l) = 0
    \<and> (\<forall>j<unat l. uget s (a + of_nat j) \<noteq> 0))"
proof -
  let ?m = "p_sz (ptable s i)"
  obtain r where r: "argint n s = Done r s"
    using argint_eq [OF assms] by blast
  show ?thesis
  proof (cases r)
    case None
    then show ?thesis using r by (simp add: argstr_def bindk_def retk_def)
  next
    case (Some a)
    from fetchstr_eq [OF assms, of a] obtain l where l: "fetchstr a s = Done l s"
      "\<forall>k. l = Some k \<longrightarrow> unat a + unat k < unat ?m \<and> uget s (a + k) = 0
        \<and> (\<forall>j<unat k. uget s (a + of_nat j) \<noteq> 0)" by blast
    then show ?thesis
      using r Some by (auto simp: argstr_def bindk_def retk_def)
  qed
qed

text \<open>
  A machine on which process 3 is running on CPU 0 with one page of memory: page directory,
  page table and page frame are the pages at \<open>0x80500000\<close>, \<open>0x80501000\<close> and \<open>0x80502000\<close>, and
  its stack at \<open>0x100\<close> holds two system-call arguments.
\<close>

definition user_mem :: "u32 \<Rightarrow> u32 \<Rightarrow> memory" where
  "user_mem a0 a1 = store32 (store32 (store32 (store32 (\<lambda>_. 0) 0x80500000 0x00501007)
     0x80501000 0x00502007) 0x80502104 a0) 0x80502108 a1"

definition user_proc :: proc where
  "user_proc = (ready_proc 7)\<lparr>p_state := RUNNING, p_tf := null_tf\<lparr>tf_esp := 0x100\<rparr>\<rparr>"

definition user_kproc :: "u32 \<Rightarrow> u32 \<Rightarrow> kproc" where
  "user_kproc a0 a1 = idle_kproc\<lparr>mem := user_mem a0 a1,
     cpus := (\<lambda>_. idle_cpu)(0 := idle_cpu\<lparr>cproc := Some 3, cr3 := 0x00500000\<rparr>),
     ptable := idle_table(3 := user_proc)\<rparr>"

lemma store32_load32_far:
  assumes "4 \<le> b - a" and "b - a \<le> 0xFFFFFFFC"
  shows "load32 (store32 m a v) b = load32 m b"
proof (rule load32_cong)
  fix j :: u32 assume j: "j < 4"
  have "unat (b - a + j) = unat (b - a) + unat j"
    using assms(2) j by (subst unat_add_lem [THEN iffD1]) (simp_all add: word_le_nat_alt word_less_nat_alt)
  then have "unat (b + j - a) = unat (b - a) + unat j"
    by (simp only: diff_add_eq)
  then have "\<not> in_range a 4 (b + j)"
    using assms(1) by (simp add: in_range_def word_le_nat_alt)
  then show "store32 m a v (b + j) = m (b + j)" by (rule store32_outside)
qed

lemma user_mem_words:
  "load32 (user_mem a0 a1) 0x80500000 = 0x00501007" "load32 (user_mem a0 a1) 0x80501000 = 0x00502007"
  "load32 (user_mem a0 a1) 0x80502104 = a0" "load32 (user_mem a0 a1) 0x80502108 = a1"
  by (simp_all add: user_mem_def store32_load32_far)

lemma user_kproc_sel [simp]:
  "mem (user_kproc a0 a1) = user_mem a0 a1" "cur_cpu (user_kproc a0 a1) = 0"
  "cpus (user_kproc a0 a1) = (\<lambda>_. idle_cpu)(0 := idle_cpu\<lparr>cproc := Some 3, cr3 := 0x00500000\<rparr>)"
  "ptable (user_kproc a0 a1) = idle_table(3 := user_proc)" "slocks (user_kproc a0 a1) = (\<lambda>_. free_lock)"
  by (simp_all add: user_kproc_def)

lemma user_translate:
  assumes "va < 0x1000"
  shows "translate (user_mem a0 a1) 0x80500000 va = Some (0x80502000 + va)"
proof -
  have lt: "unat va < 4096"
    using assms by (simp add: word_less_nat_alt)
  then have "unat (drop_bit 22 va) = 0" "unat (drop_bit 12 va) = 0"
    by (simp_all add: drop_bit_eq_div unat_div_distrib)
  then have "drop_bit 22 va = 0" "drop_bit 12 va = 0"
    by (simp_all add: unsigned_eq_0_iff)
  then have "PDX va = 0" "PTX va = 0"
    by (simp_all add: PDX_def PTX_def)
  moreover have "va AND 0xFFF = va"
  proof -
    have "va AND 0xFFF = va mod 4096"
      using take_bit_eq_mask [of 12 va] by (simp add: take_bit_eq_mod mask_eq_exp_minus_1)
    moreover have "unat (va mod 4096) = unat va"
      using lt by (simp add: unat_mod_distrib)
    ultimately show ?thesis by (simp add: unsigned_word_eqI)
  qed
  ultimately show ?thesis
    by (simp add: translate_def user_mem_words PTE_P_def PTE_ADDR_def P2V_def KERNBASE_def)
qed


lemma user_proc_sel [simp]:
  "p_sz user_proc = 0x1000" "tf_esp (p_tf user_proc) = 0x100" "p_state user_proc = RUNNING"
  "p_pid user_proc = 7" "p_priority user_proc = 2" "p_original_priority user_proc = - 1"
  by (simp_all add: user_proc_def ready_proc_def)

lemma user_ubyte: "va < 0x1000 \<Longrightarrow> ubyte (user_kproc a0 a1) va = Some (user_mem a0 a1 (0x80502000 + va))"
  by (simp add: ubyte_def cur_pgdir_def P2V_def KERNBASE_def user_translate)

lemma user_uspace: "uspace 3 (user_kproc a0 a1)"
  by (simp add: uspace_def curproc_def user_ubyte KERNBASE_def)

lemma user_args:
  "argint 0 (user_kproc a0 a1) = Done (Some a0) (user_kproc a0 a1)"
  "argint 1 (user_kproc a0 a1) = Done (Some a1) (user_kproc a0 a1)"
proof -
  have "uword (user_kproc a0 a1) 0x104 = a0" "uword (user_kproc a0 a1) 0x108 = a1"
    using user_mem_words(3,4) [of a0 a1]
    by (simp_all add: uword_def uget_def user_ubyte load32_def)
  then show "argint 0 (user_kproc a0 a1) = Done (Some a0) (user_kproc a0 a1)"
    "argint 1 (user_kproc a0 a1) = Done (Some a1) (user_kproc a0 a1)"
    using argint_eq [OF user_uspace, of 0 a0 a1] argint_eq [OF user_uspace, of 1 a0 a1] by simp_all
qed

theorem argptr_in_bounds_witness:
  "argptr 0 16 (user_kproc 0xFF0 0) = Done (Some 0xFF0) (user_kproc 0xFF0 0)
   \<and> 0 \<le> sint (16 :: i32) \<and> uint (0xFF0 :: u32) + sint (16 :: i32) \<le> 0x1000"
proof -
  from argptr_in_bounds [OF user_uspace, of 0 16 "0xFF0" 0] obtain r
    where r: "argptr 0 16 (user_kproc 0xFF0 0) = Done r (user_kproc 0xFF0 0)"
      "\<forall>a. r = Some a \<longrightarrow> 0 \<le> sint (16 :: i32) \<and> uint a + sint (16 :: i32) \<le> 0x1000" by auto
  moreover have "argptr 0 16 (user_kproc 0xFF0 0) = Done (Some 0xFF0) (user_kproc 0xFF0 0)"
    by (simp add: argptr_def bindk_def user_args withproc_def curproc_def retk_def)
  ultimately show ?thesis by auto
qed

theorem argstr_terminated_witness:
  "argstr 0 (user_kproc 0xFFF 0) = Done (Some (0xFFF, 0)) (user_kproc 0xFFF 0)
   \<and> uget (user_kproc 0xFFF 0) 0xFFF = 0"
proof -
  from argstr_terminated [OF user_uspace, of 0 "0xFFF" 0] obtain r
    where r: "argstr 0 (user_kproc 0xFFF 0) = Done r (user_kproc 0xFFF 0)"
      "\<forall>a l. r = Some (a, l) \<longrightarrow> uget (user_kproc 0xFFF 0) (a + l) = 0" by blast
  moreover have "user_mem 0xFFF 0 0x80502FFF = 0"
    by (simp add: user_mem_def store32_def)
  then have "argstr 0 (user_kproc 0xFFF 0) = Done (Some (0xFFF, 0)) (user_kproc 0xFFF 0)"
    by (simp add: argstr_def bindk_def user_args fetchstr_def withproc_def curproc_def retk_def uloadb_def user_ubyte)
  ultimately show ?thesis by auto
qed


end
