(* ===== verification/Priority.thy ===== *)
theory Priority
  imports Sysarg
begin

text \<open>
  The system calls \<open>nice\<close>, \<open>lock\<close> and \<open>release\<close> of \<open>src/proc.c\<close>: priorities set by the user and
  priority inheritance through seven user-level locks. Each is the whole handler, with its
  argument checks, its critical section under \<open>ptable.lock\<close> and its messages.
\<close>

section \<open>Operations\<close>

definition NULOCK :: nat where "NULOCK = 7"

text \<open>An access through a pointer to a process; a null pointer traps.\<close>

definition deref :: "nat option \<Rightarrow> (nat \<Rightarrow> ('a kproc_scheme, 'b) kop) \<Rightarrow> ('a kproc_scheme, 'b) kop" where
  "deref r f = (case r of None \<Rightarrow> panick ''trap'' | Some i \<Rightarrow> f i)"

definition upd_ulock :: "nat \<Rightarrow> (ulock \<Rightarrow> ulock) \<Rightarrow> 'a kproc_scheme \<Rightarrow> 'a kproc_scheme" where
  "upd_ulock k f s = s\<lparr>ulocks := (ulocks s)(k := f (ulocks s k))\<rparr>"

definition sys_nice :: "('a kproc_scheme, i32) kop" where
  "sys_nice = bindk (argint 0) (\<lambda>a. case a of None \<Rightarrow> retk (- 1) | Some pid \<Rightarrow>
     bindk (argint 1) (\<lambda>b. case b of None \<Rightarrow> retk (- 1) | Some val \<Rightarrow>
       if sint val < 1 \<or> sint val > 5 then retk (- 1)
       else seqk (acquire PtableLk)
         (bindk (getk (\<lambda>s. find_index (\<lambda>i. p_pid (ptable s i) = pid \<and> p_state (ptable s i) \<noteq> UNUSED) NPROC)) (\<lambda>r.
           case r of
             Some i \<Rightarrow> bindk (getk (\<lambda>s. p_nice (ptable s i))) (\<lambda>old_nice.
               seqk (modk (upd_proc i (\<lambda>p. p\<lparr>p_nice := val, p_priority := val\<rparr>)))
                 (seqk (release PtableLk) (retk old_nice)))
           | None \<Rightarrow> seqk (release PtableLk) (retk (- 1))))))"

definition lock_msg :: string where
  "lock_msg = ''Process  %d  acquired lock  %d with the priority  %d'' @ [CHR 0x0A]"

definition invert_msg :: string where
  "invert_msg = ''Detection of Priority Inversion: Process  %d  (holder) priority elevated to  %d  because of Process  %d'' @ [CHR 0x0A]"

definition restore_msg :: string where
  "restore_msg = ''Process  %d  restoring priority from  %d  to original priority  %d  after releasing lock %d'' @ [CHR 0x0A]"

definition release_msg :: string where
  "release_msg = ''Process  %d  released lock  %d  with no priority change'' @ [CHR 0x0A]"

text \<open>Raising the holder \<open>h\<close> to the priority \<open>v\<close> of a process that wants its lock.\<close>

definition boost :: "i32 \<Rightarrow> proc \<Rightarrow> proc" where
  "boost v p = p\<lparr>p_original_priority := (if p_original_priority p = - 1 then p_priority p else p_original_priority p),
     p_priority := v\<rparr>"

text \<open>The body of \<open>sys_lock\<close> between \<open>acquire\<close> and \<open>release\<close>, for process \<open>p\<close> and lock \<open>k\<close>.\<close>

definition lock_body :: "nat option \<Rightarrow> nat \<Rightarrow> ('a kproc_scheme, unit) kop" where
  "lock_body p k = bindk (getk (\<lambda>s. ulocks s k)) (\<lambda>l.
     if held l = 0 then
       seqk (modk (upd_ulock k (\<lambda>l. l\<lparr>held := 1, holder := p\<rparr>)))
         (deref p (\<lambda>i. bindk (getk (\<lambda>s. ptable s i)) (\<lambda>q.
           cprintf (Some lock_msg) [CInt (p_pid q), CInt (of_nat k), CInt (p_priority q)])))
     else deref p (\<lambda>i. deref (holder l) (\<lambda>h. bindk (getk ptable) (\<lambda>pt.
       if sint (p_priority (pt i)) < sint (p_priority (pt h)) then
         seqk (modk (upd_proc h (boost (p_priority (pt i)))))
           (bindk (getk ptable) (\<lambda>pt.
             cprintf (Some invert_msg) [CInt (p_pid (pt h)), CInt (p_priority (pt h)), CInt (p_pid (pt i))]))
       else retk ()))))"

definition sys_lock :: "u32 \<Rightarrow> ('a kproc_scheme, i32) kop" where
  "sys_lock ra = bindk (myproc ra) (\<lambda>p. bindk (argint 0) (\<lambda>a. case a of None \<Rightarrow> retk (- 1) | Some k \<Rightarrow>
     if sint k < 0 \<or> sint k \<ge> int NULOCK then retk (- 1)
     else seqk (acquire PtableLk) (seqk (lock_body p (unat k)) (seqk (release PtableLk) (retk 0)))))"

definition unboost :: "proc \<Rightarrow> proc" where
  "unboost p = p\<lparr>p_priority := p_original_priority p, p_original_priority := - 1\<rparr>"

definition release_body :: "nat option \<Rightarrow> nat \<Rightarrow> ('a kproc_scheme, unit) kop" where
  "release_body p k = bindk (getk (\<lambda>s. ulocks s k)) (\<lambda>l.
     if held l = 1 \<and> holder l = p then
       seqk (modk (upd_ulock k (\<lambda>l. l\<lparr>held := 0, holder := None\<rparr>)))
         (deref p (\<lambda>i. bindk (getk (\<lambda>s. ptable s i)) (\<lambda>q.
           if p_original_priority q \<noteq> - 1 then
             seqk (cprintf (Some restore_msg) [CInt (p_pid q), CInt (p_priority q), CInt (p_original_priority q), CInt (of_nat k)])
               (modk (upd_proc i unboost))
           else cprintf (Some release_msg) [CInt (p_pid q), CInt (of_nat k)])))
     else retk ())"

definition sys_release :: "u32 \<Rightarrow> ('a kproc_scheme, i32) kop" where
  "sys_release ra = bindk (myproc ra) (\<lambda>p. bindk (argint 0) (\<lambda>a. case a of None \<Rightarrow> retk (- 1) | Some k \<Rightarrow>
     if sint k < 0 \<or> sint k \<ge> int NULOCK then retk (- 1)
     else seqk (acquire PtableLk) (seqk (release_body p (unat k)) (seqk (release PtableLk) (retk 0)))))"

section \<open>Effects\<close>

lemma quiet_released:
  assumes "quiet s t" and "cpu_locked (thiscpu s)"
  shows "quiet (released l s) (released l t)"
proof -
  have "quiet_cpu (released_cpu (cpus s (cur_cpu s))) (released_cpu (cpus t (cur_cpu s)))"
    using assms by (auto simp: quiet_def quiet_cpu_def released_cpu_def cpu_locked_def)
  then show ?thesis
    using assms(1) by (auto simp: quiet_def store_unlocked_def)
qed

lemma quiet_holding:
  assumes "quiet s t" and "holding l s" and "cpu_locked (thiscpu s)"
  shows "holding l t" and "cpu_locked (thiscpu t)"
  using assms by (auto simp: quiet_def quiet_cpu_def holding_def lk_holding_def cpu_locked_def)

text \<open>A critical section around a body that may take and release other locks.\<close>

lemma locked_body:
  assumes "lk_free l s" and "cpu_wf (thiscpu s)" and "m (acquired l s) = Done () u" and "quiet (acquired l s) u"
  shows "seqk (acquire l) (seqk m (seqk (release l) (retk v))) s = Done v (released l u)"
    and "quiet s (released l u)"
proof -
  have "holding l u" "cpu_locked (thiscpu u)"
    using quiet_holding [OF assms(4), of l] assms(2) by simp_all
  then show "seqk (acquire l) (seqk m (seqk (release l) (retk v))) s = Done v (released l u)"
    using assms(1,3) by (simp add: seqk_acquire seqk_Done seqk_release retk_def)
  have "quiet s (released l (acquired l s))"
    using assms(1,2) by (intro quiet_section) simp_all
  then show "quiet s (released l u)"
    by (rule quiet_trans) (rule quiet_released [OF assms(4)], use assms(2) in simp)
qed

text \<open>The kernel can print: the console is in order, its lock free and the CPU well-formed.\<close>

definition can_print :: "'a conout_scheme \<Rightarrow> bool" where
  "can_print s \<longleftrightarrow> con_ok s \<and> lk_free ConsLk s \<and> cpu_wf (thiscpu s)"

lemma can_print_acquired: "can_print s \<Longrightarrow> l \<noteq> ConsLk \<Longrightarrow> can_print (acquired l s)"
  by (simp add: can_print_def con_ok_def cpu_wf_locked acquired_def lk_free_def)

lemma print_step:
  fixes s :: "'a kproc_scheme"
  assumes "can_print s"
  shows "\<exists>t. cprintf (Some fmt) args s = Done () t \<and> quiet s t \<and> can_print t \<and> ptable t = ptable s
    \<and> ulocks t = ulocks s \<and> mem t = mem s \<and> cpunum_n t = cpunum_n s"
proof -
  obtain t where t: "cprintf (Some fmt) args s = Done () t" "con_step s t" "con_ok t"
    using cprintf_step assms unfolding can_print_def by blast
  then have q: "quiet s t" by (simp add: con_step_def)
  then have "can_print t"
    using t(3) assms by (auto simp: can_print_def quiet_def quiet_cpu_def lk_free_def cpu_wf_def)
  moreover have "ptable t = ptable s \<and> ulocks t = ulocks s \<and> mem t = mem s \<and> cpunum_n t = cpunum_n s"
    using t(2) by (auto simp: con_step_def)
  ultimately show ?thesis using t(1) q by blast
qed

text \<open>What a handler relies on: a current process \<open>i\<close> with mapped memory, whose system call is not
  inside another critical section.\<close>

definition in_syscall :: "nat \<Rightarrow> 'a kproc_scheme \<Rightarrow> bool" where
  "in_syscall i s \<longleftrightarrow> uspace i s \<and> lk_free PtableLk s \<and> can_print s"

lemma uspace_cong:
  assumes "quiet s t" and "ptable t = ptable s" and "mem t = mem s"
  shows "uspace i t = uspace i s" and "uword t = uword s"
proof -
  have "ubyte t = ubyte s" "curproc t = curproc s"
    using assms by (auto simp: quiet_def quiet_cpu_def ubyte_def cur_pgdir_def curproc_def)
  then show "uspace i t = uspace i s" "uword t = uword s"
    using assms(2) by (simp_all add: uspace_def uword_def uget_def fun_eq_iff)
qed

text \<open>\<open>myproc\<close> returns the current process; at most it counts the call and prints the warning
  about enabled interrupts.\<close>

lemma myproc_eq:
  assumes "in_syscall i s"
  shows "\<exists>t. myproc ra s = Done (Some i) t \<and> in_syscall i t \<and> quiet s t \<and> ptable t = ptable s
    \<and> ulocks t = ulocks s \<and> mem t = mem s"
proof -
  have i: "cproc (cpus s (cur_cpu s)) = Some i" "can_print s" "uspace i s" "lk_free PtableLk s"
    using assms by (simp_all add: in_syscall_def uspace_def curproc_def)
  let ?s = "s\<lparr>cpunum_n := cpunum_n s + 1\<rparr>"
  have k: "in_syscall i ?s"
    using i by (simp add: in_syscall_def uspace_def curproc_def can_print_def con_ok_def lk_free_def ubyte_def cur_pgdir_def)
  then have p: "can_print ?s" by (simp add: in_syscall_def)
  obtain t where t: "cprintf (Some (''cpu called from %x with interrupts enabled'' @ [CHR 0x0A])) [CInt ra] ?s = Done () t"
    "quiet ?s t" "can_print t" "ptable t = ptable ?s" "ulocks t = ulocks ?s" "mem t = mem ?s"
    using print_step [OF p] by blast
  have t': "in_syscall i t" "cproc (cpus t (cur_cpu t)) = Some i" "quiet s t"
    using t k uspace_cong [OF t(2) t(4) t(6)] i(1)
    by (auto simp: in_syscall_def quiet_def quiet_cpu_def lk_free_def)
  show ?thesis
  proof (cases "readeflags s AND FL_IF \<noteq> 0 \<and> cpunum_n s = 0")
    case True
    then have "myproc ra s = Done (Some i) t"
      using t t' by (simp add: myproc_def mycpu_def cpunum_def unlessk_def seqk_Done bindk_def)
    then show ?thesis using t t' by auto
  next
    case False
    then have "myproc ra s = Done (Some i) (if readeflags s AND FL_IF \<noteq> 0 then ?s else s)"
      using i by (auto simp: myproc_def mycpu_def cpunum_def unlessk_def bindk_def)
    then show ?thesis using k assms by (cases "readeflags s AND FL_IF \<noteq> 0") (auto simp: quiet_def quiet_cpu_def)
  qed
qed

text \<open>The word argument \<open>n\<close> of the system call, when it lies in the process's memory.\<close>

definition arg_word :: "u32 \<Rightarrow> 'a kproc_scheme \<Rightarrow> u32 option" where
  "arg_word n s = (case curproc s of None \<Rightarrow> None | Some i \<Rightarrow>
     let a = tf_esp (p_tf (ptable s i)) + 4 + 4 * n; sz = p_sz (ptable s i)
     in if a \<ge> sz \<or> a + 4 > sz then None else Some (uword s a))"

lemma argint_word:
  assumes "in_syscall i s"
  shows "argint n s = Done (arg_word n s) s"
  using argint_eq [of i s n] assms by (simp add: in_syscall_def uspace_def arg_word_def Let_def)

lemma arg_word_cong:
  assumes "quiet s t" and "ptable t = ptable s" and "mem t = mem s"
  shows "arg_word n t = arg_word n s"
proof -
  have "curproc t = curproc s" using assms(1) by (simp add: quiet_def quiet_cpu_def curproc_def)
  then show ?thesis using uspace_cong(2) [OF assms] assms(2) by (simp add: arg_word_def Let_def split: option.split)
qed

text \<open>The tables after the bodies of \<open>sys_lock\<close> and \<open>sys_release\<close>.\<close>

definition lock_table :: "nat \<Rightarrow> ulock \<Rightarrow> (nat \<Rightarrow> proc) \<Rightarrow> nat \<Rightarrow> proc" where
  "lock_table i l pt = (if held l \<noteq> 0 \<and> prio pt i < prio pt (the (holder l))
     then pt(the (holder l) := boost (p_priority (pt i)) (pt (the (holder l)))) else pt)"

definition lock_ulock :: "nat \<Rightarrow> ulock \<Rightarrow> ulock" where
  "lock_ulock i l = (if held l = 0 then l\<lparr>held := 1, holder := Some i\<rparr> else l)"

definition release_table :: "nat \<Rightarrow> ulock \<Rightarrow> (nat \<Rightarrow> proc) \<Rightarrow> nat \<Rightarrow> proc" where
  "release_table i l pt = (if held l = 1 \<and> holder l = Some i \<and> p_original_priority (pt i) \<noteq> - 1
     then pt(i := unboost (pt i)) else pt)"

definition release_ulock :: "nat \<Rightarrow> ulock \<Rightarrow> ulock" where
  "release_ulock i l = (if held l = 1 \<and> holder l = Some i then l\<lparr>held := 0, holder := None\<rparr> else l)"

lemma upd_ulock_sel [simp]:
  "ptable (upd_ulock k f s) = ptable s" "ulocks (upd_ulock k f s) = (ulocks s)(k := f (ulocks s k))"
  "mem (upd_ulock k f s) = mem s" "can_print (upd_ulock k f s) = can_print s" "quiet t (upd_ulock k f s) = quiet t s"
  by (simp_all add: upd_ulock_def can_print_def con_ok_def lk_free_def quiet_def)

lemma upd_proc_print [simp]:
  "can_print (upd_proc k f s) = can_print s" "quiet t (upd_proc k f s) = quiet t s" "ulocks (upd_proc k f s) = ulocks s"
  by (simp_all add: upd_proc_def can_print_def con_ok_def lk_free_def quiet_def)

lemma quiet_upd [simp]: "quiet (upd_ulock k f s) t = quiet s t" "quiet (upd_proc i g s) t = quiet s t"
  by (simp_all add: upd_ulock_def upd_proc_def quiet_def)

lemma lock_body_eq:
  assumes "can_print s" and "held (ulocks s k) \<noteq> 0 \<Longrightarrow> holder (ulocks s k) \<noteq> None"
  shows "\<exists>t. lock_body (Some i) k s = Done () t \<and> quiet s t \<and> ptable t = lock_table i (ulocks s k) (ptable s)
    \<and> ulocks t = (ulocks s)(k := lock_ulock i (ulocks s k))"
proof (cases "held (ulocks s k) = 0")
  case True
  let ?s = "upd_ulock k (\<lambda>l. l\<lparr>held := 1, holder := Some i\<rparr>) s"
  obtain t where "cprintf (Some lock_msg) [CInt (p_pid (ptable s i)), CInt (of_nat k), CInt (p_priority (ptable s i))] ?s = Done () t"
    "quiet ?s t" "ptable t = ptable ?s" "ulocks t = ulocks ?s"
    using print_step [of ?s] assms(1) by fastforce
  then show ?thesis
    using True by (simp add: lock_body_def deref_def lock_table_def lock_ulock_def)
next
  case False
  then obtain h where h: "holder (ulocks s k) = Some h" using assms(2) by blast
  show ?thesis
  proof (cases "prio (ptable s) i < prio (ptable s) h")
    case True
    let ?s = "upd_proc h (boost (p_priority (ptable s i))) s"
    obtain t where "cprintf (Some invert_msg) [CInt (p_pid (ptable ?s h)), CInt (p_priority (ptable ?s h)), CInt (p_pid (ptable ?s i))] ?s = Done () t"
      "quiet ?s t" "ptable t = ptable ?s" "ulocks t = ulocks ?s"
      using print_step [of ?s] assms(1) by fastforce
    then show ?thesis
      using True False h by (simp add: lock_body_def deref_def lock_table_def lock_ulock_def)
  next
    case no: False
    then show ?thesis
      using False h by (simp add: lock_body_def deref_def lock_table_def lock_ulock_def retk_def)
  qed
qed

lemma release_body_eq:
  assumes "can_print s"
  shows "\<exists>t. release_body (Some i) k s = Done () t \<and> quiet s t \<and> ptable t = release_table i (ulocks s k) (ptable s)
    \<and> ulocks t = (ulocks s)(k := release_ulock i (ulocks s k))"
proof (cases "held (ulocks s k) = 1 \<and> holder (ulocks s k) = Some i")
  case True
  let ?s = "upd_ulock k (\<lambda>l. l\<lparr>held := 0, holder := None\<rparr>) s"
  have p: "\<exists>t. cprintf (Some fmt) args ?s = Done () t \<and> quiet ?s t \<and> ptable t = ptable ?s \<and> ulocks t = ulocks ?s" for fmt args
    using print_step [of ?s fmt args] assms by auto
  show ?thesis
  proof (cases "p_original_priority (ptable s i) = - 1")
    case True
    obtain t where "cprintf (Some release_msg) [CInt (p_pid (ptable s i)), CInt (of_nat k)] ?s = Done () t"
      "quiet ?s t" "ptable t = ptable ?s" "ulocks t = ulocks ?s"
      using p by blast
    then show ?thesis
      using True \<open>held _ = 1 \<and> _\<close> by (simp add: release_body_def deref_def release_table_def release_ulock_def)
  next
    case False
    obtain t where "cprintf (Some restore_msg) [CInt (p_pid (ptable s i)), CInt (p_priority (ptable s i)),
        CInt (p_original_priority (ptable s i)), CInt (of_nat k)] ?s = Done () t"
      "quiet ?s t" "ptable t = ptable ?s" "ulocks t = ulocks ?s"
      using p by blast
    then show ?thesis
      using False \<open>held _ = 1 \<and> _\<close>
      by (intro exI [of _ "upd_proc i unboost t"])
        (simp add: release_body_def deref_def release_table_def release_ulock_def seqk_Done)
  qed
next
  case False
  then show ?thesis
    by (auto simp: release_body_def release_table_def release_ulock_def retk_def)
qed

text \<open>A handler that reads its lock number and runs its body under \<open>ptable.lock\<close>.\<close>

lemma ulock_handler:
  assumes "in_syscall i s" and "arg_word 0 s = Some k" and "0 \<le> sint k" and "sint k < int NULOCK"
    and body: "\<And>t. can_print t \<Longrightarrow> ulocks t = ulocks s \<Longrightarrow> \<exists>u. body (Some i) (unat k) t = Done () u \<and> quiet t u
      \<and> ptable u = f (ptable t) \<and> ulocks u = g (ulocks t)"
  shows "\<exists>t. bindk (myproc ra) (\<lambda>p. bindk (argint 0) (\<lambda>a. case a of None \<Rightarrow> retk (- 1) | Some k \<Rightarrow>
     if sint k < 0 \<or> sint k \<ge> int NULOCK then retk (- 1)
     else seqk (acquire PtableLk) (seqk (body p (unat k)) (seqk (release PtableLk) (retk 0))))) s = Done (0 :: i32) t
    \<and> quiet s t \<and> ptable t = f (ptable s) \<and> ulocks t = g (ulocks s)"
proof -
  obtain t where t: "myproc ra s = Done (Some i) t" "in_syscall i t" "quiet s t" "ptable t = ptable s"
    "ulocks t = ulocks s" "mem t = mem s"
    using myproc_eq [OF assms(1)] by blast
  have a: "argint 0 t = Done (Some k) t"
    using argint_word [OF t(2), of 0] arg_word_cong [OF t(3,4,6), of 0] assms(2) by simp
  have p: "can_print (acquired PtableLk t)" "lk_free PtableLk t" "cpu_wf (thiscpu t)"
    using t(2) by (simp_all add: in_syscall_def can_print_acquired) (simp add: can_print_def)
  obtain u where u: "body (Some i) (unat k) (acquired PtableLk t) = Done () u" "quiet (acquired PtableLk t) u"
    "ptable u = f (ptable t)" "ulocks u = g (ulocks t)"
    using body [OF p(1)] t(5) by (auto simp: acquired_def)
  note l = locked_body(1) [where m = "body (Some i) (unat k)" and v = "0 :: i32", OF p(2,3) u(1,2)]
    locked_body(2) [where m = "body (Some i) (unat k)", OF p(2,3) u(1,2)]
  have "quiet s (released PtableLk u)"
    using t(3) l(2) by (rule quiet_trans)
  moreover have "ptable (released PtableLk u) = f (ptable s)" "ulocks (released PtableLk u) = g (ulocks s)"
    using u t by (simp_all add: released_def)
  ultimately show ?thesis
    using t(1) a l(1) assms(3,4) by (simp add: bindk_Done)
qed

lemma sys_lock_eq:
  assumes "in_syscall i s" and "arg_word 0 s = Some k" and "0 \<le> sint k" and "sint k < int NULOCK"
    and "held (ulocks s (unat k)) \<noteq> 0 \<Longrightarrow> holder (ulocks s (unat k)) \<noteq> None"
  shows "\<exists>t. sys_lock ra s = Done 0 t \<and> quiet s t \<and> ptable t = lock_table i (ulocks s (unat k)) (ptable s)
    \<and> ulocks t = (ulocks s)(unat k := lock_ulock i (ulocks s (unat k)))"
  unfolding sys_lock_def
  by (rule ulock_handler [OF assms(1-4), where body = lock_body and g = "\<lambda>ul. ul(unat k := lock_ulock i (ul (unat k)))"])
    (metis lock_body_eq assms(5))

lemma sys_release_eq:
  assumes "in_syscall i s" and "arg_word 0 s = Some k" and "0 \<le> sint k" and "sint k < int NULOCK"
  shows "\<exists>t. sys_release ra s = Done 0 t \<and> quiet s t \<and> ptable t = release_table i (ulocks s (unat k)) (ptable s)
    \<and> ulocks t = (ulocks s)(unat k := release_ulock i (ulocks s (unat k)))"
  unfolding sys_release_def
  by (rule ulock_handler [OF assms(1-4), where body = release_body and g = "\<lambda>ul. ul(unat k := release_ulock i (ul (unat k)))"])
    (metis release_body_eq)

lemma sys_nice_eq:
  assumes "in_syscall i s" and "arg_word 0 s = Some pid" and "arg_word 1 s = Some val" and "1 \<le> sint val" and "sint val \<le> 5"
  defines "r \<equiv> find_index (\<lambda>j. p_pid (ptable s j) = pid \<and> p_state (ptable s j) \<noteq> UNUSED) NPROC"
  shows "\<exists>t. sys_nice s = Done (case r of None \<Rightarrow> - 1 | Some j \<Rightarrow> p_nice (ptable s j)) t \<and> quiet s t
    \<and> ptable t = (case r of None \<Rightarrow> ptable s
        | Some j \<Rightarrow> (ptable s)(j := (ptable s j)\<lparr>p_nice := val, p_priority := val\<rparr>))"
proof -
  have l: "lk_free PtableLk s" "cpu_wf (thiscpu s)"
    using assms(1) by (simp_all add: in_syscall_def can_print_def)
  note a = argint_word [OF assms(1), of 0, unfolded assms(2)] argint_word [OF assms(1), of 1, unfolded assms(3)]
  let ?a = "acquired PtableLk s"
  show ?thesis
  proof (cases r)
    case None
    have "sys_nice s = Done (- 1) (released PtableLk ?a)"
      using a assms(4,5) None l by (simp add: sys_nice_def bindk_Done seqk_acquire seqk_release r_def retk_def)
    moreover have "quiet s (released PtableLk ?a)"
      using l by (intro quiet_section) simp_all
    ultimately show ?thesis using None by simp
  next
    case (Some j)
    let ?t = "upd_proc j (\<lambda>p. p\<lparr>p_nice := val, p_priority := val\<rparr>) ?a"
    have h: "holding PtableLk ?t" "cpu_locked (thiscpu ?t)"
      using l by (simp_all add: holding_def lk_holding_def)
    have "sys_nice s = Done (p_nice (ptable s j)) (released PtableLk ?t)"
      using a assms(4,5) Some l h by (simp add: sys_nice_def bindk_Done seqk_acquire seqk_release r_def retk_def)
    moreover have "quiet s (released PtableLk ?t)"
      using l by (intro quiet_section) simp_all
    ultimately show ?thesis using Some by simp
  qed
qed

section \<open>Properties\<close>

text \<open>C36: \<open>sys_nice(pid, value)\<close> in full. It returns in every case. With a value outside 1 to 5 it
  returns -1 and changes nothing; with a process identifier in use it returns the old nice value
  and sets the nice value and the priority of the first slot with that identifier, and of no
  other; otherwise it returns -1 and no slot changes.\<close>

theorem sys_nice_correct:
  assumes "in_syscall i s" and "arg_word 0 s = Some pid" and "arg_word 1 s = Some val"
  shows "\<exists>r t. sys_nice s = Done r t \<and> quiet s t \<and>
    (if 1 \<le> sint val \<and> sint val \<le> 5 \<and> (\<exists>j<NPROC. p_pid (ptable s j) = pid \<and> p_state (ptable s j) \<noteq> UNUSED)
     then \<exists>j<NPROC. p_pid (ptable s j) = pid \<and> p_state (ptable s j) \<noteq> UNUSED \<and> r = p_nice (ptable s j)
       \<and> (\<forall>k<j. p_pid (ptable s k) \<noteq> pid \<or> p_state (ptable s k) = UNUSED)
       \<and> ptable t = (ptable s)(j := (ptable s j)\<lparr>p_nice := val, p_priority := val\<rparr>)
     else r = - 1 \<and> ptable t = ptable s)"
proof (cases "1 \<le> sint val \<and> sint val \<le> 5")
  case True
  let ?P = "\<lambda>j. p_pid (ptable s j) = pid \<and> p_state (ptable s j) \<noteq> UNUSED"
  obtain t where t: "sys_nice s = Done (case find_index ?P NPROC of None \<Rightarrow> - 1 | Some j \<Rightarrow> p_nice (ptable s j)) t"
    "quiet s t" "ptable t = (case find_index ?P NPROC of None \<Rightarrow> ptable s
        | Some j \<Rightarrow> (ptable s)(j := (ptable s j)\<lparr>p_nice := val, p_priority := val\<rparr>))"
    using sys_nice_eq [OF assms] True by blast
  show ?thesis
  proof (cases "find_index ?P NPROC")
    case None
    then have "\<not> (\<exists>j<NPROC. ?P j)" by (simp add: find_index_None)
    then show ?thesis using t None by auto
  next
    case (Some j)
    then have j: "j < NPROC" "?P j" "\<forall>k<j. \<not> ?P k" by (auto simp: find_index_Some)
    then show ?thesis using t Some True by auto
  qed
next
  case False
  then have "sys_nice s = Done (- 1) s"
    using argint_word [OF assms(1), of 0] argint_word [OF assms(1), of 1] assms(2,3)
    by (auto simp: sys_nice_def bindk_Done retk_def)
  then show ?thesis using False by auto
qed

text \<open>C10: priority inheritance. A \<open>lock(k)\<close> on a lock that process \<open>h\<close> holds returns 0 and leaves
  the holder at least as urgent as the caller: its priority becomes the smaller number of the
  two. If the caller is the more urgent one, the holder's slot changes in the priority and in the
  original priority, which keeps what it was before the first inheritance, and in nothing else;
  otherwise no slot changes. No other process changes in either case, and the lock stays with \<open>h\<close>
  (the caller does not get it and does not wait).\<close>

theorem sys_lock_inherits:
  assumes "in_syscall i s" and "arg_word 0 s = Some k" and "0 \<le> sint k" and "sint k < 7"
    and "held (ulocks s (unat k)) = 1" and "holder (ulocks s (unat k)) = Some h"
  shows "\<exists>t. sys_lock ra s = Done 0 t \<and> quiet s t \<and> ulocks t = ulocks s
    \<and> prio (ptable t) h = min (prio (ptable s) i) (prio (ptable s) h)
    \<and> ptable t = (if prio (ptable s) i < prio (ptable s) h
        then (ptable s)(h := (ptable s h)\<lparr>p_priority := p_priority (ptable s i), p_original_priority :=
          (if p_original_priority (ptable s h) = - 1 then p_priority (ptable s h) else p_original_priority (ptable s h))\<rparr>)
        else ptable s)"
proof -
  obtain t where "sys_lock ra s = Done 0 t" "quiet s t" "ptable t = lock_table i (ulocks s (unat k)) (ptable s)"
    "ulocks t = (ulocks s)(unat k := lock_ulock i (ulocks s (unat k)))"
    using sys_lock_eq [OF assms(1-3), of ra] assms(4-6) by (auto simp: NULOCK_def)
  then show ?thesis
    using assms(5,6) by (auto simp: lock_table_def lock_ulock_def boost_def min_def)
qed

text \<open>A free lock is taken: \<open>lock(k)\<close> returns 0, the caller is the holder, and neither another
  lock nor any process changes.\<close>

theorem sys_lock_free:
  assumes "in_syscall i s" and "arg_word 0 s = Some k" and "0 \<le> sint k" and "sint k < 7"
    and "held (ulocks s (unat k)) = 0"
  shows "\<exists>t. sys_lock ra s = Done 0 t \<and> quiet s t \<and> ptable t = ptable s
    \<and> ulocks t = (ulocks s)(unat k := \<lparr>held = 1, holder = Some i\<rparr>)"
proof -
  obtain t where "sys_lock ra s = Done 0 t" "quiet s t" "ptable t = lock_table i (ulocks s (unat k)) (ptable s)"
    "ulocks t = (ulocks s)(unat k := lock_ulock i (ulocks s (unat k)))"
    using sys_lock_eq [OF assms(1-3), of ra] assms(4,5) by (auto simp: NULOCK_def)
  then show ?thesis
    using assms(5) by (auto simp: lock_table_def lock_ulock_def)
qed

text \<open>C11: inheritance ends with the release. Let process \<open>i\<close> ask for the lock \<open>k\<close> that a less
  urgent process \<open>h\<close> with no inherited priority holds, and let \<open>h\<close> call \<open>release(k)\<close> in any later state
  in which the lock and the two priorities of \<open>h\<close> are still as that call left them; all else may have
  changed, and \<open>h\<close> may have been scheduled in between. The call returns 0, frees the lock and changes
  no other, gives \<open>h\<close> back the priority it had before the inheritance, clears the original priority, and
  changes nothing else of \<open>h\<close> and nothing of any other process.\<close>

theorem inheritance_roundtrip:
  assumes "in_syscall i s" and "arg_word 0 s = Some k" and "0 \<le> sint k" and "sint k < 7"
    and "ulocks s (unat k) = \<lparr>held = 1, holder = Some h\<rparr>"
    and "prio (ptable s) i < prio (ptable s) h"
    and "p_original_priority (ptable s h) = - 1" and "p_priority (ptable s h) \<noteq> - 1"
    and "sys_lock ra s = Done 0 t"
    and "in_syscall h u" and "arg_word 0 u = Some k" and "ulocks u (unat k) = ulocks t (unat k)"
    and "p_priority (ptable u h) = p_priority (ptable t h)" and "p_original_priority (ptable u h) = p_original_priority (ptable t h)"
  shows "\<exists>v. sys_release ra' u = Done 0 v \<and> quiet u v \<and> ulocks v = (ulocks u)(unat k := \<lparr>held = 0, holder = None\<rparr>)
    \<and> ptable v = (ptable u)(h := (ptable u h)\<lparr>p_priority := p_priority (ptable s h), p_original_priority := - 1\<rparr>)"
proof -
  have "ptable t = lock_table i (ulocks s (unat k)) (ptable s)" "ulocks t = (ulocks s)(unat k := lock_ulock i (ulocks s (unat k)))"
    using sys_lock_eq [OF assms(1-3), of ra] assms(4,5,9) by (auto simp: NULOCK_def)
  then have t: "ptable t h = boost (p_priority (ptable s i)) (ptable s h)" "ulocks t (unat k) = \<lparr>held = 1, holder = Some h\<rparr>"
    using assms(5,6) by (auto simp: lock_table_def lock_ulock_def)
  obtain v where v: "sys_release ra' u = Done 0 v" "quiet u v" "ptable v = release_table h (ulocks u (unat k)) (ptable u)"
    "ulocks v = (ulocks u)(unat k := release_ulock h (ulocks u (unat k)))"
    using sys_release_eq [OF assms(10,11,3), of ra'] assms(4) by (auto simp: NULOCK_def)
  have o: "p_original_priority (ptable u h) = p_priority (ptable s h)" "ulocks u (unat k) = \<lparr>held = 1, holder = Some h\<rparr>"
    using t assms(7,12,14) by (simp_all add: boost_def)
  then show ?thesis
    using v assms(8) by (auto simp: release_table_def release_ulock_def unboost_def)
qed

text \<open>
  A machine on which process \<open>i\<close> asks for lock 2: slot 3 has priority 2, slot 5 the priority \<open>v\<close>
  and the original priority \<open>w\<close>, \<open>i\<close> is the one of them that runs, and both share the memory of
  \<open>user_kproc\<close>.
\<close>

definition lock_kproc :: "nat \<Rightarrow> i32 \<Rightarrow> i32 \<Rightarrow> ulock \<Rightarrow> kproc" where
  "lock_kproc i v w l = (user_kproc 2 0)\<lparr>
     cpus := (\<lambda>_. idle_cpu)(0 := idle_cpu\<lparr>cproc := Some i, cr3 := 0x00500000\<rparr>),
     ptable := idle_table(3 := user_proc\<lparr>p_state := (if i = 3 then RUNNING else RUNNABLE)\<rparr>,
       5 := user_proc\<lparr>p_state := (if i = 5 then RUNNING else RUNNABLE), p_pid := 8, p_priority := v, p_original_priority := w\<rparr>),
     ulocks := (\<lambda>_. \<lparr>held = 0, holder = None\<rparr>)(2 := l)\<rparr>"

lemma lock_kproc_sel [simp]:
  "ptable (lock_kproc i v w l) = idle_table(3 := user_proc\<lparr>p_state := (if i = 3 then RUNNING else RUNNABLE)\<rparr>,
       5 := user_proc\<lparr>p_state := (if i = 5 then RUNNING else RUNNABLE), p_pid := 8, p_priority := v, p_original_priority := w\<rparr>)"
  "ulocks (lock_kproc i v w l) = (\<lambda>_. \<lparr>held = 0, holder = None\<rparr>)(2 := l)" "cur_cpu (lock_kproc i v w l) = 0"
  "curproc (lock_kproc i v w l) = Some i"
  by (simp_all add: lock_kproc_def curproc_def)

lemma in_syscall_user: "i = 3 \<or> i = 5 \<Longrightarrow> in_syscall i (lock_kproc i v w l)" "in_syscall 3 (user_kproc a0 a1)"
proof -
  have b: "ubyte (lock_kproc i v w l) = ubyte (user_kproc 2 0)"
    by (simp add: lock_kproc_def ubyte_def cur_pgdir_def fun_eq_iff)
  have p: "can_print (lock_kproc i v w l)" "can_print (user_kproc a0 a1)" "lk_free PtableLk (user_kproc a0 a1)"
    "lk_free PtableLk (lock_kproc i v w l)"
    by (simp_all add: lock_kproc_def can_print_def user_kproc_def lk_free_def con_ok_def idle_defs cpu_wf_def idle_cpu_def free_lock_def)
  show "in_syscall 3 (user_kproc a0 a1)"
    using p user_uspace by (simp add: in_syscall_def)
  show "in_syscall i (lock_kproc i v w l)" if "i = 3 \<or> i = 5"
    using p that user_ubyte [of _ 2 0] unfolding in_syscall_def uspace_def b by (auto simp: KERNBASE_def)
qed

lemma arg_word_user: "arg_word 0 (user_kproc a0 a1) = Some a0" "arg_word 1 (user_kproc a0 a1) = Some a1"
  using argint_word [OF in_syscall_user(2)] user_args [of a0 a1] by (metis kres.inject(1))+

lemma arg_word_lock: "i = 3 \<or> i = 5 \<Longrightarrow> arg_word 0 (lock_kproc i v w l) = Some 2"
proof -
  have "uword (lock_kproc i v w l) = uword (user_kproc 2 0)"
    by (simp add: uword_def uget_def lock_kproc_def ubyte_def cur_pgdir_def fun_eq_iff)
  moreover have "uword (user_kproc 2 0) 0x104 = 2"
    using arg_word_user(1) [of 2 0] by (simp add: arg_word_def curproc_def)
  ultimately show "i = 3 \<or> i = 5 \<Longrightarrow> arg_word 0 (lock_kproc i v w l) = Some 2"
    by (auto simp: arg_word_def)
qed

theorem sys_nice_correct_witness:
  "\<exists>r t. sys_nice (user_kproc 8 4) = Done r t \<and> r = p_nice (ptable (user_kproc 8 4) 5) \<and> p_priority (ptable t 5) = 4"
proof -
  let ?s = "user_kproc 8 4"
  let ?P = "\<lambda>j. p_pid (ptable ?s j) = 8 \<and> p_state (ptable ?s j) \<noteq> UNUSED"
  have u: "?P j \<longleftrightarrow> j = 5" for j
    by (auto simp: idle_table_def null_proc_def ready_proc_def split: if_splits)
  then have c: "(1 \<le> sint (4 :: i32) \<and> sint (4 :: i32) \<le> 5 \<and> (\<exists>j<NPROC. ?P j)) = True"
    unfolding u by (simp add: NPROC_def)
  have "\<exists>r t. sys_nice ?s = Done r t \<and> (\<exists>j<NPROC. ?P j \<and> r = p_nice (ptable ?s j)
      \<and> ptable t = (ptable ?s)(j := (ptable ?s j)\<lparr>p_nice := 4, p_priority := 4\<rparr>))"
    using sys_nice_correct [OF in_syscall_user(2) arg_word_user, of 8 4] unfolding c if_True by blast
  then obtain r t j where "sys_nice ?s = Done r t" "?P j" "r = p_nice (ptable ?s j)"
    "ptable t = (ptable ?s)(j := (ptable ?s j)\<lparr>p_nice := 4, p_priority := 4\<rparr>)" by blast
  then show ?thesis using u [of j] by auto
qed

theorem sys_lock_inherits_witness:
  "\<exists>t. sys_lock 0 (lock_kproc 3 4 (- 1) \<lparr>held = 1, holder = Some 5\<rparr>) = Done 0 t
    \<and> prio (ptable t) 5 = 2 \<and> p_original_priority (ptable t 5) = 4"
  using sys_lock_inherits [where h = 5 and ra = 0, OF in_syscall_user(1) [of 3 4 "- 1" "\<lparr>held = 1, holder = Some 5\<rparr>"] arg_word_lock]
  by (auto simp: min_def)

theorem sys_lock_free_witness:
  "\<exists>t. sys_lock 0 (lock_kproc 3 4 (- 1) \<lparr>held = 0, holder = None\<rparr>) = Done 0 t
    \<and> ulocks t 2 = \<lparr>held = 1, holder = Some 3\<rparr>"
  using sys_lock_free [where ra = 0, OF in_syscall_user(1) [of 3 4 "- 1" "\<lparr>held = 0, holder = None\<rparr>"] arg_word_lock]
  by auto

theorem inheritance_roundtrip_witness:
  "\<exists>v. sys_release 0 (lock_kproc 5 2 4 \<lparr>held = 1, holder = Some 5\<rparr>) = Done 0 v
    \<and> p_priority (ptable v 5) = 4 \<and> p_state (ptable v 5) = RUNNING \<and> p_state (ptable v 3) = RUNNABLE \<and> held (ulocks v 2) = 0"
proof -
  let ?s = "lock_kproc 3 4 (- 1) \<lparr>held = 1, holder = Some 5\<rparr>" and ?u = "lock_kproc 5 2 4 \<lparr>held = 1, holder = Some 5\<rparr>"
  have s: "in_syscall 3 ?s" "arg_word 0 ?s = Some 2" "in_syscall 5 ?u" "arg_word 0 ?u = Some 2"
    by (simp_all add: in_syscall_user arg_word_lock)
  obtain t where t: "sys_lock 0 ?s = Done 0 t" "ptable t = lock_table 3 (ulocks ?s (unat (2 :: i32))) (ptable ?s)"
    "ulocks t = (ulocks ?s)(unat (2 :: i32) := lock_ulock 3 (ulocks ?s (unat (2 :: i32))))"
    using sys_lock_eq [OF s(1,2), of 0] by (auto simp: NULOCK_def)
  have "ulocks ?u (unat (2 :: i32)) = ulocks t (unat (2 :: i32))"
    "p_priority (ptable ?u 5) = p_priority (ptable t 5)" "p_original_priority (ptable ?u 5) = p_original_priority (ptable t 5)"
    using t(2,3) by (simp_all add: lock_table_def lock_ulock_def boost_def)
  from inheritance_roundtrip [OF s(1,2) _ _ _ _ _ _ t(1) s(3,4) this, of 0] show ?thesis
    by auto
qed

end
