(* ===== verification/Strace.thy ===== *)
theory Strace
  imports Priority Sched "HOL-Library.Monad_Syntax" "HOL-Library.Signed_Division"
begin

text \<open>
  System-call tracing and dispatch of \<open>src/syscall.c\<close>: the ring of the last traces, the text of a
  trace, the flags that select what is printed, and \<open>syscall\<close> itself over a table of handlers.
  A C string is the list of its characters before the NUL, a \<open>char\<close> array the list of all its
  cells. A routine that would write or read outside an array, or use a null pointer as a string,
  has the value \<open>None\<close>; a handler that meets it ends in \<open>Panic ''undefined''\<close>.
\<close>

section \<open>Strings in buffers\<close>

abbreviation NUL :: char where "NUL \<equiv> CHR 0x00"

text \<open>The string a buffer holds, when there is a NUL in it.\<close>

definition cstr_in :: "string \<Rightarrow> string option" where
  "cstr_in buf = (if NUL \<in> set buf then Some (takeWhile (\<lambda>c. c \<noteq> NUL) buf) else None)"

definition putc_at :: "string \<Rightarrow> nat \<Rightarrow> char \<Rightarrow> (string \<times> nat) option" where
  "putc_at buf i c = (if i < length buf then Some (buf[i := c], i + 1) else None)"

text \<open>\<open>string(straceBuf, &i, s)\<close>.\<close>

fun string_c :: "string \<Rightarrow> nat \<Rightarrow> string \<Rightarrow> (string \<times> nat) option" where
  "string_c buf i [] = Some (buf, i)"
| "string_c buf i (c # s) = (if i < length buf then string_c (buf[i := c]) (i + 1) s else None)"

fun compare :: "string \<Rightarrow> string \<Rightarrow> i32" where
  "compare [] [] = 0"
| "compare (c # s) (d # t) = (if c = d then compare s t else - 1)"
| "compare _ _ = - 1"

text \<open>The loop that writes the decimal digits of \<open>num\<close> into \<open>pidS\<close>, the last one first; C divides
  towards zero, so the digits of a negative number are negative.\<close>

function digit_loop :: "int \<Rightarrow> string \<Rightarrow> nat \<Rightarrow> (string \<times> nat) option" where
  "digit_loop num pidS j = (if num = 0 then Some (pidS, j)
     else if j < length pidS then digit_loop (num sdiv 10) (pidS[j := char_of (nat (num smod 10 + 48))]) (j + 1)
     else None)"
  by auto
termination
  by (relation "measure (\<lambda>(num, pidS, j). length pidS - j)") auto

definition pid_to_string :: "int \<Rightarrow> string \<Rightarrow> string option" where
  "pid_to_string pid pidS = map_option fst (digit_loop pid pidS 0)"

text \<open>Copying the first \<open>n\<close> characters of \<open>pidS\<close> backwards.\<close>

fun copy_rev :: "string \<Rightarrow> nat \<Rightarrow> string \<Rightarrow> nat \<Rightarrow> (string \<times> nat) option" where
  "copy_rev buf i pidS 0 = Some (buf, i)"
| "copy_rev buf i pidS (Suc n) = do { (buf, i) \<leftarrow> putc_at buf i (pidS ! n); copy_rev buf i pidS n }"

text \<open>\<open>pidS\<close> is not initialised in \<open>number_to_string\<close>; its cells are read only after they are written.\<close>

definition number_to_string :: "string \<Rightarrow> nat \<Rightarrow> int \<Rightarrow> (string \<times> nat) option" where
  "number_to_string buf i num = (if num = 0 then putc_at buf i (CHR ''0'')
     else do { (pidS, j) \<leftarrow> digit_loop num (replicate 5 NUL) 0; copy_rev buf i pidS j })"

definition SYS_exit :: nat where "SYS_exit = 2"
definition SYS_exec :: nat where "SYS_exec = 7"

text \<open>\<open>syscallnames\<close>: entries 0, 22, 23 and 24 are null, and the array ends at 26.\<close>

definition syscall_list :: "string list" where
  "syscall_list = [''fork'', ''exit'', ''wait'', ''pipe'', ''read'', ''kill'', ''exec'', ''fstat'', ''chdir'', ''dup'', ''getpid'',
     ''sbrk'', ''sleep'', ''uptime'', ''open'', ''write'', ''mknod'', ''unlink'', ''link'', ''mkdir'', ''close'']"

definition syscallnames :: "int \<Rightarrow> string option" where
  "syscallnames n = (if 1 \<le> n \<and> n \<le> 21 then Some (syscall_list ! (nat n - 1))
     else if n = 25 then Some ''trace'' else if n = 26 then Some ''dump'' else None)"

text \<open>The common part of \<open>create_strace\<close> and \<open>strace_return\<close>, up to the name of the call.\<close>

definition strace_head :: "string \<Rightarrow> int \<Rightarrow> string \<Rightarrow> int \<Rightarrow> (string \<times> nat) option" where
  "strace_head straceBuf pid processN syscallNum = do {
     (buf, i) \<leftarrow> string_c straceBuf 0 ''TRACE: pid = '';
     pidS \<leftarrow> pid_to_string pid (replicate 5 NUL);
     ds \<leftarrow> cstr_in pidS;
     (buf, i) \<leftarrow> copy_rev buf i pidS (length ds);
     (buf, i) \<leftarrow> putc_at buf i (CHR '' '');
     (buf, i) \<leftarrow> string_c buf i '' | command name = '';
     (buf, i) \<leftarrow> putc_at buf i (CHR '' '');
     (buf, i) \<leftarrow> string_c buf i processN;
     (buf, i) \<leftarrow> putc_at buf i (CHR '' '');
     (buf, i) \<leftarrow> string_c buf i '' | syscall = '';
     (buf, i) \<leftarrow> putc_at buf i (CHR '' '');
     name \<leftarrow> syscallnames syscallNum;
     string_c buf i name }"

definition create_strace :: "string \<Rightarrow> int \<Rightarrow> string \<Rightarrow> int \<Rightarrow> string option" where
  "create_strace straceBuf pid processN syscallNum = do {
     (buf, i) \<leftarrow> strace_head straceBuf pid processN syscallNum;
     (buf, i) \<leftarrow> putc_at buf i NUL;
     Some buf }"

definition strace_return :: "string \<Rightarrow> int \<Rightarrow> string \<Rightarrow> int \<Rightarrow> int \<Rightarrow> string option" where
  "strace_return straceBuf pid processN syscallNum returnV = do {
     (buf, i) \<leftarrow> strace_head straceBuf pid processN syscallNum;
     (buf, i) \<leftarrow> putc_at buf i (CHR '' '');
     (buf, i) \<leftarrow> string_c buf i '' | return value = '';
     (buf, i) \<leftarrow> number_to_string buf i returnV;
     (buf, i) \<leftarrow> putc_at buf i NUL;
     Some buf }"

section \<open>The ring of traces\<close>

definition RING :: nat where "RING = 5"

text \<open>\<open>dumpBuf\<close> with its row length of 100, and the three indices that the pointers name.\<close>

record ring =
  dumpBuf :: "nat \<Rightarrow> string"
  startIndex :: nat
  endIndex :: nat
  wrap :: nat

definition adding :: "string \<Rightarrow> ring \<Rightarrow> ring option" where
  "adding straceBuf r = (let start = startIndex r; e = endIndex r; wrapped = wrap r in do {
     (rows, e) \<leftarrow> (if start = e \<and> wrap r \<noteq> 0 then do {
         s \<leftarrow> cstr_in (dumpBuf r e);
         Some ((dumpBuf r)(e := replicate (length s) NUL @ drop (length s) (dumpBuf r e)), (e + 1) mod RING) }
       else Some (dumpBuf r, e));
     s \<leftarrow> cstr_in straceBuf;
     (row, i) \<leftarrow> string_c (rows start) 0 s;
     let start' = (start + 1) mod RING;
     Some \<lparr>dumpBuf = rows(start := row), startIndex = start', endIndex = e,
       wrap = (if start' = 0 then 1 else wrapped)\<rparr> })"

definition ring0 :: ring where
  "ring0 = \<lparr>dumpBuf = (\<lambda>_. replicate 100 NUL), startIndex = 0, endIndex = 0, wrap = 0\<rparr>"

section \<open>The handlers\<close>

text \<open>\<open>stack_buf\<close> is what the stack holds at the local arrays \<open>straceBuf\<close>, which are not initialised.\<close>

record ktrace = kproc +
  traces :: ring
  e_flag :: i32
  s_flag :: i32
  f_flag :: i32
  stack_buf :: "nat \<Rightarrow> char"

definition undefk :: "('s, 'a) kop" where "undefk = panick ''undefined''"

definition sys_strace :: "('a ktrace_scheme, i32) kop" where
  "sys_strace = bindk (argint 0) (\<lambda>a. let i = (case a of None \<Rightarrow> 0 | Some v \<Rightarrow> v) in
     withproc (\<lambda>p. seqk (modk (upd_proc p (\<lambda>q. q\<lparr>p_straced := (if i AND T_STRACE \<noteq> 0 then i else 0)\<rparr>)))
       (retk 0)))"

text \<open>The test \<open>dumpBuf[i] != 0\<close> compares the address of a row with 0 and always holds.\<close>

definition sys_dump :: "('a ktrace_scheme, i32) kop" where
  "sys_dump = seqk (forallk (\<lambda>i. bindk (getk (\<lambda>s. cstr_in (dumpBuf (traces s) i))) (\<lambda>r. case r of
       None \<Rightarrow> undefk | Some row \<Rightarrow> cprintf (Some (''%s'' @ [CHR 0x0A])) [CStr (Some row)])) [0..<RING]) (retk 0)"

definition sys_eflag :: "('a ktrace_scheme, i32) kop" where
  "sys_eflag = bindk (argint 0) (\<lambda>a. seqk (modk (\<lambda>s. case a of None \<Rightarrow> s | Some v \<Rightarrow> s\<lparr>e_flag := v\<rparr>)) (retk 0))"

definition sys_sflag :: "('a ktrace_scheme, i32) kop" where
  "sys_sflag = bindk (argint 0) (\<lambda>a. seqk (modk (\<lambda>s. case a of None \<Rightarrow> s | Some v \<Rightarrow> s\<lparr>s_flag := v\<rparr>)) (retk 0))"

definition sys_fflag :: "('a ktrace_scheme, i32) kop" where
  "sys_fflag = bindk (argint 0) (\<lambda>a. seqk (modk (\<lambda>s. case a of None \<Rightarrow> s | Some v \<Rightarrow> s\<lparr>f_flag := v\<rparr>)) (retk 0))"

definition add_trace :: "string option \<Rightarrow> ('a ktrace_scheme, unit) kop" where
  "add_trace buf = (case buf of None \<Rightarrow> undefk | Some b \<Rightarrow> bindk (getk (\<lambda>s. adding b (traces s))) (\<lambda>r. case r of
     None \<Rightarrow> undefk | Some r' \<Rightarrow> modk (\<lambda>s. s\<lparr>traces := r'\<rparr>)))"

definition new_buf :: "'a ktrace_scheme \<Rightarrow> string" where
  "new_buf s = map (stack_buf s) [0..<100]"

definition call_fmt :: string where
  "call_fmt = ''TRACE: pid = %d | command name = %s | syscall = %s'' @ [CHR 0x0A]"

definition ret_fmt :: string where
  "ret_fmt = ''TRACE: pid = %d | command name = %s | syscall = %s | return value = %d'' @ [CHR 0x0A]"

definition sh_fmt :: string where
  "sh_fmt = ''TRACE: pid = %d | command name = sh | syscall = trace | return value = 0'' @ [CHR 0x0A]"

definition unknown_fmt :: string where
  "unknown_fmt = ''Unknown syscall: pid = %d, process = %s, syscall number = %d'' @ [CHR 0x0A]"

text \<open>The test \<open>compare(syscallnames[e_flag+1], syscallnames[syscallNum2]) == 0\<close>.\<close>

definition e_match :: "i32 \<Rightarrow> nat \<Rightarrow> bool option" where
  "e_match e n = do { a \<leftarrow> syscallnames (sint (e + 1)); b \<leftarrow> syscallnames (int n); Some (compare a b = 0) }"

definition when_match :: "i32 \<Rightarrow> nat \<Rightarrow> ('s, unit) kop \<Rightarrow> ('s, unit) kop" where
  "when_match e n m = (case e_match e n of None \<Rightarrow> undefk | Some b \<Rightarrow> unlessk (\<not> b) m)"

text \<open>The block of \<open>syscall\<close> for a traced \<open>exit\<close>, before the call.\<close>

definition trace_exit :: "i32 \<Rightarrow> string \<Rightarrow> nat \<Rightarrow> ('a ktrace_scheme, unit) kop" where
  "trace_exit pid processN num = seqk (bindk (getk new_buf) (\<lambda>straceBuf. add_trace (create_strace straceBuf (sint pid) processN (int num))))
     (bindk (getk (\<lambda>s. (e_flag s, s_flag s, f_flag s))) (\<lambda>(e, sf, ff).
       let pr = cprintf (Some call_fmt) [CInt pid, CStr (Some processN), CStr (syscallnames (int num))] in
       if e = - 1 \<and> sf = 0 \<and> ff = 0 then pr
       else seqk (if e \<noteq> - 1 then when_match e num (unlessk (ff \<noteq> 0) pr) else unlessk (ff \<noteq> 0) pr)
         (modk (\<lambda>s. s\<lparr>e_flag := - 1, s_flag := 0, f_flag := 0\<rparr>))))"

text \<open>The block for a traced \<open>exec\<close> that succeeded.\<close>

definition trace_exec :: "i32 \<Rightarrow> string \<Rightarrow> nat \<Rightarrow> ('a ktrace_scheme, unit) kop" where
  "trace_exec pid processN num = seqk (bindk (getk new_buf) (\<lambda>straceBuf. add_trace (create_strace straceBuf (sint pid) processN (int num))))
     (bindk (getk (\<lambda>s. (e_flag s, s_flag s, f_flag s))) (\<lambda>(e, sf, ff).
       let pr = cprintf (Some call_fmt) [CInt pid, CStr (Some processN), CStr (syscallnames (int num))];
           both = seqk (cprintf (Some sh_fmt) [CInt pid]) pr in
       if e = - 1 \<and> sf = 0 \<and> ff = 0 then both
       else if e \<noteq> - 1 then when_match e num (unlessk (ff \<noteq> 0) pr)
       else if sf = 1 then both
       else retk ()))"

text \<open>The block for every other traced call, with the value it returned.\<close>

definition trace_return :: "i32 \<Rightarrow> string \<Rightarrow> nat \<Rightarrow> i32 \<Rightarrow> ('a ktrace_scheme, unit) kop" where
  "trace_return pid processN num value = seqk (bindk (getk new_buf) (\<lambda>straceBuf. add_trace (strace_return straceBuf (sint pid) processN (int num) (sint value))))
     (bindk (getk (\<lambda>s. (e_flag s, s_flag s, f_flag s))) (\<lambda>(e, sf, ff).
       let pr = cprintf (Some ret_fmt) [CInt pid, CStr (Some processN), CStr (syscallnames (int num)), CInt value] in
       if e = - 1 \<and> sf = 0 \<and> ff = 0 then pr
       else if e \<noteq> - 1 then when_match e num
         (if sf = 1 \<and> sint value \<ge> 0 then pr
          else if sf = 1 \<and> sint value \<le> - 1 then retk ()
          else if ff = 1 \<and> sint value \<le> - 1 then pr
          else if ff = 1 \<and> sint value \<ge> 0 then retk ()
          else pr)
       else if sf = 1 \<and> sint value \<ge> 0 then pr
       else if ff = 1 \<and> sint value \<le> - 1 then pr
       else retk ()))"

definition set_eax :: "u32 \<Rightarrow> proc \<Rightarrow> proc" where
  "set_eax v p = p\<lparr>p_tf := (p_tf p)\<lparr>tf_eax := v\<rparr>\<rparr>"

text \<open>What \<open>syscall\<close> does once the handler has returned \<open>ret\<close>; a handler that switches away
  continues here when it is resumed.\<close>

definition syscall_return :: "bool \<Rightarrow> string \<Rightarrow> nat \<Rightarrow> i32 \<Rightarrow> ('a ktrace_scheme, unit) kop" where
  "syscall_return straced processN num ret = withproc (\<lambda>p.
     seqk (modk (upd_proc p (set_eax ret)))
       (unlessk (\<not> straced) (bindk (getk (\<lambda>s. p_pid (ptable s p))) (\<lambda>pid.
         if num = SYS_exec \<and> ret = 0 then trace_exec pid processN num
         else trace_return pid processN num ret))))"

text \<open>
  \<open>syscall\<close> over the table \<open>syscalls\<close> of handlers (30 entries). \<open>processN\<close> is the copy of the
  process's name made before the call; its last cell, the NUL, is one past the array.
\<close>

definition syscall :: "(nat \<Rightarrow> ('a ktrace_scheme, i32) kop option) \<Rightarrow> ('a ktrace_scheme, unit) kop" where
  "syscall syscalls = withproc (\<lambda>p. bindk (getk (\<lambda>s. ptable s p)) (\<lambda>q.
     let straced = (p_straced q AND T_STRACE \<noteq> 0); processN = p_name q; n = sint (tf_eax (p_tf q)) in
     seqk (unlessk (\<not> (n = int SYS_exit \<and> straced)) (trace_exit (p_pid q) processN (nat n)))
       (case (if n > 0 \<and> n < 30 then syscalls (nat n) else None) of
          Some handler \<Rightarrow> bindk handler (syscall_return straced processN (nat n))
        | None \<Rightarrow> seqk (cprintf (Some unknown_fmt) [CInt (p_pid q), CStr (Some (p_name q)), CInt (tf_eax (p_tf q))])
            (modk (upd_proc p (set_eax (- 1)))))))"

section \<open>The text of a trace\<close>

text \<open>\<open>cursor n t b i\<close>: buffer \<open>b\<close> of \<open>n\<close> cells holds \<open>t\<close> before the position \<open>i\<close>.\<close>

definition cursor :: "nat \<Rightarrow> string \<Rightarrow> string \<Rightarrow> nat \<Rightarrow> bool" where
  "cursor n t b i \<longleftrightarrow> length b = n \<and> i = length t \<and> take i b = t"

definition ends_at :: "nat \<Rightarrow> string \<Rightarrow> (string \<times> nat) option \<Rightarrow> bool" where
  "ends_at n t r \<longleftrightarrow> (\<exists>b i. r = Some (b, i) \<and> cursor n t b i)"

lemma cursor_putc:
  assumes "cursor n t b i" and "length t < n"
  shows "cursor n (t @ [c]) (b[i := c]) (Suc i)"
proof -
  have b: "length b = n" "i = length t" "take i b = t"
    using assms(1) by (auto simp: cursor_def)
  then obtain x r where "b = t @ x # r"
    using assms(2) by (metis id_take_nth_drop)
  then show ?thesis using b by (simp add: cursor_def)
qed

lemma cursor_string:
  "cursor n t b i \<Longrightarrow> length t + length s \<le> n \<Longrightarrow> ends_at n (t @ s) (string_c b i s)"
proof (induction s arbitrary: t b i)
  case Nil
  then show ?case by (simp add: ends_at_def)
next
  case (Cons c s)
  from Cons.IH [OF cursor_putc [OF Cons.prems(1)], of c] Cons.prems show ?case
    by (simp add: cursor_def)
qed

lemma cursor_copy_rev:
  "cursor n t b i \<Longrightarrow> length t + k \<le> n \<Longrightarrow> k \<le> length xs \<Longrightarrow> ends_at n (t @ rev (take k xs)) (copy_rev b i xs k)"
proof (induction k arbitrary: t b i)
  case 0
  then show ?case by (simp add: ends_at_def)
next
  case (Suc k)
  from Suc.IH [OF cursor_putc [OF Suc.prems(1)], of "xs ! k"] Suc.prems show ?case
    by (simp add: putc_at_def cursor_def take_Suc_conv_app_nth)
qed

lemma ends_bind:
  assumes "ends_at n u r" and "\<And>b i. cursor n u b i \<Longrightarrow> ends_at n t (f b i)"
  shows "ends_at n t (r \<bind> (\<lambda>(b, i). f b i))"
  using assms by (auto simp: ends_at_def)

lemma ends_some: "x = Some y \<Longrightarrow> ends_at n t (f y) \<Longrightarrow> ends_at n t (x \<bind> f)"
  by simp

lemma ends_putc: "cursor n t b i \<Longrightarrow> length t < n \<Longrightarrow> ends_at n (t @ [c]) (putc_at b i c)"
proof -
  assume a: "cursor n t b i" "length t < n"
  then have "i < length b" by (auto simp: cursor_def)
  then show ?thesis using cursor_putc [OF a, of c] by (simp add: ends_at_def putc_at_def)
qed

text \<open>The decimal digits of a positive number, the last one first.\<close>

fun ddigits :: "nat \<Rightarrow> string" where
  "ddigits n = (if n = 0 then [] else char_of (n mod 10 + 48) # ddigits (n div 10))"

declare ddigits.simps [simp del]

lemma ddigits_0 [simp]: "ddigits 0 = []"
  by (simp add: ddigits.simps)

lemma length_ddigits: "n < 10 ^ k \<Longrightarrow> length (ddigits n) \<le> k"
proof (induction k arbitrary: n)
  case (Suc k)
  then show ?case by (simp add: ddigits.simps [of n] less_mult_imp_div_less mult.commute)
qed simp

lemma sdiv_nat: "int n sdiv 10 = int (n div 10)" "int n smod 10 = int (n mod 10)"
  by (simp_all add: signed_divide_int_def signed_modulo_int_def sgn_if zdiv_int zmod_int)

lemma digit_loop_eq:
  "j + length (ddigits n) \<le> length p \<Longrightarrow> digit_loop (int n) p j
    = Some (take j p @ ddigits n @ drop (j + length (ddigits n)) p, j + length (ddigits n))"
proof (induction n arbitrary: p j rule: ddigits.induct)
  case (1 n)
  show ?case
  proof (cases "n = 0")
    case False
    let ?p = "p[j := char_of (n mod 10 + 48)]"
    have d: "ddigits n = char_of (n mod 10 + 48) # ddigits (n div 10)"
      using False by (simp add: ddigits.simps [of n])
    have "digit_loop (int n) p j = digit_loop (int (n div 10)) ?p (Suc j)"
      using 1 False d by (subst digit_loop.simps) (simp add: sdiv_nat nat_add_distrib)
    also have "\<dots> = Some (take (Suc j) ?p @ ddigits (n div 10) @ drop (Suc j + length (ddigits (n div 10))) ?p,
        Suc j + length (ddigits (n div 10)))"
      using 1 False d by (intro "1.IH") auto
    finally show ?thesis
      using d "1.prems" by (simp add: take_Suc_conv_app_nth)
  qed (simp add: digit_loop.simps)
qed

lemma rev_digits_ddigits: "x \<noteq> 0 \<Longrightarrow> rev_digits 10 x = ddigits (unat x)"
proof (induction "unat x" arbitrary: x rule: less_induct)
  case less
  have x: "unat x \<noteq> 0" using less.prems by (simp add: unsigned_eq_0_iff)
  have h: "\<forall>k\<in>set [0..<10]. hexdigits ! k = char_of (k + 48)"
    by code_simp
  have d: "unat (x div 10) = unat x div 10" "unat (x mod 10) = unat x mod 10"
    by (simp_all add: unat_div_distrib unat_mod_distrib)
  have "hexdigits ! unat (x mod 10) = char_of (unat x mod 10 + 48)"
    using h d(2) by simp
  moreover have "x div 10 \<noteq> 0 \<Longrightarrow> rev_digits 10 (x div 10) = ddigits (unat x div 10)"
    using less.hyps [of "x div 10"] x d(1) by simp
  moreover have "x div 10 = 0 \<Longrightarrow> unat x div 10 = 0"
    using d(1) by simp
  moreover have "\<not> (10 :: u32) \<le> 1" by (simp add: word_le_nat_alt)
  ultimately show ?case
    using x by (subst rev_digits.simps, subst ddigits.simps) auto
qed

text \<open>How \<open>cprintf\<close> prints a number with \<open>%d\<close>.\<close>

definition decimal :: "i32 \<Rightarrow> string" where
  "decimal v = rev (printint_buf v 10 True)"

lemma decimal_ddigits:
  assumes "0 < sint v"
  shows "decimal v = rev (ddigits (unat v))" and "sint v = int (unat v)"
proof -
  have "uint v = sint v"
    using assms uint_bounded [of v] by (auto simp: sint_eq split: if_splits)
  then show e: "sint v = int (unat v)" by simp
  have "v \<noteq> 0" using assms by auto
  then show "decimal v = rev (ddigits (unat v))"
    using assms by (simp add: decimal_def printint_buf_def rev_digits_ddigits)
qed

lemma char_digit: "(n :: nat) < 10 \<Longrightarrow> char_of (n + 48) \<noteq> NUL"
proof -
  have "\<forall>k\<in>set [0..<10]. char_of (k + 48) \<noteq> NUL" by code_simp
  then show "n < 10 \<Longrightarrow> ?thesis" by simp
qed

lemma NUL_ddigits: "NUL \<notin> set (ddigits n)"
proof (induction n rule: ddigits.induct)
  case (1 n)
  then show ?case by (cases "n = 0") (simp_all add: ddigits.simps [of n] char_digit [symmetric] eq_commute [of NUL] char_digit)
qed

lemma cstr_in_append: "NUL \<notin> set t \<Longrightarrow> cstr_in (t @ NUL # r) = Some t"
  by (auto simp: cstr_in_def takeWhile_append)

lemma pid_digits:
  fixes pid :: i32
  assumes "0 < sint pid" and "sint pid < 10000"
  shows "\<exists>p. pid_to_string (sint pid) (replicate 5 NUL) = Some p \<and> cstr_in p = Some (ddigits (unat pid))
    \<and> length p = 5 \<and> take (length (ddigits (unat pid))) p = ddigits (unat pid) \<and> length (ddigits (unat pid)) \<le> 4"
proof -
  let ?d = "ddigits (unat pid)"
  have "int (unat pid) < int (10 ^ 4)"
    using assms(2) decimal_ddigits(2) [OF assms(1)] by simp
  then have "unat pid < 10 ^ 4" by (simp only: of_nat_less_iff)
  then have "length ?d \<le> 4" by (rule length_ddigits)
  moreover from this obtain k where "5 - length ?d = Suc k" by (cases "5 - length ?d") auto
  ultimately show ?thesis
    using digit_loop_eq [of 0 "unat pid" "replicate 5 NUL"] decimal_ddigits(2) [OF assms(1)]
    by (simp add: pid_to_string_def cstr_in_append NUL_ddigits)
qed

definition head_text :: "i32 \<Rightarrow> string \<Rightarrow> string \<Rightarrow> string" where
  "head_text pid name sys = ''TRACE: pid = '' @ decimal pid @ ''  | command name =  '' @ name @ ''  | syscall =  '' @ sys"

lemma syscall_list_props: "length syscall_list = 21" "\<forall>s\<in>set syscall_list. length s \<le> 6 \<and> NUL \<notin> set s"
  by (simp add: syscall_list_def) code_simp

lemma length_syscallnames:
  assumes "syscallnames n = Some sys"
  shows "length sys \<le> 6 \<and> NUL \<notin> set sys"
proof (cases "1 \<le> n \<and> n \<le> 21")
  case True
  then have "nat n - 1 < length syscall_list" by (auto simp: syscall_list_props(1))
  then have "syscall_list ! (nat n - 1) \<in> set syscall_list" by (rule nth_mem)
  then show ?thesis using True assms syscall_list_props(2) by (auto simp: syscallnames_def)
next
  case False
  then show ?thesis using assms by (auto simp: syscallnames_def split: if_splits)
qed

lemma strace_head_eq:
  fixes pid :: i32
  assumes "0 < sint pid" and "sint pid < 10000" and "length name \<le> 15" and "syscallnames n = Some sys" and "length buf = 100"
  shows "ends_at 100 (head_text pid name sys) (strace_head buf (sint pid) name n)"
proof -
  obtain p where p: "pid_to_string (sint pid) (replicate 5 NUL) = Some p" "cstr_in p = Some (ddigits (unat pid))"
    "length p = 5" "take (length (ddigits (unat pid))) p = ddigits (unat pid)" "length (ddigits (unat pid)) \<le> 4"
    using pid_digits [OF assms(1,2)] by blast
  let ?d = "decimal pid"
  have d: "?d = rev (ddigits (unat pid))" "length ?d \<le> 4"
    using decimal_ddigits(1) [OF assms(1)] p(5) by simp_all
  have c: "cursor 100 [] buf 0" using assms(5) by (simp add: cursor_def)
  have dg: "ends_at 100 (t @ ?d) (copy_rev b i p (length (ddigits (unat pid))))"
    if "cursor 100 t b i" "length t \<le> 90" for t b i
    using cursor_copy_rev [OF that(1), of "length (ddigits (unat pid))" p] that(2) p d by simp
  have T: "head_text pid name sys = ((((((((([] @ ''TRACE: pid = '') @ ?d) @ '' '') @ '' | command name = '') @ '' '') @ name) @ '' '')
      @ '' | syscall = '') @ '' '') @ sys"
    by (simp add: head_text_def)
  show ?thesis
    unfolding strace_head_def T
    using d(2) assms(3) length_syscallnames [OF assms(4)]
    by (intro ends_bind [OF cursor_string [OF c]] ends_some [OF p(1)] ends_some [OF p(2)] ends_some [OF assms(4)]
        ends_bind [OF dg] ends_bind [OF ends_putc] ends_bind [OF cursor_string] cursor_string) (assumption | simp)+
qed

text \<open>A finished buffer holds the text, when that has no NUL in it.\<close>

lemma ends_cstr:
  assumes "ends_at n t r" and "length t < n" and "NUL \<notin> set t"
  shows "\<exists>b. (do { (buf, i) \<leftarrow> r; (buf, i) \<leftarrow> putc_at buf i NUL; Some buf }) = Some b \<and> cstr_in b = Some t \<and> length b = n"
proof -
  obtain b i where b: "r = Some (b, i)" "length b = n" "i = length t" "take i b = t"
    using assms(1) by (auto simp: ends_at_def cursor_def)
  have "b[i := NUL] = t @ NUL # drop (Suc i) b"
    using b assms(2) by (simp add: upd_conv_take_nth_drop)
  then show ?thesis
    using b assms(2,3) by (simp add: putc_at_def cstr_in_append)
qed

lemma NUL_decimal: "0 < sint (v :: i32) \<Longrightarrow> NUL \<notin> set (decimal v)"
  by (metis decimal_ddigits(1) NUL_ddigits set_rev)

lemma number_ends:
  fixes v :: i32
  assumes "cursor n t b i" and "0 \<le> sint v" and "sint v < 100000" and "length t + 5 \<le> n"
  shows "ends_at n (t @ decimal v) (number_to_string b i (sint v))"
proof (cases "sint v = 0")
  case True
  then have v: "v = 0" by (intro signed_word_eqI) simp
  have "decimal v = ''0''" unfolding v by code_simp
  then show ?thesis
    using True assms ends_putc [OF assms(1), of "CHR ''0''"] by (simp add: number_to_string_def)
next
  case False
  then have p: "0 < sint v" using assms(2) by simp
  let ?d = "ddigits (unat v)"
  have "int (unat v) < int (10 ^ 5)"
    using assms(3) decimal_ddigits(2) [OF p] by simp
  then have "unat v < 10 ^ 5" by (simp only: of_nat_less_iff)
  then have "length ?d \<le> 5" by (rule length_ddigits)
  then show ?thesis
    using False digit_loop_eq [of 0 "unat v" "replicate 5 NUL"] decimal_ddigits [OF p] assms(1,4)
      cursor_copy_rev [OF assms(1), of "length ?d" "?d @ drop (length ?d) (replicate 5 NUL)"]
    by (simp add: number_to_string_def)
qed

lemma length_decimal: "0 \<le> sint (v :: i32) \<Longrightarrow> sint v < 10 ^ k \<Longrightarrow> 0 < k \<Longrightarrow> length (decimal v) \<le> k \<and> NUL \<notin> set (decimal v)"
proof (cases "sint v = 0")
  case True
  then have v: "v = 0" by (intro signed_word_eqI) simp
  have "decimal 0 = ''0''" by code_simp
  then show "0 < k \<Longrightarrow> ?thesis" unfolding v by simp
next
  case False
  assume a: "0 \<le> sint v" "sint v < 10 ^ k"
  then have p: "0 < sint v" using False by simp
  have "int (unat v) < int (10 ^ k)" using a(2) decimal_ddigits(2) [OF p] by simp
  then have "unat v < 10 ^ k" by (simp only: of_nat_less_iff)
  then show ?thesis
    using length_ddigits [of "unat v" k] p by (simp add: decimal_ddigits(1) [OF p] NUL_ddigits)
qed

section \<open>The ring\<close>

definition padded :: "string \<Rightarrow> string" where
  "padded t = t @ replicate (100 - length t) NUL"

text \<open>The trace in row \<open>k\<close> after the traces \<open>ts\<close>: the last one whose number is \<open>k\<close> modulo the
  number of rows.\<close>

definition row_of :: "string list \<Rightarrow> nat \<Rightarrow> string" where
  "row_of ts k = (if k < length ts then ts ! (k + RING * ((length ts - 1 - k) div RING)) else [])"

definition ring_inv :: "string list \<Rightarrow> ring \<Rightarrow> bool" where
  "ring_inv ts r \<longleftrightarrow> startIndex r = length ts mod RING
     \<and> endIndex r = (if length ts < RING then 0 else length ts mod RING)
     \<and> (wrap r \<noteq> 0 \<longleftrightarrow> RING \<le> length ts) \<and> (\<forall>k<RING. dumpBuf r k = padded (row_of ts k))"

fun add_all :: "string list \<Rightarrow> ring \<Rightarrow> ring option" where
  "add_all [] r = Some r"
| "add_all (b # bs) r = adding b r \<bind> add_all bs"

lemma string_c_padded:
  "length s \<le> length b \<Longrightarrow> string_c b 0 s = Some (s @ drop (length s) b, length s)"
proof -
  have "string_c (t @ b) (length t) s = Some (t @ s @ drop (length s) b, length t + length s)"
    if "length s \<le> length b" for t
    using that
  proof (induction s arbitrary: t b)
    case (Cons c s)
    then obtain x b' where b: "b = x # b'" by (cases b) auto
    from Cons.IH [of b' "t @ [c]"] Cons.prems b show ?case by simp
  qed simp
  from this [of "[]"] show "length s \<le> length b \<Longrightarrow> ?thesis" by simp
qed

lemma row_index: "k < n \<Longrightarrow> k + RING * ((n - 1 - k) div RING) < n"
  by (simp add: RING_def)

lemma row_of_snoc:
  assumes "k < RING"
  shows "row_of (ts @ [t]) k = (if length ts mod RING = k then t else row_of ts k)"
proof (cases "length ts mod RING = k")
  case True
  then have "k + RING * ((length ts - k) div RING) = length ts" "k \<le> length ts"
    using assms by (auto simp: RING_def)
  then show ?thesis using True by (simp add: row_of_def)
next
  case False
  then have "k < length ts \<longleftrightarrow> k < Suc (length ts)"
    using assms by (cases "k = length ts") (auto simp: RING_def)
  moreover have "k < length ts \<Longrightarrow> (length ts - k) div RING = (length ts - 1 - k) div RING"
  proof -
    assume k: "k < length ts"
    have "(length ts - k) mod RING \<noteq> 0"
    proof
      assume "(length ts - k) mod RING = 0"
      then have "(length ts - k + k) mod RING = k mod RING" by (simp add: mod_add_eq [symmetric])
      then show False using False assms k by simp
    qed
    moreover have "length ts - k = Suc (length ts - 1 - k)" using k by simp
    ultimately show ?thesis by (metis div_Suc)
  qed
  ultimately show ?thesis
    using False row_index [of k "length ts"] by (auto simp: row_of_def nth_append)
qed

lemma row_of_cases: "row_of ts k = [] \<or> row_of ts k \<in> set ts"
  using row_index [of k "length ts"] by (simp add: row_of_def)

lemma padded_props:
  assumes "length t < 100" and "NUL \<notin> set t"
  shows "cstr_in (padded t) = Some t" and "replicate (length t) NUL @ drop (length t) (padded t) = replicate 100 NUL"
    and "length (padded t) = 100"
proof -
  obtain k where "100 - length t = Suc k" using assms(1) by (cases "100 - length t") auto
  then show "cstr_in (padded t) = Some t" using assms(2) by (simp add: padded_def cstr_in_append)
  show "replicate (length t) NUL @ drop (length t) (padded t) = replicate 100 NUL"
    using assms(1) by (simp add: padded_def flip: replicate_add)
  show "length (padded t) = 100" using assms(1) by (simp add: padded_def)
qed

lemma adding_inv:
  assumes "ring_inv ts r" and "\<forall>t\<in>set ts. length t < 100 \<and> NUL \<notin> set t"
    and "cstr_in b = Some t" and "length t < 100"
  shows "\<exists>r'. adding b r = Some r' \<and> ring_inv (ts @ [t]) r'"
proof -
  let ?n = "length ts" and ?k = "length ts mod RING"
  note i = assms(1) [unfolded ring_inv_def]
  have k: "?k < RING" by (simp add: RING_def)
  have old: "length (row_of ts ?k) < 100" "NUL \<notin> set (row_of ts ?k)"
    using row_of_cases [of ts ?k] assms(2) by auto
  have row: "dumpBuf r ?k = padded (row_of ts ?k)" using i k by blast
  have z: "string_c (replicate 100 NUL) 0 t = Some (padded t, length t)"
    using assms(4) string_c_padded [of t "replicate 100 NUL"] by (simp add: padded_def)
  have s: "(Suc ?n mod RING = 0 \<or> RING \<le> ?n) = (RING \<le> Suc ?n)" "Suc ?k mod RING = Suc ?n mod RING"
    by (auto simp: RING_def mod_Suc_eq) presburger+
  show ?thesis
  proof (cases "RING \<le> ?n")
    case True
    let ?r = "\<lparr>dumpBuf = (dumpBuf r)(?k := padded t), startIndex = Suc ?n mod RING, endIndex = Suc ?n mod RING,
      wrap = if Suc ?n mod RING = 0 then 1 else wrap r\<rparr>"
    have "adding b r = Some ?r"
      using i True assms(3) row z s padded_props [OF old] by (simp add: adding_def Let_def)
    moreover have "ring_inv (ts @ [t]) ?r"
      using i True row_of_snoc [where ts = ts and t = t] by (auto simp: ring_inv_def)
    ultimately show ?thesis by blast
  next
    case False
    then have e: "row_of ts ?k = []" by (simp add: row_of_def)
    let ?r = "\<lparr>dumpBuf = (dumpBuf r)(?k := padded t), startIndex = Suc ?n mod RING, endIndex = 0,
      wrap = if Suc ?n mod RING = 0 then 1 else wrap r\<rparr>"
    have "dumpBuf r ?k = replicate 100 NUL" using row e by (simp add: padded_def)
    then have "adding b r = Some ?r"
      using i False assms(3) z s by (simp add: adding_def Let_def)
    moreover have "Suc ?n mod RING = 0 \<longleftrightarrow> \<not> Suc ?n < RING"
      using False by (simp add: RING_def) presburger
    then have "ring_inv (ts @ [t]) ?r"
      using i False row_of_snoc [where ts = ts and t = t] by (auto simp: ring_inv_def)
    ultimately show ?thesis by blast
  qed
qed

lemma add_all_inv:
  assumes "ring_inv ts r" and "\<forall>t\<in>set ts. length t < 100 \<and> NUL \<notin> set t"
    and "list_all2 (\<lambda>b t. cstr_in b = Some t \<and> length t < 100) bs us"
  shows "\<exists>r'. add_all bs r = Some r' \<and> ring_inv (ts @ us) r'"
  using assms(3,1,2)
proof (induction bs us arbitrary: ts r rule: list_all2_induct)
  case Nil
  then show ?case by simp
next
  case (Cons b bs t us)
  obtain r' where r: "adding b r = Some r'" "ring_inv (ts @ [t]) r'"
    using adding_inv [OF Cons.prems] Cons.hyps(1) by blast
  have "NUL \<notin> set t"
    using Cons.hyps(1) by (auto simp: cstr_in_def split: if_splits dest: set_takeWhileD)
  then show ?case
    using Cons.IH [OF r(2)] r(1) Cons.hyps(1) Cons.prems(2) by simp
qed

section \<open>Properties\<close>

text \<open>C34: the text of a trace. For a process identifier of at most four digits, a name that fits
  \<open>proc->name\<close> and a named system call, \<open>strace_return\<close> and \<open>create_strace\<close> stay inside their
  100-byte buffer, whatever it held before, and leave in it the NUL-terminated text with the identifier, the name, the call
  and, for a return value of 0 to 99999, that value, the numbers printed as \<open>cprintf\<close> prints \<open>%d\<close>.\<close>

theorem strace_text:
  assumes "0 < sint (pid :: i32)" and "sint pid < 10000" and "length name \<le> 15" and "NUL \<notin> set name"
    and "syscallnames n = Some sys" and "0 \<le> sint (v :: i32)" and "sint v < 100000" and "length buf = 100"
  shows "(\<exists>b. create_strace buf (sint pid) name n = Some b
      \<and> cstr_in b = Some (''TRACE: pid = '' @ decimal pid @ ''  | command name =  '' @ name @ ''  | syscall =  '' @ sys))
    \<and> (\<exists>b. strace_return buf (sint pid) name n (sint v) = Some b
      \<and> cstr_in b = Some (''TRACE: pid = '' @ decimal pid @ ''  | command name =  '' @ name @ ''  | syscall =  '' @ sys
          @ ''  | return value = '' @ decimal v))"
proof -
  note h = strace_head_eq [OF assms(1-3,5,8)]
  note d = length_decimal [of pid 4] length_decimal [of v 5] length_syscallnames [OF assms(5)]
  have l: "length (head_text pid name sys) \<le> 73" "NUL \<notin> set (head_text pid name sys)"
    using d assms by (auto simp: head_text_def)
  have c: "\<exists>b. create_strace buf (sint pid) name n = Some b
      \<and> cstr_in b = Some (''TRACE: pid = '' @ decimal pid @ ''  | command name =  '' @ name @ ''  | syscall =  '' @ sys)"
    using ends_cstr [OF h] l by (auto simp: create_strace_def head_text_def)
  let ?t = "((head_text pid name sys @ '' '') @ '' | return value = '') @ decimal v"
  have e: "ends_at 100 ?t (do { (buf, i) \<leftarrow> strace_head buf (sint pid) name n;
     (buf, i) \<leftarrow> putc_at buf i (CHR '' ''); (buf, i) \<leftarrow> string_c buf i '' | return value = ''; number_to_string buf i (sint v) })"
    using l(1) assms(6,7)
    by (intro ends_bind [OF h] ends_bind [OF ends_putc] ends_bind [OF cursor_string] number_ends) (assumption | simp)+
  have "length ?t < 100" "NUL \<notin> set ?t"
    using l d assms(6,7) by simp_all
  from ends_cstr [OF e this] have "\<exists>b. strace_return buf (sint pid) name n (sint v) = Some b
      \<and> cstr_in b = Some (''TRACE: pid = '' @ decimal pid @ ''  | command name =  '' @ name @ ''  | syscall =  '' @ sys
          @ ''  | return value = '' @ decimal v)"
    by (auto simp: strace_return_def head_text_def case_prod_beta')
  with c show ?thesis by blast
qed

theorem strace_text_witness:
  "\<exists>b. strace_return (replicate 100 (CHR ''x'')) 12 ''ls'' 16 3 = Some b
    \<and> cstr_in b = Some ''TRACE: pid = 12  | command name =  ls  | syscall =  write  | return value = 3''"
proof -
  have "syscallnames 16 = Some ''write''" "decimal 12 = ''12''" "decimal 3 = ''3''"
    by code_simp+
  then show ?thesis
    using strace_text [of 12 "''ls''" 16 "''write''" 3 "replicate 100 (CHR ''x'')"] by simp
qed

text \<open>C33: the ring keeps the last traces. After any number of calls of \<open>adding\<close> with texts of fewer
  than 100 characters, starting with the zeroed buffer, none of which fails, each row holds
  exactly the last text that fell to it (text number \<open>m\<close>, from 0, falls to row \<open>m mod 5\<close>), so
  the rows are the five latest texts and nothing of an older one is left in them.\<close>

theorem ring_keeps_last:
  assumes "list_all2 (\<lambda>b t. cstr_in b = Some t \<and> length t < 100) bs ts"
  shows "\<exists>r. add_all bs ring0 = Some r \<and> (\<forall>k<RING. cstr_in (dumpBuf r k)
    = Some (if k < length ts then ts ! (k + RING * ((length ts - 1 - k) div RING)) else []))"
proof -
  have "ring_inv [] ring0"
    by (simp add: ring_inv_def ring0_def RING_def row_of_def padded_def)
  from add_all_inv [OF this _ assms] obtain r where r: "add_all bs ring0 = Some r" "ring_inv ts r" by auto
  have ok: "length t < 100 \<and> NUL \<notin> set t" if m: "t \<in> set ts" for t
  proof -
    obtain k where "k < length ts" "t = ts ! k" using m by (auto simp: in_set_conv_nth)
    then have "cstr_in (bs ! k) = Some t \<and> length t < 100"
      using assms by (auto simp: list_all2_conv_all_nth)
    then show ?thesis by (auto simp: cstr_in_def split: if_splits dest: set_takeWhileD)
  qed
  have "cstr_in (dumpBuf r k) = Some (row_of ts k)" if "k < RING" for k
    using r(2) that row_of_cases [of ts k] ok [of "row_of ts k"] padded_props(1) [of "row_of ts k"]
    by (auto simp: ring_inv_def)
  then show ?thesis using r(1) by (simp add: row_of_def)
qed

theorem ring_keeps_last_witness:
  "\<exists>r. add_all (map (\<lambda>c. [c, NUL]) ''abcdefg'') ring0 = Some r \<and> cstr_in (dumpBuf r 0) = Some ''f''
    \<and> cstr_in (dumpBuf r 1) = Some ''g'' \<and> cstr_in (dumpBuf r 2) = Some ''c''"
proof -
  let ?ts = "map (\<lambda>c. [c]) ''abcdefg''"
  have "list_all2 (\<lambda>b t. cstr_in b = Some t \<and> length t < 100) (map (\<lambda>c. [c, NUL]) ''abcdefg'') ?ts"
    by (simp add: cstr_in_def)
  from ring_keeps_last [OF this] obtain r where r: "add_all (map (\<lambda>c. [c, NUL]) ''abcdefg'') ring0 = Some r"
    and e: "\<forall>k<RING. cstr_in (dumpBuf r k)
      = Some (if k < length ?ts then ?ts ! (k + RING * ((length ?ts - 1 - k) div RING)) else [])"
    by blast
  have "cstr_in (dumpBuf r 0) = Some ''f''" "cstr_in (dumpBuf r 1) = Some ''g''" "cstr_in (dumpBuf r 2) = Some ''c''"
    using e [rule_format, of 0] e [rule_format, of 1] e [rule_format, of 2] by (simp_all add: RING_def)
  with r show ?thesis by blast
qed

text \<open>A negative return value is not recorded as such: of every value from -9 to -1 (of the
  usual error return -1 in particular) \<open>number_to_string\<close> writes one character, which is not a
  digit and not a minus sign, but one of those before \<open>'0'\<close>.\<close>

theorem negative_return_garbled:
  assumes "- 10 < v" and "v < 0" and "i < length buf"
  shows "number_to_string buf i v = Some (buf[i := char_of (nat (v + 48))], i + 1)"
proof -
  have "v sdiv 10 = 0" "v smod 10 = v"
    using assms by (simp_all add: signed_divide_int_def signed_modulo_int_def sgn_if)
  then have "digit_loop v (replicate 5 NUL) 0 = Some ((replicate 5 NUL)[0 := char_of (nat (v + 48))], 1)"
    using assms by (subst digit_loop.simps) (simp add: digit_loop.simps [of 0])
  then show ?thesis
    using assms by (simp add: number_to_string_def putc_at_def)
qed

theorem negative_return_garbled_witness: "number_to_string (replicate 100 NUL) 0 (- 1) = Some (''/'' @ replicate 99 NUL, 1)"
proof -
  have "char_of (nat (- 1 + 48)) = CHR ''/''" by code_simp
  then show ?thesis
    using negative_return_garbled [of "- 1" 0 "replicate 100 NUL"] by (simp add: numeral_eq_Suc)
qed

text \<open>An untraced call is transparent: when the system-call number names a handler and the
  process is not traced, \<open>syscall\<close> runs the handler, stores its result in the saved \<open>eax\<close> of the
  process and does nothing else, neither to the ring nor to the console.\<close>

theorem syscall_untraced:
  assumes "curproc s = Some p" and "p_straced (ptable s p) AND T_STRACE = 0"
    and "0 < sint (tf_eax (p_tf (ptable s p)))" and "sint (tf_eax (p_tf (ptable s p))) < 30"
    and "tbl (nat (sint (tf_eax (p_tf (ptable s p))))) = Some h" and "h s = Done r t" and "curproc t = Some p"
  shows "syscall tbl s = Done () (upd_proc p (set_eax r) t)"
  using assms
  by (simp add: syscall_def withproc_Some Let_def unlessk_def bindk_Done syscall_return_def retk_def)

text \<open>A machine whose running process 3 makes the system call \<open>n\<close>, traced or not.\<close>

definition trace_state :: "u32 \<Rightarrow> i32 \<Rightarrow> ktrace" where
  "trace_state n tf = kproc.extend ((user_kproc 1 0)\<lparr>ptable := idle_table(3 := user_proc\<lparr>
     p_name := ''ls'', p_straced := tf, p_tf := null_tf\<lparr>tf_esp := 0x100, tf_eax := n\<rparr>\<rparr>)\<rparr>)
     (ktrace.fields ring0 (- 1) 0 0 (\<lambda>_. CHR ''x''))"

lemma trace_state_sel [simp]:
  "curproc (trace_state n tf) = Some 3" "traces (trace_state n tf) = ring0" "e_flag (trace_state n tf) = - 1"
  "s_flag (trace_state n tf) = 0" "f_flag (trace_state n tf) = 0"
  "ptable (trace_state n tf) = idle_table(3 := user_proc\<lparr>
     p_name := ''ls'', p_straced := tf, p_tf := null_tf\<lparr>tf_esp := 0x100, tf_eax := n\<rparr>\<rparr>)"
  by (simp_all add: trace_state_def kproc.defs ktrace.defs curproc_def user_kproc_def idle_defs)

theorem syscall_untraced_witness:
  "\<exists>t. syscall (\<lambda>n. if n = 11 then Some (retk 7) else None) (trace_state 11 0) = Done () t
    \<and> tf_eax (p_tf (ptable t 3)) = 7 \<and> traces t = ring0"
proof -
  have "syscall (\<lambda>n. if n = 11 then Some (retk 7) else None) (trace_state 11 0)
      = Done () (upd_proc 3 (set_eax 7) (trace_state 11 0))"
    by (rule syscall_untraced [where h = "retk 7"]) (simp_all add: retk_def)
  then show ?thesis by (simp add: set_eax_def upd_proc_def)
qed

text \<open>What the filters of \<open>strace\<close> let through. A traced call that returned \<open>v\<close> (and is not a
  successful \<open>exec\<close>) is always added to the ring; it is printed exactly when no flag is set, or
  the call named with \<open>-e\<close> is this one, and in both cases \<open>-s\<close> lets only results of at least 0
  and \<open>-f\<close> only negative results through (with \<open>-e\<close>, \<open>-s\<close> takes precedence over \<open>-f\<close>).\<close>

theorem trace_filter:
  assumes "ring_inv ts (traces s)" and "\<forall>t\<in>set ts. length t < 100 \<and> NUL \<notin> set t"
    and "strace_return (new_buf s) (sint pid) name (int n) (sint v) = Some b" and "cstr_in b = Some t" and "length t < 100"
    and "e_flag s = - 1 \<or> e_match (e_flag s) n = Some m" and "s_flag s = 0 \<or> s_flag s = 1" and "f_flag s = 0 \<or> f_flag s = 1"
  shows "\<exists>r. ring_inv (ts @ [t]) r \<and> trace_return pid name n v s =
    (if (e_flag s = - 1 \<or> m) \<and> (s_flag s = 0 \<and> f_flag s = 0 \<or> s_flag s = 1 \<and> 0 \<le> sint v
          \<or> f_flag s = 1 \<and> sint v < 0 \<and> (s_flag s = 0 \<or> e_flag s = - 1))
     then cprintf (Some ret_fmt) [CInt pid, CStr (Some name), CStr (syscallnames (int n)), CInt v]
     else retk ()) (s\<lparr>traces := r\<rparr>)"
proof -
  obtain r where r: "adding b (traces s) = Some r" "ring_inv (ts @ [t]) r"
    using adding_inv [OF assms(1,2,4,5)] by blast
  show ?thesis
    using assms(3,6-8) r
    by (intro exI [of _ r]) (auto simp: trace_return_def add_trace_def Let_def when_match_def unlessk_def)
qed

theorem trace_filter_witness:
  "\<exists>r. trace_return 7 ''ls'' 16 3 (trace_state 16 1) =
    cprintf (Some ret_fmt) [CInt 7, CStr (Some ''ls''), CStr (syscallnames 16), CInt 3] ((trace_state 16 1)\<lparr>traces := r\<rparr>)"
proof -
  have i: "ring_inv [] (traces (trace_state 16 1))"
    by (simp add: ring_inv_def ring0_def RING_def row_of_def padded_def)
  have n: "NUL \<notin> set ''TRACE: pid = 7  | command name =  ls  | syscall =  write  | return value = 3''" by code_simp
  have b: "new_buf (trace_state 16 1) = replicate 100 (CHR ''x'')"
    by (simp add: new_buf_def trace_state_def kproc.defs ktrace.defs map_replicate_const)
  have t: "strace_return (new_buf (trace_state 16 1)) (sint (7 :: i32)) ''ls'' (int 16) (sint (3 :: i32))
      = Some (''TRACE: pid = 7  | command name =  ls  | syscall =  write  | return value = 3'' @ NUL # replicate 23 (CHR ''x''))"
    unfolding b by code_simp
  from trace_filter [OF i _ t cstr_in_append [OF n], of True] show ?thesis
    by auto
qed


end
