(* ===== verification/Bio.thy ===== *)
theory Bio
  imports Strace
begin

text \<open>
  Sleep locks (\<open>src/sleeplock.c\<close>), the disk in memory (\<open>src/memide.c\<close>) and the buffer cache
  (\<open>src/bio.c\<close>). A sleep lock is named by the buffer or inode it belongs to and kept in the table
  \<open>slks\<close>; a buffer is an index into \<open>bufs\<close>; the doubly linked list of the cache is the list
  \<open>blist\<close> of indices from \<open>head.next\<close> on. The disk is its first image with the writes made so far,
  the last one at the end, so that a crash can be placed between any two of them.
\<close>

section \<open>State\<close>

record sleeplock =
  sl_locked :: u32
  sl_name :: string
  sl_pid :: i32

record buf =
  b_flags :: u32
  b_dev :: u32
  b_blockno :: u32
  b_refcnt :: u32
  b_data :: "u8 list"

definition BSIZE :: nat where "BSIZE = 512"
definition NBUF :: nat where "NBUF = 30"
definition B_VALID :: u32 where "B_VALID = 0x2"
definition B_DIRTY :: u32 where "B_DIRTY = 0x4"

type_synonym block = "u8 list"

record kbuf = ktrace +
  slks :: "slid \<Rightarrow> sleeplock"
  bufs :: "nat \<Rightarrow> buf"
  blist :: "nat list"
  disk_image :: "u32 \<Rightarrow> block"
  disk_writes :: "(u32 \<times> block) list"
  disksize :: u32

text \<open>The content of a disk after a sequence of block writes.\<close>

definition disk_after :: "(u32 \<Rightarrow> block) \<Rightarrow> (u32 \<times> block) list \<Rightarrow> u32 \<Rightarrow> block" where
  "disk_after img ws = foldl (\<lambda>d (b, x). d(b := x)) img ws"

definition memdisk :: "'a kbuf_scheme \<Rightarrow> u32 \<Rightarrow> block" where
  "memdisk s = disk_after (disk_image s) (disk_writes s)"

definition upd_slk :: "slid \<Rightarrow> (sleeplock \<Rightarrow> sleeplock) \<Rightarrow> 'a kbuf_scheme \<Rightarrow> 'a kbuf_scheme" where
  "upd_slk k f s = s\<lparr>slks := (slks s)(k := f (slks s k))\<rparr>"

definition upd_buf :: "nat \<Rightarrow> (buf \<Rightarrow> buf) \<Rightarrow> 'a kbuf_scheme \<Rightarrow> 'a kbuf_scheme" where
  "upd_buf b f s = s\<lparr>bufs := (bufs s)(b := f (bufs s b))\<rparr>"

section \<open>Sleep locks\<close>

definition initsleeplock :: "slid \<Rightarrow> string \<Rightarrow> ('a kbuf_scheme, unit) kop" where
  "initsleeplock k name = seqk (initlock (SleepLk k) ''sleep lock'')
     (modk (upd_slk k (\<lambda>l. l\<lparr>sl_name := name, sl_locked := 0, sl_pid := 0\<rparr>)))"

text \<open>The loop of \<open>acquiresleep\<close>, with the spin lock of the sleep lock held.\<close>

definition acquiresleep_loop :: "slid \<Rightarrow> ('a kbuf_scheme, unit) kop" where
  "acquiresleep_loop k = bindk (getk (\<lambda>s. sl_locked (slks s k))) (\<lambda>l.
     if l \<noteq> 0 then sleep (SleepLkCh k) (Some (SleepLk k))
     else withproc (\<lambda>i. bindk (getk (\<lambda>s. p_pid (ptable s i))) (\<lambda>pid.
       seqk (modk (upd_slk k (\<lambda>l. l\<lparr>sl_locked := 1, sl_pid := pid\<rparr>))) (release (SleepLk k)))))"

definition acquiresleep :: "slid \<Rightarrow> ('a kbuf_scheme, unit) kop" where
  "acquiresleep k = seqk (acquire (SleepLk k)) (acquiresleep_loop k)"

definition acquiresleep_resume :: "slid \<Rightarrow> ('a kbuf_scheme, unit) kop" where
  "acquiresleep_resume k = seqk (sleep_resume (SleepLk k)) (acquiresleep_loop k)"

definition releasesleep :: "slid \<Rightarrow> ('a kbuf_scheme, unit) kop" where
  "releasesleep k = seqk (acquire (SleepLk k))
     (seqk (modk (upd_slk k (\<lambda>l. l\<lparr>sl_locked := 0, sl_pid := 0\<rparr>)))
       (seqk (wakeup (SleepLkCh k)) (release (SleepLk k))))"

definition holdingsleep :: "slid \<Rightarrow> ('a kbuf_scheme, u32) kop" where
  "holdingsleep k = seqk (acquire (SleepLk k)) (bindk (getk (\<lambda>s. sl_locked (slks s k))) (\<lambda>r.
     seqk (release (SleepLk k)) (retk r)))"

section \<open>The disk\<close>

text \<open>\<open>fs_img\<close> and \<open>img_size\<close> are the image linked into the kernel and its size in bytes.\<close>

definition ideinit :: "(u32 \<Rightarrow> block) \<Rightarrow> u32 \<Rightarrow> ('a kbuf_scheme, unit) kop" where
  "ideinit fs_img img_size = modk (\<lambda>s. s\<lparr>disk_image := fs_img, disk_writes := [], disksize := img_size div of_nat BSIZE\<rparr>)"

definition iderw :: "nat \<Rightarrow> ('a kbuf_scheme, unit) kop" where
  "iderw b = bindk (holdingsleep (BufSl b)) (\<lambda>h. bindk (getk (\<lambda>s. (bufs s b, disksize s))) (\<lambda>(x, n).
     if h = 0 then panick ''iderw: buf not locked''
     else if b_flags x AND (B_VALID OR B_DIRTY) = B_VALID then panick ''iderw: nothing to do''
     else if b_dev x \<noteq> 1 then panick ''iderw: request not for disk 1''
     else if b_blockno x \<ge> n then panick ''iderw: block out of range''
     else if b_flags x AND B_DIRTY \<noteq> 0 then
       modk (\<lambda>s. (upd_buf b (\<lambda>x. x\<lparr>b_flags := b_flags x AND NOT B_DIRTY OR B_VALID\<rparr>) s)
         \<lparr>disk_writes := disk_writes s @ [(b_blockno x, b_data x)]\<rparr>)
     else modk (\<lambda>s. upd_buf b (\<lambda>x. x\<lparr>b_data := memdisk s (b_blockno x), b_flags := b_flags x OR B_VALID\<rparr>) s)))"

section \<open>The buffer cache\<close>

definition binit :: "('a kbuf_scheme, unit) kop" where
  "binit = seqk (initlock BcacheLk ''bcache'') (seqk (modk (\<lambda>s. s\<lparr>blist := []\<rparr>))
     (forallk (\<lambda>b. seqk (initsleeplock (BufSl b) ''buffer'') (modk (\<lambda>s. s\<lparr>blist := b # blist s\<rparr>))) [0..<NBUF]))"

definition bget :: "u32 \<Rightarrow> u32 \<Rightarrow> ('a kbuf_scheme, nat) kop" where
  "bget dev blockno = seqk (acquire BcacheLk)
     (bindk (getk (\<lambda>s. find (\<lambda>b. b_dev (bufs s b) = dev \<and> b_blockno (bufs s b) = blockno) (blist s))) (\<lambda>r. case r of
        Some b \<Rightarrow> seqk (modk (upd_buf b (\<lambda>x. x\<lparr>b_refcnt := b_refcnt x + 1\<rparr>)))
          (seqk (release BcacheLk) (seqk (acquiresleep (BufSl b)) (retk b)))
      | None \<Rightarrow> bindk (getk (\<lambda>s. find (\<lambda>b. b_refcnt (bufs s b) = 0 \<and> b_flags (bufs s b) AND B_DIRTY = 0) (rev (blist s))))
          (\<lambda>r. case r of
             None \<Rightarrow> panick ''bget: no buffers''
           | Some b \<Rightarrow> seqk (modk (upd_buf b (\<lambda>x. x\<lparr>b_dev := dev, b_blockno := blockno, b_flags := 0, b_refcnt := 1\<rparr>)))
               (seqk (release BcacheLk) (seqk (acquiresleep (BufSl b)) (retk b))))))"

text \<open>The part of \<open>bread\<close> after \<open>bget\<close>.\<close>

definition bread_valid :: "nat \<Rightarrow> ('a kbuf_scheme, nat) kop" where
  "bread_valid b = bindk (getk (\<lambda>s. b_flags (bufs s b))) (\<lambda>f.
     seqk (unlessk (f AND B_VALID \<noteq> 0) (iderw b)) (retk b))"

definition bread :: "u32 \<Rightarrow> u32 \<Rightarrow> ('a kbuf_scheme, nat) kop" where
  "bread dev blockno = bindk (bget dev blockno) bread_valid"

definition bwrite :: "nat \<Rightarrow> ('a kbuf_scheme, unit) kop" where
  "bwrite b = bindk (holdingsleep (BufSl b)) (\<lambda>h. if h = 0 then panick ''bwrite''
     else seqk (modk (upd_buf b (\<lambda>x. x\<lparr>b_flags := b_flags x OR B_DIRTY\<rparr>))) (iderw b))"

definition brelse :: "nat \<Rightarrow> ('a kbuf_scheme, unit) kop" where
  "brelse b = bindk (holdingsleep (BufSl b)) (\<lambda>h. if h = 0 then panick ''brelse''
     else seqk (releasesleep (BufSl b)) (seqk (acquire BcacheLk)
       (seqk (modk (upd_buf b (\<lambda>x. x\<lparr>b_refcnt := b_refcnt x - 1\<rparr>)))
         (seqk (modk (\<lambda>s. if b_refcnt (bufs s b) = 0 then s\<lparr>blist := b # remove1 b (blist s)\<rparr> else s))
           (release BcacheLk)))))"

section \<open>Taking a sleep lock\<close>

lemma cpu_ready_acquired:
  "cpu_wf c \<Longrightarrow> cpu_wf (acquired_cpu c)" "ncli c = 0 \<Longrightarrow> ncli (acquired_cpu c) = 1"
  by (rule cpu_wf_locked [OF cpu_locked_acquired]) (simp_all add: acquired_cpu_def)

lemma slks_locked [simp]: "slks (acquired l s) = slks s" "slks (released l s) = slks s"
  by (simp_all add: acquired_def released_def)

section \<open>Properties\<close>

text \<open>A sleep lock excludes. When the lock is free, \<open>acquiresleep\<close> returns with the lock held in
  the name of the calling process, everything it had to lock released again; when it is held, the
  caller sleeps on the lock's channel, the lock still belongs to who held it, and the spin lock
  that guards it is free while the caller sleeps.\<close>

theorem acquiresleep_excludes:
  assumes "curproc s = Some p" and "lk_free (SleepLk k) s" and "lk_free PtableLk s"
    and "cpu_wf (thiscpu s)" and "ncli (thiscpu s) = 0"
  shows "if sl_locked (slks s k) = 0
    then \<exists>t. acquiresleep k s = Done () t \<and> sl_locked (slks t k) = 1 \<and> sl_pid (slks t k) = p_pid (ptable s p)
      \<and> (\<forall>j. j \<noteq> k \<longrightarrow> slks t j = slks s j) \<and> quiet s t \<and> ptable t = ptable s
    else \<exists>t. acquiresleep k s = Switch t \<and> slks t = slks s \<and> lk_free (SleepLk k) t
      \<and> p_state (ptable t p) = SLEEPING \<and> p_chan (ptable t p) = Some (SleepLkCh k)
      \<and> (\<forall>j. j \<noteq> p \<longrightarrow> ptable t j = ptable s j)"
proof (cases "sl_locked (slks s k) = 0")
  case True
  let ?a = "acquired (SleepLk k) s"
  let ?t = "upd_slk k (\<lambda>l. l\<lparr>sl_locked := 1, sl_pid := p_pid (ptable s p)\<rparr>) ?a"
  have h: "holding (SleepLk k) ?t" "cpu_locked (thiscpu ?t)"
    using assms(2,4) holding_acquired [of "SleepLk k" s] by (simp_all add: upd_slk_def holding_def)
  have "acquiresleep k s = Done () (released (SleepLk k) ?t)"
    using assms(1,2,4) True h
    by (simp add: acquiresleep_def seqk_acquire acquiresleep_loop_def withproc_Some release_Done)
  moreover have "quiet s (released (SleepLk k) ?t)"
    using assms(2,4) by (intro quiet_section) (simp_all add: upd_slk_def)
  ultimately show ?thesis using True by (auto simp: upd_slk_def)
next
  case False
  let ?a = "acquired (SleepLk k) s"
  have "acquiresleep k s = sleep (SleepLkCh k) (Some (SleepLk k)) ?a"
    using assms(2,4) False by (simp add: acquiresleep_def seqk_acquire acquiresleep_loop_def)
  also have "\<dots> = Switch (upd_proc p (\<lambda>q. q\<lparr>p_chan := Some (SleepLkCh k), p_state := SLEEPING,
      p_intena := intena (thiscpu ?a), p_context := kregs ?a\<rparr>) (released (SleepLk k) (acquired PtableLk ?a)))"
    using assms by (intro sleep_eq) (simp_all add: cpu_ready_acquired)
  finally show ?thesis using False by (auto simp: upd_proc_def lk_free_def store_unlocked_def)
qed

text \<open>A machine whose running process 3 meets sleep locks that are all free or all held.\<close>

definition io_state :: "u32 \<Rightarrow> kbuf" where
  "io_state l = ktrace.extend (trace_state 11 0) (kbuf.fields (\<lambda>_. \<lparr>sl_locked = l, sl_name = ''buffer'', sl_pid = 0\<rparr>)
     (\<lambda>_. \<lparr>b_flags = 0, b_dev = 0, b_blockno = 0, b_refcnt = 0, b_data = replicate BSIZE 0\<rparr>) [0..<NBUF]
     (\<lambda>_. replicate BSIZE 0) [] 1000)"

lemma io_state_ok:
  "curproc (io_state l) = Some 3" "lk_free k (io_state l)" "cpu_wf (thiscpu (io_state l))" "ncli (thiscpu (io_state l)) = 0"
  "slks (io_state l) = (\<lambda>_. \<lparr>sl_locked = l, sl_name = ''buffer'', sl_pid = 0\<rparr>)"
  by (simp_all add: io_state_def trace_state_def kbuf.defs ktrace.defs user_kproc_def idle_defs curproc_def lk_free_def
      free_lock_def cpu_wf_def idle_cpu_def)

theorem acquiresleep_excludes_witness:
  "(\<exists>t. acquiresleep (BufSl 2) (io_state 0) = Done () t \<and> sl_locked (slks t (BufSl 2)) = 1)
   \<and> (\<exists>t. acquiresleep (BufSl 2) (io_state 1) = Switch t \<and> p_state (ptable t 3) = SLEEPING)"
proof -
  note e = acquiresleep_excludes [OF io_state_ok(1) io_state_ok(2) io_state_ok(2) io_state_ok(3,4), where k = "BufSl 2"]
  show ?thesis using e [of 0] e [of 1] by (auto simp: io_state_ok(5))
qed

end
