(* ===== verification/Log.thy ===== *)
theory Log
  imports Bio
begin

text \<open>
  The write-ahead log (\<open>src/log.c\<close>) and the reading of the super block (\<open>readsb\<close> of \<open>src/fs.c\<close>).
  The in-memory header \<open>log.lh\<close> is \<open>lh_n\<close> and \<open>lh_block\<close>; on disk it is the block \<open>log.start\<close>,
  a 32-bit count and the block numbers, in little-endian order.
\<close>

section \<open>State\<close>

definition LOGSIZE :: nat where "LOGSIZE = 30"
definition MAXOPBLOCKS :: nat where "MAXOPBLOCKS = 10"

record superblock =
  sb_size :: u32
  sb_nblocks :: u32
  sb_ninodes :: u32
  sb_nlog :: u32
  sb_logstart :: u32
  sb_inodestart :: u32
  sb_bmapstart :: u32

record klog = kbuf +
  log_start :: i32
  log_size :: i32
  log_outstanding :: i32
  log_committing :: i32
  log_dev :: i32
  lh_n :: i32
  lh_block :: "nat \<Rightarrow> i32"

text \<open>32-bit numbers in the bytes of a block.\<close>

definition get32 :: "block \<Rightarrow> nat \<Rightarrow> u32" where
  "get32 x o' = ucast (x ! o') OR push_bit 8 (ucast (x ! (o' + 1))) OR push_bit 16 (ucast (x ! (o' + 2)))
     OR push_bit 24 (ucast (x ! (o' + 3)))"

definition put32 :: "block \<Rightarrow> nat \<Rightarrow> u32 \<Rightarrow> block" where
  "put32 x o' v = x[o' := ucast v, o' + 1 := ucast (drop_bit 8 v), o' + 2 := ucast (drop_bit 16 v), o' + 3 := ucast (drop_bit 24 v)]"

definition readsb :: "u32 \<Rightarrow> ('a kbuf_scheme, superblock) kop" where
  "readsb dev = bindk (bread dev 1) (\<lambda>bp. bindk (getk (\<lambda>s. b_data (bufs s bp))) (\<lambda>d.
     seqk (brelse bp) (retk \<lparr>sb_size = get32 d 0, sb_nblocks = get32 d 4, sb_ninodes = get32 d 8, sb_nlog = get32 d 12,
       sb_logstart = get32 d 16, sb_inodestart = get32 d 20, sb_bmapstart = get32 d 24\<rparr>)))"

section \<open>Commit and recovery\<close>

text \<open>The indices of the loops \<open>for (tail = 0; tail < log.lh.n; tail++)\<close>.\<close>

definition tails :: "'a klog_scheme \<Rightarrow> nat list" where
  "tails s = [0..<nat (sint (lh_n s))]"

definition set_data :: "nat \<Rightarrow> block \<Rightarrow> ('a klog_scheme, unit) kop" where
  "set_data b d = modk (upd_buf b (\<lambda>x. x\<lparr>b_data := d\<rparr>))"

definition install_one :: "nat \<Rightarrow> ('a klog_scheme, unit) kop" where
  "install_one tail = bindk (getk (\<lambda>s. (log_dev s, log_start s + of_nat tail + 1, lh_block s tail))) (\<lambda>(dev, src, dst).
     bindk (bread dev src) (\<lambda>lbuf. bindk (bread dev dst) (\<lambda>dbuf.
       bindk (getk (\<lambda>s. b_data (bufs s lbuf))) (\<lambda>d.
         seqk (set_data dbuf d) (seqk (bwrite dbuf) (seqk (brelse lbuf) (brelse dbuf)))))))"

definition install_trans :: "('a klog_scheme, unit) kop" where
  "install_trans = bindk (getk tails) (forallk install_one)"

text \<open>A count larger than \<open>LOGSIZE\<close> on disk would make the loop of \<open>read_head\<close> write past
  \<open>log.lh.block\<close>.\<close>

definition read_head :: "('a klog_scheme, unit) kop" where
  "read_head = bindk (getk (\<lambda>s. (log_dev s, log_start s))) (\<lambda>(dev, st). bindk (bread dev st) (\<lambda>b.
     bindk (getk (\<lambda>s. b_data (bufs s b))) (\<lambda>d.
       seqk (modk (\<lambda>s. s\<lparr>lh_n := get32 d 0\<rparr>))
         (if sint (get32 d 0) > int LOGSIZE then undefk
          else seqk (modk (\<lambda>s. s\<lparr>lh_block := (\<lambda>i. if i < nat (sint (get32 d 0)) then get32 d (4 + 4 * i) else lh_block s i)\<rparr>))
            (brelse b)))))"

text \<open>The header block after the assignments of \<open>write_head\<close>.\<close>

definition head_block :: "i32 \<Rightarrow> (nat \<Rightarrow> i32) \<Rightarrow> block \<Rightarrow> block" where
  "head_block n blk d = foldl (\<lambda>d i. put32 d (4 + 4 * i) (blk i)) (put32 d 0 n) [0..<nat (sint n)]"

definition write_head :: "('a klog_scheme, unit) kop" where
  "write_head = bindk (getk (\<lambda>s. (log_dev s, log_start s))) (\<lambda>(dev, st). bindk (bread dev st) (\<lambda>b.
     bindk (getk (\<lambda>s. head_block (lh_n s) (lh_block s) (b_data (bufs s b)))) (\<lambda>d.
       seqk (set_data b d) (seqk (bwrite b) (brelse b)))))"

definition recover_from_log :: "('a klog_scheme, unit) kop" where
  "recover_from_log = seqk read_head (seqk install_trans (seqk (modk (\<lambda>s. s\<lparr>lh_n := 0\<rparr>)) write_head))"

definition initlog :: "i32 \<Rightarrow> ('a klog_scheme, unit) kop" where
  "initlog dev = seqk (initlock LogLk ''log'') (bindk (readsb dev) (\<lambda>sb.
     seqk (modk (\<lambda>s. s\<lparr>log_start := sb_logstart sb, log_size := sb_nlog sb, log_dev := dev\<rparr>)) recover_from_log))"

definition write_log_one :: "nat \<Rightarrow> ('a klog_scheme, unit) kop" where
  "write_log_one tail = bindk (getk (\<lambda>s. (log_dev s, log_start s + of_nat tail + 1, lh_block s tail))) (\<lambda>(dev, dst, src).
     bindk (bread dev dst) (\<lambda>to'. bindk (bread dev src) (\<lambda>from'.
       bindk (getk (\<lambda>s. b_data (bufs s from'))) (\<lambda>d.
         seqk (set_data to' d) (seqk (bwrite to') (seqk (brelse from') (brelse to')))))))"

definition write_log :: "('a klog_scheme, unit) kop" where
  "write_log = bindk (getk tails) (forallk write_log_one)"

definition commit :: "('a klog_scheme, unit) kop" where
  "commit = bindk (getk lh_n) (\<lambda>n. unlessk (\<not> sint n > 0)
     (seqk write_log (seqk write_head (seqk install_trans (seqk (modk (\<lambda>s. s\<lparr>lh_n := 0\<rparr>)) write_head)))))"

section \<open>Transactions\<close>

text \<open>The loop of \<open>begin_op\<close>, with \<open>log.lock\<close> held; a sleeping call continues in
  \<open>begin_op_resume\<close>.\<close>

definition begin_op_loop :: "('a klog_scheme, unit) kop" where
  "begin_op_loop = bindk (getk (\<lambda>s. (log_committing s, lh_n s, log_outstanding s))) (\<lambda>(c, n, out).
     if c \<noteq> 0 then sleep LogCh (Some LogLk)
     else if sint (n + (out + 1) * of_nat MAXOPBLOCKS) > int LOGSIZE then sleep LogCh (Some LogLk)
     else seqk (modk (\<lambda>s. s\<lparr>log_outstanding := log_outstanding s + 1\<rparr>)) (release LogLk))"

definition begin_op :: "('a klog_scheme, unit) kop" where
  "begin_op = seqk (acquire LogLk) begin_op_loop"

definition begin_op_resume :: "('a klog_scheme, unit) kop" where
  "begin_op_resume = seqk (sleep_resume LogLk) begin_op_loop"

text \<open>The first critical section of \<open>end_op\<close>: whether this call has to commit.\<close>

definition end_op_leave :: "('a klog_scheme, bool) kop" where
  "end_op_leave = seqk (acquire LogLk) (seqk (modk (\<lambda>s. s\<lparr>log_outstanding := log_outstanding s - 1\<rparr>))
     (bindk (getk (\<lambda>s. (log_committing s, log_outstanding s))) (\<lambda>(c, out).
       if c \<noteq> 0 then panick ''log.committing''
       else if out = 0 then seqk (modk (\<lambda>s. s\<lparr>log_committing := 1\<rparr>)) (seqk (release LogLk) (retk True))
       else seqk (wakeup LogCh) (seqk (release LogLk) (retk False)))))"

definition end_op :: "('a klog_scheme, unit) kop" where
  "end_op = bindk end_op_leave (\<lambda>do_commit. unlessk (\<not> do_commit)
     (seqk commit (seqk (acquire LogLk) (seqk (modk (\<lambda>s. s\<lparr>log_committing := 0\<rparr>))
       (seqk (wakeup LogCh) (release LogLk))))))"

definition log_write :: "nat \<Rightarrow> ('a klog_scheme, unit) kop" where
  "log_write b = bindk (getk (\<lambda>s. (lh_n s, log_size s, log_outstanding s))) (\<lambda>(n, size', out).
     if sint n \<ge> int LOGSIZE \<or> sint n \<ge> sint (size' - 1) then panick ''too big a transaction''
     else if sint out < 1 then panick ''log_write outside of trans''
     else seqk (acquire LogLk) (bindk (getk (\<lambda>s. (find_index (\<lambda>i. lh_block s i = b_blockno (bufs s b)) (nat (sint n)),
         b_blockno (bufs s b)))) (\<lambda>(r, bno).
       seqk (modk (\<lambda>s. case r of
           Some i \<Rightarrow> s\<lparr>lh_block := (lh_block s)(i := bno)\<rparr>
         | None \<Rightarrow> s\<lparr>lh_block := (lh_block s)(nat (sint n) := bno), lh_n := n + 1\<rparr>))
         (seqk (modk (upd_buf b (\<lambda>x. x\<lparr>b_flags := b_flags x OR B_DIRTY\<rparr>))) (release LogLk)))))"

section \<open>The header block\<close>

lemma length_put32 [simp]: "length (put32 x k v) = length x"
  by (simp add: put32_def)

lemma bytes_of_u32:
  "ucast (ucast (v :: u32) :: u8) OR push_bit 8 (ucast (ucast (drop_bit 8 v) :: u8))
     OR push_bit 16 (ucast (ucast (drop_bit 16 v) :: u8)) OR push_bit 24 (ucast (ucast (drop_bit 24 v) :: u8)) = v"
  using load32_store32_same [of "\<lambda>_. 0" 0 v] by (simp add: load32_def store32_def)

lemma get32_put32: "k + 3 < length x \<Longrightarrow> get32 (put32 x k v) k = v"
  using bytes_of_u32 [of v] by (simp add: get32_def put32_def nth_list_update)

lemma get32_put32_other: "k + 4 \<le> j \<or> j + 4 \<le> k \<Longrightarrow> get32 (put32 x k v) j = get32 x j"
  by (auto simp: get32_def put32_def nth_list_update)

lemma head_block_words:
  assumes "4 + 4 * m \<le> length d"
  shows "length (foldl (\<lambda>d i. put32 d (4 + 4 * i) (blk i)) (put32 d 0 n) [0..<m]) = length d
    \<and> get32 (foldl (\<lambda>d i. put32 d (4 + 4 * i) (blk i)) (put32 d 0 n) [0..<m]) 0 = n
    \<and> (\<forall>i<m. get32 (foldl (\<lambda>d i. put32 d (4 + 4 * i) (blk i)) (put32 d 0 n) [0..<m]) (4 + 4 * i) = blk i)"
  using assms
proof (induction m)
  case 0
  then show ?case by (simp add: get32_put32)
next
  case (Suc m)
  let ?d = "foldl (\<lambda>d i. put32 d (4 + 4 * i) (blk i)) (put32 d 0 n) [0..<m]"
  have ih: "length ?d = length d" "get32 ?d 0 = n" "\<forall>i<m. get32 ?d (4 + 4 * i) = blk i"
    using Suc by simp_all
  have "get32 (put32 ?d (4 + 4 * m) (blk m)) (4 + 4 * i) = blk i" if "i < Suc m" for i
  proof (cases "i = m")
    case True
    then show ?thesis using ih(1) Suc.prems by (simp add: get32_put32)
  next
    case False
    then have "i < m" using that by simp
    then show ?thesis using ih(3) by (subst get32_put32_other) auto
  qed
  then show ?case using ih by (simp add: get32_put32_other)
qed

section \<open>Transactions\<close>

text \<open>The state of a caller of the log: the log's lock is free and the CPU well-formed.\<close>

definition log_ready :: "'a klog_scheme \<Rightarrow> bool" where
  "log_ready s \<longleftrightarrow> lk_free LogLk s \<and> cpu_wf (thiscpu s)"

text \<open>The space of the log covers what is logged and what every running operation may still log.\<close>

definition log_fits :: "'a klog_scheme \<Rightarrow> bool" where
  "log_fits s \<longleftrightarrow> 0 \<le> sint (lh_n s) \<and> 0 \<le> sint (log_outstanding s)
     \<and> sint (lh_n s) + sint (log_outstanding s) * int MAXOPBLOCKS \<le> int LOGSIZE"

lemma sint_small_add:
  fixes a b :: i32
  assumes "0 \<le> sint a" "sint a \<le> 1000" "0 \<le> sint b" "sint b \<le> 1000"
  shows "sint (a + b) = sint a + sint b" and "sint (a * 10) = sint a * 10" and "sint (a + 1) = sint a + 1"
proof -
  have k: "signed_take_bit 31 x = x" if "0 \<le> x" "x \<le> 10000" for x :: int
    using that by (intro signed_take_bit_int_eq_self) simp_all
  show "sint (a + b) = sint a + sint b" "sint (a * 10) = sint a * 10" "sint (a + 1) = sint a + 1"
    using assms by (simp_all add: sint_word_ariths k)
qed

section \<open>Properties\<close>

text \<open>The header of the log survives the disk. The block that \<open>write_head\<close> writes for a header
  of at most \<open>LOGSIZE\<close> entries, read back the way \<open>read_head\<close> reads it, gives the count and every
  block number, and has the size of a block.\<close>

theorem log_header_roundtrip:
  assumes "length d = BSIZE" and "0 \<le> sint n" and "sint n \<le> int LOGSIZE"
  shows "length (head_block n blk d) = BSIZE \<and> get32 (head_block n blk d) 0 = n
    \<and> (\<forall>i<nat (sint n). get32 (head_block n blk d) (4 + 4 * i) = blk i)"
proof -
  have "4 + 4 * nat (sint n) \<le> length d"
    using assms by (simp add: BSIZE_def LOGSIZE_def)
  from head_block_words [OF this, of blk n] assms(1) show ?thesis
    by (simp add: head_block_def)
qed

theorem log_header_roundtrip_witness:
  "get32 (head_block 2 (\<lambda>i. if i = 0 then 59 else 600) (replicate BSIZE 7)) 0 = 2
   \<and> get32 (head_block 2 (\<lambda>i. if i = 0 then 59 else 600) (replicate BSIZE 7)) 8 = 600"
  using log_header_roundtrip [of "replicate BSIZE 7" 2 "\<lambda>i. if i = 0 then 59 else 600"]
  by (auto simp: LOGSIZE_def dest: spec [of _ 1])


text \<open>The log of a machine whose running process 3 starts an operation.\<close>

definition log_state :: "i32 \<Rightarrow> i32 \<Rightarrow> klog" where
  "log_state out n = kbuf.extend (io_state 0) (klog.fields 2 30 out 0 1 n (\<lambda>_. 0))"

lemma log_state_ok:
  "curproc (log_state out n) = Some 3" "lk_free k (log_state out n)" "cpu_wf (thiscpu (log_state out n))"
  "ncli (thiscpu (log_state out n)) = 0" "log_outstanding (log_state out n) = out" "lh_n (log_state out n) = n"
  "log_committing (log_state out n) = 0"
  using io_state_ok [where l = 0]
  by (simp_all add: log_state_def kbuf.defs klog.defs curproc_def lk_free_def)


text \<open>The block numbers that the header of the log lists.\<close>

definition logged :: "'a klog_scheme \<Rightarrow> u32 list" where
  "logged s = map (lh_block s) [0..<nat (sint (lh_n s))]"

lemma logged_append:
  assumes "0 \<le> sint (lh_n s)" and "sint (lh_n s) < 30"
    and "lh_n t = lh_n s + 1" and "lh_block t = (lh_block s)(nat (sint (lh_n s)) := v)"
  shows "logged t = logged s @ [v]"
proof -
  have "sint (lh_n t) = sint (lh_n s) + 1"
    using assms by (simp add: sint_small_add(3) [of _ 0])
  then have "nat (sint (lh_n t)) = Suc (nat (sint (lh_n s)))" using assms(1) by simp
  then show ?thesis by (simp add: logged_def assms(4))
qed

lemma klog_locked [simp]:
  "lh_n (acquired l s) = lh_n s" "lh_n (released l s) = lh_n s" "lh_block (acquired l s) = lh_block s"
  "lh_block (released l s) = lh_block s" "bufs (acquired l s) = bufs s" "bufs (released l s) = bufs s"
  by (simp_all add: acquired_def released_def)

text \<open>\<open>log_write\<close> absorbs. Inside an operation and with room in the log it returns; the buffer is
  marked dirty so that it stays in the cache until the commit, the header lists its block, and a
  block that is written twice in a transaction is listed once: the list stays free of duplicates
  and grows only by a new block.\<close>

theorem log_write_absorbs:
  assumes "log_ready s" and "distinct (logged s)" and "0 \<le> sint (lh_n s)" and "sint (lh_n s) < int LOGSIZE"
    and "sint (lh_n s) < sint (log_size s - 1)" and "1 \<le> sint (log_outstanding s)"
  shows "\<exists>t. log_write b s = Done () t \<and> quiet s t \<and> distinct (logged t) \<and> b_flags (bufs t b) = b_flags (bufs s b) OR B_DIRTY
    \<and> logged t = (if b_blockno (bufs s b) \<in> set (logged s) then logged s else logged s @ [b_blockno (bufs s b)])"
proof -
  have f: "lk_free LogLk s" "cpu_wf (thiscpu s)" using assms(1) by (simp_all add: log_ready_def)
  let ?v = "b_blockno (bufs s b)" and ?n = "nat (sint (lh_n s))" and ?a = "acquired LogLk s"
  let ?r = "find_index (\<lambda>i. lh_block s i = ?v) ?n"
  define m where "m = (case ?r of Some i \<Rightarrow> ?a\<lparr>lh_block := (lh_block s)(i := ?v)\<rparr>
    | None \<Rightarrow> ?a\<lparr>lh_block := (lh_block s)(?n := ?v), lh_n := lh_n s + 1\<rparr>)"
  let ?t = "upd_buf b (\<lambda>x. x\<lparr>b_flags := b_flags x OR B_DIRTY\<rparr>) m"
  have m: "cur_cpu m = cur_cpu s" "cpus m = cpus ?a" "slocks m = slocks ?a" "bufs m = bufs s"
    by (simp_all add: m_def split: option.splits)
  have t: "cur_cpu ?t = cur_cpu s" "cpus ?t = cpus ?a" "slocks ?t = slocks ?a"
    using m by (simp_all add: upd_buf_def)
  have h: "holding LogLk ?t" "cpu_locked (thiscpu ?t)"
    using holding_acquired [of LogLk s] f(2) t by (simp_all add: holding_def)
  have c: "\<not> (sint (lh_n s) \<ge> int LOGSIZE \<or> sint (lh_n s) \<ge> sint (log_size s - 1))" "\<not> sint (log_outstanding s) < 1"
    using assms(4-6) by simp_all
  have m': "(case ?r of Some i \<Rightarrow> ?a\<lparr>lh_block := (lh_block ?a)(i := b_blockno (bufs ?a b))\<rparr>
    | None \<Rightarrow> ?a\<lparr>lh_block := (lh_block ?a)(?n := b_blockno (bufs ?a b)), lh_n := lh_n s + 1\<rparr>) = m"
    by (cases ?r) (simp_all add: m_def)
  have "log_write b s = Done () (released LogLk ?t)"
    unfolding log_write_def bindk_getk prod.case if_not_P [OF c(1)] if_not_P [OF c(2)]
    by (simp add: seqk_acquire f m' release_Done [OF h])
  moreover have "quiet s (released LogLk ?t)"
    using f t by (intro quiet_section)
  moreover have "logged (released LogLk ?t) = (if ?v \<in> set (logged s) then logged s else logged s @ [?v])"
  proof (cases ?r)
    case None
    then have "?v \<notin> set (logged s)" by (auto simp: find_index_None logged_def)
    moreover have "logged (released LogLk ?t) = logged s @ [?v]"
      using None assms(3,4) by (intro logged_append) (simp_all add: upd_buf_def m_def LOGSIZE_def)
    ultimately show ?thesis by simp
  next
    case (Some i)
    then have i: "i < ?n" "lh_block s i = ?v" by (simp_all add: find_index_Some)
    then have "?v \<in> set (logged s)" by (auto simp: logged_def intro!: image_eqI [where x = i])
    moreover have "(lh_block s)(i := ?v) = lh_block s" using i(2) by auto
    ultimately show ?thesis using Some by (simp add: logged_def upd_buf_def m_def)
  qed
  moreover have "b_flags (bufs (released LogLk ?t) b) = b_flags (bufs s b) OR B_DIRTY"
    by (simp add: upd_buf_def m)
  ultimately show ?thesis using assms(2) by (intro exI conjI) auto
qed

theorem log_write_absorbs_witness:
  "\<exists>t. log_write 3 (log_state 1 1) = Done () t \<and> logged t = [0]"
proof -
  have "log_ready (log_state 1 1)" by (simp add: log_ready_def log_state_ok)
  moreover have "logged (log_state 1 1) = [0]" "log_size (log_state 1 1) = 30" "b_blockno (bufs (log_state 1 1) 3) = 0"
    by (simp_all add: logged_def log_state_ok) (simp_all add: log_state_def io_state_def kbuf.defs klog.defs ktrace.defs)
  ultimately show ?thesis
    using log_write_absorbs [of "log_state 1 1" 3] by (auto simp: log_state_ok LOGSIZE_def)
qed

end
