(* ===== verification/Fs.thy ===== *)
theory Fs
  imports Log
begin

text \<open>
  The file system (\<open>src/fs.c\<close>): the free map, inodes on disk and in the cache, the content of
  files, directories and paths. An inode pointer is an index into the table \<open>inodes\<close> (\<open>None\<close> for
  a null pointer); path names are lists of bytes before the NUL. The table \<open>devsw\<close> of device
  routines is an argument of the routines that call through it.
\<close>

section \<open>State\<close>

definition NINODE :: nat where "NINODE = 50"
definition NDIRECT :: nat where "NDIRECT = 12"
definition NINDIRECT :: nat where "NINDIRECT = 128"
definition BPB :: nat where "BPB = 4096"
definition IPB :: u32 where "IPB = 8"
definition DIRSIZ :: nat where "DIRSIZ = 14"
definition NDEV :: int where "NDEV = 10"
definition I_VALID :: u32 where "I_VALID = 0x2"
definition T_DIR :: u16 where "T_DIR = 1"
definition T_FILE :: u16 where "T_FILE = 2"
definition T_DEV :: u16 where "T_DEV = 3"
definition ROOTDEV :: u32 where "ROOTDEV = 1"
definition ROOTINO :: u32 where "ROOTINO = 1"

record inode =
  i_dev :: u32
  i_inum :: u32
  i_ref :: i32
  i_flags :: u32
  i_type :: u16
  i_major :: u16
  i_minor :: u16
  i_nlink :: u16
  i_size :: u32
  i_addrs :: "nat \<Rightarrow> u32"

record kfs = klog +
  sb :: superblock
  inodes :: "nat \<Rightarrow> inode"

definition upd_inode :: "nat \<Rightarrow> (inode \<Rightarrow> inode) \<Rightarrow> 'a kfs_scheme \<Rightarrow> 'a kfs_scheme" where
  "upd_inode i f s = s\<lparr>inodes := (inodes s)(i := f (inodes s i))\<rparr>"

definition bdata :: "nat \<Rightarrow> 'a kbuf_scheme \<Rightarrow> block" where
  "bdata bp s = b_data (bufs s bp)"

definition IBLOCK :: "u32 \<Rightarrow> superblock \<Rightarrow> u32" where
  "IBLOCK i b = i div IPB + sb_inodestart b"

definition BBLOCK :: "nat \<Rightarrow> superblock \<Rightarrow> u32" where
  "BBLOCK n b = of_nat (n div BPB) + sb_bmapstart b"

section \<open>Blocks\<close>

definition bzero :: "u32 \<Rightarrow> u32 \<Rightarrow> ('a klog_scheme, unit) kop" where
  "bzero dev bno = bindk (bread dev bno) (\<lambda>bp.
     seqk (set_data bp (replicate BSIZE 0)) (seqk (log_write bp) (brelse bp)))"

text \<open>Bit \<open>bi\<close> of a bitmap block.\<close>

definition map_bit :: "nat \<Rightarrow> u8" where
  "map_bit bi = push_bit (bi mod 8) 1"

definition block_free :: "block \<Rightarrow> nat \<Rightarrow> bool" where
  "block_free d bi \<longleftrightarrow> (d ! (bi div 8)) AND map_bit bi = 0"

text \<open>The outer loop of \<open>balloc\<close> over the first block numbers \<open>b\<close> of the bitmap blocks.\<close>

fun balloc_loop :: "u32 \<Rightarrow> nat list \<Rightarrow> ('a kfs_scheme, u32) kop" where
  "balloc_loop dev [] = panick ''balloc: out of blocks''"
| "balloc_loop dev (b # bs) = bindk (getk sb) (\<lambda>sb. bindk (bread dev (BBLOCK b sb)) (\<lambda>bp. bindk (getk (bdata bp)) (\<lambda>d.
     case find_index (block_free d) (min BPB (unat (sb_size sb) - b)) of
       Some bi \<Rightarrow> seqk (set_data bp (d[bi div 8 := d ! (bi div 8) OR map_bit bi]))
         (seqk (log_write bp) (seqk (brelse bp) (seqk (bzero dev (of_nat (b + bi))) (retk (of_nat (b + bi))))))
     | None \<Rightarrow> seqk (brelse bp) (balloc_loop dev bs))))"

definition balloc :: "u32 \<Rightarrow> ('a kfs_scheme, u32) kop" where
  "balloc dev = bindk (getk (\<lambda>s. unat (sb_size (sb s)))) (\<lambda>n.
     balloc_loop dev (map (\<lambda>k. k * BPB) [0..<(n + BPB - 1) div BPB]))"

definition bfree :: "u32 \<Rightarrow> u32 \<Rightarrow> ('a kfs_scheme, unit) kop" where
  "bfree dev b = bindk (readsb dev) (\<lambda>sb'. seqk (modk (\<lambda>s. s\<lparr>sb := sb'\<rparr>))
     (bindk (bread dev (BBLOCK (unat b) sb')) (\<lambda>bp. bindk (getk (bdata bp)) (\<lambda>d.
       let bi = unat b mod BPB in
       if block_free d bi then panick ''freeing free block''
       else seqk (set_data bp (d[bi div 8 := d ! (bi div 8) AND NOT (map_bit bi)]))
         (seqk (log_write bp) (brelse bp))))))"

section \<open>Inodes\<close>

definition sb_fmt :: string where
  "sb_fmt = ''sb: size %d nblocks %d ninodes %d nlog %d logstart %d inodestart %d bmap start %d'' @ [CHR 0x0A]"

definition iinit :: "u32 \<Rightarrow> ('a kfs_scheme, unit) kop" where
  "iinit dev = seqk (initlock IcacheLk ''icache'') (seqk (forallk (\<lambda>i. initsleeplock (InodeSl i) ''inode'') [0..<NINODE])
     (bindk (readsb dev) (\<lambda>b. seqk (modk (\<lambda>s. s\<lparr>sb := b\<rparr>))
       (cprintf (Some sb_fmt) [CInt (sb_size b), CInt (sb_nblocks b), CInt (sb_ninodes b), CInt (sb_nlog b),
          CInt (sb_logstart b), CInt (sb_inodestart b), CInt (sb_bmapstart b)]))))"

definition get16 :: "block \<Rightarrow> nat \<Rightarrow> u16" where
  "get16 x o' = ucast (x ! o') OR push_bit 8 (ucast (x ! (o' + 1)))"

definition put16 :: "block \<Rightarrow> nat \<Rightarrow> u16 \<Rightarrow> block" where
  "put16 x o' v = x[o' := ucast v, o' + 1 := ucast (drop_bit 8 v)]"

text \<open>Where \<open>struct dinode\<close> number \<open>inum\<close> is in its block; the structure has 64 bytes.\<close>

definition dinode_off :: "u32 \<Rightarrow> nat" where
  "dinode_off inum = 64 * unat (inum mod IPB)"

definition iget :: "u32 \<Rightarrow> u32 \<Rightarrow> ('a kfs_scheme, nat) kop" where
  "iget dev inum = seqk (acquire IcacheLk)
     (bindk (getk (\<lambda>s. find_index (\<lambda>i. sint (i_ref (inodes s i)) > 0 \<and> i_dev (inodes s i) = dev \<and> i_inum (inodes s i) = inum) NINODE))
       (\<lambda>r. case r of
          Some i \<Rightarrow> seqk (modk (upd_inode i (\<lambda>x. x\<lparr>i_ref := i_ref x + 1\<rparr>))) (seqk (release IcacheLk) (retk i))
        | None \<Rightarrow> bindk (getk (\<lambda>s. find_index (\<lambda>i. i_ref (inodes s i) = 0) NINODE)) (\<lambda>e. case e of
            None \<Rightarrow> panick ''iget: no inodes''
          | Some i \<Rightarrow> seqk (modk (upd_inode i (\<lambda>x. x\<lparr>i_dev := dev, i_inum := inum, i_ref := 1, i_flags := 0\<rparr>)))
              (seqk (release IcacheLk) (retk i)))))"

fun ialloc_loop :: "u32 \<Rightarrow> u16 \<Rightarrow> nat list \<Rightarrow> ('a kfs_scheme, nat) kop" where
  "ialloc_loop dev type' [] = panick ''ialloc: no inodes''"
| "ialloc_loop dev type' (inum # is) = bindk (getk sb) (\<lambda>sb. bindk (bread dev (IBLOCK (of_nat inum) sb)) (\<lambda>bp.
     bindk (getk (bdata bp)) (\<lambda>d. let o' = dinode_off (of_nat inum) in
       if get16 d o' = 0 then
         seqk (set_data bp (put16 (take o' d @ replicate 64 0 @ drop (o' + 64) d) o' type'))
           (seqk (log_write bp) (seqk (brelse bp) (iget dev (of_nat inum))))
       else seqk (brelse bp) (ialloc_loop dev type' is))))"

definition ialloc :: "u32 \<Rightarrow> u16 \<Rightarrow> ('a kfs_scheme, nat) kop" where
  "ialloc dev type' = bindk (getk (\<lambda>s. unat (sb_ninodes (sb s)))) (\<lambda>n. ialloc_loop dev type' [1..<n])"

text \<open>The fields of an inode in the bytes of its disk block, and back.\<close>

definition put_dinode :: "inode \<Rightarrow> block \<Rightarrow> block" where
  "put_dinode ip d = (let o' = dinode_off (i_inum ip) in
     foldl (\<lambda>d k. put32 d (o' + 12 + 4 * k) (i_addrs ip k))
       (put32 (put16 (put16 (put16 (put16 d o' (i_type ip)) (o' + 2) (i_major ip)) (o' + 4) (i_minor ip)) (o' + 6) (i_nlink ip))
         (o' + 8) (i_size ip)) [0..<NDIRECT + 1])"

definition get_dinode :: "block \<Rightarrow> inode \<Rightarrow> inode" where
  "get_dinode d ip = (let o' = dinode_off (i_inum ip) in
     ip\<lparr>i_type := get16 d o', i_major := get16 d (o' + 2), i_minor := get16 d (o' + 4), i_nlink := get16 d (o' + 6),
       i_size := get32 d (o' + 8), i_addrs := (\<lambda>k. if k < NDIRECT + 1 then get32 d (o' + 12 + 4 * k) else i_addrs ip k)\<rparr>)"

definition iupdate :: "nat \<Rightarrow> ('a kfs_scheme, unit) kop" where
  "iupdate i = bindk (getk (\<lambda>s. (inodes s i, sb s))) (\<lambda>(ip, sb). bindk (bread (i_dev ip) (IBLOCK (i_inum ip) sb)) (\<lambda>bp.
     bindk (getk (\<lambda>s. put_dinode (inodes s i) (bdata bp s))) (\<lambda>d.
       seqk (set_data bp d) (seqk (log_write bp) (brelse bp)))))"

definition idup :: "nat \<Rightarrow> ('a kfs_scheme, nat) kop" where
  "idup i = seqk (acquire IcacheLk) (seqk (modk (upd_inode i (\<lambda>x. x\<lparr>i_ref := i_ref x + 1\<rparr>)))
     (seqk (release IcacheLk) (retk i)))"

text \<open>The part of \<open>ilock\<close> after the sleep lock is held.\<close>

definition ilock_load :: "nat \<Rightarrow> ('a kfs_scheme, unit) kop" where
  "ilock_load i = bindk (getk (\<lambda>s. (inodes s i, sb s))) (\<lambda>(ip, sb). unlessk (i_flags ip AND I_VALID \<noteq> 0)
     (bindk (bread (i_dev ip) (IBLOCK (i_inum ip) sb)) (\<lambda>bp. bindk (getk (bdata bp)) (\<lambda>d.
       seqk (modk (upd_inode i (get_dinode d))) (seqk (brelse bp)
         (seqk (modk (upd_inode i (\<lambda>x. x\<lparr>i_flags := i_flags x OR I_VALID\<rparr>)))
           (bindk (getk (\<lambda>s. i_type (inodes s i))) (\<lambda>t. if t = 0 then panick ''ilock: no type'' else retk ()))))))))"

definition ilock :: "nat option \<Rightarrow> ('a kfs_scheme, unit) kop" where
  "ilock r = (case r of None \<Rightarrow> panick ''ilock'' | Some i \<Rightarrow> bindk (getk (\<lambda>s. i_ref (inodes s i))) (\<lambda>n.
     if sint n < 1 then panick ''ilock'' else seqk (acquiresleep (InodeSl i)) (ilock_load i)))"

definition iunlock :: "nat option \<Rightarrow> ('a kfs_scheme, unit) kop" where
  "iunlock r = (case r of None \<Rightarrow> panick ''iunlock'' | Some i \<Rightarrow> bindk (holdingsleep (InodeSl i)) (\<lambda>h.
     bindk (getk (\<lambda>s. i_ref (inodes s i))) (\<lambda>n.
       if h = 0 \<or> sint n < 1 then panick ''iunlock'' else releasesleep (InodeSl i))))"

section \<open>The content of an inode\<close>

text \<open>The two assignments \<open>ip->addrs[k] = addr = balloc(ip->dev)\<close> of \<open>bmap\<close>.\<close>

definition addr_slot :: "nat \<Rightarrow> nat \<Rightarrow> ('a kfs_scheme, u32) kop" where
  "addr_slot i k = bindk (getk (\<lambda>s. inodes s i)) (\<lambda>ip. if i_addrs ip k \<noteq> 0 then retk (i_addrs ip k)
     else bindk (balloc (i_dev ip)) (\<lambda>addr. seqk (modk (upd_inode i (\<lambda>x. x\<lparr>i_addrs := (i_addrs x)(k := addr)\<rparr>))) (retk addr)))"

definition bmap :: "nat \<Rightarrow> nat \<Rightarrow> ('a kfs_scheme, u32) kop" where
  "bmap i bn = (if bn < NDIRECT then addr_slot i bn
     else if bn - NDIRECT < NINDIRECT then
       bindk (addr_slot i NDIRECT) (\<lambda>addr. bindk (getk (\<lambda>s. i_dev (inodes s i))) (\<lambda>dev. bindk (bread dev addr) (\<lambda>bp.
         bindk (getk (bdata bp)) (\<lambda>d. let o' = 4 * (bn - NDIRECT) in
           if get32 d o' \<noteq> 0 then seqk (brelse bp) (retk (get32 d o'))
           else bindk (balloc dev) (\<lambda>addr. bindk (getk (bdata bp)) (\<lambda>d. seqk (set_data bp (put32 d o' addr))
             (seqk (log_write bp) (seqk (brelse bp) (retk addr)))))))))
     else panick ''bmap: out of range'')"

definition itrunc :: "nat \<Rightarrow> ('a kfs_scheme, unit) kop" where
  "itrunc i = seqk (forallk (\<lambda>k. bindk (getk (\<lambda>s. inodes s i)) (\<lambda>ip. unlessk (i_addrs ip k = 0)
       (seqk (bfree (i_dev ip) (i_addrs ip k)) (modk (upd_inode i (\<lambda>x. x\<lparr>i_addrs := (i_addrs x)(k := 0)\<rparr>)))))) [0..<NDIRECT])
     (seqk (bindk (getk (\<lambda>s. inodes s i)) (\<lambda>ip. unlessk (i_addrs ip NDIRECT = 0)
       (bindk (bread (i_dev ip) (i_addrs ip NDIRECT)) (\<lambda>bp.
         seqk (forallk (\<lambda>j. bindk (getk (\<lambda>s. get32 (bdata bp s) (4 * j))) (\<lambda>a. unlessk (a = 0) (bfree (i_dev ip) a))) [0..<NINDIRECT])
           (seqk (brelse bp) (seqk (bfree (i_dev ip) (i_addrs ip NDIRECT))
             (modk (upd_inode i (\<lambda>x. x\<lparr>i_addrs := (i_addrs x)(NDIRECT := 0)\<rparr>)))))))))
     (seqk (modk (upd_inode i (\<lambda>x. x\<lparr>i_size := 0\<rparr>))) (iupdate i)))"

definition iput :: "nat \<Rightarrow> ('a kfs_scheme, unit) kop" where
  "iput i = seqk (acquire IcacheLk) (seqk (bindk (getk (\<lambda>s. inodes s i)) (\<lambda>ip.
       unlessk (\<not> (i_ref ip = 1 \<and> i_flags ip AND I_VALID \<noteq> 0 \<and> i_nlink ip = 0))
         (seqk (release IcacheLk) (seqk (itrunc i) (seqk (modk (upd_inode i (\<lambda>x. x\<lparr>i_type := 0\<rparr>))) (seqk (iupdate i)
           (seqk (acquire IcacheLk) (modk (upd_inode i (\<lambda>x. x\<lparr>i_flags := 0\<rparr>))))))))))
     (seqk (modk (upd_inode i (\<lambda>x. x\<lparr>i_ref := i_ref x - 1\<rparr>))) (release IcacheLk)))"

definition iunlockput :: "nat option \<Rightarrow> ('a kfs_scheme, unit) kop" where
  "iunlockput r = seqk (iunlock r) (iput (the r))"

record statbuf =
  st_type :: u16
  st_dev :: u32
  st_ino :: u32
  st_nlink :: u16
  st_size :: u32

definition stati :: "nat \<Rightarrow> 'a kfs_scheme \<Rightarrow> statbuf" where
  "stati i s = (let ip = inodes s i in \<lparr>st_type = i_type ip, st_dev = i_dev ip, st_ino = i_inum ip,
     st_nlink = i_nlink ip, st_size = i_size ip\<rparr>)"

text \<open>The copy loop of \<open>readi\<close>; \<open>n - tot\<close> is \<open>rem\<close>, and every round copies at least one byte.\<close>

fun readi_loop :: "nat \<Rightarrow> nat \<Rightarrow> nat \<Rightarrow> nat \<Rightarrow> ('a kfs_scheme, u8 list) kop" where
  "readi_loop i off rem 0 = (\<lambda>_. Spin)"
| "readi_loop i off rem (Suc k) = (if rem = 0 then retk [] else
     bindk (bmap i (off div BSIZE)) (\<lambda>addr. bindk (getk (\<lambda>s. i_dev (inodes s i))) (\<lambda>dev. bindk (bread dev addr) (\<lambda>bp.
       let m = min rem (BSIZE - off mod BSIZE) in
       bindk (getk (\<lambda>s. take m (drop (off mod BSIZE) (bdata bp s)))) (\<lambda>bs.
         seqk (brelse bp) (bindk (readi_loop i (off + m) (rem - m) k) (\<lambda>cs. retk (bs @ cs))))))))"

text \<open>\<open>readi\<close> on a file that is not a device: the bytes it copies, or \<open>None\<close> for -1.\<close>

definition readi_file :: "nat \<Rightarrow> u32 \<Rightarrow> u32 \<Rightarrow> ('a kfs_scheme, u8 list option) kop" where
  "readi_file i off n = bindk (getk (\<lambda>s. i_size (inodes s i))) (\<lambda>size'.
     if off > size' \<or> off + n < off then retk None
     else let n' = (if off + n > size' then size' - off else n) in
       bindk (readi_loop i (unat off) (unat n') (Suc (unat n'))) (\<lambda>bs. retk (Some bs)))"

text \<open>Loads and stores through the current page directory; kernel addresses are mapped linearly.\<close>

definition vaddr :: "'a kproc_scheme \<Rightarrow> u32 \<Rightarrow> u32 option" where
  "vaddr s va = (if va \<ge> KERNBASE then Some va else translate (mem s) (cur_pgdir s) va)"

fun vstore :: "u32 \<Rightarrow> u8 list \<Rightarrow> ('a kproc_scheme, unit) kop" where
  "vstore va [] = retk ()"
| "vstore va (b # bs) = bindk (getk (\<lambda>s. vaddr s va)) (\<lambda>r. case r of
     None \<Rightarrow> panick ''trap''
   | Some a \<Rightarrow> seqk (modk (\<lambda>s. s\<lparr>mem := (mem s)(a := b)\<rparr>)) (vstore (va + 1) bs))"

fun vload :: "u32 \<Rightarrow> nat \<Rightarrow> ('a kproc_scheme, u8 list) kop" where
  "vload va 0 = retk []"
| "vload va (Suc n) = bindk (getk (\<lambda>s. map_option (mem s) (vaddr s va))) (\<lambda>r. case r of
     None \<Rightarrow> panick ''trap''
   | Some b \<Rightarrow> bindk (vload (va + 1) n) (\<lambda>bs. retk (b # bs)))"

text \<open>The routine of the device with a major number, if it is in range and has one.\<close>

type_synonym 's devio = "nat \<Rightarrow> u32 \<Rightarrow> i32 \<Rightarrow> ('s, i32) kop"

definition dev_routine :: "(nat \<Rightarrow> 's devio option) \<Rightarrow> u16 \<Rightarrow> 's devio option" where
  "dev_routine dv major = (if sint major < 0 \<or> sint major \<ge> NDEV then None else dv (nat (sint major)))"

definition readi :: "(nat \<Rightarrow> 'a kfs_scheme devio option) \<Rightarrow> nat \<Rightarrow> u32 \<Rightarrow> u32 \<Rightarrow> u32 \<Rightarrow> ('a kfs_scheme, i32) kop" where
  "readi dv i dst off n = bindk (getk (\<lambda>s. inodes s i)) (\<lambda>ip.
     if i_type ip = T_DEV then (case dev_routine dv (i_major ip) of None \<Rightarrow> retk (- 1) | Some f \<Rightarrow> f i dst n)
     else bindk (readi_file i off n) (\<lambda>r. case r of
       None \<Rightarrow> retk (- 1) | Some bs \<Rightarrow> seqk (vstore dst bs) (retk (of_nat (length bs)))))"

fun writei_loop :: "nat \<Rightarrow> nat \<Rightarrow> u8 list \<Rightarrow> nat \<Rightarrow> ('a kfs_scheme, nat) kop" where
  "writei_loop i off src 0 = (\<lambda>_. Spin)"
| "writei_loop i off src (Suc k) = (if src = [] then retk off else
     bindk (bmap i (off div BSIZE)) (\<lambda>addr. bindk (getk (\<lambda>s. i_dev (inodes s i))) (\<lambda>dev. bindk (bread dev addr) (\<lambda>bp.
       let m = min (length src) (BSIZE - off mod BSIZE); p = off mod BSIZE in
       bindk (getk (bdata bp)) (\<lambda>d.
         seqk (set_data bp (take p d @ take m src @ drop (p + m) d))
           (seqk (log_write bp) (seqk (brelse bp) (writei_loop i (off + m) (drop m src) k))))))))"

text \<open>\<open>writei\<close> on a file that is not a device.\<close>

definition writei_file :: "nat \<Rightarrow> u32 \<Rightarrow> u8 list \<Rightarrow> ('a kfs_scheme, i32) kop" where
  "writei_file i off src = bindk (getk (\<lambda>s. i_size (inodes s i))) (\<lambda>size'. let n = of_nat (length src) :: u32 in
     if off > size' \<or> off + n < off then retk (- 1)
     else if unat (off + n) > (NDIRECT + NINDIRECT) * BSIZE then retk (- 1)
     else bindk (writei_loop i (unat off) src (Suc (length src))) (\<lambda>off'.
       seqk (bindk (getk (\<lambda>s. i_size (inodes s i))) (\<lambda>size'. unlessk (\<not> (n > 0 \<and> of_nat off' > size'))
         (seqk (modk (upd_inode i (\<lambda>x. x\<lparr>i_size := of_nat off'\<rparr>))) (iupdate i)))) (retk n)))"

definition writei :: "(nat \<Rightarrow> 'a kfs_scheme devio option) \<Rightarrow> nat \<Rightarrow> u32 \<Rightarrow> u32 \<Rightarrow> u32 \<Rightarrow> ('a kfs_scheme, i32) kop" where
  "writei dv i src off n = bindk (getk (\<lambda>s. inodes s i)) (\<lambda>ip.
     if i_type ip = T_DEV then (case dev_routine dv (i_major ip) of None \<Rightarrow> retk (- 1) | Some f \<Rightarrow> f i src n)
     else if off > i_size ip \<or> off + n < off then retk (- 1)
     else if unat (off + n) > (NDIRECT + NINDIRECT) * BSIZE then retk (- 1)
     else bindk (vload src (unat n)) (writei_file i off))"

section \<open>Directories\<close>

fun strncmp_l :: "nat \<Rightarrow> u8 list \<Rightarrow> u8 list \<Rightarrow> int" where
  "strncmp_l 0 p q = 0"
| "strncmp_l (Suc n) [] [] = 0"
| "strncmp_l (Suc n) [] (b # q) = - uint b"
| "strncmp_l (Suc n) (a # p) [] = uint a"
| "strncmp_l (Suc n) (a # p) (b # q) = (if a \<noteq> 0 \<and> a = b then strncmp_l n p q else uint a - uint b)"

definition namecmp :: "u8 list \<Rightarrow> u8 list \<Rightarrow> int" where
  "namecmp s t = strncmp_l DIRSIZ s t"

text \<open>The offsets of the entries of a directory of a given size.\<close>

definition dir_offs :: "u32 \<Rightarrow> nat list" where
  "dir_offs size' = map (\<lambda>k. 16 * k) [0..<(unat size' + 15) div 16]"

text \<open>The loop of \<open>dirlookup\<close>: the offset and inode number of the first entry with the name.\<close>

fun dirlookup_loop :: "nat \<Rightarrow> u8 list \<Rightarrow> nat list \<Rightarrow> ('a kfs_scheme, (nat \<times> u16) option) kop" where
  "dirlookup_loop dp name [] = retk None"
| "dirlookup_loop dp name (off # offs) = bindk (readi_file dp (of_nat off) 16) (\<lambda>r. case r of
     None \<Rightarrow> panick ''dirlink read''
   | Some de \<Rightarrow> if length de \<noteq> 16 then panick ''dirlink read''
       else if get16 de 0 = 0 then dirlookup_loop dp name offs
       else if namecmp name (drop 2 de) = 0 then retk (Some (off, get16 de 0))
       else dirlookup_loop dp name offs)"

definition dirlookup :: "nat \<Rightarrow> u8 list \<Rightarrow> ('a kfs_scheme, (nat \<times> nat) option) kop" where
  "dirlookup dp name = bindk (getk (\<lambda>s. inodes s dp)) (\<lambda>d. if i_type d \<noteq> T_DIR then panick ''dirlookup not DIR''
     else bindk (dirlookup_loop dp name (dir_offs (i_size d))) (\<lambda>r. case r of
       None \<Rightarrow> retk None
     | Some (off, inum) \<Rightarrow> bindk (iget (i_dev d) (ucast inum)) (\<lambda>ip. retk (Some (ip, off)))))"

fun dirlink_loop :: "nat \<Rightarrow> nat list \<Rightarrow> ('a kfs_scheme, nat option) kop" where
  "dirlink_loop dp [] = retk None"
| "dirlink_loop dp (off # offs) = bindk (readi_file dp (of_nat off) 16) (\<lambda>r. case r of
     None \<Rightarrow> panick ''dirlink read''
   | Some de \<Rightarrow> if length de \<noteq> 16 then panick ''dirlink read''
       else if get16 de 0 = 0 then retk (Some off) else dirlink_loop dp offs)"

text \<open>\<open>struct dirent\<close>: the inode number and the name, cut or padded to 14 bytes by \<open>strncpy\<close>.\<close>

definition dirent :: "u8 list \<Rightarrow> u16 \<Rightarrow> u8 list" where
  "dirent name inum = [ucast inum, ucast (drop_bit 8 inum)] @ take DIRSIZ (name @ replicate DIRSIZ 0)"

definition dirlink :: "nat \<Rightarrow> u8 list \<Rightarrow> u32 \<Rightarrow> ('a kfs_scheme, i32) kop" where
  "dirlink dp name inum = bindk (dirlookup dp name) (\<lambda>r. case r of
     Some (ip, _) \<Rightarrow> seqk (iput ip) (retk (- 1))
   | None \<Rightarrow> bindk (getk (\<lambda>s. i_size (inodes s dp))) (\<lambda>size'.
       bindk (dirlink_loop dp (dir_offs size')) (\<lambda>e.
         let off = (case e of Some off \<Rightarrow> off | None \<Rightarrow> 16 * length (dir_offs size')) in
         bindk (writei_file dp (of_nat off) (dirent name (ucast inum))) (\<lambda>n.
           if n \<noteq> 16 then panick ''dirlink'' else retk 0))))"

section \<open>Paths\<close>

definition slash :: u8 where "slash = 0x2F"

text \<open>\<open>skipelem\<close>: the rest of the path and the element, cut to \<open>DIRSIZ\<close> bytes.\<close>

definition skipelem :: "u8 list \<Rightarrow> (u8 list \<times> u8 list) option" where
  "skipelem path = (let p = dropWhile (\<lambda>c. c = slash) path in
     if p = [] then None
     else let s = takeWhile (\<lambda>c. c \<noteq> slash) p; p' = dropWhile (\<lambda>c. c \<noteq> slash) p in
       Some (dropWhile (\<lambda>c. c = slash) p', take DIRSIZ s))"

fun namex_loop :: "nat \<Rightarrow> nat \<Rightarrow> u8 list \<Rightarrow> bool \<Rightarrow> u8 list \<Rightarrow> ('a kfs_scheme, (nat \<times> u8 list) option) kop" where
  "namex_loop 0 ip path parent name = (\<lambda>_. Spin)"
| "namex_loop (Suc k) ip path parent name = (case skipelem path of
     None \<Rightarrow> if parent then seqk (iput ip) (retk None) else retk (Some (ip, name))
   | Some (path', name') \<Rightarrow> seqk (ilock (Some ip)) (bindk (getk (\<lambda>s. i_type (inodes s ip))) (\<lambda>t.
       if t \<noteq> T_DIR then seqk (iunlockput (Some ip)) (retk None)
       else if parent \<and> path' = [] then seqk (iunlock (Some ip)) (retk (Some (ip, name')))
       else bindk (dirlookup ip name') (\<lambda>r. case r of
         None \<Rightarrow> seqk (iunlockput (Some ip)) (retk None)
       | Some (next', _) \<Rightarrow> seqk (iunlockput (Some ip)) (namex_loop k next' path' parent name')))))"

definition namex :: "u8 list \<Rightarrow> bool \<Rightarrow> ('a kfs_scheme, (nat \<times> u8 list) option) kop" where
  "namex path parent = bindk (if path \<noteq> [] \<and> hd path = slash then iget ROOTDEV ROOTINO
       else withproc (\<lambda>i. bindk (getk (\<lambda>s. p_cwd (ptable s i))) (\<lambda>c. case c of None \<Rightarrow> panick ''trap'' | Some d \<Rightarrow> idup d)))
     (\<lambda>ip. namex_loop (Suc (length path)) ip path parent [])"

definition namei :: "u8 list \<Rightarrow> ('a kfs_scheme, nat option) kop" where
  "namei path = bindk (namex path False) (\<lambda>r. retk (map_option fst r))"

definition nameiparent :: "u8 list \<Rightarrow> ('a kfs_scheme, (nat \<times> u8 list) option) kop" where
  "nameiparent path = namex path True"

section \<open>The elements of a path\<close>

text \<open>The elements of a path: the parts between slashes that are not empty.\<close>

fun path_parts :: "u8 list \<Rightarrow> u8 list list" where
  "path_parts [] = [[]]"
| "path_parts (c # cs) = (if c = slash then [] # path_parts cs
     else (c # hd (path_parts cs)) # tl (path_parts cs))"

definition path_elems :: "u8 list \<Rightarrow> u8 list list" where
  "path_elems path = filter (\<lambda>p. p \<noteq> []) (path_parts path)"

text \<open>The elements that repeated calls of \<open>skipelem\<close> deliver, for at most \<open>k\<close> calls.\<close>

fun skip_all :: "nat \<Rightarrow> u8 list \<Rightarrow> u8 list list" where
  "skip_all 0 path = []"
| "skip_all (Suc k) path = (case skipelem path of None \<Rightarrow> [] | Some (path', name) \<Rightarrow> name # skip_all k path')"

lemma path_parts_neq [simp]: "path_parts p \<noteq> []"
  by (cases p) auto

lemma path_parts_append:
  "slash \<notin> set p \<Longrightarrow> path_parts (p @ q) = (p @ hd (path_parts q)) # tl (path_parts q)"
  by (induction p) auto

lemma path_elems_slashes: "path_elems (dropWhile (\<lambda>c. c = slash) p) = path_elems p"
  by (induction p) (auto simp: path_elems_def)

lemma path_elems_none:
  assumes "dropWhile (\<lambda>c. c = slash) p = []"
  shows "path_elems p = []"
  using path_elems_slashes [of p] unfolding assms by (simp add: path_elems_def)

lemma path_elems_first:
  assumes "slash \<notin> set e" and "e \<noteq> []" and "r = [] \<or> hd r = slash"
  shows "path_elems (e @ r) = e # path_elems r"
proof -
  obtain ps where "path_parts r = [] # ps"
    using assms(3) by (cases r) auto
  then show ?thesis
    using assms(1,2) by (simp add: path_elems_def path_parts_append)
qed

lemma skipelem_Some:
  assumes "skipelem path = Some (path', name)"
  shows "\<exists>e. path_elems path = e # path_elems path' \<and> name = take DIRSIZ e \<and> length path' < length path
    \<and> (path' = [] \<or> hd path' \<noteq> slash)"
proof -
  let ?p = "dropWhile (\<lambda>c. c = slash) path"
  let ?e = "takeWhile (\<lambda>c. c \<noteq> slash) ?p" and ?r = "dropWhile (\<lambda>c. c \<noteq> slash) ?p"
  have p: "?p \<noteq> []" "path' = dropWhile (\<lambda>c. c = slash) ?r" "name = take DIRSIZ ?e"
    using assms by (auto simp: skipelem_def Let_def split: if_splits)
  have h: "hd ?p \<noteq> slash" by (rule hd_dropWhile [OF p(1)])
  then have e: "?e \<noteq> []" using p(1) by (simp only: takeWhile_eq_Nil_iff) simp
  have r: "?r = [] \<or> hd ?r = slash" using hd_dropWhile [of "\<lambda>c. c \<noteq> slash" ?p] by blast
  have "slash \<notin> set ?e" by (auto dest: set_takeWhileD)
  from path_elems_first [OF this e r] have "path_elems path = ?e # path_elems path'"
    using path_elems_slashes [of path] path_elems_slashes [of ?r] p(2) by simp
  moreover have "length path' < length path"
  proof -
    have "length path' \<le> length ?r" using p(2) length_dropWhile_le [of "\<lambda>c. c = slash" ?r] by simp
    moreover have "length ?e + length ?r = length ?p" by (simp only: length_append [symmetric] takeWhile_dropWhile_id)
    moreover have "length ?p \<le> length path" by (rule length_dropWhile_le)
    moreover have "length ?e > 0" using e by blast
    ultimately show ?thesis by linarith
  qed
  moreover have "path' = [] \<or> hd path' \<noteq> slash"
    using p(2) hd_dropWhile [of "\<lambda>c. c = slash" ?r] by blast
  ultimately show ?thesis using p(3) by blast
qed

lemma skip_all_elems: "length path < k \<Longrightarrow> skip_all k path = map (take DIRSIZ) (path_elems path)"
proof (induction k arbitrary: path)
  case (Suc k)
  show ?case
  proof (cases "skipelem path")
    case None
    then have "path_elems path = []"
      by (intro path_elems_none) (auto simp: skipelem_def Let_def split: if_splits)
    then show ?thesis using None by simp
  next
    case (Some r)
    obtain path' name where r: "r = (path', name)" by (cases r)
    then obtain e where "path_elems path = e # path_elems path'" "name = take DIRSIZ e" "length path' < length path"
      using skipelem_Some Some by blast
    then show ?thesis using Suc Some r by simp
  qed
qed simp

section \<open>Inodes on disk\<close>

lemma length_put16 [simp]: "length (put16 x k v) = length x"
  by (simp add: put16_def)

lemma bytes_of_u16: "ucast (ucast (v :: u16) :: u8) OR push_bit 8 (ucast (ucast (drop_bit 8 v) :: u8)) = v"
  by (rule bit_word_eqI) (auto simp: bit_simps not_less)

lemma get16_put16: "k + 1 < length x \<Longrightarrow> get16 (put16 x k v) k = v"
  using bytes_of_u16 [of v] by (simp add: get16_def put16_def nth_list_update)

lemma get16_put16_other: "k + 2 \<le> j \<or> j + 2 \<le> k \<Longrightarrow> get16 (put16 x k v) j = get16 x j"
  by (auto simp: get16_def put16_def nth_list_update)

lemma get16_put32_other: "k + 4 \<le> j \<or> j + 2 \<le> k \<Longrightarrow> get16 (put32 x k v) j = get16 x j"
  by (auto simp: get16_def put32_def nth_list_update)

lemma get32_put16_other: "k + 2 \<le> j \<or> j + 4 \<le> k \<Longrightarrow> get32 (put16 x k v) j = get32 x j"
  by (auto simp: get32_def put16_def nth_list_update)

lemma put_addrs:
  assumes "k + 4 * m \<le> length d"
  shows "length (foldl (\<lambda>d i. put32 d (k + 4 * i) (a i)) d [0..<m]) = length d
    \<and> (\<forall>i<m. get32 (foldl (\<lambda>d i. put32 d (k + 4 * i) (a i)) d [0..<m]) (k + 4 * i) = a i)
    \<and> (\<forall>j. j + 4 \<le> k \<longrightarrow> get32 (foldl (\<lambda>d i. put32 d (k + 4 * i) (a i)) d [0..<m]) j = get32 d j)
    \<and> (\<forall>j. j + 2 \<le> k \<longrightarrow> get16 (foldl (\<lambda>d i. put32 d (k + 4 * i) (a i)) d [0..<m]) j = get16 d j)"
  using assms
proof (induction m)
  case (Suc m)
  let ?d = "foldl (\<lambda>d i. put32 d (k + 4 * i) (a i)) d [0..<m]"
  have ih: "length ?d = length d" "\<forall>i<m. get32 ?d (k + 4 * i) = a i"
    "\<forall>j. j + 4 \<le> k \<longrightarrow> get32 ?d j = get32 d j" "\<forall>j. j + 2 \<le> k \<longrightarrow> get16 ?d j = get16 d j"
    using Suc by simp_all
  have "get32 (put32 ?d (k + 4 * m) (a m)) (k + 4 * i) = a i" if "i < Suc m" for i
  proof (cases "i = m")
    case True
    then show ?thesis using ih(1) Suc.prems by (simp add: get32_put32)
  next
    case False
    then have "i < m" using that by simp
    then show ?thesis using ih(2) by (subst get32_put32_other) auto
  qed
  moreover have "get32 (put32 ?d (k + 4 * m) (a m)) j = get32 d j" if "j + 4 \<le> k" for j
    using that ih(3) by (subst get32_put32_other) auto
  moreover have "get16 (put32 ?d (k + 4 * m) (a m)) j = get16 d j" if "j + 2 \<le> k" for j
    using that ih(4) by (subst get16_put32_other) auto
  ultimately show ?case using ih(1) by simp
qed simp

lemma put_fields:
  fixes d :: block and o' m :: nat and a :: "nat \<Rightarrow> u32" and v0 v1 v2 v3 :: u16 and v4 :: u32
  defines "f \<equiv> foldl (\<lambda>d k. put32 d (o' + 12 + 4 * k) (a k))
    (put32 (put16 (put16 (put16 (put16 d o' v0) (o' + 2) v1) (o' + 4) v2) (o' + 6) v3) (o' + 8) v4) [0..<m]"
  assumes "o' + 12 + 4 * m \<le> length d"
  shows "get16 f o' = v0" "get16 f (o' + 2) = v1" "get16 f (o' + 4) = v2" "get16 f (o' + 6) = v3"
    "get32 f (o' + 8) = v4" "\<forall>k<m. get32 f (o' + 12 + 4 * k) = a k" "length f = length d"
proof -
  let ?h = "put32 (put16 (put16 (put16 (put16 d o' v0) (o' + 2) v1) (o' + 4) v2) (o' + 6) v3) (o' + 8) v4"
  have "o' + 12 + 4 * m \<le> length ?h" using assms(2) by simp
  note p = put_addrs [OF this, of a, folded f_def]
  have h: "get16 ?h o' = v0" "get16 ?h (o' + 2) = v1" "get16 ?h (o' + 4) = v2" "get16 ?h (o' + 6) = v3" "get32 ?h (o' + 8) = v4"
    using assms(2) by (simp_all add: get16_put32_other get16_put16_other get16_put16 get32_put32)
  have q: "get32 f j = get32 ?h j" if "j + 4 \<le> o' + 12" for j using p that by blast
  have r: "get16 f j = get16 ?h j" if "j + 2 \<le> o' + 12" for j using p that by blast
  show "get16 f o' = v0" by (rule trans [OF r h(1)]) simp
  show "get16 f (o' + 2) = v1" by (rule trans [OF r h(2)]) simp
  show "get16 f (o' + 4) = v2" by (rule trans [OF r h(3)]) simp
  show "get16 f (o' + 6) = v3" by (rule trans [OF r h(4)]) simp
  show "get32 f (o' + 8) = v4" by (rule trans [OF q h(5)]) simp
  show "\<forall>k<m. get32 f (o' + 12 + 4 * k) = a k" using p by blast
  have "length f = length ?h" using p by blast
  then show "length f = length d" by simp
qed

lemma dinode_off_bound: "dinode_off n + 64 \<le> 512"
proof -
  have "unat (n mod 8) < 8" by (simp add: unat_mod_distrib)
  then show ?thesis by (simp add: dinode_off_def IPB_def)
qed

section \<open>Properties\<close>

text \<open>\<open>skipelem\<close> walks the elements of a path. Called again and again on what it returns, it
  stops after fewer calls than the path has characters, and delivers the non-empty parts between
  the slashes in order, each cut to \<open>DIRSIZ\<close> bytes; so \<open>namex\<close>, which calls it in the same way,
  has enough fuel with one call more than the path has characters.\<close>

theorem skipelem_walks_path:
  "skip_all (Suc (length path)) path = map (take DIRSIZ) (filter (\<lambda>p. p \<noteq> []) (path_parts path))"
  using skip_all_elems [of path "Suc (length path)"] by (simp add: path_elems_def)

lemma get_put_dinode:
  assumes "length d = BSIZE" and "i_inum ip = i_inum ip'"
  shows "length (put_dinode ip d) = BSIZE \<and> get_dinode (put_dinode ip d) ip' = ip'\<lparr>i_type := i_type ip, i_major := i_major ip,
    i_minor := i_minor ip, i_nlink := i_nlink ip, i_size := i_size ip,
    i_addrs := (\<lambda>k. if k < NDIRECT + 1 then i_addrs ip k else i_addrs ip' k)\<rparr>"
proof -
  have "dinode_off (i_inum ip) + 12 + 4 * (NDIRECT + 1) \<le> length d"
    using dinode_off_bound [of "i_inum ip"] assms(1) by (simp add: BSIZE_def NDIRECT_def)
  note f = put_fields [OF this, of "i_addrs ip" "i_type ip" "i_major ip" "i_minor ip" "i_nlink ip" "i_size ip",
      folded put_dinode_def [of ip d, unfolded Let_def]]
  have g: "(\<lambda>k. if k < NDIRECT + 1 then get32 (put_dinode ip d) (dinode_off (i_inum ip) + 12 + 4 * k) else i_addrs ip' k)
      = (\<lambda>k. if k < NDIRECT + 1 then i_addrs ip k else i_addrs ip' k)"
    using f(6) by auto
  show ?thesis
    by (simp only: get_dinode_def Let_def assms(2) [symmetric] f(1-5,7) g assms(1) simp_thms)
qed

text \<open>C35: an inode survives the disk. The fields that \<open>iupdate\<close> stores in the disk block of an
  inode are those that \<open>ilock\<close> reads back, for every inode number: the block keeps its size, and
  type, device numbers, link count, size and all thirteen addresses are the same.\<close>

theorem dinode_roundtrip:
  assumes "length d = BSIZE" and "i_inum ip = i_inum ip'"
  shows "length (put_dinode ip d) = BSIZE \<and> get_dinode (put_dinode ip d) ip' = ip'\<lparr>i_type := i_type ip, i_major := i_major ip,
    i_minor := i_minor ip, i_nlink := i_nlink ip, i_size := i_size ip,
    i_addrs := (\<lambda>k. if k < NDIRECT + 1 then i_addrs ip k else i_addrs ip' k)\<rparr>"
  using assms by (rule get_put_dinode)

theorem dinode_roundtrip_witness:
  "i_size (get_dinode (put_dinode \<lparr>i_dev = 1, i_inum = 9, i_ref = 1, i_flags = 2, i_type = 2, i_major = 0, i_minor = 0,
     i_nlink = 1, i_size = 1234, i_addrs = (\<lambda>k. of_nat k + 60)\<rparr> (replicate BSIZE 0))
   \<lparr>i_dev = 1, i_inum = 9, i_ref = 1, i_flags = 0, i_type = 0, i_major = 0, i_minor = 0, i_nlink = 0, i_size = 0, i_addrs = (\<lambda>_. 0)\<rparr>) = 1234"
  using dinode_roundtrip [of "replicate BSIZE 0" "\<lparr>i_dev = 1, i_inum = 9, i_ref = 1, i_flags = 2, i_type = 2, i_major = 0, i_minor = 0,
     i_nlink = 1, i_size = 1234, i_addrs = (\<lambda>k. of_nat k + 60)\<rparr>"
    "\<lparr>i_dev = 1, i_inum = 9, i_ref = 1, i_flags = 0, i_type = 0, i_major = 0, i_minor = 0, i_nlink = 0, i_size = 0, i_addrs = (\<lambda>_. 0)\<rparr>"]
  by simp

end
