(* ===== verification/File.thy ===== *)
theory File
  imports Fs
begin

text \<open>
  Pipes (\<open>src/pipe.c\<close>) and open files (\<open>src/file.c\<close>): a pipe is a bounded first-in first-out
  queue, and closing a duplicated file undoes the duplication. A file pointer is an index into \<open>ftable\<close>; a pipe is named by the address of
  its page, and \<open>pipes\<close> holds the structure in that page.
\<close>

section \<open>State\<close>

definition NFILE :: nat where "NFILE = 100"
definition PIPESIZE :: u32 where "PIPESIZE = 512"

datatype fdtype = FD_NONE | FD_PIPE | FD_INODE

record file_s =
  f_type :: fdtype
  f_ref :: i32
  f_readable :: u8
  f_writable :: u8
  f_pipe :: u32
  f_ip :: nat
  f_off :: u32

record pipe =
  p_data :: "nat \<Rightarrow> u8"
  nread :: u32
  nwrite :: u32
  readopen :: i32
  writeopen :: i32

record kfile = kfs +
  ftable :: "nat \<Rightarrow> file_s"
  pipes :: "u32 \<Rightarrow> pipe"

definition upd_file :: "nat \<Rightarrow> (file_s \<Rightarrow> file_s) \<Rightarrow> 'a kfile_scheme \<Rightarrow> 'a kfile_scheme" where
  "upd_file i f s = s\<lparr>ftable := (ftable s)(i := f (ftable s i))\<rparr>"

definition upd_pipe :: "u32 \<Rightarrow> (pipe \<Rightarrow> pipe) \<Rightarrow> 'a kfile_scheme \<Rightarrow> 'a kfile_scheme" where
  "upd_pipe p f s = s\<lparr>pipes := (pipes s)(p := f (pipes s p))\<rparr>"

section \<open>Pipes\<close>

definition pipeclose :: "u32 \<Rightarrow> bool \<Rightarrow> ('a kfile_scheme, unit) kop" where
  "pipeclose p writable = seqk (acquire (PipeLk p))
     (seqk (if writable then seqk (modk (upd_pipe p (\<lambda>x. x\<lparr>writeopen := 0\<rparr>))) (wakeup (PipeReadCh p))
            else seqk (modk (upd_pipe p (\<lambda>x. x\<lparr>readopen := 0\<rparr>))) (wakeup (PipeWriteCh p)))
     (bindk (getk (\<lambda>s. pipes s p)) (\<lambda>x. if readopen x = 0 \<and> writeopen x = 0
        then seqk (release (PipeLk p)) (kfree p) else release (PipeLk p))))"

text \<open>The assignment \<open>p->data[p->nwrite++ % PIPESIZE] = c\<close> and its counterpart of \<open>piperead\<close>.\<close>

definition pipe_put :: "u8 \<Rightarrow> pipe \<Rightarrow> pipe" where
  "pipe_put c x = x\<lparr>p_data := (p_data x)(unat (nwrite x mod PIPESIZE) := c), nwrite := nwrite x + 1\<rparr>"

definition pipe_get :: "pipe \<Rightarrow> u8 \<times> pipe" where
  "pipe_get x = (p_data x (unat (nread x mod PIPESIZE)), x\<lparr>nread := nread x + 1\<rparr>)"

definition pipe_full :: "pipe \<Rightarrow> bool" where
  "pipe_full x \<longleftrightarrow> nwrite x = nread x + PIPESIZE"

definition pipe_empty :: "pipe \<Rightarrow> bool" where
  "pipe_empty x \<longleftrightarrow> nread x = nwrite x"

text \<open>The loop of \<open>pipewrite\<close> from byte \<open>i\<close> on, with \<open>r\<close> bytes to go and the lock held.\<close>

fun pipewrite_loop :: "u32 \<Rightarrow> u32 \<Rightarrow> i32 \<Rightarrow> nat \<Rightarrow> nat \<Rightarrow> ('a kfile_scheme, i32) kop" where
  "pipewrite_loop p addr n i 0 = seqk (wakeup (PipeReadCh p)) (seqk (release (PipeLk p)) (retk n))"
| "pipewrite_loop p addr n i (Suc r) = bindk (getk (\<lambda>s. pipes s p)) (\<lambda>x.
     if pipe_full x then withproc (\<lambda>q. bindk (getk (\<lambda>s. p_killed (ptable s q))) (\<lambda>k.
       if readopen x = 0 \<or> k \<noteq> 0 then seqk (release (PipeLk p)) (retk (- 1))
       else seqk (wakeup (PipeReadCh p)) (sleep (PipeWriteCh p) (Some (PipeLk p)))))
     else bindk (vload (addr + of_nat i) 1) (\<lambda>bs.
       seqk (modk (upd_pipe p (pipe_put (hd bs)))) (pipewrite_loop p addr n (Suc i) r)))"

definition pipewrite :: "u32 \<Rightarrow> u32 \<Rightarrow> i32 \<Rightarrow> ('a kfile_scheme, i32) kop" where
  "pipewrite p addr n = seqk (acquire (PipeLk p)) (pipewrite_loop p addr n 0 (nat (sint n)))"

definition pipewrite_resume :: "u32 \<Rightarrow> u32 \<Rightarrow> i32 \<Rightarrow> nat \<Rightarrow> ('a kfile_scheme, i32) kop" where
  "pipewrite_resume p addr n i = seqk (sleep_resume (PipeLk p)) (pipewrite_loop p addr n i (nat (sint n) - i))"

fun piperead_copy :: "u32 \<Rightarrow> u32 \<Rightarrow> nat \<Rightarrow> nat \<Rightarrow> ('a kfile_scheme, nat) kop" where
  "piperead_copy p addr i 0 = retk i"
| "piperead_copy p addr i (Suc r) = bindk (getk (\<lambda>s. pipes s p)) (\<lambda>x. if pipe_empty x then retk i
     else seqk (modk (upd_pipe p (\<lambda>x. snd (pipe_get x))))
       (seqk (vstore (addr + of_nat i) [fst (pipe_get x)]) (piperead_copy p addr (Suc i) r)))"

definition piperead_loop :: "u32 \<Rightarrow> u32 \<Rightarrow> i32 \<Rightarrow> ('a kfile_scheme, i32) kop" where
  "piperead_loop p addr n = bindk (getk (\<lambda>s. pipes s p)) (\<lambda>x.
     if pipe_empty x \<and> writeopen x \<noteq> 0 then withproc (\<lambda>q. bindk (getk (\<lambda>s. p_killed (ptable s q))) (\<lambda>k.
       if k \<noteq> 0 then seqk (release (PipeLk p)) (retk (- 1)) else sleep (PipeReadCh p) (Some (PipeLk p))))
     else bindk (piperead_copy p addr 0 (nat (sint n))) (\<lambda>i.
       seqk (wakeup (PipeWriteCh p)) (seqk (release (PipeLk p)) (retk (of_nat i)))))"

definition piperead :: "u32 \<Rightarrow> u32 \<Rightarrow> i32 \<Rightarrow> ('a kfile_scheme, i32) kop" where
  "piperead p addr n = seqk (acquire (PipeLk p)) (piperead_loop p addr n)"

definition piperead_resume :: "u32 \<Rightarrow> u32 \<Rightarrow> i32 \<Rightarrow> ('a kfile_scheme, i32) kop" where
  "piperead_resume p addr n = seqk (sleep_resume (PipeLk p)) (piperead_loop p addr n)"

section \<open>Files\<close>

definition fileinit :: "('a kfile_scheme, unit) kop" where
  "fileinit = initlock FtableLk ''ftable''"

definition filealloc :: "('a kfile_scheme, nat option) kop" where
  "filealloc = seqk (acquire FtableLk) (bindk (getk (\<lambda>s. find_index (\<lambda>i. f_ref (ftable s i) = 0) NFILE)) (\<lambda>r. case r of
     Some i \<Rightarrow> seqk (modk (upd_file i (\<lambda>f. f\<lparr>f_ref := 1\<rparr>))) (seqk (release FtableLk) (retk (Some i)))
   | None \<Rightarrow> seqk (release FtableLk) (retk None)))"

definition filedup :: "nat \<Rightarrow> ('a kfile_scheme, nat) kop" where
  "filedup f = seqk (acquire FtableLk) (bindk (getk (\<lambda>s. f_ref (ftable s f))) (\<lambda>r.
     if sint r < 1 then panick ''filedup''
     else seqk (modk (upd_file f (\<lambda>x. x\<lparr>f_ref := f_ref x + 1\<rparr>))) (seqk (release FtableLk) (retk f))))"

definition fileclose :: "nat \<Rightarrow> ('a kfile_scheme, unit) kop" where
  "fileclose f = seqk (acquire FtableLk) (bindk (getk (\<lambda>s. ftable s f)) (\<lambda>x.
     if sint (f_ref x) < 1 then panick ''fileclose''
     else seqk (modk (upd_file f (\<lambda>x. x\<lparr>f_ref := f_ref x - 1\<rparr>)))
       (if sint (f_ref x - 1) > 0 then release FtableLk
        else seqk (modk (upd_file f (\<lambda>x. x\<lparr>f_ref := 0, f_type := FD_NONE\<rparr>))) (seqk (release FtableLk)
          (case f_type x of
             FD_PIPE \<Rightarrow> pipeclose (f_pipe x) (f_writable x \<noteq> 0)
           | FD_INODE \<Rightarrow> seqk begin_op (seqk (iput (f_ip x)) end_op)
           | FD_NONE \<Rightarrow> retk ())))))"

definition close_opt :: "nat option \<Rightarrow> ('a kfile_scheme, unit) kop" where
  "close_opt r = (case r of None \<Rightarrow> retk () | Some f \<Rightarrow> fileclose f)"

definition pipealloc :: "('a kfile_scheme, (nat \<times> nat) option) kop" where
  "pipealloc = bindk filealloc (\<lambda>f0. case f0 of
     None \<Rightarrow> retk None
   | Some r \<Rightarrow> bindk filealloc (\<lambda>f1. case f1 of
       None \<Rightarrow> seqk (fileclose r) (retk None)
     | Some w \<Rightarrow> bindk kalloc (\<lambda>p. if p = 0 then seqk (fileclose r) (seqk (fileclose w) (retk None))
         else seqk (modk (upd_pipe p (\<lambda>x. x\<lparr>readopen := 1, writeopen := 1, nwrite := 0, nread := 0\<rparr>)))
           (seqk (initlock (PipeLk p) ''pipe'')
           (seqk (modk (upd_file r (\<lambda>f. f\<lparr>f_type := FD_PIPE, f_readable := 1, f_writable := 0, f_pipe := p\<rparr>)))
           (seqk (modk (upd_file w (\<lambda>f. f\<lparr>f_type := FD_PIPE, f_readable := 0, f_writable := 1, f_pipe := p\<rparr>)))
             (retk (Some (r, w)))))))))"

text \<open>\<open>filestat\<close> stores \<open>struct stat\<close> field by field; the padding of the structure is not written.\<close>

definition filestat :: "nat \<Rightarrow> u32 \<Rightarrow> ('a kfile_scheme, i32) kop" where
  "filestat f st = bindk (getk (\<lambda>s. ftable s f)) (\<lambda>x. if f_type x \<noteq> FD_INODE then retk (- 1)
     else seqk (ilock (Some (f_ip x))) (bindk (getk (stati (f_ip x))) (\<lambda>b.
       seqk (vstore (st + 4) (take 4 (put32 [0, 0, 0, 0] 0 (st_dev b))))
       (seqk (vstore (st + 8) (put32 [0, 0, 0, 0] 0 (st_ino b)))
       (seqk (vstore st (put16 [0, 0] 0 (st_type b)))
       (seqk (vstore (st + 12) (put16 [0, 0] 0 (st_nlink b)))
       (seqk (vstore (st + 16) (put32 [0, 0, 0, 0] 0 (st_size b)))
         (seqk (iunlock (Some (f_ip x))) (retk 0)))))))))"

definition fileread :: "(nat \<Rightarrow> 'a kfile_scheme devio option) \<Rightarrow> nat \<Rightarrow> u32 \<Rightarrow> i32 \<Rightarrow> ('a kfile_scheme, i32) kop" where
  "fileread dv f addr n = bindk (getk (\<lambda>s. ftable s f)) (\<lambda>x.
     if f_readable x = 0 then retk (- 1)
     else case f_type x of
       FD_PIPE \<Rightarrow> piperead (f_pipe x) addr n
     | FD_INODE \<Rightarrow> seqk (ilock (Some (f_ip x))) (bindk (readi dv (f_ip x) addr (f_off x) n) (\<lambda>r.
         seqk (unlessk (\<not> sint r > 0) (modk (upd_file f (\<lambda>y. y\<lparr>f_off := f_off y + r\<rparr>))))
           (seqk (iunlock (Some (f_ip x))) (retk r))))
     | FD_NONE \<Rightarrow> panick ''fileread'')"

text \<open>The loop of \<open>filewrite\<close>; every round that goes on advances \<open>i\<close> by at least one.\<close>

fun filewrite_loop :: "(nat \<Rightarrow> 'a kfile_scheme devio option) \<Rightarrow> nat \<Rightarrow> nat \<Rightarrow> u32 \<Rightarrow> i32 \<Rightarrow> i32 \<Rightarrow> nat \<Rightarrow> ('a kfile_scheme, i32) kop" where
  "filewrite_loop dv f ip addr n i 0 = (\<lambda>_. Spin)"
| "filewrite_loop dv f ip addr n i (Suc k) = (if \<not> sint i < sint n then retk (if i = n then n else - 1)
     else let n1 = (if sint (n - i) > 6656 then 6656 else n - i) in
       seqk begin_op (seqk (ilock (Some ip)) (bindk (getk (\<lambda>s. f_off (ftable s f))) (\<lambda>off.
         bindk (writei dv ip (addr + i) off n1) (\<lambda>r.
           seqk (unlessk (\<not> sint r > 0) (modk (upd_file f (\<lambda>y. y\<lparr>f_off := f_off y + r\<rparr>))))
             (seqk (iunlock (Some ip)) (seqk end_op
               (if sint r < 0 then retk (if i = n then n else - 1)
                else if r \<noteq> n1 then panick ''short filewrite''
                else filewrite_loop dv f ip addr n (i + r) k))))))))"

definition filewrite :: "(nat \<Rightarrow> 'a kfile_scheme devio option) \<Rightarrow> nat \<Rightarrow> u32 \<Rightarrow> i32 \<Rightarrow> ('a kfile_scheme, i32) kop" where
  "filewrite dv f addr n = bindk (getk (\<lambda>s. ftable s f)) (\<lambda>x.
     if f_writable x = 0 then retk (- 1)
     else case f_type x of
       FD_PIPE \<Rightarrow> pipewrite (f_pipe x) addr n
     | FD_INODE \<Rightarrow> filewrite_loop dv f (f_ip x) addr n 0 (Suc (nat (sint n)))
     | FD_NONE \<Rightarrow> panick ''filewrite'')"

section \<open>Pipes as queues\<close>

text \<open>What a client of a bounded byte queue relies on: \<open>content\<close> is the bytes in it, \<open>put\<close> appends
  one when it is not full, \<open>get\<close> removes the first when it is not empty.\<close>

locale byte_queue =
  fixes content :: "'q \<Rightarrow> u8 list" and wf_q :: "'q \<Rightarrow> bool" and put :: "u8 \<Rightarrow> 'q \<Rightarrow> 'q" and get :: "'q \<Rightarrow> u8 \<times> 'q"
    and full :: "'q \<Rightarrow> bool" and empty :: "'q \<Rightarrow> bool"
  assumes put_content: "wf_q q \<Longrightarrow> \<not> full q \<Longrightarrow> content (put c q) = content q @ [c]"
    and put_wf: "wf_q q \<Longrightarrow> \<not> full q \<Longrightarrow> wf_q (put c q)"
    and get_content: "wf_q q \<Longrightarrow> \<not> empty q \<Longrightarrow> content q = fst (get q) # content (snd (get q))"
    and get_wf: "wf_q q \<Longrightarrow> \<not> empty q \<Longrightarrow> wf_q (snd (get q))"
    and empty_content: "wf_q q \<Longrightarrow> empty q \<longleftrightarrow> content q = []"
begin

text \<open>A run of puts and gets, \<open>None\<close> when one meets a full or an empty queue: what is read.\<close>

fun run :: "u8 option list \<Rightarrow> 'q \<Rightarrow> (u8 list \<times> 'q) option" where
  "run [] q = Some ([], q)"
| "run (Some c # ops) q = (if full q then None else run ops (put c q))"
| "run (None # ops) q = (if empty q then None else map_option (apfst ((#) (fst (get q)))) (run ops (snd (get q))))"

lemma run_fifo:
  "wf_q q \<Longrightarrow> run ops q = Some (out, q') \<Longrightarrow> wf_q q' \<and> content q @ map the (filter (\<lambda>x. x \<noteq> None) ops) = out @ content q'"
proof (induction ops q arbitrary: out rule: run.induct)
  case (2 c ops q)
  then show ?case using put_content put_wf by (auto split: if_splits)
next
  case (3 ops q)
  then have e: "\<not> empty q" by (auto split: if_splits)
  with 3 obtain o' where o': "run ops (snd (get q)) = Some (o', q')" "out = fst (get q) # o'"
    by auto
  from "3.IH" [OF e get_wf [OF "3.prems"(1) e] o'(1)] show ?case
    using get_content [OF "3.prems"(1) e] o'(2) by simp
qed auto

end

definition pipe_content :: "pipe \<Rightarrow> u8 list" where
  "pipe_content x = map (\<lambda>i. p_data x (unat ((nread x + of_nat i) mod PIPESIZE))) [0..<unat (nwrite x - nread x)]"

definition pipe_wf :: "pipe \<Rightarrow> bool" where
  "pipe_wf x \<longleftrightarrow> unat (nwrite x - nread x) \<le> 512"

lemma pipe_index_inj:
  fixes a :: u32
  assumes "i < j" and "j < 512"
  shows "unat ((a + of_nat i) mod PIPESIZE) \<noteq> unat ((a + of_nat j) mod PIPESIZE)"
proof
  have m: "unat ((a + of_nat k) mod PIPESIZE) = (unat a + k) mod 512" if "k < 512" for k
  proof -
    have "unat (a + of_nat k) mod 512 = (unat a + k) mod 2 ^ 32 mod 512"
      using that by (simp add: unat_word_ariths unat_of_nat mod_simps)
    also have "\<dots> = (unat a + k) mod 512"
      by (rule mod_mod_cancel) (simp add: dvd_eq_mod_eq_0)
    finally show ?thesis by (simp add: PIPESIZE_def unat_mod_distrib)
  qed
  assume "unat ((a + of_nat i) mod PIPESIZE) = unat ((a + of_nat j) mod PIPESIZE)"
  then have "(unat a + i) mod 512 = (unat a + j) mod 512"
    using m [of i] m [of j] assms by simp
  then have "512 dvd (unat a + j) - (unat a + i)"
    using assms(1) by (intro mod_eq_dvd_iff_nat [THEN iffD1]) simp_all
  then show False using assms by (auto dest: dvd_imp_le)
qed

lemma pipe_len_put: "pipe_wf x \<Longrightarrow> \<not> pipe_full x \<Longrightarrow> unat (nwrite x + 1 - nread x) = Suc (unat (nwrite x - nread x)) \<and> unat (nwrite x - nread x) < 512"
proof -
  assume a: "pipe_wf x" "\<not> pipe_full x"
  have "nwrite x - nread x \<noteq> 512" using a(2) by (auto simp: pipe_full_def PIPESIZE_def diff_eq_eq)
  moreover have "nwrite x - nread x = word_of_nat (unat (nwrite x - nread x))" by simp
  ultimately have "unat (nwrite x - nread x) \<noteq> 512" by (metis of_nat_numeral)
  then have lt: "unat (nwrite x - nread x) < 512" using a(1) by (simp add: pipe_wf_def)
  have "unat ((nwrite x - nread x) + 1) = Suc (unat (nwrite x - nread x))"
    using lt by (subst unat_add_lem [THEN iffD1]) simp_all
  then show ?thesis using lt by (simp add: diff_add_eq)
qed

lemma pipe_slot: "unat (nwrite x mod PIPESIZE) = unat ((nread x + of_nat (unat (nwrite x - nread x))) mod PIPESIZE)"
  by simp

lemma pipe_put_content:
  assumes "pipe_wf x" and "\<not> pipe_full x"
  shows "pipe_content (pipe_put c x) = pipe_content x @ [c]"
proof -
  let ?n = "unat (nwrite x - nread x)"
  have l: "unat (nwrite x + 1 - nread x) = Suc ?n" "?n < 512" using pipe_len_put [OF assms] by simp_all
  have "unat ((nread x + of_nat i) mod PIPESIZE) \<noteq> unat (nwrite x mod PIPESIZE)" if "i < ?n" for i
    unfolding pipe_slot using pipe_index_inj [OF that l(2)] .
  then have "map (\<lambda>i. p_data (pipe_put c x) (unat ((nread x + of_nat i) mod PIPESIZE))) [0..<?n] = pipe_content x"
    unfolding pipe_content_def by (intro map_cong) (simp_all add: pipe_put_def)
  then show ?thesis
    using l(1) by (simp add: pipe_content_def pipe_put_def)
qed

lemma pipe_get_content:
  assumes "\<not> pipe_empty x"
  shows "pipe_content x = fst (pipe_get x) # pipe_content (snd (pipe_get x))"
    and "unat (nwrite x - nread x) = Suc (unat (nwrite x - (nread x + 1)))"
proof -
  have "nwrite x - nread x \<noteq> 0" using assms by (auto simp: pipe_empty_def)
  then have "unat (nwrite x - nread x) = Suc (unat (nwrite x - nread x - 1))"
    by (metis Suc_pred' unat_gt_0 unat_minus_one)
  then show n: "unat (nwrite x - nread x) = Suc (unat (nwrite x - (nread x + 1)))"
    by (simp add: diff_diff_eq)
  show "pipe_content x = fst (pipe_get x) # pipe_content (snd (pipe_get x))"
    unfolding pipe_content_def n
    by (simp add: pipe_get_def upt_conv_Cons map_Suc_upt [symmetric] ac_simps del: upt_Suc map_Suc_upt)
qed

interpretation pipeq: byte_queue pipe_content pipe_wf pipe_put pipe_get pipe_full pipe_empty
proof unfold_locales
  fix q c
  show "pipe_wf q \<Longrightarrow> \<not> pipe_full q \<Longrightarrow> pipe_content (pipe_put c q) = pipe_content q @ [c]"
    by (rule pipe_put_content)
  show "pipe_wf q \<Longrightarrow> \<not> pipe_full q \<Longrightarrow> pipe_wf (pipe_put c q)"
    using pipe_len_put [of q] by (simp add: pipe_wf_def pipe_put_def)
  show "\<not> pipe_empty q \<Longrightarrow> pipe_content q = fst (pipe_get q) # pipe_content (snd (pipe_get q))"
    by (rule pipe_get_content(1))
  show "pipe_wf q \<Longrightarrow> \<not> pipe_empty q \<Longrightarrow> pipe_wf (snd (pipe_get q))"
    using pipe_get_content(2) [of q] by (simp add: pipe_wf_def pipe_get_def)
  show "pipe_wf q \<Longrightarrow> pipe_empty q \<longleftrightarrow> pipe_content q = []"
    by (auto simp: pipe_empty_def pipe_content_def unat_eq_zero)
qed

text \<open>The bytes moved by a sequence of writes (\<open>Some c\<close>) and reads (\<open>None\<close>) of single bytes, as the
  loops of \<open>pipewrite\<close> and \<open>piperead\<close> do them: a write needs room, a read needs a byte.\<close>

fun pipe_run :: "u8 option list \<Rightarrow> pipe \<Rightarrow> (u8 list \<times> pipe) option" where
  "pipe_run [] x = Some ([], x)"
| "pipe_run (Some c # ops) x = (if pipe_full x then None else pipe_run ops (pipe_put c x))"
| "pipe_run (None # ops) x = (if pipe_empty x then None
     else map_option (apfst ((#) (fst (pipe_get x)))) (pipe_run ops (snd (pipe_get x))))"

lemma pipe_run_eq: "pipe_run ops x = pipeq.run ops x"
  by (induction ops x rule: pipe_run.induct) simp_all

section \<open>Properties\<close>

text \<open>C13: a pipe is a first-in first-out queue of at most 512 bytes. Whatever writes and reads of
  bytes are interleaved on it, the bytes that were in it followed by those written are those read
  followed by those left in it, in this order, none lost, doubled or overtaken, also when the
  counters \<open>nread\<close> and \<open>nwrite\<close> wrap around at 32 bits.\<close>

theorem pipe_fifo:
  assumes "pipe_wf x" and "pipe_run ops x = Some (out, x')"
  shows "pipe_wf x' \<and> length (pipe_content x') \<le> 512
    \<and> pipe_content x @ map the (filter (\<lambda>c. c \<noteq> None) ops) = out @ pipe_content x'"
  using pipeq.run_fifo [OF assms(1), of ops out x'] assms(2)
  by (auto simp: pipe_run_eq pipe_content_def pipe_wf_def)

theorem pipe_fifo_witness:
  "\<exists>x'. pipe_run [Some 7, Some 8, None, Some 9, None]
      \<lparr>p_data = (\<lambda>_. 0), nread = 0xFFFFFFFF, nwrite = 0xFFFFFFFF, readopen = 1, writeopen = 1\<rparr> = Some ([7, 8], x')
    \<and> pipe_content x' = [9]"
proof -
  let ?x = "\<lparr>p_data = (\<lambda>_. 0), nread = 0xFFFFFFFF, nwrite = 0xFFFFFFFF, readopen = 1, writeopen = 1\<rparr>"
  have wf: "pipe_wf ?x" by (simp add: pipe_wf_def)
  have c: "pipe_content ?x = []" by (simp add: pipe_content_def)
  obtain x' where r: "pipe_run [Some 7, Some 8, None, Some 9, None] ?x = Some ([7, 8], x')"
    by (simp add: pipe_full_def pipe_empty_def pipe_put_def pipe_get_def PIPESIZE_def)
  from pipe_fifo [OF wf r] c have "pipe_content x' = [9]" by simp
  with r show ?thesis by blast
qed

lemma ftable_locked [simp]: "ftable (acquired l s) = ftable s" "ftable (released l s) = ftable s"
  by (simp_all add: acquired_def released_def)

lemma filedup_eq:
  assumes "lk_free FtableLk s" and "cpu_wf (thiscpu s)" and "1 \<le> sint (f_ref (ftable s f))"
  shows "filedup f s = Done f (released FtableLk (upd_file f (\<lambda>x. x\<lparr>f_ref := f_ref x + 1\<rparr>) (acquired FtableLk s)))"
proof -
  let ?t = "upd_file f (\<lambda>x. x\<lparr>f_ref := f_ref x + 1\<rparr>) (acquired FtableLk s)"
  have "holding FtableLk ?t" "cpu_locked (thiscpu ?t)"
    using holding_acquired [of FtableLk s] assms(2) by (simp_all add: holding_def upd_file_def)
  then show ?thesis
    using assms by (simp add: filedup_def seqk_acquire seqk_release retk_def)
qed

lemma fileclose_shared_eq:
  assumes "lk_free FtableLk s" and "cpu_wf (thiscpu s)" and "1 \<le> sint (f_ref (ftable s f))" and "1 \<le> sint (f_ref (ftable s f) - 1)"
  shows "fileclose f s = Done () (released FtableLk (upd_file f (\<lambda>x. x\<lparr>f_ref := f_ref x - 1\<rparr>) (acquired FtableLk s)))"
proof -
  let ?t = "upd_file f (\<lambda>x. x\<lparr>f_ref := f_ref x - 1\<rparr>) (acquired FtableLk s)"
  have "holding FtableLk ?t" "cpu_locked (thiscpu ?t)"
    using holding_acquired [of FtableLk s] assms(2) by (simp_all add: holding_def upd_file_def)
  then show ?thesis
    using assms by (simp add: fileclose_def seqk_acquire release_Done)
qed

text \<open>Closing a duplicated file undoes \<open>filedup\<close>. For an open file whose count does not overflow,
  \<open>filedup\<close> returns the file with one reference more, and \<open>fileclose\<close> from there returns without
  closing it: the whole table of files is as it was and the table's lock is free.\<close>

theorem filedup_fileclose:
  assumes "lk_free FtableLk s" and "cpu_wf (thiscpu s)" and "1 \<le> sint (f_ref (ftable s f))" and "sint (f_ref (ftable s f)) < 2 ^ 31 - 1"
  shows "\<exists>t u. filedup f s = Done f t \<and> sint (f_ref (ftable t f)) = sint (f_ref (ftable s f)) + 1 \<and> quiet s t
    \<and> fileclose f t = Done () u \<and> ftable u = ftable s \<and> quiet s u \<and> lk_free FtableLk u"
proof -
  let ?m = "upd_file f (\<lambda>x. x\<lparr>f_ref := f_ref x + 1\<rparr>) (acquired FtableLk s)"
  let ?t = "released FtableLk ?m"
  let ?n = "upd_file f (\<lambda>x. x\<lparr>f_ref := f_ref x - 1\<rparr>) (acquired FtableLk ?t)"
  have r: "f_ref (ftable ?t f) = f_ref (ftable s f) + 1" by (simp add: upd_file_def)
  have i: "sint (f_ref (ftable s f) + 1) = sint (f_ref (ftable s f)) + 1"
    using assms(3,4) by (simp add: sint_word_ariths signed_take_bit_int_eq_self)
  have q: "quiet s ?t"
    using assms(1,2) by (intro quiet_section) (simp_all add: upd_file_def)
  have l: "lk_free FtableLk ?t" "cpu_wf (thiscpu ?t)"
    using assms(2) cpu_locked_acquired [of "thiscpu s"] by (simp_all add: upd_file_def cpu_wf_released)
  have c: "fileclose f ?t = Done () (released FtableLk ?n)"
    using assms(3) i l r by (intro fileclose_shared_eq) simp_all
  have "quiet ?t (released FtableLk ?n)"
    using l by (intro quiet_section) (simp_all add: upd_file_def)
  then have "quiet s (released FtableLk ?n)" using q quiet_trans by blast
  moreover have "ftable (released FtableLk ?n) = ftable s"
    by (simp add: upd_file_def fun_eq_iff)
  moreover have "lk_free FtableLk (released FtableLk ?n)"
    by (simp add: lk_free_def store_unlocked_def)
  moreover have "sint (f_ref (ftable ?t f)) = sint (f_ref (ftable s f)) + 1"
    unfolding r by (rule i)
  ultimately show ?thesis
    using filedup_eq [OF assms(1-3)] c q by blast
qed

text \<open>A machine with one open file, in slot 4 with two references.\<close>

definition file_state :: kfile where
  "file_state = kfs.extend (klog.extend (log_state 0 0) (kfs.fields
       \<lparr>sb_size = 1000, sb_nblocks = 941, sb_ninodes = 200, sb_nlog = 30, sb_logstart = 2, sb_inodestart = 32, sb_bmapstart = 58\<rparr>
       (\<lambda>_. \<lparr>i_dev = 0, i_inum = 0, i_ref = 0, i_flags = 0, i_type = 0, i_major = 0, i_minor = 0, i_nlink = 0, i_size = 0,
          i_addrs = (\<lambda>_. 0)\<rparr>)))
     (kfile.fields ((\<lambda>_. \<lparr>f_type = FD_NONE, f_ref = 0, f_readable = 0, f_writable = 0, f_pipe = 0, f_ip = 0, f_off = 0\<rparr>)
         (4 := \<lparr>f_type = FD_INODE, f_ref = 2, f_readable = 1, f_writable = 0, f_pipe = 0, f_ip = 0, f_off = 0\<rparr>))
       (\<lambda>_. \<lparr>p_data = (\<lambda>_. 0), nread = 0, nwrite = 0, readopen = 0, writeopen = 0\<rparr>))"

theorem filedup_fileclose_witness:
  "\<exists>t u. filedup 4 file_state = Done 4 t \<and> sint (f_ref (ftable t 4)) = 3 \<and> fileclose 4 t = Done () u \<and> ftable u = ftable file_state"
proof -
  have f: "f_ref (ftable file_state 4) = 2" by (simp add: file_state_def kfs.defs klog.defs kfile.defs)
  have "lk_free FtableLk file_state" "cpu_wf (thiscpu file_state)"
    using log_state_ok(2) [of FtableLk 0 0] log_state_ok(3) [of 0 0]
    by (simp_all add: file_state_def kfs.defs klog.defs kfile.defs lk_free_def)
  from filedup_fileclose [OF this, of 4] f show ?thesis by auto
qed

end
