(* ===== verification/Sysfile.thy ===== *)
theory Sysfile
  imports File
begin

text \<open>
  The system calls on files (\<open>src/sysfile.c\<close>) but for \<open>exec\<close>. A call that sleeps in one of the
  routines it uses leaves with \<open>Switch\<close>.
\<close>

section \<open>Descriptors\<close>

text \<open>\<open>argfd\<close>: the descriptor and the file, or \<open>None\<close> for -1.\<close>

definition argfd :: "u32 \<Rightarrow> ('a kfile_scheme, (nat \<times> nat) option) kop" where
  "argfd n = bindk (argint n) (\<lambda>a. case a of None \<Rightarrow> retk None | Some fd \<Rightarrow>
     if sint fd < 0 \<or> sint fd \<ge> int NOFILE then retk None
     else withproc (\<lambda>p. bindk (getk (\<lambda>s. p_ofile (ptable s p) (unat fd))) (\<lambda>f. retk (map_option (Pair (unat fd)) f))))"

definition fdalloc :: "nat \<Rightarrow> ('a kfile_scheme, nat option) kop" where
  "fdalloc f = withproc (\<lambda>p. bindk (getk (\<lambda>s. find_index (\<lambda>fd. p_ofile (ptable s p) fd = None) NOFILE)) (\<lambda>r. case r of
     None \<Rightarrow> retk None
   | Some fd \<Rightarrow> seqk (modk (upd_proc p (\<lambda>q. q\<lparr>p_ofile := (p_ofile q)(fd := Some f)\<rparr>))) (retk (Some fd))))"

definition set_ofile :: "nat \<Rightarrow> nat option \<Rightarrow> ('a kfile_scheme, unit) kop" where
  "set_ofile fd v = withproc (\<lambda>p. modk (upd_proc p (\<lambda>q. q\<lparr>p_ofile := (p_ofile q)(fd := v)\<rparr>)))"

definition sys_dup :: "('a kfile_scheme, i32) kop" where
  "sys_dup = bindk (argfd 0) (\<lambda>a. case a of None \<Rightarrow> retk (- 1) | Some (_, f) \<Rightarrow>
     bindk (fdalloc f) (\<lambda>r. case r of None \<Rightarrow> retk (- 1) | Some fd \<Rightarrow> seqk (filedup f) (retk (of_nat fd))))"

definition sys_read :: "(nat \<Rightarrow> 'a kfile_scheme devio option) \<Rightarrow> ('a kfile_scheme, i32) kop" where
  "sys_read dv = bindk (argfd 0) (\<lambda>a. case a of None \<Rightarrow> retk (- 1) | Some (_, f) \<Rightarrow>
     bindk (argint 2) (\<lambda>b. case b of None \<Rightarrow> retk (- 1) | Some n \<Rightarrow>
       bindk (argptr 1 n) (\<lambda>c. case c of None \<Rightarrow> retk (- 1) | Some p \<Rightarrow> fileread dv f p n)))"

definition sys_write :: "(nat \<Rightarrow> 'a kfile_scheme devio option) \<Rightarrow> ('a kfile_scheme, i32) kop" where
  "sys_write dv = bindk (argfd 0) (\<lambda>a. case a of None \<Rightarrow> retk (- 1) | Some (_, f) \<Rightarrow>
     bindk (argint 2) (\<lambda>b. case b of None \<Rightarrow> retk (- 1) | Some n \<Rightarrow>
       bindk (argptr 1 n) (\<lambda>c. case c of None \<Rightarrow> retk (- 1) | Some p \<Rightarrow> filewrite dv f p n)))"

definition sys_close :: "('a kfile_scheme, i32) kop" where
  "sys_close = bindk (argfd 0) (\<lambda>a. case a of None \<Rightarrow> retk (- 1) | Some (fd, f) \<Rightarrow>
     seqk (set_ofile fd None) (seqk (fileclose f) (retk 0)))"

definition sys_fstat :: "('a kfile_scheme, i32) kop" where
  "sys_fstat = bindk (argfd 0) (\<lambda>a. case a of None \<Rightarrow> retk (- 1) | Some (_, f) \<Rightarrow>
     bindk (argptr 1 20) (\<lambda>c. case c of None \<Rightarrow> retk (- 1) | Some st \<Rightarrow> filestat f st))"

section \<open>Directories\<close>

text \<open>A string argument with its bytes.\<close>

definition argpath :: "u32 \<Rightarrow> ('a kproc_scheme, u8 list option) kop" where
  "argpath n = bindk (argstr n) (\<lambda>r. case r of None \<Rightarrow> retk None
     | Some (a, l) \<Rightarrow> bindk (vload a (unat l)) (\<lambda>bs. retk (Some bs)))"

definition fail_op :: "('a kfile_scheme, i32) kop" where
  "fail_op = seqk end_op (retk (- 1))"

text \<open>The label \<open>bad\<close> of \<open>sys_link\<close>.\<close>

definition link_bad :: "nat \<Rightarrow> ('a kfile_scheme, i32) kop" where
  "link_bad ip = seqk (ilock (Some ip)) (seqk (modk (upd_inode ip (\<lambda>x. x\<lparr>i_nlink := i_nlink x - 1\<rparr>)))
     (seqk (iupdate ip) (seqk (iunlockput (Some ip)) fail_op)))"

definition sys_link :: "('a kfile_scheme, i32) kop" where
  "sys_link = bindk (argpath 0) (\<lambda>a. case a of None \<Rightarrow> retk (- 1) | Some old \<Rightarrow>
     bindk (argpath 1) (\<lambda>b. case b of None \<Rightarrow> retk (- 1) | Some new \<Rightarrow>
       seqk begin_op (bindk (namei old) (\<lambda>r. case r of None \<Rightarrow> fail_op | Some ip \<Rightarrow>
         seqk (ilock (Some ip)) (bindk (getk (\<lambda>s. i_type (inodes s ip))) (\<lambda>t.
           if t = T_DIR then seqk (iunlockput (Some ip)) fail_op
           else seqk (modk (upd_inode ip (\<lambda>x. x\<lparr>i_nlink := i_nlink x + 1\<rparr>))) (seqk (iupdate ip) (seqk (iunlock (Some ip))
             (bindk (nameiparent new) (\<lambda>q. case q of None \<Rightarrow> link_bad ip | Some (dp, name) \<Rightarrow>
               seqk (ilock (Some dp)) (bindk (getk (\<lambda>s. (i_dev (inodes s dp) = i_dev (inodes s ip), i_inum (inodes s ip)))) (\<lambda>(same, inum).
                 bindk (if same then dirlink dp name inum else retk (- 1)) (\<lambda>v.
                   if sint v < 0 then seqk (iunlockput (Some dp)) (link_bad ip)
                   else seqk (iunlockput (Some dp)) (seqk (iput ip) (seqk end_op (retk 0))))))))))))))))"

fun isdirempty_loop :: "nat \<Rightarrow> nat list \<Rightarrow> ('a kfile_scheme, bool) kop" where
  "isdirempty_loop dp [] = retk True"
| "isdirempty_loop dp (off # offs) = bindk (readi_file dp (of_nat off) 16) (\<lambda>r. case r of
     None \<Rightarrow> panick ''isdirempty: readi''
   | Some de \<Rightarrow> if length de \<noteq> 16 then panick ''isdirempty: readi''
       else if get16 de 0 \<noteq> 0 then retk False else isdirempty_loop dp offs)"

definition isdirempty :: "nat \<Rightarrow> ('a kfile_scheme, bool) kop" where
  "isdirempty dp = bindk (getk (\<lambda>s. i_size (inodes s dp))) (\<lambda>n. isdirempty_loop dp (drop 2 (dir_offs n)))"

definition dot :: "u8 list" where "dot = [0x2E]"
definition dotdot :: "u8 list" where "dotdot = [0x2E, 0x2E]"

definition sys_unlink :: "('a kfile_scheme, i32) kop" where
  "sys_unlink = bindk (argpath 0) (\<lambda>a. case a of None \<Rightarrow> retk (- 1) | Some path \<Rightarrow>
     seqk begin_op (bindk (nameiparent path) (\<lambda>q. case q of None \<Rightarrow> fail_op | Some (dp, name) \<Rightarrow>
       let bad = seqk (iunlockput (Some dp)) fail_op in
       seqk (ilock (Some dp)) (if namecmp name dot = 0 \<or> namecmp name dotdot = 0 then bad
         else bindk (dirlookup dp name) (\<lambda>r. case r of None \<Rightarrow> bad | Some (ip, off) \<Rightarrow>
           seqk (ilock (Some ip)) (bindk (getk (\<lambda>s. inodes s ip)) (\<lambda>x.
             if sint (i_nlink x) < 1 then panick ''unlink: nlink < 1''
             else bindk (if i_type x = T_DIR then isdirempty ip else retk True) (\<lambda>e.
               if \<not> e then seqk (iunlockput (Some ip)) bad
               else bindk (writei_file dp (of_nat off) (replicate 16 0)) (\<lambda>n. if n \<noteq> 16 then panick ''unlink: writei''
                 else seqk (unlessk (i_type x \<noteq> T_DIR) (seqk (modk (upd_inode dp (\<lambda>y. y\<lparr>i_nlink := i_nlink y - 1\<rparr>))) (iupdate dp)))
                   (seqk (iunlockput (Some dp)) (seqk (modk (upd_inode ip (\<lambda>y. y\<lparr>i_nlink := i_nlink y - 1\<rparr>))) (seqk (iupdate ip)
                     (seqk (iunlockput (Some ip)) (seqk end_op (retk 0)))))))))))))))"

text \<open>The part of \<open>create\<close> after a new inode is allocated.\<close>

definition create_new :: "nat \<Rightarrow> u8 list \<Rightarrow> nat \<Rightarrow> u16 \<Rightarrow> u16 \<Rightarrow> u16 \<Rightarrow> ('a kfile_scheme, nat option) kop" where
  "create_new dp name ip type' major minor = seqk (ilock (Some ip))
     (seqk (modk (upd_inode ip (\<lambda>x. x\<lparr>i_major := major, i_minor := minor, i_nlink := 1\<rparr>))) (seqk (iupdate ip)
     (seqk (unlessk (type' \<noteq> T_DIR) (seqk (modk (upd_inode dp (\<lambda>x. x\<lparr>i_nlink := i_nlink x + 1\<rparr>))) (seqk (iupdate dp)
       (bindk (getk (\<lambda>s. (i_inum (inodes s ip), i_inum (inodes s dp)))) (\<lambda>(n, m).
         bindk (dirlink ip dot n) (\<lambda>v. if sint v < 0 then panick ''create dots''
           else bindk (dirlink ip dotdot m) (\<lambda>w. if sint w < 0 then panick ''create dots'' else retk ())))))))
     (bindk (getk (\<lambda>s. i_inum (inodes s ip))) (\<lambda>n. bindk (dirlink dp name n) (\<lambda>v.
       if sint v < 0 then panick ''create: dirlink'' else seqk (iunlockput (Some dp)) (retk (Some ip))))))))"

definition create :: "u8 list \<Rightarrow> u16 \<Rightarrow> u16 \<Rightarrow> u16 \<Rightarrow> ('a kfile_scheme, nat option) kop" where
  "create path type' major minor = bindk (nameiparent path) (\<lambda>q. case q of None \<Rightarrow> retk None | Some (dp, name) \<Rightarrow>
     seqk (ilock (Some dp)) (bindk (dirlookup dp name) (\<lambda>r. case r of
       Some (ip, _) \<Rightarrow> seqk (iunlockput (Some dp)) (seqk (ilock (Some ip)) (bindk (getk (\<lambda>s. i_type (inodes s ip))) (\<lambda>t.
         if type' = T_FILE \<and> t = T_FILE then retk (Some ip) else seqk (iunlockput (Some ip)) (retk None))))
     | None \<Rightarrow> bindk (getk (\<lambda>s. i_dev (inodes s dp))) (\<lambda>dev. bindk (ialloc dev type') (\<lambda>ip.
         create_new dp name ip type' major minor)))))"

definition O_WRONLY :: i32 where "O_WRONLY = 0x001"
definition O_RDWR :: i32 where "O_RDWR = 0x002"
definition O_CREATE :: i32 where "O_CREATE = 0x200"

text \<open>The inode that \<open>sys_open\<close> opens, locked, inside the transaction.\<close>

definition open_inode :: "u8 list \<Rightarrow> i32 \<Rightarrow> ('a kfile_scheme, nat option) kop" where
  "open_inode path omode = (if omode AND O_CREATE \<noteq> 0 then create path T_FILE 0 0
     else bindk (namei path) (\<lambda>r. case r of None \<Rightarrow> retk None | Some ip \<Rightarrow>
       seqk (ilock (Some ip)) (bindk (getk (\<lambda>s. i_type (inodes s ip))) (\<lambda>t.
         if t = T_DIR \<and> omode \<noteq> 0 then seqk (iunlockput (Some ip)) (retk None) else retk (Some ip)))))"

definition sys_open :: "('a kfile_scheme, i32) kop" where
  "sys_open = bindk (argpath 0) (\<lambda>a. case a of None \<Rightarrow> retk (- 1) | Some path \<Rightarrow>
     bindk (argint 1) (\<lambda>b. case b of None \<Rightarrow> retk (- 1) | Some omode \<Rightarrow>
       seqk begin_op (bindk (open_inode path omode) (\<lambda>r. case r of None \<Rightarrow> fail_op | Some ip \<Rightarrow>
         bindk filealloc (\<lambda>g. case g of
           None \<Rightarrow> seqk (iunlockput (Some ip)) fail_op
         | Some f \<Rightarrow> bindk (fdalloc f) (\<lambda>h. case h of
             None \<Rightarrow> seqk (fileclose f) (seqk (iunlockput (Some ip)) fail_op)
           | Some fd \<Rightarrow> seqk (iunlock (Some ip)) (seqk end_op
               (seqk (modk (upd_file f (\<lambda>x. x\<lparr>f_type := FD_INODE, f_ip := ip, f_off := 0,
                   f_readable := (if omode AND O_WRONLY = 0 then 1 else 0),
                   f_writable := (if omode AND O_WRONLY \<noteq> 0 \<or> omode AND O_RDWR \<noteq> 0 then 1 else 0)\<rparr>)))
                 (retk (of_nat fd))))))))))"

definition sys_mkdir :: "('a kfile_scheme, i32) kop" where
  "sys_mkdir = seqk begin_op (bindk (argpath 0) (\<lambda>a. case a of None \<Rightarrow> fail_op | Some path \<Rightarrow>
     bindk (create path T_DIR 0 0) (\<lambda>r. case r of None \<Rightarrow> fail_op | Some ip \<Rightarrow>
       seqk (iunlockput (Some ip)) (seqk end_op (retk 0)))))"

definition sys_mknod :: "('a kfile_scheme, i32) kop" where
  "sys_mknod = seqk begin_op (bindk (argpath 0) (\<lambda>a. case a of None \<Rightarrow> fail_op | Some path \<Rightarrow>
     bindk (argint 1) (\<lambda>b. case b of None \<Rightarrow> fail_op | Some major \<Rightarrow>
     bindk (argint 2) (\<lambda>c. case c of None \<Rightarrow> fail_op | Some minor \<Rightarrow>
     bindk (create path T_DEV (ucast major) (ucast minor)) (\<lambda>r. case r of None \<Rightarrow> fail_op | Some ip \<Rightarrow>
       seqk (iunlockput (Some ip)) (seqk end_op (retk 0)))))))"

definition sys_chdir :: "('a kfile_scheme, i32) kop" where
  "sys_chdir = seqk begin_op (bindk (argpath 0) (\<lambda>a. case a of None \<Rightarrow> fail_op | Some path \<Rightarrow>
     bindk (namei path) (\<lambda>r. case r of None \<Rightarrow> fail_op | Some ip \<Rightarrow>
       seqk (ilock (Some ip)) (bindk (getk (\<lambda>s. i_type (inodes s ip))) (\<lambda>t.
         if t \<noteq> T_DIR then seqk (iunlockput (Some ip)) fail_op
         else seqk (iunlock (Some ip)) (withproc (\<lambda>p. bindk (getk (\<lambda>s. p_cwd (ptable s p))) (\<lambda>c.
           seqk (deref c iput) (seqk end_op (seqk (modk (upd_proc p (\<lambda>q. q\<lparr>p_cwd := Some ip\<rparr>))) (retk 0)))))))))))"

definition sys_pipe :: "('a kfile_scheme, i32) kop" where
  "sys_pipe = bindk (argptr 0 8) (\<lambda>a. case a of None \<Rightarrow> retk (- 1) | Some fd \<Rightarrow>
     bindk pipealloc (\<lambda>r. case r of None \<Rightarrow> retk (- 1) | Some (rfile, wfile) \<Rightarrow>
       let bad = seqk (fileclose rfile) (seqk (fileclose wfile) (retk (- 1))) in
       bindk (fdalloc rfile) (\<lambda>x. case x of None \<Rightarrow> bad | Some fd0 \<Rightarrow>
         bindk (fdalloc wfile) (\<lambda>y. case y of None \<Rightarrow> seqk (set_ofile fd0 None) bad | Some fd1 \<Rightarrow>
           seqk (vstore fd (put32 [0, 0, 0, 0] 0 (of_nat fd0)))
             (seqk (vstore (fd + 4) (put32 [0, 0, 0, 0] 0 (of_nat fd1))) (retk 0))))))"

end
