(* ===== verification/Process.thy ===== *)
theory Process
  imports Sysfile
begin

text \<open>
  The life of a process: creation, growth, \<open>fork\<close>, \<open>exit\<close>, \<open>wait\<close> and the first return to user
  space (\<open>src/proc.c\<close>), \<open>exec\<close> with the loading of a program (\<open>src/exec.c\<close>, \<open>loaduvm\<close> of
  \<open>src/vm.c\<close>) and the system calls of \<open>src/sysproc.c\<close>.
\<close>

section \<open>Creation\<close>

definition bytes_str :: "string \<Rightarrow> u8 list" where
  "bytes_str = map of_char"

text \<open>\<open>safestrcpy(name, s, 16)\<close> on the name of a process.\<close>

definition name16 :: "string \<Rightarrow> string" where
  "name16 = take 15"

text \<open>\<open>init\<close> and \<open>n\<close> are the address and the size of the linked program \<open>initcode\<close>.\<close>

definition userinit :: "u32 \<Rightarrow> u32 \<Rightarrow> ('a kfile_scheme, unit) kop" where
  "userinit init n = bindk allocproc (\<lambda>r. seqk (modk (\<lambda>s. s\<lparr>initproc := r\<rparr>)) (deref r (\<lambda>p.
     bindk setupkvm (\<lambda>pgdir. seqk (modk (upd_proc p (\<lambda>q. q\<lparr>p_pgdir := pgdir\<rparr>)))
       (if pgdir = 0 then panick ''userinit: out of memory?''
        else seqk (inituvm pgdir init n)
          (seqk (modk (upd_proc p (\<lambda>q. q\<lparr>p_sz := PGSIZE, p_tf := null_tf\<lparr>tf_cs := push_bit 3 (of_nat SEG_UCODE) OR ucast DPL_USER,
              tf_ds := push_bit 3 (of_nat SEG_UDATA) OR ucast DPL_USER, tf_es := push_bit 3 (of_nat SEG_UDATA) OR ucast DPL_USER,
              tf_ss := push_bit 3 (of_nat SEG_UDATA) OR ucast DPL_USER, tf_eflags := FL_IF, tf_esp := PGSIZE, tf_eip := 0\<rparr>,
              p_name := name16 ''initcode''\<rparr>)))
            (bindk (namei [slash]) (\<lambda>d. seqk (modk (upd_proc p (\<lambda>q. q\<lparr>p_cwd := d\<rparr>)))
              (seqk (acquire PtableLk) (seqk (modk (upd_proc p (\<lambda>q. q\<lparr>p_state := RUNNABLE\<rparr>))) (release PtableLk)))))))))))"

definition growproc :: "i32 \<Rightarrow> ('a kproc_scheme, i32) kop" where
  "growproc n = withproc (\<lambda>p. bindk (getk (\<lambda>s. ptable s p)) (\<lambda>q.
     bindk (if sint n > 0 then allocuvm (p_pgdir q) (p_sz q) (p_sz q + n)
            else if sint n < 0 then deallocuvm (p_pgdir q) (p_sz q) (p_sz q + n)
            else retk (p_sz q)) (\<lambda>sz.
       if n \<noteq> 0 \<and> sz = 0 then retk (- 1)
       else seqk (modk (upd_proc p (\<lambda>q. q\<lparr>p_sz := sz\<rparr>))) (seqk (switchuvm (p_kstack q) (p_pgdir q)) (retk 0)))))"

text \<open>The loop of \<open>fork\<close> over the open files of the parent \<open>p\<close>.\<close>

definition fork_files :: "nat \<Rightarrow> nat \<Rightarrow> ('a kfile_scheme, unit) kop" where
  "fork_files p np = forallk (\<lambda>i. bindk (getk (\<lambda>s. p_ofile (ptable s p) i)) (\<lambda>r. case r of None \<Rightarrow> retk ()
     | Some f \<Rightarrow> bindk (filedup f) (\<lambda>g. modk (upd_proc np (\<lambda>q. q\<lparr>p_ofile := (p_ofile q)(i := Some g)\<rparr>))))) [0..<NOFILE]"

definition fork :: "('a kfile_scheme, i32) kop" where
  "fork = bindk allocproc (\<lambda>r. case r of None \<Rightarrow> retk (- 1) | Some np \<Rightarrow> withproc (\<lambda>p.
     bindk (getk (\<lambda>s. ptable s p)) (\<lambda>q. bindk (copyuvm (p_pgdir q) (p_sz q)) (\<lambda>pgdir.
       seqk (modk (upd_proc np (\<lambda>x. x\<lparr>p_pgdir := pgdir\<rparr>)))
         (if pgdir = 0 then bindk (getk (\<lambda>s. p_kstack (ptable s np))) (\<lambda>k. seqk (kfree k)
            (seqk (modk (upd_proc np (\<lambda>x. x\<lparr>p_kstack := 0, p_state := UNUSED\<rparr>))) (retk (- 1))))
          else seqk (modk (upd_proc np (\<lambda>x. x\<lparr>p_straced := (if p_straced q AND T_FORK \<noteq> 0 then p_straced q else T_UNSTRACE),
              p_sz := p_sz q, p_parent := Some p, p_tf := (p_tf q)\<lparr>tf_eax := 0\<rparr>\<rparr>)))
            (seqk (fork_files p np) (deref (p_cwd q) (\<lambda>d. bindk (idup d) (\<lambda>d'.
              seqk (modk (upd_proc np (\<lambda>x. x\<lparr>p_cwd := Some d', p_name := name16 (p_name q)\<rparr>)))
                (bindk (getk (\<lambda>s. p_pid (ptable s np))) (\<lambda>pid. seqk (acquire PtableLk)
                  (seqk (modk (upd_proc np (\<lambda>x. x\<lparr>p_state := RUNNABLE\<rparr>))) (seqk (release PtableLk) (retk pid))))))))))))))"

section \<open>Exit and wait\<close>

text \<open>The address of a process as a channel; a null pointer is no channel.\<close>

definition proc_chan :: "nat option \<Rightarrow> chan option" where
  "proc_chan r = map_option ProcCh r"

definition exit_files :: "nat \<Rightarrow> ('a kfile_scheme, unit) kop" where
  "exit_files p = forallk (\<lambda>fd. bindk (getk (\<lambda>s. p_ofile (ptable s p) fd)) (\<lambda>r. case r of None \<Rightarrow> retk ()
     | Some f \<Rightarrow> seqk (fileclose f) (modk (upd_proc p (\<lambda>q. q\<lparr>p_ofile := (p_ofile q)(fd := None)\<rparr>))))) [0..<NOFILE]"

text \<open>The loop that gives the children of \<open>p\<close> to \<open>init\<close>.\<close>

definition adopt_one :: "nat \<Rightarrow> nat \<Rightarrow> ('a kproc_scheme, unit) kop" where
  "adopt_one p c = bindk (getk (\<lambda>s. ptable s c)) (\<lambda>x. unlessk (p_parent x \<noteq> Some p)
     (bindk (getk initproc) (\<lambda>ini. seqk (modk (upd_proc c (\<lambda>q. q\<lparr>p_parent := ini\<rparr>)))
       (unlessk (p_state x \<noteq> ZOMBIE) (wakeup1 (proc_chan ini))))))"

definition exit :: "('a kfile_scheme, unit) kop" where
  "exit = withproc (\<lambda>p. bindk (getk initproc) (\<lambda>ini. if Some p = ini then panick ''init exiting''
     else seqk (exit_files p) (seqk begin_op (bindk (getk (\<lambda>s. p_cwd (ptable s p))) (\<lambda>c. seqk (deref c iput)
       (seqk end_op (seqk (modk (upd_proc p (\<lambda>q. q\<lparr>p_cwd := None\<rparr>))) (seqk (acquire PtableLk)
         (bindk (getk (\<lambda>s. p_parent (ptable s p))) (\<lambda>par. seqk (wakeup1 (proc_chan par))
           (seqk (forallk (adopt_one p) [0..<NPROC])
             (seqk (modk (upd_proc p (\<lambda>q. q\<lparr>p_state := ZOMBIE\<rparr>))) sched))))))))))))"

text \<open>What follows the switch in \<open>exit\<close>.\<close>

definition exit_resume :: "('a kfile_scheme, unit) kop" where
  "exit_resume = seqk sched_resume (panick ''zombie exit'')"

text \<open>Freeing the slot \<open>c\<close> of a zombie in \<open>wait\<close>.\<close>

definition reap :: "nat \<Rightarrow> ('a kproc_scheme, i32) kop" where
  "reap c = bindk (getk (\<lambda>s. ptable s c)) (\<lambda>x. seqk (kfree (p_kstack x))
     (seqk (modk (upd_proc c (\<lambda>q. q\<lparr>p_kstack := 0\<rparr>))) (seqk (freevm (p_pgdir x))
       (seqk (modk (upd_proc c (\<lambda>q. q\<lparr>p_pid := 0, p_parent := None, p_name := [], p_killed := 0, p_state := UNUSED\<rparr>)))
         (seqk (release PtableLk) (retk (p_pid x)))))))"

text \<open>One round of the loop of \<open>wait\<close>, with \<open>ptable.lock\<close> held.\<close>

definition wait_loop :: "('a kproc_scheme, i32) kop" where
  "wait_loop = withproc (\<lambda>p. bindk (getk (\<lambda>s. (find_index (\<lambda>c. p_parent (ptable s c) = Some p \<and> p_state (ptable s c) = ZOMBIE) NPROC,
       find_index (\<lambda>c. p_parent (ptable s c) = Some p) NPROC, p_killed (ptable s p)))) (\<lambda>(z, kid, killed).
     case z of
       Some c \<Rightarrow> reap c
     | None \<Rightarrow> if kid = None \<or> killed \<noteq> 0 then seqk (release PtableLk) (retk (- 1))
         else sleep (ProcCh p) (Some PtableLk)))"

definition wait :: "('a kproc_scheme, i32) kop" where
  "wait = seqk (acquire PtableLk) wait_loop"

definition wait_resume :: "('a kproc_scheme, i32) kop" where
  "wait_resume = seqk (sleep_resume PtableLk) wait_loop"

text \<open>\<open>first\<close> is the static variable of \<open>forkret\<close>.\<close>

definition forkret :: "bool \<Rightarrow> ('a kfile_scheme, unit) kop" where
  "forkret first = seqk (release PtableLk) (unlessk (\<not> first) (seqk (iinit ROOTDEV) (initlog ROOTDEV)))"

section \<open>Exec\<close>

text \<open>The loop of \<open>loaduvm\<close>; \<open>k\<close> bounds its rounds (one for each page).\<close>

fun loaduvm_loop :: "(nat \<Rightarrow> 'a kfile_scheme devio option) \<Rightarrow> u32 \<Rightarrow> u32 \<Rightarrow> nat \<Rightarrow> u32 \<Rightarrow> u32 \<Rightarrow> u32 \<Rightarrow> nat \<Rightarrow> ('a kfile_scheme, i32) kop" where
  "loaduvm_loop dv pgdir addr ip offset sz i 0 = (\<lambda>_. Spin)"
| "loaduvm_loop dv pgdir addr ip offset sz i (Suc k) = (if \<not> i < sz then retk 0
     else bindk (walkpgdir pgdir (addr + i) False) (\<lambda>pte. if pte = 0 then panick ''loaduvm: address should exist''
       else bindk (getk (\<lambda>s. PTE_ADDR (load32 (mem s) pte))) (\<lambda>pa. let n = (if sz - i < PGSIZE then sz - i else PGSIZE) in
         bindk (readi dv ip (P2V pa) (offset + i) n) (\<lambda>r. if r \<noteq> n then retk (- 1)
           else loaduvm_loop dv pgdir addr ip offset sz (i + PGSIZE) k))))"

definition loaduvm :: "(nat \<Rightarrow> 'a kfile_scheme devio option) \<Rightarrow> u32 \<Rightarrow> u32 \<Rightarrow> nat \<Rightarrow> u32 \<Rightarrow> u32 \<Rightarrow> ('a kfile_scheme, i32) kop" where
  "loaduvm dv pgdir addr ip offset sz = (if addr mod PGSIZE \<noteq> 0 then panick ''loaduvm: addr must be page aligned''
     else loaduvm_loop dv pgdir addr ip offset sz 0 (2 ^ 20 + 1))"

definition ELF_MAGIC :: u32 where "ELF_MAGIC = 0x464C457F"

text \<open>The comparison of the result of \<open>readi\<close> with the size of the ELF header is unsigned, so -1
  passes it.\<close>

text \<open>The label \<open>bad\<close> of \<open>exec\<close>, with the inode still locked or already put.\<close>

definition exec_bad :: "u32 \<Rightarrow> nat option \<Rightarrow> ('a kfile_scheme, i32) kop" where
  "exec_bad pgdir ip = seqk (unlessk (pgdir = 0) (freevm pgdir))
     (seqk (unlessk (ip = None) (seqk (iunlockput ip) end_op)) (retk (- 1)))"

text \<open>The local structures of \<open>exec\<close> live on the kernel stack: \<open>ka\<close> gives the addresses of \<open>elf\<close> (0),
  \<open>ph\<close> (1) and \<open>ustack\<close> (2).\<close>

type_synonym locals = "nat \<Rightarrow> u32"

text \<open>The loop of \<open>exec\<close> over the program headers: the size of the image, or \<open>None\<close> for the
  label \<open>bad\<close>; \<open>off\<close> is the offset of the next header.\<close>

fun exec_load :: "(nat \<Rightarrow> 'a kfile_scheme devio option) \<Rightarrow> locals \<Rightarrow> u32 \<Rightarrow> nat \<Rightarrow> u32 \<Rightarrow> u32 \<Rightarrow> nat \<Rightarrow> ('a kfile_scheme, u32 option) kop" where
  "exec_load dv ka pgdir ip sz off 0 = retk (Some sz)"
| "exec_load dv ka pgdir ip sz off (Suc k) = bindk (readi dv ip (ka 1) off 32) (\<lambda>r. if r \<noteq> 32 then retk None else bindk (vload (ka 1) 32) (\<lambda>ph.
     if get32 ph 0 \<noteq> 1 then exec_load dv ka pgdir ip sz (off + 32) k
     else let poff = get32 ph 4; vaddr = get32 ph 8; filesz = get32 ph 16; memsz = get32 ph 20 in
       if memsz < filesz then retk None
       else if vaddr + memsz < vaddr then retk None
       else bindk (allocuvm pgdir sz (vaddr + memsz)) (\<lambda>sz'. if sz' = 0 then retk None
         else if vaddr mod PGSIZE \<noteq> 0 then retk None
         else bindk (loaduvm dv pgdir vaddr ip poff filesz) (\<lambda>v. if sint v < 0 then retk None
           else exec_load dv ka pgdir ip sz' (off + 32) k))))"

text \<open>The loop of \<open>exec\<close> over the arguments, each given by its address and length: the stack
  pointer and the addresses pushed, or \<open>None\<close> for the label \<open>bad\<close>.\<close>

fun exec_args :: "u32 \<Rightarrow> (u32 \<times> u32) list \<Rightarrow> u32 \<Rightarrow> u32 list \<Rightarrow> ('a kfile_scheme, (u32 \<times> u32 list) option) kop" where
  "exec_args pgdir [] sp us = retk (Some (sp, us))"
| "exec_args pgdir ((a, l) # args) sp us = (if length us \<ge> 32 then retk None
     else let sp' = (sp - (l + 1)) AND NOT 3 in
       bindk (copyout pgdir sp' a (l + 1)) (\<lambda>r. if sint r < 0 then retk None else exec_args pgdir args sp' (us @ [sp'])))"

definition le32 :: "u32 list \<Rightarrow> u8 list" where
  "le32 ws = concat (map (put32 [0, 0, 0, 0] 0) ws)"

text \<open>The words of \<open>ustack\<close> for the argument addresses \<open>us\<close> and the stack pointer \<open>sp\<close>.\<close>

definition ustack :: "u32 list \<Rightarrow> u32 \<Rightarrow> u32 list" where
  "ustack us sp = [0xFFFFFFFF, of_nat (length us), sp - (of_nat (length us) + 1) * 4] @ us @ [0]"

text \<open>The last path element, from which the process gets its name.\<close>

definition last_elem :: "u8 list \<Rightarrow> u8 list" where
  "last_elem path = rev (takeWhile (\<lambda>c. c \<noteq> slash) (rev path))"

text \<open>\<open>copyout\<close> of \<open>ustack\<close>, whose words are stored to the kernel stack first.\<close>

definition copyout_stack :: "locals \<Rightarrow> u32 \<Rightarrow> u32 \<Rightarrow> u8 list \<Rightarrow> ('a kfile_scheme, i32) kop" where
  "copyout_stack ka pgdir sp bs = seqk (vstore (ka 2) bs) (copyout pgdir sp (ka 2) (of_nat (length bs)))"

text \<open>\<open>exec\<close> after the program is loaded and the inode put.\<close>

definition exec_stack :: "locals \<Rightarrow> u8 list \<Rightarrow> (u32 \<times> u32) list \<Rightarrow> u32 \<Rightarrow> u32 \<Rightarrow> u32 \<Rightarrow> ('a kfile_scheme, i32) kop" where
  "exec_stack ka path argv pgdir sz0 entry = bindk (allocuvm pgdir (PGROUNDUP sz0) (PGROUNDUP sz0 + 2 * PGSIZE)) (\<lambda>sz.
     if sz = 0 then exec_bad pgdir None
     else seqk (clearpteu pgdir (sz - 2 * PGSIZE)) (bindk (exec_args pgdir argv sz []) (\<lambda>r. case r of
       None \<Rightarrow> exec_bad pgdir None
     | Some (sp, us) \<Rightarrow> let sp' = sp - (3 + of_nat (length us) + 1) * 4 in
         bindk (copyout_stack ka pgdir sp' (le32 (ustack us sp))) (\<lambda>v. if sint v < 0 then exec_bad pgdir None
           else withproc (\<lambda>p. bindk (getk (\<lambda>s. p_pgdir (ptable s p))) (\<lambda>old.
             seqk (modk (upd_proc p (\<lambda>q. q\<lparr>p_name := name16 (map (\<lambda>b. char_of (unat b)) (last_elem path)), p_pgdir := pgdir, p_sz := sz,
                 p_tf := (p_tf q)\<lparr>tf_eip := entry, tf_esp := sp'\<rparr>\<rparr>)))
               (bindk (getk (\<lambda>s. p_kstack (ptable s p))) (\<lambda>k. seqk (switchuvm k pgdir) (seqk (freevm old) (retk 0))))))))))"

definition exec :: "(nat \<Rightarrow> 'a kfile_scheme devio option) \<Rightarrow> locals \<Rightarrow> u8 list \<Rightarrow> (u32 \<times> u32) list \<Rightarrow> ('a kfile_scheme, i32) kop" where
  "exec dv ka path argv = seqk begin_op (bindk (namei path) (\<lambda>r. case r of None \<Rightarrow> fail_op | Some ip \<Rightarrow>
     seqk (ilock (Some ip)) (bindk (readi dv ip (ka 0) 0 52) (\<lambda>h. if h < 52 then exec_bad 0 (Some ip) else bindk (vload (ka 0) 52) (\<lambda>elf.
       if get32 elf 0 \<noteq> ELF_MAGIC then exec_bad 0 (Some ip)
       else bindk setupkvm (\<lambda>pgdir. if pgdir = 0 then exec_bad 0 (Some ip)
         else bindk (exec_load dv ka pgdir ip 0 (get32 elf 28) (unat (get16 elf 44))) (\<lambda>l. case l of
           None \<Rightarrow> exec_bad pgdir (Some ip)
         | Some sz \<Rightarrow> seqk (iunlockput (Some ip)) (seqk end_op (exec_stack ka path argv pgdir sz (get32 elf 24))))))))))"

text \<open>The loop of \<open>sys_exec\<close> over the user's argument vector of at most 32 entries.\<close>

fun exec_argv :: "u32 \<Rightarrow> nat \<Rightarrow> ('a kfile_scheme, (u32 \<times> u32) list option) kop" where
  "exec_argv uargv 0 = retk None"
| "exec_argv uargv (Suc k) = bindk (fetchint uargv) (\<lambda>a. case a of None \<Rightarrow> retk None | Some uarg \<Rightarrow>
     if uarg = 0 then retk (Some [])
     else bindk (fetchstr uarg) (\<lambda>l. case l of None \<Rightarrow> retk None | Some n \<Rightarrow>
       bindk (exec_argv (uargv + 4) k) (\<lambda>r. retk (map_option ((#) (uarg, n)) r))))"

definition sys_exec :: "(nat \<Rightarrow> 'a kfile_scheme devio option) \<Rightarrow> locals \<Rightarrow> ('a kfile_scheme, i32) kop" where
  "sys_exec dv ka = bindk (argpath 0) (\<lambda>a. case a of None \<Rightarrow> retk (- 1) | Some path \<Rightarrow>
     bindk (argint 1) (\<lambda>b. case b of None \<Rightarrow> retk (- 1) | Some uargv \<Rightarrow>
       bindk (exec_argv uargv 32) (\<lambda>r. case r of None \<Rightarrow> retk (- 1) | Some argv \<Rightarrow> exec dv ka path argv)))"

section \<open>System calls on processes\<close>

definition sys_fork :: "('a kfile_scheme, i32) kop" where
  "sys_fork = fork"

definition sys_exit :: "('a kfile_scheme, i32) kop" where
  "sys_exit = seqk exit (retk 0)"

definition sys_wait :: "('a kfile_scheme, i32) kop" where
  "sys_wait = wait"

definition sys_kill :: "('a kproc_scheme, i32) kop" where
  "sys_kill = bindk (argint 0) (\<lambda>a. case a of None \<Rightarrow> retk (- 1) | Some pid \<Rightarrow> kill pid)"

definition sys_getpid :: "('a kproc_scheme, i32) kop" where
  "sys_getpid = withproc (\<lambda>p. getk (\<lambda>s. p_pid (ptable s p)))"

definition sys_sbrk :: "('a kproc_scheme, i32) kop" where
  "sys_sbrk = bindk (argint 0) (\<lambda>a. case a of None \<Rightarrow> retk (- 1) | Some n \<Rightarrow>
     withproc (\<lambda>p. bindk (getk (\<lambda>s. p_sz (ptable s p))) (\<lambda>addr.
       bindk (growproc n) (\<lambda>r. if sint r < 0 then retk (- 1) else retk addr))))"

text \<open>The loop of \<open>sys_sleep\<close>; \<open>ticks - ticks0\<close> and \<open>n\<close> are compared as unsigned numbers.\<close>

definition sleep_loop :: "i32 \<Rightarrow> u32 \<Rightarrow> ('a kproc_scheme, i32) kop" where
  "sleep_loop n ticks0 = bindk (getk ticks) (\<lambda>t. if t - ticks0 < n then
       withproc (\<lambda>p. bindk (getk (\<lambda>s. p_killed (ptable s p))) (\<lambda>k.
         if k \<noteq> 0 then seqk (release TicksLk) (retk (- 1)) else sleep TicksCh (Some TicksLk)))
     else seqk (release TicksLk) (retk 0))"

definition sys_sleep :: "('a kproc_scheme, i32) kop" where
  "sys_sleep = bindk (argint 0) (\<lambda>a. case a of None \<Rightarrow> retk (- 1) | Some n \<Rightarrow>
     seqk (acquire TicksLk) (bindk (getk ticks) (sleep_loop n)))"

definition sys_sleep_resume :: "i32 \<Rightarrow> u32 \<Rightarrow> ('a kproc_scheme, i32) kop" where
  "sys_sleep_resume n ticks0 = seqk (sleep_resume TicksLk) (sleep_loop n ticks0)"

definition sys_uptime :: "('a kproc_scheme, i32) kop" where
  "sys_uptime = seqk (acquire TicksLk) (bindk (getk ticks) (\<lambda>t. seqk (release TicksLk) (retk t)))"

end
