(* ===== verification/Ports.thy ===== *)
theory Ports
  imports Process
begin

text \<open>
  Access to the devices: the registers of the hardware, what they answer and a log of what is written to
  them (the port instructions of \<open>src/x86.h\<close>), and the two routines of the local APIC (\<open>src/lapic.c\<close>) that the
  trap handler needs to acknowledge an interrupt.
\<close>

section \<open>State\<close>

text \<open>
  A device register: an I/O port, a register of the local APIC (an index into \<open>lapic\<close>), the two
  words of the I/O APIC, or the field \<open>started\<close> of a CPU, which another CPU writes. The data port 0x71 of
  the clock and the data word of the I/O APIC stand for one of many registers, which the last write to
  port 0x70 or to the index word selects: \<open>Cmos\<close> and \<open>Ioapic\<close> are those registers.
  \<open>dev_in r\<close> is what the register answers to the reads to come; its last answer is repeated, and a
  register with no answers reads as 0. \<open>dev_out\<close> is what has been written to the devices, the last
  write at the end.
\<close>

datatype devreg = Port nat | Lapic nat | IoapicReg | IoapicData | Started nat | Cmos u32 | Ioapic u32

record gatedesc =
  off_15_0 :: u16
  g_cs :: u16
  g_args :: "5 word"
  g_rsv1 :: "3 word"
  g_type :: "4 word"
  g_s :: "1 word"
  g_dpl :: "2 word"
  g_p :: "1 word"
  off_31_16 :: u16

text \<open>The input ring of \<open>src/console.c\<close> with the shift state of \<open>src/kbd.c\<close>, and the devices.\<close>

record kinput = kfile +
  input_buf :: "nat \<Rightarrow> u8"
  input_r :: u32
  input_w :: u32
  input_e :: u32
  kbd_shift :: u32

record kdev = kinput +
  dev_in :: "devreg \<Rightarrow> u32 list"
  dev_out :: "(devreg \<times> u32) list"
  ismp :: i32
  ncpu :: i32
  apicids :: "nat \<Rightarrow> u8"
  ioapicid :: u8
  lapic :: u32
  ioapic :: u32
  irqmask :: u16
  idt :: "nat \<Rightarrow> gatedesc"
  idtr :: "nat \<Rightarrow> u32 \<times> u16"

section \<open>Reading and writing device registers\<close>

fun next_in :: "u32 list \<Rightarrow> u32 \<times> u32 list" where
  "next_in [] = (0, [])"
| "next_in [v] = (v, [v])"
| "next_in (v # w # vs) = (v, w # vs)"

definition dev_read :: "devreg \<Rightarrow> ('a kdev_scheme, u32) kop" where
  "dev_read r s = (let (v, vs) = next_in (dev_in s r) in Done v (s\<lparr>dev_in := (dev_in s)(r := vs)\<rparr>))"

definition dev_write :: "devreg \<Rightarrow> u32 \<Rightarrow> ('a kdev_scheme, unit) kop" where
  "dev_write r v = modk (\<lambda>s. s\<lparr>dev_out := dev_out s @ [(r, v)]\<rparr>)"

text \<open>The first answer of a register that satisfies a condition, and the answers after it; \<open>None\<close>
  when the register never gives one, and then a loop that waits for it does not end.\<close>

fun wait_in :: "(u32 \<Rightarrow> bool) \<Rightarrow> u32 list \<Rightarrow> (u32 \<times> u32 list) option" where
  "wait_in P [] = (if P 0 then Some (0, []) else None)"
| "wait_in P [v] = (if P v then Some (v, [v]) else None)"
| "wait_in P (v # w # vs) = (if P v then Some (v, w # vs) else wait_in P (w # vs))"

definition dev_wait :: "devreg \<Rightarrow> (u32 \<Rightarrow> bool) \<Rightarrow> ('a kdev_scheme, u32) kop" where
  "dev_wait r P s = (case wait_in P (dev_in s r) of
     None \<Rightarrow> Spin | Some (v, vs) \<Rightarrow> Done v (s\<lparr>dev_in := (dev_in s)(r := vs)\<rparr>))"

text \<open>The last value written to a register, and the register that a port stands for.\<close>

definition last_out :: "devreg \<Rightarrow> (devreg \<times> u32) list \<Rightarrow> u32" where
  "last_out r out = (case find (\<lambda>(q, v). q = r) (rev out) of None \<Rightarrow> 0 | Some (q, v) \<Rightarrow> v)"

definition port_reg :: "nat \<Rightarrow> (devreg \<times> u32) list \<Rightarrow> devreg" where
  "port_reg p out = (if p = 0x71 then Cmos (last_out (Port 0x70) out) else Port p)"

definition inb :: "nat \<Rightarrow> ('a kdev_scheme, u32) kop" where
  "inb p = bindk (getk (\<lambda>s. port_reg p (dev_out s))) (\<lambda>r. bindk (dev_read r) (\<lambda>v. retk (v AND 0xff)))"

definition outb :: "nat \<Rightarrow> u32 \<Rightarrow> ('a kdev_scheme, unit) kop" where
  "outb p v = dev_write (Port p) (v AND 0xff)"

definition outbs :: "(nat \<times> u32) list \<Rightarrow> ('a kdev_scheme, unit) kop" where
  "outbs = forallk (\<lambda>(p, v). outb p v)"

fun insl :: "nat \<Rightarrow> nat \<Rightarrow> ('a kdev_scheme, u32 list) kop" where
  "insl p 0 = retk []"
| "insl p (Suc n) = bindk (dev_read (Port p)) (\<lambda>v. bindk (insl p n) (\<lambda>vs. retk (v # vs)))"

definition outsl :: "nat \<Rightarrow> u32 list \<Rightarrow> ('a kdev_scheme, unit) kop" where
  "outsl p = forallk (dev_write (Port p))"

section \<open>The acknowledgement of an interrupt\<close>

definition lapicw :: "nat \<Rightarrow> u32 \<Rightarrow> ('a kdev_scheme, unit) kop" where
  "lapicw i v = seqk (dev_write (Lapic i) v) (seqk (dev_read (Lapic 8)) (retk ()))"

definition lapiceoi :: "('a kdev_scheme, unit) kop" where
  "lapiceoi = bindk (getk lapic) (\<lambda>l. unlessk (l = 0) (lapicw (0xB0 div 4) 0))"

end
