(* ===== verification/Trap.thy ===== *)
theory Trap
  imports Ports
begin

text \<open>
  Console input (\<open>src/console.c\<close>), the keyboard (\<open>src/kbd.c\<close>, \<open>src/kbd.h\<close>), the table of system
  calls (\<open>src/syscall.c\<close>) and the trap handler (\<open>src/trap.c\<close>).
\<close>

section \<open>Line editing\<close>

definition INPUT_BUF :: u32 where "INPUT_BUF = 128"

definition buf_at :: "u32 \<Rightarrow> 'a kinput_scheme \<Rightarrow> u8" where
  "buf_at i s = input_buf s (unat (i mod INPUT_BUF))"

text \<open>The loop of Control-U; at most \<open>input.e - input.w\<close> characters are erased.\<close>

fun kill_line :: "nat \<Rightarrow> ('a kinput_scheme, unit) kop" where
  "kill_line 0 = retk ()"
| "kill_line (Suc k) = bindk (getk (\<lambda>s. input_e s \<noteq> input_w s \<and> buf_at (input_e s - 1) s \<noteq> 0x0A)) (\<lambda>b.
     unlessk (\<not> b) (seqk (modk (\<lambda>s. s\<lparr>input_e := input_e s - 1\<rparr>)) (seqk (consputc BACKSPACE) (kill_line k))))"

definition input_char :: "u32 \<Rightarrow> ('a kinput_scheme, unit) kop" where
  "input_char c0 = bindk (getk (\<lambda>s. input_e s - input_r s < INPUT_BUF)) (\<lambda>room. unlessk (c0 = 0 \<or> \<not> room)
     (let c = (if c0 = 0x0D then 0x0A else c0) in
       seqk (modk (\<lambda>s. s\<lparr>input_buf := (input_buf s)(unat (input_e s mod INPUT_BUF) := ucast c), input_e := input_e s + 1\<rparr>))
         (seqk (consputc c) (bindk (getk (\<lambda>s. c = 0x0A \<or> c = 0x04 \<or> input_e s = input_r s + INPUT_BUF)) (\<lambda>b.
           unlessk (\<not> b) (seqk (modk (\<lambda>s. s\<lparr>input_w := input_e s\<rparr>)) (wakeup InputCh)))))))"

text \<open>One round of the loop of \<open>consoleintr\<close> on the character \<open>c\<close>; the result tells whether
  \<open>procdump\<close> is requested.\<close>

definition consoleintr_one :: "u32 \<Rightarrow> ('a kinput_scheme, bool) kop" where
  "consoleintr_one c = (if c = 0x10 then retk True
     else if c = 0x15 then bindk (getk (\<lambda>s. unat (input_e s - input_w s))) (\<lambda>k. seqk (kill_line k) (retk False))
     else if c = 0x08 \<or> c = 0x7F then bindk (getk (\<lambda>s. input_e s \<noteq> input_w s)) (\<lambda>b.
       seqk (unlessk (\<not> b) (seqk (modk (\<lambda>s. s\<lparr>input_e := input_e s - 1\<rparr>)) (consputc BACKSPACE))) (retk False))
     else seqk (input_char c) (retk False))"

fun consoleintr_loop :: "u32 list \<Rightarrow> bool \<Rightarrow> ('a kinput_scheme, bool) kop" where
  "consoleintr_loop [] d = retk d"
| "consoleintr_loop (c # cs) d = bindk (consoleintr_one c) (\<lambda>b. consoleintr_loop cs (d \<or> b))"

text \<open>\<open>consoleintr\<close> on the characters that \<open>getc\<close> delivers before it returns a negative number.\<close>

definition consoleintr :: "u32 list \<Rightarrow> ('a kinput_scheme, unit) kop" where
  "consoleintr cs = seqk (acquire ConsLk) (bindk (consoleintr_loop cs False) (\<lambda>d.
     seqk (release ConsLk) (unlessk (\<not> d) procdump)))"

text \<open>The loop of \<open>consoleread\<close> with \<open>n\<close> bytes to go of \<open>target\<close>; the result is \<open>n\<close> at its end, or
  \<open>None\<close> for the early return of -1.\<close>

fun consoleread_loop :: "nat \<Rightarrow> u32 \<Rightarrow> nat \<Rightarrow> nat \<Rightarrow> ('a kinput_scheme, nat option) kop" where
  "consoleread_loop ip dst target 0 = retk (Some 0)"
| "consoleread_loop ip dst target (Suc n) = bindk (getk (\<lambda>s. input_r s = input_w s)) (\<lambda>e.
     if e then withproc (\<lambda>p. bindk (getk (\<lambda>s. p_killed (ptable s p))) (\<lambda>k.
       if k \<noteq> 0 then retk None else sleep InputCh (Some ConsLk)))
     else bindk (getk (\<lambda>s. buf_at (input_r s) s)) (\<lambda>c. seqk (modk (\<lambda>s. s\<lparr>input_r := input_r s + 1\<rparr>))
       (if c = 0x04 then seqk (unlessk (\<not> Suc n < target) (modk (\<lambda>s. s\<lparr>input_r := input_r s - 1\<rparr>))) (retk (Some (Suc n)))
        else seqk (vstore dst [c]) (if c = 0x0A then retk (Some n) else consoleread_loop ip (dst + 1) target n))))"

text \<open>The end of \<open>consoleread\<close>, for a first call and after a sleep.\<close>

definition consoleread_end :: "nat \<Rightarrow> nat \<Rightarrow> nat option \<Rightarrow> ('a kinput_scheme, i32) kop" where
  "consoleread_end ip target r = seqk (release ConsLk) (seqk (ilock (Some ip))
     (retk (case r of None \<Rightarrow> - 1 | Some n \<Rightarrow> of_nat (target - n))))"

definition consoleread :: "nat \<Rightarrow> u32 \<Rightarrow> i32 \<Rightarrow> ('a kinput_scheme, i32) kop" where
  "consoleread ip dst n = seqk (iunlock (Some ip)) (seqk (acquire ConsLk)
     (bindk (consoleread_loop ip dst (nat (sint n)) (nat (sint n))) (\<lambda>r.
       if sint n < 0 then seqk (release ConsLk) (seqk (ilock (Some ip)) (retk 0)) else consoleread_end ip (nat (sint n)) r)))"

definition consoleread_resume :: "nat \<Rightarrow> u32 \<Rightarrow> nat \<Rightarrow> nat \<Rightarrow> ('a kinput_scheme, i32) kop" where
  "consoleread_resume ip dst target n = seqk (sleep_resume ConsLk)
     (bindk (consoleread_loop ip dst target n) (consoleread_end ip target))"

definition consolewrite :: "nat \<Rightarrow> u32 \<Rightarrow> i32 \<Rightarrow> ('a kinput_scheme, i32) kop" where
  "consolewrite ip src n = seqk (iunlock (Some ip)) (seqk (acquire ConsLk)
     (seqk (forallk (\<lambda>i. bindk (vload (src + of_nat i) 1) (\<lambda>bs. consputc (ucast (hd bs)))) [0..<nat (sint n)])
       (seqk (release ConsLk) (seqk (ilock (Some ip)) (retk n)))))"

text \<open>\<open>consoleinit\<close> without the programming of the interrupt controllers, and the table \<open>devsw\<close>
  it fills.\<close>

definition consoleinit :: "('a kinput_scheme, unit) kop" where
  "consoleinit = seqk (initlock ConsLk ''console'') (modk (\<lambda>s. s\<lparr>locking := 1\<rparr>))"

definition devsw_read :: "nat \<Rightarrow> 'a kinput_scheme devio option" where
  "devsw_read m = (if m = 1 then Some consoleread else None)"

definition devsw_write :: "nat \<Rightarrow> 'a kinput_scheme devio option" where
  "devsw_write m = (if m = 1 then Some consolewrite else None)"

section \<open>The keyboard\<close>

definition key_lookup :: "u32 list \<Rightarrow> (nat \<times> u32) list \<Rightarrow> nat \<Rightarrow> u32" where
  "key_lookup row ext i = (if i < length row then row ! i else case map_of ext i of None \<Rightarrow> 0 | Some c \<Rightarrow> c)"

definition normalmap :: "nat \<Rightarrow> u32" where
  "normalmap i = key_lookup [
     0x00, 0x1B, 0x31, 0x32, 0x33, 0x34, 0x35, 0x36, 0x37, 0x38, 0x39, 0x30, 0x2D, 0x3D, 0x08, 0x09,
     0x71, 0x77, 0x65, 0x72, 0x74, 0x79, 0x75, 0x69, 0x6F, 0x70, 0x5B, 0x5D, 0x0A, 0x00, 0x61, 0x73,
     0x64, 0x66, 0x67, 0x68, 0x6A, 0x6B, 0x6C, 0x3B, 0x27, 0x60, 0x00, 0x5C, 0x7A, 0x78, 0x63, 0x76,
     0x62, 0x6E, 0x6D, 0x2C, 0x2E, 0x2F, 0x00, 0x2A, 0x00, 0x20, 0x00, 0x00, 0x00, 0x00, 0x00, 0x00,
     0x00, 0x00, 0x00, 0x00, 0x00, 0x00, 0x00, 0x37, 0x38, 0x39, 0x2D, 0x34, 0x35, 0x36, 0x2B, 0x31,
     0x32, 0x33, 0x30, 0x2E, 0x00, 0x00, 0x00, 0x00]
     [(0x9C, 0x0A), (0xB5, 0x2F), (0xC8, 0xE2), (0xD0, 0xE3), (0xC9, 0xE6), (0xD1, 0xE7), (0xCB, 0xE4), (0xCD, 0xE5), (0x97, 0xE0), (0xCF, 0xE1), (0xD2, 0xE8), (0xD3, 0xE9)] i"

definition shiftmap :: "nat \<Rightarrow> u32" where
  "shiftmap i = key_lookup [
     0x00, 0x1B, 0x21, 0x40, 0x23, 0x24, 0x25, 0x5E, 0x26, 0x2A, 0x28, 0x29, 0x5F, 0x2B, 0x08, 0x09,
     0x51, 0x57, 0x45, 0x52, 0x54, 0x59, 0x55, 0x49, 0x4F, 0x50, 0x7B, 0x7D, 0x0A, 0x00, 0x41, 0x53,
     0x44, 0x46, 0x47, 0x48, 0x4A, 0x4B, 0x4C, 0x3A, 0x22, 0x7E, 0x00, 0x7C, 0x5A, 0x58, 0x43, 0x56,
     0x42, 0x4E, 0x4D, 0x3C, 0x3E, 0x3F, 0x00, 0x2A, 0x00, 0x20, 0x00, 0x00, 0x00, 0x00, 0x00, 0x00,
     0x00, 0x00, 0x00, 0x00, 0x00, 0x00, 0x00, 0x37, 0x38, 0x39, 0x2D, 0x34, 0x35, 0x36, 0x2B, 0x31,
     0x32, 0x33, 0x30, 0x2E, 0x00, 0x00, 0x00, 0x00]
     [(0x9C, 0x0A), (0xB5, 0x2F), (0xC8, 0xE2), (0xD0, 0xE3), (0xC9, 0xE6), (0xD1, 0xE7), (0xCB, 0xE4), (0xCD, 0xE5), (0x97, 0xE0), (0xCF, 0xE1), (0xD2, 0xE8), (0xD3, 0xE9)] i"

definition ctlmap :: "nat \<Rightarrow> u32" where
  "ctlmap i = key_lookup [
     0x00, 0x00, 0x00, 0x00, 0x00, 0x00, 0x00, 0x00, 0x00, 0x00, 0x00, 0x00, 0x00, 0x00, 0x00, 0x00,
     0x11, 0x17, 0x05, 0x12, 0x14, 0x19, 0x15, 0x09, 0x0F, 0x10, 0x00, 0x00, 0x0D, 0x00, 0x01, 0x13,
     0x04, 0x06, 0x07, 0x08, 0x0A, 0x0B, 0x0C, 0x00, 0x00, 0x00, 0x00, 0x1C, 0x1A, 0x18, 0x03, 0x16,
     0x02, 0x0E, 0x0D, 0x00, 0x00, 0xEF, 0x00, 0x00]
     [(0x9C, 0x0D), (0xB5, 0xEF), (0xC8, 0xE2), (0xD0, 0xE3), (0xC9, 0xE6), (0xD1, 0xE7), (0xCB, 0xE4), (0xCD, 0xE5), (0x97, 0xE0), (0xCF, 0xE1), (0xD2, 0xE8), (0xD3, 0xE9)] i"

definition shiftcode :: "nat \<Rightarrow> u32" where
  "shiftcode i = key_lookup [] [(0x1D, 2), (0x2A, 1), (0x36, 1), (0x38, 4), (0x9D, 2), (0xB8, 4)] i"

definition togglecode :: "nat \<Rightarrow> u32" where
  "togglecode i = key_lookup [] [(0x3A, 8), (0x45, 16), (0x46, 32)] i"

definition E0ESC :: u32 where "E0ESC = 0x40"

text \<open>\<open>kbdgetc\<close> as a function of \<open>shift\<close> and of the bytes read from the two ports: the new \<open>shift\<close>
  and the result.\<close>

definition kbdgetc :: "u32 \<Rightarrow> u32 \<Rightarrow> u32 \<Rightarrow> u32 \<times> i32" where
  "kbdgetc shift st data = (if st AND 1 = 0 then (shift, - 1)
     else if data = 0xE0 then (shift OR E0ESC, 0)
     else if data AND 0x80 \<noteq> 0 then
       (let d = (if shift AND E0ESC \<noteq> 0 then data else data AND 0x7F) in (shift AND NOT (shiftcode (unat d) OR E0ESC), 0))
     else let d = (if shift AND E0ESC \<noteq> 0 then data OR 0x80 else data);
              sh = (if shift AND E0ESC \<noteq> 0 then shift AND NOT E0ESC else shift);
              sh = (sh OR shiftcode (unat d)) XOR togglecode (unat d);
              m = unat (sh AND 3);
              c = (if m = 0 then normalmap (unat d) else if m = 1 then shiftmap (unat d) else ctlmap (unat d));
              c = (if sh AND 8 = 0 then c else if 0x61 \<le> c \<and> c \<le> 0x7A then c - 0x20
                   else if 0x41 \<le> c \<and> c \<le> 0x5A then c + 0x20 else c)
          in (sh, c))"

text \<open>The calls of \<open>kbdgetc\<close> by \<open>consoleintr\<close>, until one returns a negative number: the characters
  and the last \<open>shift\<close>.\<close>

fun kbd_chars :: "u32 \<Rightarrow> (u32 \<times> u32) list \<Rightarrow> u32 list \<times> u32" where
  "kbd_chars shift [] = ([], shift)"
| "kbd_chars shift ((st, data) # ports) = (let (shift', c) = kbdgetc shift st data in
     if sint c < 0 then ([], shift') else apfst ((#) c) (kbd_chars shift' ports))"

definition kbdintr :: "(u32 \<times> u32) list \<Rightarrow> ('a kinput_scheme, unit) kop" where
  "kbdintr ports = bindk (getk (\<lambda>s. kbd_chars (kbd_shift s) ports)) (\<lambda>(cs, shift).
     seqk (modk (\<lambda>s. s\<lparr>kbd_shift := shift\<rparr>)) (consoleintr cs))"

text \<open>\<open>uartgetc\<close> as a function of the line status and the data register.\<close>

definition uartgetc :: "u32 \<Rightarrow> u32 \<Rightarrow> u32 \<Rightarrow> i32" where
  "uartgetc uart lsr data = (if uart = 0 then - 1 else if lsr AND 1 = 0 then - 1 else data)"

definition uartintr :: "(u32 \<times> u32) list \<Rightarrow> ('a kinput_scheme, unit) kop" where
  "uartintr ports = bindk (getk has_uart) (\<lambda>u.
     consoleintr (takeWhile (\<lambda>c. sint c \<ge> 0) (map (\<lambda>(st, data). uartgetc (ucast u) st data) ports)))"

section \<open>System calls and traps\<close>

text \<open>The table \<open>syscalls\<close>; \<open>ra\<close> is the return address of the calls of \<open>myproc\<close> and \<open>ka\<close> the
  kernel-stack addresses of the local variables of \<open>exec\<close>.\<close>

definition syscalls :: "u32 \<Rightarrow> locals \<Rightarrow> nat \<Rightarrow> ('a kinput_scheme, i32) kop option" where
  "syscalls ra ka n = (if n < 1 \<or> n > 29 then None else Some ([sys_fork, sys_exit, sys_wait, sys_pipe, sys_read devsw_read, sys_kill,
     sys_exec devsw_read ka, sys_fstat, sys_chdir, sys_dup, sys_getpid, sys_sbrk, sys_sleep, sys_uptime, sys_open,
     sys_write devsw_write, sys_mknod, sys_unlink, sys_link, sys_mkdir, sys_close, sys_nice, sys_lock ra, sys_release ra,
     sys_strace, sys_dump, sys_eflag, sys_sflag, sys_fflag] ! (n - 1)))"

definition T_SYSCALL :: u32 where "T_SYSCALL = 64"
definition T_IRQ0 :: u32 where "T_IRQ0 = 32"

text \<open>\<open>if(proc && proc->killed && (tf->cs&3) == DPL_USER) exit();\<close>\<close>

definition exit_if_killed :: "trapframe \<Rightarrow> ('a kinput_scheme, unit) kop" where
  "exit_if_killed tf = bindk (getk (\<lambda>s. case curproc s of None \<Rightarrow> False | Some p \<Rightarrow> p_killed (ptable s p) \<noteq> 0)) (\<lambda>k.
     unlessk (\<not> (k \<and> tf_cs tf AND 3 = 3)) exit)"

definition timer_tick :: "u32 \<Rightarrow> ('a kinput_scheme, unit) kop" where
  "timer_tick ra = bindk (cpunum ra) (\<lambda>c. unlessk (c \<noteq> 0) (seqk (acquire TicksLk)
     (seqk (modk (\<lambda>s. s\<lparr>ticks := ticks s + 1\<rparr>)) (seqk (wakeup TicksCh) (release TicksLk)))))"

definition spurious_fmt :: string where
  "spurious_fmt = ''cpu%d: spurious interrupt at %x:%x'' @ [CHR 0x0A]"

definition unexpected_fmt :: string where
  "unexpected_fmt = ''unexpected trap %d from cpu %d eip %x (cr2=0x%x)'' @ [CHR 0x0A]"

definition user_trap_fmt :: string where
  "user_trap_fmt = ''pid %d %s: trap %d err %d on cpu %d eip 0x%x addr 0x%x--kill proc'' @ [CHR 0x0A]"

text \<open>The \<open>switch\<close> of \<open>trap\<close>; \<open>ports\<close> is what the keyboard or the serial port delivers, \<open>cr2\<close> the
  faulting address. The handler of the disk in memory, \<open>ideintr\<close> of \<open>src/memide.c\<close>, does nothing; \<open>lapiceoi\<close>
  acknowledges the interrupt.\<close>

definition trap_device :: "u32 \<Rightarrow> (u32 \<times> u32) list \<Rightarrow> u32 \<Rightarrow> trapframe \<Rightarrow> ('a kdev_scheme, unit) kop" where
  "trap_device ra ports cr2 tf = (let n = tf_trapno tf in
     if n = T_IRQ0 then seqk (timer_tick ra) lapiceoi
     else if n = T_IRQ0 + 14 then lapiceoi
     else if n = T_IRQ0 + 15 then retk ()
     else if n = T_IRQ0 + 1 then seqk (kbdintr ports) lapiceoi
     else if n = T_IRQ0 + 4 then seqk (uartintr ports) lapiceoi
     else if n = T_IRQ0 + 7 \<or> n = T_IRQ0 + 31 then bindk (cpunum ra) (\<lambda>c.
       seqk (cprintf (Some spurious_fmt) [CInt (of_nat c), CInt (ucast (tf_cs tf)), CInt (tf_eip tf)]) lapiceoi)
     else bindk (getk curproc) (\<lambda>r. case r of
       None \<Rightarrow> bindk (cpunum ra) (\<lambda>c. seqk (cprintf (Some unexpected_fmt) [CInt n, CInt (of_nat c), CInt (tf_eip tf), CInt cr2]) (panick ''trap''))
     | Some p \<Rightarrow> if tf_cs tf AND 3 = 0
         then bindk (cpunum ra) (\<lambda>c. seqk (cprintf (Some unexpected_fmt) [CInt n, CInt (of_nat c), CInt (tf_eip tf), CInt cr2]) (panick ''trap''))
         else bindk (getk (\<lambda>s. ptable s p)) (\<lambda>q. bindk (cpunum ra) (\<lambda>c.
           seqk (cprintf (Some user_trap_fmt) [CInt (p_pid q), CStr (Some (p_name q)), CInt n, CInt (tf_err tf), CInt (of_nat c),
               CInt (tf_eip tf), CInt cr2])
             (modk (upd_proc p (\<lambda>q. q\<lparr>p_killed := 1\<rparr>)))))))"

text \<open>What \<open>trap\<close> does after an interrupt or fault is handled. The end of it, the check after \<open>yield\<close>, is also
  what a process that gave up the CPU continues with when it is scheduled again.\<close>

definition trap_end :: "trapframe \<Rightarrow> ('a kinput_scheme, unit) kop" where
  "trap_end tf = exit_if_killed tf"

definition trap_leave :: "trapframe \<Rightarrow> ('a kinput_scheme, unit) kop" where
  "trap_leave tf = seqk (exit_if_killed tf)
     (seqk (bindk (getk (\<lambda>s. case curproc s of None \<Rightarrow> False | Some p \<Rightarrow> p_state (ptable s p) = RUNNING)) (\<lambda>r.
        unlessk (\<not> (r \<and> tf_trapno tf = T_IRQ0)) yield)) (trap_end tf))"

definition trap_resume :: "trapframe \<Rightarrow> ('a kinput_scheme, unit) kop" where
  "trap_resume tf = seqk yield_resume (trap_end tf)"

text \<open>A system call. One that sleeps gives up the CPU in the middle of \<open>syscall\<close>; when the process is scheduled
  again, it runs the rest of \<open>syscall\<close>, \<open>rest\<close>, and then the end of \<open>trap\<close>.\<close>

definition trap_syscall_end :: "('a kinput_scheme, unit) kop" where
  "trap_syscall_end = withproc (\<lambda>p. bindk (getk (\<lambda>s. p_killed (ptable s p))) (\<lambda>k. unlessk (k = 0) exit))"

definition trap_syscall :: "u32 \<Rightarrow> locals \<Rightarrow> trapframe \<Rightarrow> ('a kinput_scheme, unit) kop" where
  "trap_syscall ra ka tf = withproc (\<lambda>p. bindk (getk (\<lambda>s. p_killed (ptable s p))) (\<lambda>k.
     seqk (unlessk (k = 0) exit) (seqk (modk (upd_proc p (\<lambda>q. q\<lparr>p_tf := tf\<rparr>))) (seqk (syscall (syscalls ra ka)) trap_syscall_end))))"

definition trap_syscall_resume :: "('a kinput_scheme, unit) kop \<Rightarrow> ('a kinput_scheme, unit) kop" where
  "trap_syscall_resume rest = seqk rest trap_syscall_end"

definition trap :: "u32 \<Rightarrow> locals \<Rightarrow> (u32 \<times> u32) list \<Rightarrow> u32 \<Rightarrow> trapframe \<Rightarrow> ('a kdev_scheme, unit) kop" where
  "trap ra ka ports cr2 tf = (if tf_trapno tf = T_SYSCALL then trap_syscall ra ka tf
     else seqk (trap_device ra ports cr2 tf) (trap_leave tf))"

section \<open>The input ring\<close>

text \<open>The ring of console input when the reader is at \<open>r\<close>: the finished lines end at \<open>w\<close>, the line
  that is edited at \<open>e\<close>, and all fit into the buffer. The lock that \<open>wakeup\<close> takes is free.\<close>

definition input_ok :: "u32 \<Rightarrow> 'a kinput_scheme \<Rightarrow> bool" where
  "input_ok r s \<longleftrightarrow> input_r s = r \<and> unat (input_w s - r) \<le> unat (input_e s - r) \<and> unat (input_e s - r) \<le> 128
     \<and> lk_free PtableLk s \<and> cpu_wf (thiscpu s)"

definition same_input :: "'a kinput_scheme \<Rightarrow> 'a kinput_scheme \<Rightarrow> bool" where
  "same_input s t \<longleftrightarrow> input_r t = input_r s \<and> input_w t = input_w s \<and> input_e t = input_e s
     \<and> slocks t = slocks s \<and> cpus t = cpus s \<and> cur_cpu t = cur_cpu s"

lemma same_input_uart: "uartputc c s = Done () t \<Longrightarrow> same_input s t"
  by (auto simp: uartputc_def same_input_def)

lemma same_input_cga: "cgaputc c s = Done () t \<Longrightarrow> same_input s t"
  by (auto simp: cgaputc_def same_input_def Let_def split: if_splits prod.splits)

lemma same_input_trans: "same_input s t \<Longrightarrow> same_input t u \<Longrightarrow> same_input s u"
  by (simp add: same_input_def)

lemma consputc_frame:
  assumes "consputc c s = Done () t"
  shows "same_input s t"
proof -
  obtain u where u: "(if c = BACKSPACE then seqk (uartputc 8) (seqk (uartputc 0x20) (uartputc 8)) else uartputc c) s = Done () u"
    "cgaputc c u = Done () t"
    using assms by (auto simp: consputc_def seqk_eq_Done simp del: bindk_assoc_apply split: if_splits)
  have "same_input s u"
  proof (cases "c = BACKSPACE")
    case True
    then show ?thesis using u(1) same_input_uart same_input_trans by (simp add: seqk_eq_Done) blast
  next
    case False
    then show ?thesis using u(1) same_input_uart by simp
  qed
  then show ?thesis using same_input_cga [OF u(2)] same_input_trans by blast
qed

lemma input_ok_consputc: "consputc c s = Done () t \<Longrightarrow> input_ok r t = input_ok r s"
  by (drule consputc_frame) (simp add: input_ok_def lk_free_def same_input_def)

lemma input_ok_back:
  assumes "input_ok r s" and "input_e s \<noteq> input_w s"
  shows "input_ok r (s\<lparr>input_e := input_e s - 1\<rparr>)"
proof -
  have "input_e s - r \<noteq> input_w s - r" using assms(2) by simp
  then have "unat (input_w s - r) \<noteq> unat (input_e s - r)" by (metis unsigned_word_eqI)
  with assms(1) have lt: "unat (input_w s - r) < unat (input_e s - r)" by (simp add: input_ok_def)
  then have "input_e s - r \<noteq> 0" by auto
  then have "unat (input_e s - r - 1) = unat (input_e s - r) - 1" by (rule unat_minus_one)
  then have "unat (input_e s - 1 - r) = unat (input_e s - r) - 1" by (simp only: diff_right_commute [of "input_e s" 1 r])
  then show ?thesis using assms(1) lt by (auto simp add: input_ok_def lk_free_def)
qed

lemma input_ok_push:
  assumes "input_ok r s" and "input_e s - r < INPUT_BUF"
  shows "input_ok r (s\<lparr>input_buf := b, input_e := input_e s + 1\<rparr>)"
proof -
  have lt: "unat (input_e s - r) < 128" using assms(2) by (simp add: INPUT_BUF_def word_less_nat_alt)
  then have "unat ((input_e s - r) + 1) = Suc (unat (input_e s - r))"
    by (subst unat_add_lem [THEN iffD1]) simp_all
  then have "unat (input_e s + 1 - r) = Suc (unat (input_e s - r))" by (simp only: diff_add_eq [symmetric])
  then show ?thesis using assms(1) lt by (simp add: input_ok_def lk_free_def)
qed

lemma input_ok_wakeup:
  assumes "input_ok r s" and "wakeup ch (s\<lparr>input_w := input_e s\<rparr>) = Done () t"
  shows "input_ok r t"
proof -
  let ?s = "s\<lparr>input_w := input_e s\<rparr>"
  have f: "lk_free PtableLk ?s" "cpu_wf (thiscpu ?s)" using assms(1) by (simp_all add: input_ok_def lk_free_def)
  from wakeup_eq [OF this, of ch] assms(2)
  have t: "t = released PtableLk ((acquired PtableLk ?s)\<lparr>ptable := on_slots {..<NPROC} (wake_proc (Some ch)) (ptable ?s)\<rparr>)"
    by simp
  have "cpu_wf (thiscpu t)" "lk_free PtableLk t"
    using f(2) cpu_locked_acquired [of "thiscpu ?s"] unfolding t by (simp_all add: cpu_wf_released lk_free_def store_unlocked_def)
  moreover have "input_r t = input_r s" "input_w t = input_e s" "input_e t = input_e s"
    unfolding t by (simp_all add: released_def acquired_def)
  ultimately show ?thesis using assms(1) by (simp add: input_ok_def)
qed

lemma input_ok_kill_line: "input_ok r s \<Longrightarrow> kill_line k s = Done () t \<Longrightarrow> input_ok r t"
proof (induction k arbitrary: s)
  case (Suc k)
  show ?case
  proof (cases "input_e s \<noteq> input_w s \<and> buf_at (input_e s - 1) s \<noteq> 0x0A")
    case True
    then obtain u where u: "consputc BACKSPACE (s\<lparr>input_e := input_e s - 1\<rparr>) = Done () u" "kill_line k u = Done () t"
      using Suc.prems(2) by (auto simp: unlessk_def seqk_eq_Done)
    then show ?thesis using Suc.IH [OF _ u(2)] input_ok_back [OF Suc.prems(1)] True input_ok_consputc [OF u(1)] by simp
  next
    case False
    then show ?thesis using Suc.prems by (auto simp: unlessk_def retk_def)
  qed
qed (simp add: retk_def)

lemma input_ok_char:
  assumes "input_ok r s" and "input_char c s = Done () t"
  shows "input_ok r t"
proof (cases "c = 0 \<or> \<not> input_e s - input_r s < INPUT_BUF")
  case True
  then show ?thesis using assms by (auto simp: input_char_def unlessk_def retk_def)
next
  case False
  define c' where "c' = (if c = 0x0D then 0x0A else c)"
  let ?s = "s\<lparr>input_buf := (input_buf s)(unat (input_e s mod INPUT_BUF) := ucast c'), input_e := input_e s + 1\<rparr>"
  obtain u where u: "consputc c' ?s = Done () u" "t = u \<or> wakeup InputCh (u\<lparr>input_w := input_e u\<rparr>) = Done () t"
    using assms(2) False
    by (auto simp: input_char_def unlessk_def Let_def c'_def [symmetric] seqk_eq_Done bindk_eq_Done retk_def split: if_splits)
  have "input_ok r ?s" using assms(1) False by (intro input_ok_push) (simp_all add: input_ok_def)
  then have "input_ok r u" using input_ok_consputc [OF u(1)] by simp
  then show ?thesis using u(2) input_ok_wakeup by blast
qed

lemma input_ok_one:
  assumes "input_ok r s" and "consoleintr_one c s = Done b t"
  shows "input_ok r t"
proof -
  consider "t = s" | k where "kill_line k s = Done () t" | "input_char c s = Done () t"
    | "input_e s \<noteq> input_w s" "consputc BACKSPACE (s\<lparr>input_e := input_e s - 1\<rparr>) = Done () t"
    using assms(2)
    by (auto simp: consoleintr_one_def unlessk_def seqk_eq_Done bindk_eq_Done retk_def split: if_splits)
  then show ?thesis
    using assms(1) input_ok_kill_line input_ok_char input_ok_back input_ok_consputc by cases blast+
qed

section \<open>Leaving the kernel\<close>

lemma sched_not_Done: "sched s \<noteq> Done r t"
  by (auto simp: sched_def bindk_eq_Done seqk_eq_Done getk_def panick_def withproc_def split: if_splits option.splits)

lemma exit_not_Done: "exit s \<noteq> Done r t"
  by (auto simp: exit_def bindk_eq_Done seqk_eq_Done getk_def panick_def withproc_def sched_not_Done split: if_splits option.splits)

text \<open>The check of \<open>killed\<close> changes nothing and does not let a killed process out.\<close>

lemma exit_if_killed_Done:
  assumes "exit_if_killed tf s = Done () t" and "tf_cs tf AND 3 = 3"
  shows "t = s \<and> (case curproc s of None \<Rightarrow> True | Some p \<Rightarrow> p_killed (ptable s p) = 0)"
  using assms
  by (auto simp: exit_if_killed_def bindk_eq_Done getk_def unlessk_def retk_def exit_not_Done split: if_splits option.splits)

lemma trap_syscall_end_Done:
  assumes "trap_syscall_end s = Done () t" and "curproc t = Some p"
  shows "p_killed (ptable t p) = 0"
  using assms
  by (auto simp: trap_syscall_end_def withproc_def bindk_eq_Done getk_def unlessk_def retk_def exit_not_Done panick_def split: if_splits option.splits)

lemma trap_syscall_ends:
  assumes "trap_syscall ra ka tf s = Done () t"
  shows "\<exists>u. trap_syscall_end u = Done () t"
  using assms by (auto simp: trap_syscall_def withproc_def bindk_eq_Done seqk_eq_Done panick_def split: option.splits)

lemma curproc_upd_proc [simp]: "curproc (upd_proc i f s) = curproc s"
  by (simp add: curproc_def upd_proc_def)

lemma ptable_upd_proc [simp]: "ptable (upd_proc i f s) i = f (ptable s i)"
  by (simp add: upd_proc_def)

section \<open>Properties\<close>

text \<open>C12: a killed process does not get back to user mode through \<open>trap\<close>. Whenever \<open>trap\<close> returns from a system
  call, or from an interrupt or fault of user code, the current process of the CPU has not been
  killed. This holds when \<open>trap\<close> runs through, when it gave up the CPU at a clock tick and the process is
  scheduled again, and when the system call slept and, whatever it still does, ends later. It covers
  a process that \<open>kill\<close> marked while it was in the kernel or waited for the CPU and one that the fault
  itself marked.\<close>

theorem killed_never_returns:
  assumes "tf_trapno tf = T_SYSCALL \<and> (trap ra ka ports cr2 tf s = Done () t \<or> trap_syscall_resume rest s = Done () t)
      \<or> tf_cs tf AND 3 = 3 \<and> tf_trapno tf \<noteq> T_SYSCALL \<and> (trap ra ka ports cr2 tf s = Done () t \<or> trap_resume tf s = Done () t)"
    and "curproc t = Some p"
  shows "p_killed (ptable t p) = 0"
proof -
  consider u where "trap_syscall_end u = Done () t" | u where "exit_if_killed tf u = Done () t" "tf_cs tf AND 3 = 3"
    using assms(1) trap_syscall_ends [of ra ka tf s t]
    by (auto simp: trap_def trap_syscall_resume_def trap_resume_def trap_leave_def trap_end_def seqk_eq_Done split: if_splits)
  then show ?thesis
    using trap_syscall_end_Done [OF _ assms(2)] exit_if_killed_Done [of tf _ t] assms(2) by cases fastforce+
qed

text \<open>The path of a system call, for \<open>getpid\<close>. A process that is not killed or traced and enters
  the kernel with the number 11 in \<open>eax\<close> comes back with its process id in \<open>eax\<close>; the other
  registers of the trap frame, every other process and the rest of the machine are as before.\<close>

theorem getpid_through_trap:
  fixes s :: "'a kdev_scheme"
  assumes "curproc s = Some p" and "p_killed (ptable s p) = 0" and "p_straced (ptable s p) AND T_STRACE = 0"
    and "tf_trapno tf = T_SYSCALL" and "tf_eax tf = 11"
  shows "trap ra ka ports cr2 tf s = Done () (upd_proc p (\<lambda>q. q\<lparr>p_tf := tf\<lparr>tf_eax := p_pid (ptable s p)\<rparr>\<rparr>) s)"
proof -
  let ?s = "upd_proc p (\<lambda>q. q\<lparr>p_tf := tf\<rparr>) s" and ?n = "p_pid (ptable s p)"
  have c: "curproc ?s = Some p" using assms(1) by simp
  have h: "sys_getpid ?s = Done ?n ?s"
    using c by (simp add: sys_getpid_def withproc_Some getk_def)
  have "syscalls ra ka 11 = Some (sys_getpid :: ('a kdev_scheme, i32) kop)" by (simp add: syscalls_def)
  then have y: "syscall (syscalls ra ka) ?s = Done () (upd_proc p (set_eax ?n) ?s)"
    using assms(3,5) c h
    by (simp add: syscall_def withproc_Some Let_def unlessk_def bindk_Done syscall_return_def retk_def)
  have "upd_proc p (set_eax ?n) ?s = upd_proc p (\<lambda>q. q\<lparr>p_tf := tf\<lparr>tf_eax := ?n\<rparr>\<rparr>) s"
    by (simp add: upd_proc_def set_eax_def)
  moreover have "trap ra ka ports cr2 tf s = Done () (upd_proc p (set_eax ?n) ?s)"
    using assms(1,2,4) c y
    by (simp add: trap_def trap_syscall_def trap_syscall_end_def withproc_Some bindk_Done unlessk_def seqk_Done set_eax_def retk_def)
  ultimately show ?thesis by simp
qed

text \<open>A machine whose running process 3 enters the kernel.\<close>

definition trap_state :: kinput where
  "trap_state = kfile.extend file_state (kinput.fields (\<lambda>_. 0) 0 0 0 0)"

lemma trap_state_ok: "curproc trap_state = Some 3" "ptable trap_state = idle_table(3 := user_proc\<lparr>
     p_name := ''ls'', p_straced := 0, p_tf := null_tf\<lparr>tf_esp := 0x100, tf_eax := 11\<rparr>\<rparr>)"
  by (simp_all add: trap_state_def file_state_def log_state_def io_state_def trace_state_def user_kproc_def idle_defs curproc_def
      ktrace.defs kbuf.defs klog.defs kfs.defs kfile.defs kinput.defs)

lemma trap_state_locks: "lk_free PtableLk trap_state" "cpu_wf (thiscpu trap_state)"
  using log_state_ok(2) [of PtableLk 0 0] log_state_ok(3) [of 0 0]
  by (simp_all add: trap_state_def file_state_def kfs.defs klog.defs kfile.defs kinput.defs lk_free_def)

definition trap_machine :: kdev where
  "trap_machine = kinput.extend trap_state (kdev.fields (\<lambda>_. []) [] 0 0 (\<lambda>_. 0) 0 0 0 0 (\<lambda>_. \<lparr>off_15_0 = 0, g_cs = 0, g_args = 0, g_rsv1 = 0, g_type = 0, g_s = 0, g_dpl = 0, g_p = 0, off_31_16 = 0\<rparr>) (\<lambda>_. (0, 0)))"

lemma trap_machine_ok: "curproc trap_machine = Some 3" "ptable trap_machine = ptable trap_state" "lk_free PtableLk trap_machine"
    "cpu_wf (thiscpu trap_machine)"
  using trap_state_ok(1) trap_state_locks by (simp_all add: trap_machine_def kinput.defs kdev.defs curproc_def lk_free_def)

theorem getpid_through_trap_witness:
  "\<exists>t. trap 0 (\<lambda>_. 0) [] 0 (null_tf\<lparr>tf_trapno := 64, tf_eax := 11, tf_cs := 0x23\<rparr>) trap_machine = Done () t
    \<and> tf_eax (p_tf (ptable t 3)) = p_pid user_proc"
  by (subst getpid_through_trap [where p = 3])
    (simp_all add: trap_machine_ok trap_state_ok T_SYSCALL_def user_proc_def ready_proc_def null_proc_def upd_proc_def)

text \<open>The process of \<open>trap_machine\<close> after the scheduler has chosen it again, with \<open>ptable.lock\<close> held.\<close>

lemma trap_resume_machine: "\<exists>t. trap_resume tf (acquired PtableLk trap_machine) = Done () t \<and> curproc t = Some 3"
proof -
  let ?a = "acquired PtableLk trap_machine"
  let ?u = "upd_cpu (\<lambda>c. c\<lparr>intena := p_intena (ptable ?a 3)\<rparr>) ?a"
  have a: "curproc ?a = Some 3" "ptable ?a = ptable trap_state" using trap_machine_ok(1,2) by (simp_all add: acquired_def curproc_def acquired_cpu_def)
  have "cpu_locked (thiscpu ?a)" using trap_machine_ok(4) by simp
  then have u: "holding PtableLk ?u" "cpu_locked (thiscpu ?u)" "curproc ?u = Some 3" "ptable ?u = ptable trap_state"
    using a by (simp_all add: upd_cpu_def holding_def lk_holding_def cpu_locked_def acquired_def curproc_def)
  let ?t = "released PtableLk ?u"
  have t: "curproc ?t = Some 3" "ptable ?t = ptable trap_state"
    using u(3,4) by (simp_all add: released_def curproc_def released_cpu_def)
  have r: "sched_resume ?a = Done () ?u" using a by (simp add: sched_resume_def withproc_Some)
  have y: "yield_resume ?a = Done () ?t"
    unfolding yield_resume_def seqk_Done [where m = sched_resume and s = ?a, OF r] by (rule release_Done [OF u(1,2)])
  have k: "p_killed (ptable trap_state 3) = 0" by (simp add: trap_state_ok user_proc_def ready_proc_def null_proc_def)
  have "trap_resume tf ?a = Done () ?t"
    using t k by (simp add: trap_resume_def trap_end_def seqk_Done [where m = yield_resume and s = ?a, OF y] exit_if_killed_def unlessk_def retk_def)
  then show ?thesis using t(1) by blast
qed

theorem killed_never_returns_witness:
  "\<exists>t. trap_resume (null_tf\<lparr>tf_trapno := 32, tf_cs := 0x23\<rparr>) (acquired PtableLk trap_machine) = Done () t \<and> p_killed (ptable t 3) = 0"
proof -
  obtain t where t: "trap_resume (null_tf\<lparr>tf_trapno := 32, tf_cs := 0x23\<rparr>) (acquired PtableLk trap_machine) = Done () t" "curproc t = Some 3"
    using trap_resume_machine by blast
  then show ?thesis
    using killed_never_returns [where tf = "null_tf\<lparr>tf_trapno := 32, tf_cs := 0x23\<rparr>" and s = "acquired PtableLk trap_machine" and t = t and p = 3]
    by (auto simp: T_SYSCALL_def)
qed

text \<open>C28: the ring of console input does not overrun. Whatever characters the keyboard or the serial
  line delivers (text, line ends, Control-U, backspace), after they are handled the position of
  the reader is unchanged, the finished lines are a part of what is in the ring, and at most 128
  characters are in it, with the three counters wrapping around at 32 bits.\<close>

theorem console_input_bounded:
  assumes "input_ok r s" and "consoleintr_loop cs d s = Done d' t"
  shows "input_ok r t"
  using assms
proof (induction cs arbitrary: d s)
  case (Cons c cs)
  then obtain b u where "consoleintr_one c s = Done b u" "consoleintr_loop cs (d \<or> b) u = Done d' t"
    by (auto simp: bindk_eq_Done)
  then show ?case using Cons input_ok_one by blast
qed (simp add: retk_def)

theorem console_input_bounded_witness:
  "\<exists>t. consoleintr_loop [0x10, 0x08, 0x15] False trap_state = Done True t \<and> unat (input_e t - input_r t) \<le> 128"
proof -
  have i: "input_r trap_state = 0" "input_w trap_state = 0" "input_e trap_state = 0"
    by (simp_all add: trap_state_def kinput.defs kfile.defs)
  with trap_state_locks have "input_ok 0 trap_state" by (simp add: input_ok_def)
  moreover have "consoleintr_loop [0x10, 0x08, 0x15] False trap_state = Done True trap_state"
    using i by (simp add: consoleintr_one_def unlessk_def retk_def bindk_Done seqk_Done)
  ultimately show ?thesis using console_input_bounded [of 0 trap_state "[0x10, 0x08, 0x15]" False True trap_state] by (auto simp: input_ok_def)
qed

end
