(* ===== verification/Device.thy ===== *)
theory Device
  imports Trap
begin

text \<open>
  The devices other than the disk: the interrupt controllers (\<open>src/picirq.c\<close>, \<open>src/ioapic.c\<close>, \<open>src/lapic.c\<close>), the
  timer (\<open>src/timer.c\<close>), the serial port (\<open>uartinit\<close> of \<open>src/uart.c\<close>), the clock (\<open>cmostime\<close> of \<open>src/lapic.c\<close>), the
  search for other processors (\<open>src/mp.c\<close>) and the interrupt descriptor table (\<open>tvinit\<close> and \<open>idtinit\<close> of
  \<open>src/trap.c\<close>), on the registers of \<open>Ports\<close>.
\<close>

section \<open>The interrupt controllers and the timer\<close>

definition IRQ_TIMER :: nat where "IRQ_TIMER = 0"
definition IRQ_KBD :: nat where "IRQ_KBD = 1"
definition IRQ_COM1 :: nat where "IRQ_COM1 = 4"
definition IRQ_IDE :: nat where "IRQ_IDE = 14"
definition IRQ_ERROR :: nat where "IRQ_ERROR = 19"
definition IRQ_SPURIOUS :: nat where "IRQ_SPURIOUS = 31"

definition picsetmask :: "u16 \<Rightarrow> ('a kdev_scheme, unit) kop" where
  "picsetmask msk = seqk (modk (\<lambda>s. s\<lparr>irqmask := msk\<rparr>))
     (seqk (outb 0x21 (ucast msk)) (outb 0xA1 (ucast (drop_bit 8 msk))))"

definition picenable :: "nat \<Rightarrow> ('a kdev_scheme, unit) kop" where
  "picenable irq = bindk (getk irqmask) (\<lambda>m. picsetmask (m AND NOT (push_bit irq 1)))"

definition picinit :: "('a kdev_scheme, unit) kop" where
  "picinit = seqk (outbs [(0x21, 0xFF), (0xA1, 0xFF), (0x20, 0x11), (0x21, T_IRQ0), (0x21, push_bit 2 1), (0x21, 3),
       (0xA0, 0x11), (0xA1, T_IRQ0 + 8), (0xA1, 2), (0xA1, 3), (0x20, 0x68), (0x20, 0x0a), (0xA0, 0x68), (0xA0, 0x0a)])
     (bindk (getk irqmask) (\<lambda>m. unlessk (m = 0xFFFF) (picsetmask m)))"

definition ioapicread :: "u32 \<Rightarrow> ('a kdev_scheme, u32) kop" where
  "ioapicread reg = seqk (dev_write IoapicReg reg) (bindk (getk (\<lambda>s. last_out IoapicReg (dev_out s))) (\<lambda>r. dev_read (Ioapic r)))"

definition ioapicwrite :: "u32 \<Rightarrow> u32 \<Rightarrow> ('a kdev_scheme, unit) kop" where
  "ioapicwrite reg data = seqk (dev_write IoapicReg reg) (dev_write IoapicData data)"

definition ioapicinit :: "('a kdev_scheme, unit) kop" where
  "ioapicinit = bindk (getk ismp) (\<lambda>b. unlessk (b = 0) (seqk (modk (\<lambda>s. s\<lparr>ioapic := 0xFEC00000\<rparr>))
     (bindk (ioapicread 1) (\<lambda>v. bindk (ioapicread 0) (\<lambda>w. bindk (getk ioapicid) (\<lambda>i.
       seqk (unlessk (drop_bit 24 w = ucast i)
           (cprintf (Some (''ioapicinit: id isn'' @ [CHR 0x27] @ ''t equal to ioapicid; not a MP'' @ [CHR 0x0A])) []))
         (forallk (\<lambda>i. seqk (ioapicwrite (0x10 + 2 * of_nat i) (0x10000 OR (T_IRQ0 + of_nat i)))
             (ioapicwrite (0x10 + 2 * of_nat i + 1) 0))
           [0..<Suc (unat (drop_bit 16 v AND 0xFF))])))))))"

definition ioapicenable :: "nat \<Rightarrow> u32 \<Rightarrow> ('a kdev_scheme, unit) kop" where
  "ioapicenable irq cpu = bindk (getk ismp) (\<lambda>b. unlessk (b = 0)
     (seqk (ioapicwrite (0x10 + 2 * of_nat irq) (T_IRQ0 + of_nat irq))
       (ioapicwrite (0x10 + 2 * of_nat irq + 1) (push_bit 24 cpu))))"

definition TIMER_DIV :: "nat \<Rightarrow> nat" where
  "TIMER_DIV x = (1193182 + x div 2) div x"

definition timerinit :: "('a kdev_scheme, unit) kop" where
  "timerinit = seqk (outbs [(0x43, 0x34), (0x40, of_nat (TIMER_DIV 100 mod 256)), (0x40, of_nat (TIMER_DIV 100 div 256))])
     (picenable IRQ_TIMER)"

section \<open>The serial port and the console\<close>

definition uartinit :: "('a kdev_scheme, unit) kop" where
  "uartinit = seqk (outbs [(0x3fa, 0), (0x3fb, 0x80), (0x3f8, 115200 div 9600), (0x3f9, 0), (0x3fb, 3), (0x3fc, 0), (0x3f9, 1)])
     (bindk (inb 0x3fd) (\<lambda>v. unlessk (v = 0xFF) (seqk (modk (\<lambda>s. s\<lparr>has_uart := 1\<rparr>))
       (seqk (inb 0x3fa) (seqk (inb 0x3f8) (seqk (picenable IRQ_COM1) (seqk (ioapicenable IRQ_COM1 0)
         (forallk (\<lambda>c. uartputc (of_char c)) (''xv6...'' @ [CHR 0x0A])))))))))"

text \<open>\<open>consoleinit\<close> with its last two statements.\<close>

definition consoleinit_irq :: "('a kdev_scheme, unit) kop" where
  "consoleinit_irq = seqk consoleinit (seqk (picenable IRQ_KBD) (ioapicenable IRQ_KBD 0))"

section \<open>The local APIC\<close>

definition lapicws :: "(nat \<times> u32) list \<Rightarrow> ('a kdev_scheme, unit) kop" where
  "lapicws = forallk (\<lambda>(i, v). lapicw i v)"

definition lapicinit :: "('a kdev_scheme, unit) kop" where
  "lapicinit = bindk (getk lapic) (\<lambda>l. unlessk (l = 0)
     (seqk (lapicws [(0xF0 div 4, 0x100 OR (T_IRQ0 + of_nat IRQ_SPURIOUS)), (0x3E0 div 4, 0xB),
         (0x320 div 4, 0x20000 OR (T_IRQ0 + of_nat IRQ_TIMER)), (0x380 div 4, 10000000),
         (0x350 div 4, 0x10000), (0x360 div 4, 0x10000)])
       (bindk (dev_read (Lapic (0x30 div 4))) (\<lambda>v. seqk (unlessk (drop_bit 16 v AND 0xFF < 4) (lapicw (0x340 div 4) 0x10000))
         (seqk (lapicws [(0x370 div 4, T_IRQ0 + of_nat IRQ_ERROR), (0x280 div 4, 0), (0x280 div 4, 0), (0xB0 div 4, 0),
             (0x310 div 4, 0), (0x300 div 4, 0x80000 OR 0x500 OR 0x8000)])
           (seqk (dev_wait (Lapic (0x300 div 4)) (\<lambda>v. v AND 0x1000 = 0)) (lapicw (0x80 div 4) 0)))))))"

text \<open>The part of \<open>cpunum\<close> after the check of the interrupt flag.\<close>

definition cpunum_lookup :: "('a kdev_scheme, nat) kop" where
  "cpunum_lookup = bindk (getk lapic) (\<lambda>l. if l = 0 then retk 0
     else bindk (dev_read (Lapic 8)) (\<lambda>v. bindk (getk (\<lambda>s. (ncpu s, apicids s))) (\<lambda>(n, ids).
       case find_index (\<lambda>i. ucast (ids i) = drop_bit 24 v) (nat (sint n)) of
         Some i \<Rightarrow> retk i | None \<Rightarrow> panick (''unknown apicid'' @ [CHR 0x0A]))))"

definition microdelay :: "i32 \<Rightarrow> ('a kdev_scheme, unit) kop" where
  "microdelay us = retk ()"

definition store16 :: "memory \<Rightarrow> u32 \<Rightarrow> u16 \<Rightarrow> memory" where
  "store16 m a v = m(a := ucast v, a + 1 := ucast (drop_bit 8 v))"

definition lapicstartap :: "u8 \<Rightarrow> u32 \<Rightarrow> ('a kdev_scheme, unit) kop" where
  "lapicstartap apicid addr = seqk (outbs [(0x70, 0xF), (0x71, 0x0A)])
     (seqk (modk (\<lambda>s. s\<lparr>mem := store16 (store16 (mem s) (P2V 0x467) 0) (P2V 0x467 + 2) (ucast (drop_bit 4 addr))\<rparr>))
       (seqk (lapicws [(0x310 div 4, push_bit 24 (ucast apicid)), (0x300 div 4, 0x500 OR 0x8000 OR 0x4000)])
         (seqk (microdelay 200) (seqk (lapicw (0x300 div 4) (0x500 OR 0x8000)) (seqk (microdelay 100)
           (forallk (\<lambda>_. seqk (lapicws [(0x310 div 4, push_bit 24 (ucast apicid)), (0x300 div 4, 0x600 OR drop_bit 12 addr)])
               (microdelay 200)) [0..<2 :: nat]))))))"

section \<open>The clock\<close>

record rtcdate =
  second :: u32
  minute :: u32
  hour :: u32
  day :: u32
  month :: u32
  year :: u32

definition cmos_read :: "u32 \<Rightarrow> ('a kdev_scheme, u32) kop" where
  "cmos_read reg = seqk (outb 0x70 reg) (seqk (microdelay 200) (inb 0x71))"

definition fill_rtcdate :: "('a kdev_scheme, rtcdate) kop" where
  "fill_rtcdate = bindk (cmos_read 0) (\<lambda>s. bindk (cmos_read 2) (\<lambda>m. bindk (cmos_read 4) (\<lambda>h.
     bindk (cmos_read 7) (\<lambda>d. bindk (cmos_read 8) (\<lambda>mo. bindk (cmos_read 9) (\<lambda>y.
       retk \<lparr>second = s, minute = m, hour = h, day = d, month = mo, year = y\<rparr>))))))"

text \<open>The loop of \<open>cmostime\<close>; \<open>None\<close> is a loop that does not end.\<close>

partial_function (option) cmostime_loop :: "'a kdev_scheme \<Rightarrow> (rtcdate \<times> 'a kdev_scheme) option" where
  [code]: "cmostime_loop s = (case fill_rtcdate s of Done t1 s1 \<Rightarrow> (case cmos_read 0xa s1 of Done a s2 \<Rightarrow>
       if a AND 0x80 \<noteq> 0 then cmostime_loop s2
       else (case fill_rtcdate s2 of Done t2 s3 \<Rightarrow> if t1 = t2 then Some (t1, s3) else cmostime_loop s3 | _ \<Rightarrow> None)
     | _ \<Rightarrow> None) | _ \<Rightarrow> None)"

definition CONV :: "u32 \<Rightarrow> u32" where
  "CONV x = drop_bit 4 x * 10 + (x AND 0xf)"

text \<open>The conversion of a date in binary coded decimal.\<close>

definition conv_date :: "rtcdate \<Rightarrow> rtcdate" where
  "conv_date t = \<lparr>second = CONV (second t), minute = CONV (minute t), hour = CONV (hour t), day = CONV (day t),
     month = CONV (month t), year = CONV (year t)\<rparr>"

definition cmostime :: "('a kdev_scheme, rtcdate) kop" where
  "cmostime = bindk (cmos_read 0xb) (\<lambda>sb s. case cmostime_loop s of None \<Rightarrow> Spin
     | Some (t, s') \<Rightarrow> (let t1 = (if sb AND 4 = 0 then conv_date t else t) in Done (t1\<lparr>year := year t1 + 2000\<rparr>) s'))"

section \<open>The configuration tables of a multiprocessor\<close>

definition NCPU :: i32 where "NCPU = 8"

fun sum_loop :: "memory \<Rightarrow> u32 \<Rightarrow> nat \<Rightarrow> i32 \<Rightarrow> i32" where
  "sum_loop m a 0 acc = acc"
| "sum_loop m a (Suc n) acc = sum_loop m (a + 1) n (acc + ucast (m a))"

definition mp_sum :: "memory \<Rightarrow> u32 \<Rightarrow> nat \<Rightarrow> u8" where
  "mp_sum m a n = ucast (sum_loop m a n 0)"

definition load16 :: "memory \<Rightarrow> u32 \<Rightarrow> u32" where
  "load16 m a = ucast (m a) OR push_bit 8 (ucast (m (a + 1)))"

text \<open>The loop of \<open>mpsearch1\<close>; the last argument bounds its rounds.\<close>

fun mpsearch1_loop :: "memory \<Rightarrow> u32 \<Rightarrow> u32 \<Rightarrow> nat \<Rightarrow> u32 option" where
  "mpsearch1_loop m p e 0 = None"
| "mpsearch1_loop m p e (Suc n) = (if p < e
     then if bytes_at m p [0x5F, 0x4D, 0x50, 0x5F] \<and> mp_sum m p 16 = 0 then Some p else mpsearch1_loop m (p + 16) e n
     else None)"

definition mpsearch1 :: "memory \<Rightarrow> u32 \<Rightarrow> u32 \<Rightarrow> u32 option" where
  "mpsearch1 m a len = mpsearch1_loop m (P2V a) (P2V a + len) (Suc (unat len div 16))"

definition mpsearch :: "memory \<Rightarrow> u32 option" where
  "mpsearch m = (let bda = P2V 0x400; p = push_bit 4 (load16 m (bda + 0xE)) in
     case (if p \<noteq> 0 then mpsearch1 m p 1024 else mpsearch1 m (load16 m (bda + 0x13) * 1024 - 1024) 1024) of
       Some mp \<Rightarrow> Some mp | None \<Rightarrow> mpsearch1 m 0xF0000 0x10000)"

definition mpconfig :: "memory \<Rightarrow> (u32 \<times> u32) option" where
  "mpconfig m = (case mpsearch m of None \<Rightarrow> None | Some mp \<Rightarrow>
     if load32 m (mp + 4) = 0 then None
     else let conf = P2V (load32 m (mp + 4)) in
       if \<not> bytes_at m conf [0x50, 0x43, 0x4D, 0x50] then None
       else if m (conf + 6) \<noteq> 1 \<and> m (conf + 6) \<noteq> 4 then None
       else if mp_sum m conf (unat (load16 m (conf + 4))) \<noteq> 0 then None
       else Some (mp, conf))"

record mpinfo =
  mi_ismp :: i32
  mi_ncpu :: i32
  mi_apicids :: "nat \<Rightarrow> u8"
  mi_ioapicid :: u8

definition mp_proc :: "u8 \<Rightarrow> mpinfo \<Rightarrow> mpinfo" where
  "mp_proc a i = (if sint (mi_ncpu i) < sint NCPU
     then i\<lparr>mi_apicids := (mi_apicids i)(nat (sint (mi_ncpu i)) := a), mi_ncpu := mi_ncpu i + 1\<rparr> else i)"

text \<open>The loop of \<open>mpinit\<close> over the entries of the table. The \<open>break\<close> of the \<open>default\<close> case leaves the
  \<open>switch\<close> only, so the loop goes on at the same entry.\<close>

partial_function (option) mpinit_loop :: "memory \<Rightarrow> u32 \<Rightarrow> u32 \<Rightarrow> mpinfo \<Rightarrow> mpinfo option" where
  [code]: "mpinit_loop m p e i = (if p < e then
       if m p = 0 then mpinit_loop m (p + 20) e (mp_proc (m (p + 1)) i)
       else if m p = 2 then mpinit_loop m (p + 8) e (i\<lparr>mi_ioapicid := m (p + 1)\<rparr>)
       else if m p = 1 \<or> m p = 3 \<or> m p = 4 then mpinit_loop m (p + 8) e i
       else mpinit_loop m p e (i\<lparr>mi_ismp := 0\<rparr>)
     else Some i)"

text \<open>The variables the loop assigns, read from and written back to the state.\<close>

definition mp_get :: "'a kdev_scheme \<Rightarrow> mpinfo" where
  "mp_get s = \<lparr>mi_ismp = ismp s, mi_ncpu = ncpu s, mi_apicids = apicids s, mi_ioapicid = ioapicid s\<rparr>"

definition mp_put :: "mpinfo \<Rightarrow> 'a kdev_scheme \<Rightarrow> 'a kdev_scheme" where
  "mp_put i s = s\<lparr>ismp := mi_ismp i, ncpu := mi_ncpu i, apicids := mi_apicids i, ioapicid := mi_ioapicid i\<rparr>"

definition mpinit_scan :: "u32 \<Rightarrow> ('a kdev_scheme, unit) kop" where
  "mpinit_scan conf s = (case mpinit_loop (mem s) (conf + 44) (conf + load16 (mem s) (conf + 4)) (mp_get s) of
     None \<Rightarrow> Spin | Some i \<Rightarrow> Done () (mp_put i s))"

text \<open>The end of \<open>mpinit\<close>, which masks the external interrupts.\<close>

definition mpinit_imcr :: "u32 \<Rightarrow> ('a kdev_scheme, unit) kop" where
  "mpinit_imcr mp = bindk (getk (\<lambda>s. mem s (mp + 12))) (\<lambda>imcrp. unlessk (imcrp = 0)
     (seqk (outb 0x22 0x70) (bindk (inb 0x23) (\<lambda>v. outb 0x23 (v OR 1)))))"

definition mpinit :: "('a kdev_scheme, unit) kop" where
  "mpinit = bindk (getk (\<lambda>s. mpconfig (mem s))) (\<lambda>r. case r of None \<Rightarrow> retk () | Some (mp, conf) \<Rightarrow>
     seqk (modk (\<lambda>s. s\<lparr>ismp := 1, lapic := load32 (mem s) (conf + 36)\<rparr>))
       (seqk (mpinit_scan conf) (bindk (getk ismp) (\<lambda>b.
          if b = 0 then modk (\<lambda>s. s\<lparr>ncpu := 1, lapic := 0, ioapicid := 0\<rparr>) else mpinit_imcr mp))))"

section \<open>The interrupt descriptor table\<close>

definition SETGATE :: "bool \<Rightarrow> u16 \<Rightarrow> u32 \<Rightarrow> 2 word \<Rightarrow> gatedesc" where
  "SETGATE istrap sel off d = \<lparr>off_15_0 = ucast (off AND 0xffff), g_cs = sel, g_args = 0, g_rsv1 = 0,
     g_type = (if istrap then 0xF else 0xE), g_s = 0, g_dpl = d, g_p = 1, off_31_16 = ucast (drop_bit 16 off)\<rparr>"

text \<open>\<open>vectors\<close> is the generated table of entry points.\<close>

definition tvinit :: "(nat \<Rightarrow> u32) \<Rightarrow> ('a kdev_scheme, unit) kop" where
  "tvinit vectors = seqk (forallk (\<lambda>i. modk (\<lambda>s. s\<lparr>idt := (idt s)(i := SETGATE False (push_bit 3 (of_nat SEG_KCODE)) (vectors i) 0)\<rparr>)) [0..<256])
     (seqk (modk (\<lambda>s. s\<lparr>idt := (idt s)(64 := SETGATE True (push_bit 3 (of_nat SEG_KCODE)) (vectors 64) (ucast DPL_USER))\<rparr>))
       (initlock TicksLk ''time''))"

text \<open>\<open>lidt\<close> loads the address and the limit of the table.\<close>

definition idtinit :: "u32 \<Rightarrow> ('a kdev_scheme, unit) kop" where
  "idtinit idt_addr = modk (\<lambda>s. s\<lparr>idtr := (idtr s)(cur_cpu s := (idt_addr, 256 * 8 - 1))\<rparr>)"

section \<open>What the routines read\<close>

lemma wait_in_eq: "\<forall>v \<in> set vs. \<not> P v \<Longrightarrow> P w \<Longrightarrow> wait_in P (vs @ w # ws) = Some (next_in (w # ws))"
proof (induction vs)
  case Nil
  then show ?case by (cases ws) simp_all
next
  case (Cons v vs)
  then show ?case by (cases "vs @ w # ws") auto
qed

lemma wait_in_None: "wait_in P vs = None \<longleftrightarrow> (\<forall>v \<in> set vs. \<not> P v) \<and> (vs = [] \<longrightarrow> \<not> P 0)"
  by (induction P vs rule: wait_in.induct) auto

lemma dev_wait_Spin: "dev_wait r P s = Spin \<longleftrightarrow> (\<forall>v \<in> set (dev_in s r). \<not> P v) \<and> (dev_in s r = [] \<longrightarrow> \<not> P 0)"
  by (simp add: dev_wait_def wait_in_None [symmetric] split: option.split)

lemma next_in_Cons: "vs \<noteq> [] \<Longrightarrow> next_in (v # vs) = (v, vs)"
  by (cases vs) simp_all

section \<open>The entries of the table\<close>

text \<open>The entries \<open>mpinit\<close> distinguishes: a processor, an I/O APIC, and a bus, an interrupt or a
  local interrupt, which it skips.\<close>

datatype mpentry = MpProc u8 | MpIoapic u8 | MpSkip u8

fun entry_size :: "mpentry \<Rightarrow> u32" where
  "entry_size (MpProc _) = 20"
| "entry_size (MpIoapic _) = 8"
| "entry_size (MpSkip _) = 8"

fun entry_bytes :: "mpentry \<Rightarrow> memory \<Rightarrow> u32 \<Rightarrow> bool" where
  "entry_bytes (MpProc a) m p \<longleftrightarrow> m p = 0 \<and> m (p + 1) = a"
| "entry_bytes (MpIoapic a) m p \<longleftrightarrow> m p = 2 \<and> m (p + 1) = a"
| "entry_bytes (MpSkip t) m p \<longleftrightarrow> m p = t \<and> (t = 1 \<or> t = 3 \<or> t = 4)"

text \<open>\<open>table_at m p e es q\<close>: the entries \<open>es\<close> lie one after the other from \<open>p\<close> on, each starting
  before \<open>e\<close>, and \<open>q\<close> is the address after the last one.\<close>

fun table_at :: "memory \<Rightarrow> u32 \<Rightarrow> u32 \<Rightarrow> mpentry list \<Rightarrow> u32 \<Rightarrow> bool" where
  "table_at m p e [] q \<longleftrightarrow> q = p"
| "table_at m p e (x # xs) q \<longleftrightarrow> p < e \<and> entry_bytes x m p \<and> table_at m (p + entry_size x) e xs q"

fun mp_apply :: "mpentry \<Rightarrow> mpinfo \<Rightarrow> mpinfo" where
  "mp_apply (MpProc a) i = mp_proc a i"
| "mp_apply (MpIoapic a) i = i\<lparr>mi_ioapicid := a\<rparr>"
| "mp_apply (MpSkip _) i = i"

definition bad_entry :: "u8 \<Rightarrow> bool" where
  "bad_entry t \<longleftrightarrow> t \<notin> {0, 1, 2, 3, 4}"

lemma mpinit_loop_table: "table_at m p e es q \<Longrightarrow> mpinit_loop m p e i = mpinit_loop m q e (fold mp_apply es i)"
proof (induction es arbitrary: p i)
  case (Cons x xs)
  then show ?case by (cases x) (auto simp: mpinit_loop.simps [of m p])
qed simp

lemma mpinit_loop_end: "\<not> p < e \<Longrightarrow> mpinit_loop m p e i = Some i"
  by (simp add: mpinit_loop.simps)

lemma mpinit_loop_bad:
  assumes "mpinit_loop m p e i = Some j"
  shows "\<not> (p < e \<and> bad_entry (m p))"
  using assms
  by (rule mpinit_loop.raw_induct [where P = "\<lambda>m p e i j. \<not> (p < e \<and> bad_entry (m p))", rotated])
    (fastforce simp: bad_entry_def split: if_splits)

text \<open>The processors the table lists, up to \<open>NCPU\<close> of them, are numbered in the order of their entries.\<close>

fun procs_of :: "mpentry list \<Rightarrow> u8 list" where
  "procs_of [] = []"
| "procs_of (MpProc a # es) = a # procs_of es"
| "procs_of (_ # es) = procs_of es"

definition cpu_ids :: "mpinfo \<Rightarrow> u8 list" where
  "cpu_ids i = map (mi_apicids i) [0..<nat (sint (mi_ncpu i))]"

definition mp_wf :: "mpinfo \<Rightarrow> bool" where
  "mp_wf i \<longleftrightarrow> unat (mi_ncpu i) \<le> 8"

lemma small_sint:
  assumes "unat (n :: i32) \<le> 8"
  shows "sint n = int (unat n)"
proof -
  have "n \<le> 8" using assms by (simp add: word_le_nat_alt)
  then have "uint n \<le> 8" by (simp add: word_le_def)
  then show ?thesis by (simp add: sint_eq)
qed

lemma take_take_append: "take n (take n xs @ ys) = take n (xs @ ys)"
  by (cases "length xs \<le> n") auto

lemma mp_proc_ids:
  assumes "mp_wf i"
  shows "mp_wf (mp_proc a i) \<and> cpu_ids (mp_proc a i) = take 8 (cpu_ids i @ [a]) \<and> mi_ismp (mp_proc a i) = mi_ismp i
    \<and> mi_ioapicid (mp_proc a i) = mi_ioapicid i"
proof (cases "unat (mi_ncpu i) < 8")
  case True
  then have u: "unat (mi_ncpu i + 1) = Suc (unat (mi_ncpu i))" by (simp add: unat_word_ariths)
  have "mi_ncpu i < 8" using True by (simp add: word_less_nat_alt)
  then have l: "uint (mi_ncpu i) < 8" by (simp add: word_less_def)
  have s: "sint (mi_ncpu i) = int (unat (mi_ncpu i))" "sint (mi_ncpu i + 1) = int (Suc (unat (mi_ncpu i)))"
    using True u small_sint [of "mi_ncpu i"] small_sint [of "mi_ncpu i + 1"] by simp_all
  have "mp_proc a i = i\<lparr>mi_apicids := (mi_apicids i)(unat (mi_ncpu i) := a), mi_ncpu := mi_ncpu i + 1\<rparr>"
    using l by (simp add: mp_proc_def s(1) NCPU_def)
  then show ?thesis using True u s by (simp add: mp_wf_def cpu_ids_def nat_add_distrib)
next
  case False
  then have n: "unat (mi_ncpu i) = 8" using assms by (simp add: mp_wf_def)
  then have "sint (mi_ncpu i) = 8" using small_sint [of "mi_ncpu i"] by simp
  then show ?thesis using assms by (simp add: mp_proc_def NCPU_def cpu_ids_def)
qed

lemma fold_mp_apply:
  "mp_wf i \<Longrightarrow> mp_wf (fold mp_apply es i) \<and> cpu_ids (fold mp_apply es i) = take 8 (cpu_ids i @ procs_of es)
     \<and> mi_ismp (fold mp_apply es i) = mi_ismp i"
proof (induction es arbitrary: i)
  case Nil
  then show ?case by (simp add: cpu_ids_def mp_wf_def small_sint)
next
  case (Cons x xs)
  show ?case
  proof (cases x)
    case (MpProc a)
    then show ?thesis using Cons.IH [of "mp_proc a i"] mp_proc_ids [OF Cons.prems, of a]
      by (simp add: take_take_append del: take_append)
  next
    case (MpIoapic a)
    then show ?thesis using Cons.IH [of "i\<lparr>mi_ioapicid := a\<rparr>"] Cons.prems by (simp add: mp_wf_def cpu_ids_def)
  next
    case (MpSkip t)
    then show ?thesis using Cons.IH [of i] Cons.prems by simp
  qed
qed

section \<open>The clock\<close>

text \<open>The registers of the clock that hold a date, and the field each of them holds.\<close>

definition date_regs :: "(u32 \<times> (rtcdate \<Rightarrow> u32)) list" where
  "date_regs = [(0, second), (2, minute), (4, hour), (7, day), (8, month), (9, year)]"

definition bytes_ok :: "rtcdate \<Rightarrow> bool" where
  "bytes_ok d \<longleftrightarrow> (\<forall>(r, f) \<in> set date_regs. f d AND 0xff = f d)"

text \<open>The clock answers the dates \<open>ds\<close> to the readings to come, the register \<open>CMOS_STATA\<close> the values \<open>as\<close>, and \<open>vs r\<close>
  is what register \<open>r\<close> answers after them.\<close>

definition clock :: "'a kdev_scheme \<Rightarrow> rtcdate list \<Rightarrow> u32 list \<Rightarrow> (u32 \<Rightarrow> u32 list) \<Rightarrow> bool" where
  "clock s ds as vs \<longleftrightarrow> (\<forall>(r, f) \<in> set date_regs. dev_in s (Cmos r) = map f ds @ vs r) \<and> dev_in s (Cmos 0xa) = as @ vs 0xa \<and> (\<forall>r. vs r \<noteq> [])"

lemma port_reg_cmos: "port_reg 0x71 (out @ [(Port 0x70, reg)]) = Cmos reg"
  by (simp add: port_reg_def last_out_def)

lemma cmos_read_eq:
  assumes "dev_in s (Cmos reg) = v # vs" and "vs \<noteq> []" and "reg AND 0xff = reg"
  shows "cmos_read reg s = Done (v AND 0xff) (s\<lparr>dev_in := (dev_in s)(Cmos reg := vs), dev_out := dev_out s @ [(Port 0x70, reg)]\<rparr>)"
  using assms
  by (simp add: cmos_read_def outb_def dev_write_def microdelay_def inb_def dev_read_def next_in_Cons bindk_def retk_def seqk_def Let_def
      port_reg_cmos)

lemma fill_rtcdate_eq:
  assumes "clock s (d # ds) as vs" and "bytes_ok d"
  shows "\<exists>t. fill_rtcdate s = Done d t \<and> clock t ds as vs"
  using assms
  by (simp add: fill_rtcdate_def clock_def bytes_ok_def date_regs_def bindk_Done cmos_read_eq retk_def)

lemma stata_eq:
  assumes "clock s ds (a # as) vs" and "a AND 0xff = a"
  shows "\<exists>t. cmos_read 0xa s = Done a t \<and> clock t ds as vs"
  using assms by (simp add: clock_def date_regs_def cmos_read_eq)

text \<open>A round of the loop that is thrown away: an update was in progress, or the date changed
  between the two readings.\<close>

datatype cmos_round = Updating rtcdate u32 | Torn rtcdate u32 rtcdate

fun round_dates :: "cmos_round \<Rightarrow> rtcdate list" where
  "round_dates (Updating d a) = [d]"
| "round_dates (Torn d a d') = [d, d']"

fun round_stat :: "cmos_round \<Rightarrow> u32" where
  "round_stat (Updating d a) = a"
| "round_stat (Torn d a d') = a"

fun round_ok :: "cmos_round \<Rightarrow> bool" where
  "round_ok (Updating d a) \<longleftrightarrow> bytes_ok d \<and> a AND 0xff = a \<and> a AND 0x80 \<noteq> 0"
| "round_ok (Torn d a d') \<longleftrightarrow> bytes_ok d \<and> bytes_ok d' \<and> d \<noteq> d' \<and> a AND 0xff = a \<and> a AND 0x80 = 0"

lemma cmostime_loop_round:
  assumes "clock s (round_dates r @ ds) (round_stat r # as) vs" and "round_ok r"
  shows "\<exists>t. cmostime_loop s = cmostime_loop t \<and> clock t ds as vs"
proof (cases r)
  case (Updating d a)
  then obtain s1 s2 where "fill_rtcdate s = Done d s1" "cmos_read 0xa s1 = Done a s2" "clock s2 ds as vs"
    using assms fill_rtcdate_eq [of s d ds "a # as" vs] stata_eq [of _ ds a as vs] by fastforce
  then show ?thesis using Updating assms(2) by (auto simp: cmostime_loop.simps [of s])
next
  case (Torn d a d')
  then obtain s1 s2 s3 where "fill_rtcdate s = Done d s1" "cmos_read 0xa s1 = Done a s2" "fill_rtcdate s2 = Done d' s3" "clock s3 ds as vs"
    using assms fill_rtcdate_eq [of s d "d' # ds" "a # as" vs] stata_eq [of _ "d' # ds" a as vs] fill_rtcdate_eq [of _ d' ds as vs] by fastforce
  then show ?thesis using Torn assms(2) by (auto simp: cmostime_loop.simps [of s])
qed

lemma cmostime_loop_stable:
  assumes "clock s [d, d] [a] vs" and "bytes_ok d" and "a AND 0xff = a" and "a AND 0x80 = 0"
  shows "\<exists>t. cmostime_loop s = Some (d, t)"
proof -
  obtain s1 s2 s3 where "fill_rtcdate s = Done d s1" "cmos_read 0xa s1 = Done a s2" "fill_rtcdate s2 = Done d s3"
    using assms fill_rtcdate_eq [of s d "[d]" "[a]" vs] stata_eq [of _ "[d]" a "[]" vs] fill_rtcdate_eq [of _ d "[]" "[]" vs] by fastforce
  then show ?thesis using assms(4) by (simp add: cmostime_loop.simps [of s])
qed

lemma cmostime_loop_eq:
  assumes "clock s (concat (map round_dates rs) @ [d, d]) (map round_stat rs @ [a]) vs" and "list_all round_ok rs"
    and "bytes_ok d" and "a AND 0xff = a" and "a AND 0x80 = 0"
  shows "\<exists>t. cmostime_loop s = Some (d, t)"
  using assms
proof (induction rs arbitrary: s)
  case Nil
  then show ?case using cmostime_loop_stable by simp
next
  case (Cons r rs)
  then obtain t where "cmostime_loop s = cmostime_loop t" "clock t (concat (map round_dates rs) @ [d, d]) (map round_stat rs @ [a]) vs"
    using cmostime_loop_round [of s r] by fastforce
  then show ?case using Cons.IH [of t] Cons.prems by simp
qed

text \<open>A field below 100 in binary coded decimal.\<close>

definition bcd :: "u32 \<Rightarrow> u32" where
  "bcd n = push_bit 4 (n div 10) OR n mod 10"

definition bcd_date :: "rtcdate \<Rightarrow> rtcdate" where
  "bcd_date d = \<lparr>second = bcd (second d), minute = bcd (minute d), hour = bcd (hour d), day = bcd (day d),
     month = bcd (month d), year = bcd (year d)\<rparr>"

lemma bcd_all: "list_all (\<lambda>n. CONV (bcd (of_nat n)) = of_nat n \<and> bcd (of_nat n) AND 0xff = bcd (of_nat n) \<and> of_nat n AND 0xff = (of_nat n :: u32)) [0..<100]"
  by code_simp

lemma bcd_facts:
  assumes "n < 100"
  shows "CONV (bcd n) = n" and "bcd n AND 0xff = bcd n" and "n AND 0xff = n"
proof -
  have "unat n \<in> set [0..<100]" using assms by (simp add: word_less_nat_alt)
  then have "CONV (bcd (of_nat (unat n))) = of_nat (unat n) \<and> bcd (of_nat (unat n)) AND 0xff = bcd (of_nat (unat n))
      \<and> of_nat (unat n) AND 0xff = (of_nat (unat n) :: u32)"
    using bcd_all unfolding list_all_iff by blast
  then show "CONV (bcd n) = n" "bcd n AND 0xff = bcd n" "n AND 0xff = n" by simp_all
qed

section \<open>A concrete machine\<close>

text \<open>A machine with two processors, a bus and an I/O APIC in its table, and one whose table ends
  with an entry of type 9.\<close>

definition mem_of :: "(u32 \<times> u8 list) list \<Rightarrow> memory" where
  "mem_of segs a = (case find (\<lambda>(b, xs). a - b < of_nat (length xs)) segs of
     Some (b, xs) \<Rightarrow> xs ! unat (a - b) | None \<Rightarrow> 0)"

definition mp_bytes :: "u8 list" where
  "mp_bytes = [0x5f, 0x4d, 0x50, 0x5f, 0, 0xfd, 9, 0, 1, 4, 0x1a, 0, 0x80, 0, 0, 0]"

definition conf_bytes :: "u8 list" where
  "conf_bytes = [0x50, 0x43, 0x4d, 0x50, 0x64, 0, 4, 0x7f, 0, 0, 0, 0, 0, 0, 0, 0, 0, 0, 0, 0, 0, 0, 0, 0, 0, 0, 0, 
    0, 0, 0, 0, 0, 0, 0, 0, 0, 0, 0, 0xe0, 0xfe, 0, 0, 0, 0, 0, 0, 0, 0, 0, 0, 0, 0, 0, 0, 0, 0, 0, 0, 0, 
    0, 0, 0, 0, 0, 0, 3, 0, 0, 0, 0, 0, 0, 0, 0, 0, 0, 0, 0, 0, 0, 0, 0, 0, 0, 1, 0, 0, 0, 0, 0, 0, 0, 2, 
    5, 0, 0, 0, 0, 0, 0]"

definition bad_conf_bytes :: "u8 list" where
  "bad_conf_bytes = [0x50, 0x43, 0x4d, 0x50, 0x65, 0, 4, 0x75, 0, 0, 0, 0, 0, 0, 0, 0, 0, 0, 0, 0, 0, 0, 0, 0, 0, 0, 0, 
    0, 0, 0, 0, 0, 0, 0, 0, 0, 0, 0, 0xe0, 0xfe, 0, 0, 0, 0, 0, 0, 0, 0, 0, 0, 0, 0, 0, 0, 0, 0, 0, 0, 0, 
    0, 0, 0, 0, 0, 0, 3, 0, 0, 0, 0, 0, 0, 0, 0, 0, 0, 0, 0, 0, 0, 0, 0, 0, 0, 1, 0, 0, 0, 0, 0, 0, 0, 2, 
    5, 0, 0, 0, 0, 0, 0, 9]"

definition mp_mem :: "u8 list \<Rightarrow> memory" where
  "mp_mem conf = mem_of [(0x8009fc00, mp_bytes), (0x8009fd00, conf), (0x8000040e, [0xc0, 0x9f])]"

definition dev_state :: "memory \<Rightarrow> (devreg \<Rightarrow> u32 list) \<Rightarrow> kdev" where
  "dev_state m inp = trap_machine\<lparr>mem := m, dev_in := inp, irqmask := 0xFFFB\<rparr>"

lemma dev_state_fields [simp]:
  "mem (dev_state m inp) = m" "dev_in (dev_state m inp) = inp" "dev_out (dev_state m inp) = []" "ncpu (dev_state m inp) = 0"
  "mp_get (dev_state m inp) = \<lparr>mi_ismp = 0, mi_ncpu = 0, mi_apicids = (\<lambda>_. 0), mi_ioapicid = 0\<rparr>"
  by (simp_all add: dev_state_def trap_machine_def mp_get_def kinput.defs kdev.defs)

lemma mp_mem_config: "mpconfig (mp_mem conf_bytes) = Some (0x8009fc00, 0x8009fd00)"
  "mpconfig (mp_mem bad_conf_bytes) = Some (0x8009fc00, 0x8009fd00)"
  by code_simp+

section \<open>Properties\<close>

lemma mpinit_imcr_Done: "\<exists>t. mpinit_imcr mp s = Done () t \<and> mp_get t = mp_get s \<and> lapic t = lapic s"
  by (auto simp: mpinit_imcr_def unlessk_def retk_def outb_def dev_write_def inb_def dev_read_def bindk_def mp_get_def Let_def
      split: prod.split)

text \<open>C22: finding the processors. With a configuration table whose entries are all of the five known
  types and fill it, \<open>mpinit\<close> returns; the CPUs it has found are the first \<open>NCPU\<close> processor entries
  in the order of the table, after those known before, and the address of the local APIC is
  that of the table. With an entry of another type after any number of known ones, \<open>mpinit\<close> never
  returns: the fallback to one CPU after the loop is not reached.\<close>

theorem mpinit_table:
  fixes s :: "'a kdev_scheme"
  assumes "mpconfig (mem s) = Some (mp, conf)" and "mp_wf (mp_get s)"
    and "table_at (mem s) (conf + 44) e es q" and "e = conf + load16 (mem s) (conf + 4)"
  shows "if q < e then bad_entry (mem s q) \<longrightarrow> mpinit s = Spin
    else \<exists>t. mpinit s = Done () t \<and> cpu_ids (mp_get t) = take 8 (cpu_ids (mp_get s) @ procs_of es)
      \<and> lapic t = load32 (mem s) (conf + 36) \<and> ismp t = 1"
proof -
  let ?s = "s\<lparr>ismp := 1, lapic := load32 (mem s) (conf + 36)\<rparr>"
  let ?i = "fold mp_apply es (mp_get ?s)"
  have wf: "mp_wf (mp_get ?s)" "cpu_ids (mp_get ?s) = cpu_ids (mp_get s)"
    using assms(2) by (simp_all add: mp_wf_def mp_get_def cpu_ids_def)
  have e: "mpinit_loop (mem s) (conf + 44) e (mp_get ?s) = mpinit_loop (mem s) q e ?i"
    by (rule mpinit_loop_table [OF assms(3)])
  have i: "cpu_ids ?i = take 8 (cpu_ids (mp_get s) @ procs_of es)" "mi_ismp ?i = 1"
    using fold_mp_apply [OF wf(1), of es] wf(2) by (simp_all add: mp_get_def)
  have p: "mp_get (mp_put ?i ?s) = ?i" "lapic (mp_put ?i ?s) = load32 (mem s) (conf + 36)" "ismp (mp_put ?i ?s) = 1"
    using i by (simp_all add: mp_get_def mp_put_def)
  obtain t where t: "mpinit_imcr mp (mp_put ?i ?s) = Done () t" "mp_get t = ?i" "lapic t = load32 (mem s) (conf + 36)"
    using mpinit_imcr_Done [of mp "mp_put ?i ?s"] p by auto
  have "mi_ismp (mp_get t) = ismp t" by (simp add: mp_get_def)
  then have t1: "ismp t = 1" using t(2) i(2) by simp
  show ?thesis
  proof (cases "q < e")
    case True
    then have "bad_entry (mem s q) \<longrightarrow> mpinit_loop (mem s) q e ?i = None"
      using mpinit_loop_bad [of "mem s" q e ?i] by (cases "mpinit_loop (mem s) q e ?i") auto
    then show ?thesis using True e assms(1,4) by (auto simp: mpinit_def mpinit_scan_def seqk_def bindk_def)
  next
    case False
    then have "mpinit_scan conf ?s = Done () (mp_put ?i ?s)"
      using e assms(4) by (simp add: mpinit_scan_def mpinit_loop_end)
    then have "mpinit s = Done () t" using assms(1) p(3) t(1) by (simp add: mpinit_def seqk_Done)
    then show ?thesis using False t i(1) t1 by auto
  qed
qed

theorem mpinit_table_witness:
  "(\<exists>t. mpinit (dev_state (mp_mem conf_bytes) (\<lambda>_. [])) = Done () t \<and> cpu_ids (mp_get t) = [0, 3])
    \<and> mpinit (dev_state (mp_mem bad_conf_bytes) (\<lambda>_. [])) = Spin"
proof
  let ?es = "[MpProc 0, MpProc 3, MpSkip 1, MpIoapic 5]"
  have w: "mp_wf (mp_get (dev_state m (\<lambda>_. [])))" "cpu_ids (mp_get (dev_state m (\<lambda>_. []))) = []" for m
    by (simp_all add: mp_wf_def cpu_ids_def)
  have t: "table_at (mp_mem conf_bytes) (0x8009fd00 + 44) 0x8009fd64 ?es 0x8009fd64"
    "table_at (mp_mem bad_conf_bytes) (0x8009fd00 + 44) 0x8009fd65 ?es 0x8009fd64"
    "bad_entry (mp_mem bad_conf_bytes 0x8009fd64)"
    "0x8009fd64 = 0x8009fd00 + load16 (mp_mem conf_bytes) (0x8009fd00 + 4)"
    "0x8009fd65 = 0x8009fd00 + load16 (mp_mem bad_conf_bytes) (0x8009fd00 + 4)"
    by code_simp+
  show "\<exists>t. mpinit (dev_state (mp_mem conf_bytes) (\<lambda>_. [])) = Done () t \<and> cpu_ids (mp_get t) = [0, 3]"
    using mpinit_table [of "dev_state (mp_mem conf_bytes) (\<lambda>_. [])" "0x8009fc00" "0x8009fd00" "0x8009fd64" ?es "0x8009fd64"] t w
    by (auto simp: mp_mem_config)
  show "mpinit (dev_state (mp_mem bad_conf_bytes) (\<lambda>_. [])) = Spin"
    using mpinit_table [of "dev_state (mp_mem bad_conf_bytes) (\<lambda>_. [])" "0x8009fc00" "0x8009fd00" "0x8009fd65" ?es "0x8009fd64"] t w
    by (simp add: mp_mem_config)
qed

text \<open>C23: reading the clock, whose registers answer each for itself. When the registers of the date and
  of the status deliver any number of readings that are unusable (an update in progress, or a date
  that changes between the two readings) and then a date twice with no update in between, in binary
  coded decimal or in binary as the status register B says, \<open>cmostime\<close> returns that date, with the century
  added.\<close>

theorem cmostime_date:
  fixes s :: "'a kdev_scheme"
  assumes "dev_in s (Cmos 0xb) = st # sts" and "sts \<noteq> []" and "e = (if st AND 4 = 0 then bcd_date d else d)"
    and "clock s (concat (map round_dates rs) @ [e, e]) (map round_stat rs @ [a]) vs"
    and "list_all round_ok rs" and "\<forall>(r, f) \<in> set date_regs. f d < 100" and "a AND 0xff = a" and "a AND 0x80 = 0"
  shows "\<exists>t. cmostime s = Done (d\<lparr>year := year d + 2000\<rparr>) t"
proof -
  let ?s = "s\<lparr>dev_in := (dev_in s)(Cmos 0xb := sts), dev_out := dev_out s @ [(Port 0x70, 0xb)]\<rparr>"
  have b: "bytes_ok e" using assms(3,6) by (auto simp: bytes_ok_def date_regs_def bcd_date_def bcd_facts)
  have "clock ?s (concat (map round_dates rs) @ [e, e]) (map round_stat rs @ [a]) vs"
    using assms(4) by (simp add: clock_def date_regs_def)
  then obtain t where t: "cmostime_loop ?s = Some (e, t)"
    using cmostime_loop_eq [OF _ assms(5) b assms(7,8)] by blast
  have r: "cmos_read 0xb s = Done (st AND 0xff) ?s"
    using cmos_read_eq [OF assms(1,2)] by simp
  have m: "(st AND 0xff) AND 4 = st AND 4" by (simp add: and.assoc)
  have "conv_date (bcd_date d) = d"
    using assms(6) by (simp add: conv_date_def bcd_date_def date_regs_def bcd_facts)
  then show ?thesis using t assms(3) by (simp add: cmostime_def bindk_Done [where m = "cmos_read 0xb" and s = s, OF r] m Let_def)
qed

text \<open>A clock at the turn of the year: an update in progress, a date torn by the update, and a good reading.\<close>

definition clock_bytes :: "devreg \<Rightarrow> u32 list" where
  "clock_bytes q = (if q = Cmos 0 then [0x59, 0x59, 0, 1, 1, 2] else if q = Cmos 2 then [0x59, 0x59, 0, 0, 0, 0]
     else if q = Cmos 4 then [0x23, 0x23, 0, 0, 0, 0] else if q = Cmos 7 then [0x31, 0x31, 1, 1, 1, 1]
     else if q = Cmos 8 then [0x12, 0x12, 1, 1, 1, 1] else if q = Cmos 9 then [0x25, 0x25, 0x26, 0x26, 0x26, 0x26]
     else if q = Cmos 0xa then [0xa6, 0x26, 0x26, 0x26] else [2, 2])"

theorem cmostime_date_witness:
  "\<exists>t. cmostime (dev_state (\<lambda>_. 0) clock_bytes) = Done \<lparr>second = 1, minute = 0, hour = 0, day = 1, month = 1, year = 2026\<rparr> t"
proof -
  let ?o = "\<lparr>second = 0x59, minute = 0x59, hour = 0x23, day = 0x31, month = 0x12, year = 0x25\<rparr>"
  let ?n = "\<lparr>second = 0, minute = 0, hour = 0, day = 1, month = 1, year = 0x26\<rparr>"
  let ?d = "\<lparr>second = 1, minute = 0, hour = 0, day = 1, month = 1, year = 26\<rparr>"
  let ?s = "dev_state (\<lambda>_. 0) clock_bytes" and ?rs = "[Updating ?o 0xa6, Torn ?o 0x26 ?n]"
  let ?vs = "\<lambda>r :: u32. if r = 0 then [2] else if r = 7 \<or> r = 8 then [1] else if r = 9 then [0x26] else if r = 0xa then [0x26] else [0]"
  have c: "clock ?s (concat (map round_dates ?rs) @ [bcd_date ?d, bcd_date ?d]) (map round_stat ?rs @ [0x26]) ?vs"
    by (simp add: clock_def date_regs_def clock_bytes_def bcd_date_def bcd_def)
  have "\<exists>t. cmostime ?s = Done (?d\<lparr>year := year ?d + 2000\<rparr>) t"
    by (rule cmostime_date [OF _ _ _ c, of 2 "[2]"]) (simp_all add: clock_bytes_def bytes_ok_def date_regs_def)
  then show ?thesis by simp
qed

end
