(* ===== verification/Ide.thy ===== *)
theory Ide
  imports Device
begin

text \<open>
  The IDE disk driver (\<open>src/ide.c\<close>): its queue of requests as the linked list through the buffers, the
  commands it sends to the controller, its interrupt handler and the routine that queues a request.
  The list of pointers is shown to implement a first-in first-out queue.
\<close>

section \<open>State\<close>

text \<open>\<open>idequeue\<close> and the fields \<open>qnext\<close> of the buffers are pointers to buffers, named by their index.\<close>

record kide = kdev +
  idequeue :: "nat option"
  qnext :: "nat \<Rightarrow> nat option"
  havedisk1 :: i32

definition FSSIZE :: u32 where "FSSIZE = 1000"
definition SECTOR_SIZE :: nat where "SECTOR_SIZE = 512"
definition IDE_BSY :: u32 where "IDE_BSY = 0x80"
definition IDE_DRDY :: u32 where "IDE_DRDY = 0x40"
definition IDE_DF :: u32 where "IDE_DF = 0x20"
definition IDE_ERR :: u32 where "IDE_ERR = 0x01"
definition IDE_CMD_READ :: u32 where "IDE_CMD_READ = 0x20"
definition IDE_CMD_WRITE :: u32 where "IDE_CMD_WRITE = 0x30"
definition IDE_CMD_RDMUL :: u32 where "IDE_CMD_RDMUL = 0xc4"
definition IDE_CMD_WRMUL :: u32 where "IDE_CMD_WRMUL = 0xc5"

section \<open>The driver\<close>

definition ide_idle :: "u32 \<Rightarrow> bool" where
  "ide_idle r \<longleftrightarrow> (r AND 0xff) AND (IDE_BSY OR IDE_DRDY) = IDE_DRDY"

definition idewait :: "bool \<Rightarrow> ('a kide_scheme, i32) kop" where
  "idewait checkerr = bindk (dev_wait (Port 0x1f7) ide_idle) (\<lambda>r.
     if checkerr \<and> (r AND 0xff) AND (IDE_DF OR IDE_ERR) \<noteq> 0 then retk (- 1) else retk 0)"

text \<open>The loop of \<open>ideinit\<close> that looks for a second disk.\<close>

fun ide_probe :: "nat \<Rightarrow> ('a kide_scheme, unit) kop" where
  "ide_probe 0 = retk ()"
| "ide_probe (Suc n) = bindk (inb 0x1f7) (\<lambda>v. if v \<noteq> 0 then modk (\<lambda>s. s\<lparr>havedisk1 := 1\<rparr>) else ide_probe n)"

definition ideinit_ide :: "('a kide_scheme, unit) kop" where
  "ideinit_ide = seqk (initlock IdeLk ''ide'') (seqk (picenable IRQ_IDE)
     (bindk (getk ncpu) (\<lambda>n. seqk (ioapicenable IRQ_IDE (n - 1)) (seqk (idewait False)
       (seqk (outb 0x1f6 (0xe0 OR push_bit 4 1)) (seqk (ide_probe 1000) (outb 0x1f6 (0xe0 OR push_bit 4 0))))))))"

definition sector_per_block :: nat where
  "sector_per_block = BSIZE div SECTOR_SIZE"

definition read_cmd :: u32 where
  "read_cmd = (if sector_per_block = 1 then IDE_CMD_READ else IDE_CMD_RDMUL)"

definition write_cmd :: u32 where
  "write_cmd = (if sector_per_block = 1 then IDE_CMD_WRITE else IDE_CMD_WRMUL)"

definition block_words :: "u8 list \<Rightarrow> u32 list" where
  "block_words d = map (\<lambda>i. get32 d (4 * i)) [0..<BSIZE div 4]"

definition idestart :: "nat option \<Rightarrow> ('a kide_scheme, unit) kop" where
  "idestart r = (case r of None \<Rightarrow> panick ''idestart'' | Some b \<Rightarrow> bindk (getk (\<lambda>s. bufs s b)) (\<lambda>x.
     if b_blockno x \<ge> FSSIZE then panick ''incorrect blockno''
     else let sector = b_blockno x * of_nat sector_per_block in
       if sector_per_block > 7 then panick ''idestart''
       else seqk (idewait False) (seqk (outbs [(0x3f6, 0), (0x1f2, of_nat sector_per_block), (0x1f3, sector AND 0xff),
           (0x1f4, drop_bit 8 sector AND 0xff), (0x1f5, drop_bit 16 sector AND 0xff),
           (0x1f6, 0xe0 OR push_bit 4 (b_dev x AND 1) OR (drop_bit 24 sector AND 0x0f))])
         (if b_flags x AND B_DIRTY \<noteq> 0 then seqk (outb 0x1f7 write_cmd) (outsl 0x1f0 (block_words (b_data x)))
          else outb 0x1f7 read_cmd))))"

definition word_bytes :: "u32 \<Rightarrow> u8 list" where
  "word_bytes w = [ucast w, ucast (drop_bit 8 w), ucast (drop_bit 16 w), ucast (drop_bit 24 w)]"

text \<open>The part of \<open>ideintr\<close> that reads the data of the request.\<close>

definition ide_fetch :: "nat \<Rightarrow> ('a kide_scheme, unit) kop" where
  "ide_fetch b = bindk (getk (\<lambda>s. b_flags (bufs s b))) (\<lambda>f. unlessk (f AND B_DIRTY \<noteq> 0) (bindk (idewait True) (\<lambda>r.
     unlessk (sint r < 0) (bindk (insl 0x1f0 (BSIZE div 4)) (\<lambda>ws.
       modk (upd_buf b (\<lambda>x. x\<lparr>b_data := concat (map word_bytes ws)\<rparr>)))))))"

definition ideintr :: "('a kide_scheme, unit) kop" where
  "ideintr = seqk (acquire IdeLk) (bindk (getk idequeue) (\<lambda>r. case r of None \<Rightarrow> release IdeLk
   | Some b \<Rightarrow> seqk (modk (\<lambda>s. s\<lparr>idequeue := qnext s b\<rparr>)) (seqk (ide_fetch b)
       (seqk (modk (upd_buf b (\<lambda>x. x\<lparr>b_flags := (b_flags x OR B_VALID) AND NOT B_DIRTY\<rparr>))) (seqk (wakeup (BufCh b))
         (bindk (getk idequeue) (\<lambda>q. seqk (unlessk (q = None) (idestart q)) (release IdeLk))))))))"

text \<open>The loop that looks for the end of the queue. There are \<open>NBUF\<close> buffers, so a chain of more
  than \<open>NBUF\<close> of them is a cycle, and the loop does not end.\<close>

fun ide_last :: "(nat \<Rightarrow> nat option) \<Rightarrow> nat \<Rightarrow> nat \<Rightarrow> nat option" where
  "ide_last nx p 0 = None"
| "ide_last nx p (Suc n) = (case nx p of None \<Rightarrow> Some p | Some q \<Rightarrow> ide_last nx q n)"

definition ide_append :: "nat \<Rightarrow> ('a kide_scheme, unit) kop" where
  "ide_append b = seqk (modk (\<lambda>s. s\<lparr>qnext := (qnext s)(b := None)\<rparr>)) (\<lambda>s. case idequeue s of
     None \<Rightarrow> Done () (s\<lparr>idequeue := Some b\<rparr>)
   | Some p \<Rightarrow> (case ide_last (qnext s) p NBUF of None \<Rightarrow> Spin | Some l \<Rightarrow> Done () (s\<lparr>qnext := (qnext s)(l := Some b)\<rparr>)))"

text \<open>The wait for the end of the request, with the lock held, on entry and after each \<open>sleep\<close>.\<close>

definition iderw_wait :: "nat \<Rightarrow> ('a kide_scheme, unit) kop" where
  "iderw_wait b = bindk (getk (\<lambda>s. b_flags (bufs s b))) (\<lambda>f.
     if f AND (B_VALID OR B_DIRTY) \<noteq> B_VALID then sleep (BufCh b) (Some IdeLk) else release IdeLk)"

definition iderw_resume :: "nat \<Rightarrow> ('a kide_scheme, unit) kop" where
  "iderw_resume b = seqk (sleep_resume IdeLk) (iderw_wait b)"

definition iderw_ide :: "nat \<Rightarrow> ('a kide_scheme, unit) kop" where
  "iderw_ide b = bindk (holdingsleep (BufSl b)) (\<lambda>h. bindk (getk (\<lambda>s. (bufs s b, havedisk1 s))) (\<lambda>(x, d1).
     if h = 0 then panick ''iderw: buf not locked''
     else if b_flags x AND (B_VALID OR B_DIRTY) = B_VALID then panick ''iderw: nothing to do''
     else if b_dev x \<noteq> 0 \<and> d1 = 0 then panick ''iderw: ide disk 1 not present''
     else seqk (acquire IdeLk) (seqk (ide_append b) (bindk (getk idequeue) (\<lambda>q.
       seqk (unlessk (q \<noteq> Some b) (idestart (Some b))) (iderw_wait b))))))"

section \<open>The queue\<close>

text \<open>\<open>ide_queue s bs\<close>: the pointers from \<open>idequeue\<close> on lead through the buffers \<open>bs\<close>.\<close>

fun qchain :: "(nat \<Rightarrow> nat option) \<Rightarrow> nat option \<Rightarrow> nat list \<Rightarrow> bool" where
  "qchain nx p [] \<longleftrightarrow> p = None"
| "qchain nx p (b # bs) \<longleftrightarrow> p = Some b \<and> qchain nx (nx b) bs"

definition ide_queue :: "'a kide_scheme \<Rightarrow> nat list \<Rightarrow> bool" where
  "ide_queue s bs \<longleftrightarrow> qchain (qnext s) (idequeue s) bs \<and> distinct bs \<and> set bs \<subseteq> {..<NBUF}"

lemma qchain_other: "b \<notin> set bs \<Longrightarrow> qchain (nx(b := r)) p bs = qchain nx p bs"
  by (induction bs arbitrary: p) auto

lemma qchain_snoc:
  "qchain nx p bs \<Longrightarrow> bs \<noteq> [] \<Longrightarrow> b \<notin> set bs \<Longrightarrow> distinct bs \<Longrightarrow> nx b = None \<Longrightarrow> qchain (nx(last bs := Some b)) p (bs @ [b])"
proof (induction bs arbitrary: p)
  case (Cons x xs)
  show ?case
  proof (cases "xs = []")
    case False
    then have "last xs \<noteq> x" using Cons.prems(4) last_in_set [of xs] by auto
    then show ?thesis using False Cons by auto
  qed (use Cons.prems in auto)
qed simp

lemma ide_last_eq: "qchain nx (Some p) bs \<Longrightarrow> length bs \<le> n \<Longrightarrow> ide_last nx p n = Some (last bs)"
proof (induction bs arbitrary: p n)
  case (Cons x xs)
  then obtain m where n: "n = Suc m" by (cases n) auto
  show ?case
  proof (cases xs)
    case (Cons y ys)
    then show ?thesis using Cons.IH [of y m] Cons.prems n by simp
  qed (use Cons.prems n in simp)
qed simp

lemma length_queue: "ide_queue s bs \<Longrightarrow> length bs \<le> NBUF"
  using card_mono [of "{..<NBUF}" "set bs"] by (auto simp: ide_queue_def distinct_card)

lemma ide_append_eq:
  assumes "ide_queue s bs" and "b \<notin> set bs" and "b < NBUF"
  shows "\<exists>q n. ide_append b s = Done () (s\<lparr>idequeue := q, qnext := n\<rparr>) \<and> ide_queue (s\<lparr>idequeue := q, qnext := n\<rparr>) (bs @ [b])"
proof -
  let ?n = "(qnext s)(b := None)"
  have c: "qchain ?n (idequeue s) bs" using assms(1,2) by (simp add: ide_queue_def qchain_other)
  show ?thesis
  proof (cases "bs = []")
    case True
    then have "ide_append b s = Done () (s\<lparr>idequeue := Some b, qnext := ?n\<rparr>)"
      using c by (simp add: ide_append_def)
    then show ?thesis using True assms(3) by (intro exI [of _ "Some b"] exI [of _ ?n]) (simp add: ide_queue_def)
  next
    case False
    then obtain p where p: "idequeue s = Some p" using c by (cases bs) auto
    then have "ide_last ?n p NBUF = Some (last bs)"
      using ide_last_eq [of ?n p bs NBUF] c length_queue [OF assms(1)] by simp
    then have "ide_append b s = Done () (s\<lparr>idequeue := idequeue s, qnext := ?n(last bs := Some b)\<rparr>)"
      using p by (simp add: ide_append_def)
    moreover have "qchain (?n(last bs := Some b)) (idequeue s) (bs @ [b])"
      using qchain_snoc [OF c False assms(2)] assms(1) by (simp add: ide_queue_def)
    ultimately show ?thesis using assms
      by (intro exI [of _ "idequeue s"] exI [of _ "?n(last bs := Some b)"]) (simp add: ide_queue_def)
  qed
qed

section \<open>Commands\<close>

text \<open>What \<open>idestart\<close> writes to the controller for a buffer.\<close>

definition port_writes :: "(nat \<times> u32) list \<Rightarrow> (devreg \<times> u32) list" where
  "port_writes = map (\<lambda>(p, v). (Port p, v AND 0xff))"

definition ide_command :: "buf \<Rightarrow> (devreg \<times> u32) list" where
  "ide_command x = port_writes [(0x3f6, 0), (0x1f2, 1), (0x1f3, b_blockno x), (0x1f4, drop_bit 8 (b_blockno x)),
       (0x1f5, drop_bit 16 (b_blockno x)), (0x1f6, 0xe0 OR push_bit 4 (b_dev x AND 1) OR (drop_bit 24 (b_blockno x) AND 0x0f)),
       (0x1f7, if b_flags x AND B_DIRTY \<noteq> 0 then IDE_CMD_WRITE else IDE_CMD_READ)]
     @ (if b_flags x AND B_DIRTY \<noteq> 0 then map (Pair (Port 0x1f0)) (block_words (b_data x)) else [])"

lemma outbs_eq: "outbs xs s = Done () (s\<lparr>dev_out := dev_out s @ port_writes xs\<rparr>)"
proof (induction xs arbitrary: s)
  case Nil
  show ?case by (simp add: outbs_def port_writes_def retk_def)
next
  case (Cons x xs)
  then show ?case
    by (cases x) (simp add: outbs_def port_writes_def outb_def dev_write_def)
qed

lemma seqk_outbs: "seqk (outbs xs) m s = m (s\<lparr>dev_out := dev_out s @ port_writes xs\<rparr>)"
  by (simp add: seqk_def bindk_def outbs_eq)

lemma outsl_eq: "outsl p ws s = Done () (s\<lparr>dev_out := dev_out s @ map (Pair (Port p)) ws\<rparr>)"
  by (induction ws arbitrary: s) (simp_all add: outsl_def dev_write_def retk_def)

lemma idewait_ready: "dev_in s (Port 0x1f7) = [v] \<Longrightarrow> ide_idle v \<Longrightarrow>
    idewait ce s = Done (if ce \<and> (v AND 0xff) AND (IDE_DF OR IDE_ERR) \<noteq> 0 then - 1 else 0) s"
  by (simp add: idewait_def bindk_def dev_wait_def retk_def fun_upd_idem)

lemma spb: "sector_per_block = 1"
  by (simp add: sector_per_block_def BSIZE_def SECTOR_SIZE_def)

lemma idestart_eq:
  fixes s :: "'a kide_scheme"
  assumes "b_blockno (bufs s b) < FSSIZE" and "dev_in s (Port 0x1f7) = [v]" and "ide_idle v"
  shows "idestart (Some b) s = Done () (s\<lparr>dev_out := dev_out s @ ide_command (bufs s b)\<rparr>)"
proof -
  have "seqk (idewait False) m s = m s" for m :: "('a kide_scheme, unit) kop"
    by (rule seqk_Done [where m = "idewait False" and s = s, OF idewait_ready [OF assms(2,3), of False]])
  then show ?thesis
    using assms(1)
    by (simp add: idestart_def not_le [symmetric] spb Let_def ide_command_def seqk_outbs outsl_eq outb_def dev_write_def
        read_cmd_def write_cmd_def port_writes_def)
qed

section \<open>Data\<close>

fun take_in :: "nat \<Rightarrow> u32 list \<Rightarrow> u32 list \<times> u32 list" where
  "take_in 0 vs = ([], vs)"
| "take_in (Suc n) vs = (let (v, vs) = next_in vs; (ws, vs) = take_in n vs in (v # ws, vs))"

lemma insl_eq: "insl p n s = Done (fst (take_in n (dev_in s (Port p))))
    (s\<lparr>dev_in := (dev_in s)(Port p := snd (take_in n (dev_in s (Port p))))\<rparr>)"
  by (induction n arbitrary: s) (simp_all add: retk_def dev_read_def bindk_def Let_def fun_upd_idem split: prod.split)

lemma take_in_eq: "n < length vs \<Longrightarrow> take_in n vs = (take n vs, drop n vs)"
proof (induction n arbitrary: vs)
  case (Suc n)
  then obtain v ws where "vs = v # ws" "n < length ws" by (cases vs) auto
  moreover from this have "ws \<noteq> []" by auto
  ultimately show ?case using Suc.IH [of ws] by (simp add: next_in_Cons)
qed simp

text \<open>The buffer after its request: the data are what the disk sent, unless the request was a write
  or the disk reported an error.\<close>

definition ide_failed :: "u32 \<Rightarrow> bool" where
  "ide_failed v \<longleftrightarrow> (v AND 0xff) AND (IDE_DF OR IDE_ERR) \<noteq> 0"

definition fetched :: "u32 \<Rightarrow> u32 list \<Rightarrow> buf \<Rightarrow> buf" where
  "fetched v ws x = (if b_flags x AND B_DIRTY \<noteq> 0 \<or> ide_failed v then x else x\<lparr>b_data := concat (map word_bytes ws)\<rparr>)"

definition served :: "u32 \<Rightarrow> u32 list \<Rightarrow> buf \<Rightarrow> buf" where
  "served v ws x = (fetched v ws x)\<lparr>b_flags := (b_flags x OR B_VALID) AND NOT B_DIRTY\<rparr>"

abbreviation disk_words :: "'a kide_scheme \<Rightarrow> u32 list" where
  "disk_words s \<equiv> fst (take_in (BSIZE div 4) (dev_in s (Port 0x1f0)))"

lemma ide_fetch_eq:
  fixes s :: "'a kide_scheme"
  assumes "dev_in s (Port 0x1f7) = [v]" and "ide_idle v"
  shows "\<exists>d. ide_fetch b s = Done () (s\<lparr>bufs := (bufs s)(b := fetched v (disk_words s) (bufs s b)), dev_in := d\<rparr>)
    \<and> d (Port 0x1f7) = [v]"
proof -
  have w: "idewait True s = Done (if ide_failed v then - 1 else 0) s"
    using idewait_ready [OF assms, of True] by (simp add: ide_failed_def)
  let ?d = "if b_flags (bufs s b) AND B_DIRTY \<noteq> 0 \<or> ide_failed v then dev_in s
    else (dev_in s)(Port 0x1f0 := snd (take_in (BSIZE div 4) (dev_in s (Port 0x1f0))))"
  have "ide_fetch b s = Done () (s\<lparr>bufs := (bufs s)(b := fetched v (disk_words s) (bufs s b)), dev_in := ?d\<rparr>)"
    by (simp add: ide_fetch_def unlessk_def retk_def fetched_def upd_buf_def
        bindk_Done [where m = "idewait True" and s = s, OF w] bindk_Done [where m = "insl 0x1f0 (BSIZE div 4)", OF insl_eq])
  moreover have "?d (Port 0x1f7) = [v]" using assms(1) by simp
  ultimately show ?thesis by (intro exI conjI)
qed

section \<open>Serving a request\<close>

lemma ide_fields_locked [simp]:
  "idequeue (acquired l s) = idequeue s" "qnext (acquired l s) = qnext s" "dev_in (acquired l s) = dev_in s"
  "dev_out (acquired l s) = dev_out s" "bufs (acquired l s) = bufs s" "havedisk1 (acquired l s) = havedisk1 s"
  "idequeue (released l s) = idequeue s" "qnext (released l s) = qnext s" "dev_in (released l s) = dev_in s"
  "dev_out (released l s) = dev_out s" "bufs (released l s) = bufs s" "havedisk1 (released l s) = havedisk1 s"
  by (simp_all add: acquired_def released_def upd_cpu_def upd_lock_def)

text \<open>No process holds the lock of the driver or that of the process table, and the disk answers that
  it is ready.\<close>

definition ide_ready :: "u32 \<Rightarrow> 'a kide_scheme \<Rightarrow> bool" where
  "ide_ready v s \<longleftrightarrow> lk_free IdeLk s \<and> lk_free PtableLk s \<and> cpu_wf (thiscpu s) \<and> dev_in s (Port 0x1f7) = [v] \<and> ide_idle v"

definition next_command :: "'a kide_scheme \<Rightarrow> nat list \<Rightarrow> (devreg \<times> u32) list" where
  "next_command s bs = (case bs of [] \<Rightarrow> [] | c # _ \<Rightarrow> ide_command (bufs s c))"

text \<open>The step of the queue: what \<open>ideintr\<close> leaves of the state when the request of \<open>b\<close> is served.\<close>

definition ide_served :: "u32 \<Rightarrow> nat \<Rightarrow> nat list \<Rightarrow> 'a kide_scheme \<Rightarrow> 'a kide_scheme \<Rightarrow> bool" where
  "ide_served v b bs s t \<longleftrightarrow> ide_queue t bs \<and> bufs t = (bufs s)(b := served v (disk_words s) (bufs s b))
     \<and> ptable t = on_slots {..<NPROC} (wake_proc (Some (BufCh b))) (ptable s)
     \<and> dev_out t = dev_out s @ next_command s bs \<and> ide_ready v t"

lemma ideintr_start:
  assumes "ide_queue u bs" and "\<forall>c \<in> set bs. b_blockno (bufs u c) < FSSIZE" and "dev_in u (Port 0x1f7) = [v]" and "ide_idle v"
  shows "unlessk (idequeue u = None) (idestart (idequeue u)) u = Done () (u\<lparr>dev_out := dev_out u @ next_command u bs\<rparr>)"
proof (cases bs)
  case Nil
  then show ?thesis using assms(1) by (simp add: ide_queue_def unlessk_def retk_def next_command_def)
next
  case (Cons c cs)
  then have "idequeue u = Some c" using assms(1) by (simp add: ide_queue_def)
  then show ?thesis using assms Cons idestart_eq [of u c v] by (simp add: unlessk_def next_command_def)
qed

lemma ideintr_eq:
  fixes s :: "'a kide_scheme"
  assumes "ide_queue s (b # bs)" and "ide_ready v s" and "\<forall>c \<in> set bs. b_blockno (bufs s c) < FSSIZE"
  shows "\<exists>t. ideintr s = Done () t \<and> ide_served v b bs s t"
proof -
  note r = assms(2) [unfolded ide_ready_def]
  let ?a = "(acquired IdeLk s)\<lparr>idequeue := qnext s b\<rparr>"
  have b: "b \<notin> set bs" "idequeue s = Some b" "qchain (qnext s) (qnext s b) bs" using assms(1) by (auto simp: ide_queue_def)
  obtain d where d: "ide_fetch b ?a = Done () (?a\<lparr>bufs := (bufs s)(b := fetched v (disk_words s) (bufs s b)), dev_in := d\<rparr>)"
      "d (Port 0x1f7) = [v]"
    using ide_fetch_eq [of ?a v b] r by auto
  let ?u = "?a\<lparr>bufs := (bufs s)(b := served v (disk_words s) (bufs s b)), dev_in := d\<rparr>"
  let ?p = "(acquired PtableLk ?u)\<lparr>ptable := on_slots {..<NPROC} (wake_proc (Some (BufCh b))) (ptable s)\<rparr>"
  let ?w = "released PtableLk ?p"
  have f: "upd_buf b (\<lambda>x. x\<lparr>b_flags := (b_flags x OR B_VALID) AND NOT B_DIRTY\<rparr>)
      (?a\<lparr>bufs := (bufs s)(b := fetched v (disk_words s) (bufs s b)), dev_in := d\<rparr>) = ?u"
    by (simp add: upd_buf_def served_def fetched_def)
  have l: "lk_free PtableLk ?u" "cpu_wf (thiscpu ?u)" "holding IdeLk ?u" "cpu_locked (thiscpu ?u)"
    using r holding_acquired [of IdeLk s] by (simp_all add: lk_free_def holding_def cpu_wf_locked)
  have k: "wakeup (BufCh b) ?u = Done () ?w"
    using wakeup_eq [OF l(1,2), of "BufCh b"] by simp
  have q: "quiet ?u ?w" using l by (intro quiet_section) simp_all
  note h = quietD(5) [OF q, of IdeLk] quietD(3) [OF q, of "cur_cpu ?u"] quietD(1) [OF q] quietD(4) [OF q, of PtableLk]
  have c: "ide_queue ?w bs" "\<forall>c \<in> set bs. bufs ?w c = bufs s c" "dev_in ?w (Port 0x1f7) = [v]"
    using b assms(1) d(2) by (auto simp: ide_queue_def)
  let ?x = "?w\<lparr>dev_out := dev_out s @ next_command s bs\<rparr>"
  have n: "next_command ?w bs = next_command s bs" using c(2) by (simp add: next_command_def split: list.split)
  let ?i = "unlessk (qnext s b = None) (idestart (qnext s b)) :: ('a kide_scheme, unit) kop"
  have x: "?i ?w = Done () ?x"
    using ideintr_start [OF c(1) _ c(3)] c(2) assms(3) r n by simp
  have hx: "holding IdeLk ?x" "cpu_locked (thiscpu ?x)" using l h by (simp_all add: holding_def)
  have "ideintr s = Done () (released IdeLk ?x)"
    using r b(2) hx
    by (simp add: ideintr_def seqk_acquire seqk_Done [where m = "ide_fetch b" and s = ?a, OF d(1)] f
        seqk_Done [where m = "wakeup (BufCh b)" and s = ?u, OF k] seqk_Done [where m = ?i and s = ?w, OF x] release_Done)
  moreover have "ide_ready v (released IdeLk ?x)"
    using r hx h l(1) cpu_wf_released [OF hx(2)] d(2)
    by (simp add: ide_ready_def lk_free_def store_unlocked_def)
  ultimately show ?thesis using c(1) by (auto simp: ide_served_def ide_queue_def)
qed

text \<open>Interrupts one after the other.\<close>

fun ideintrs :: "nat \<Rightarrow> ('a kide_scheme, unit) kop" where
  "ideintrs 0 = retk ()"
| "ideintrs (Suc n) = seqk ideintr (ideintrs n)"

lemma served_flags: "b_flags (served v ws x) AND (B_VALID OR B_DIRTY) = B_VALID"
proof -
  have "((f OR 2) AND NOT 4) AND (2 OR 4) = (2 :: u32)" for f :: u32
    by (rule bit_word_eqI) (auto simp: bit_simps bit_numeral_rec bit_1_iff split: nat.splits)
  then show ?thesis by (simp add: served_def B_VALID_def B_DIRTY_def)
qed

text \<open>A process that sleeps on one of the buffers \<open>bs\<close> is made RUNNABLE, another one is left alone.\<close>

definition wake_bufs :: "nat list \<Rightarrow> proc \<Rightarrow> proc" where
  "wake_bufs bs p = (if p_state p = SLEEPING \<and> p_chan p \<in> (\<lambda>b. Some (BufCh b)) ` set bs then p\<lparr>p_state := RUNNABLE\<rparr> else p)"

lemma wake_bufs_Nil [simp]: "wake_bufs [] p = p"
  by (simp add: wake_bufs_def)

lemma wake_bufs_Cons: "wake_bufs bs (wake_proc (Some (BufCh b)) p) = wake_bufs (b # bs) p"
  by (auto simp: wake_bufs_def wake_proc_def)

lemma on_slots_wake_Nil: "on_slots A (wake_bufs []) pt = pt"
  by (simp add: on_slots_def fun_eq_iff)

lemma on_slots_wake_Cons:
  "on_slots A (wake_bufs bs) (on_slots A (wake_proc (Some (BufCh b))) pt) = on_slots A (wake_bufs (b # bs)) pt"
  by (simp add: on_slots_def wake_bufs_Cons fun_eq_iff)

text \<open>The requests \<open>xs\<close> have been served and \<open>ys\<close> are left.\<close>

definition all_served :: "u32 \<Rightarrow> nat list \<Rightarrow> nat list \<Rightarrow> 'a kide_scheme \<Rightarrow> 'a kide_scheme \<Rightarrow> bool" where
  "all_served v xs ys s t \<longleftrightarrow> ide_queue t ys \<and> ide_ready v t \<and> (\<forall>b. b \<notin> set xs \<longrightarrow> bufs t b = bufs s b)
     \<and> (\<forall>b \<in> set xs. b_flags (bufs t b) AND (B_VALID OR B_DIRTY) = B_VALID)
     \<and> ptable t = on_slots {..<NPROC} (wake_bufs xs) (ptable s)"

lemma all_served_Cons:
  assumes "ide_served v b cs s u" and "all_served v xs ys u t" and "b \<notin> set xs"
  shows "all_served v (b # xs) ys s t"
  using assms served_flags by (auto simp: all_served_def ide_served_def on_slots_wake_Cons)

lemma ideintrs_serve:
  fixes s :: "'a kide_scheme"
  assumes "ide_queue s bs" and "ide_ready v s" and "\<forall>c \<in> set bs. b_blockno (bufs s c) < FSSIZE" and "n \<le> length bs"
  shows "\<exists>t. ideintrs n s = Done () t \<and> all_served v (take n bs) (drop n bs) s t
    \<and> dev_out t = dev_out s @ concat (map (\<lambda>b. ide_command (bufs s b)) (take n (tl bs)))"
  using assms
proof (induction n arbitrary: s bs)
  case 0
  then show ?case by (simp add: retk_def all_served_def on_slots_wake_Nil)
next
  case (Suc n)
  then obtain b cs where bs: "bs = b # cs" by (cases bs) auto
  obtain u where u: "ideintr s = Done () u" "ide_served v b cs s u"
    using ideintr_eq [of s b cs v] Suc.prems bs by auto
  note e = u(2) [unfolded ide_served_def]
  have d: "b \<notin> set cs" using Suc.prems(1) bs by (simp add: ide_queue_def)
  then have c: "\<forall>c \<in> set cs. bufs u c = bufs s c" using e by auto
  obtain t where t: "ideintrs n u = Done () t" "all_served v (take n cs) (drop n cs) u t"
      "dev_out t = dev_out u @ concat (map (\<lambda>b. ide_command (bufs u b)) (take n (tl cs)))"
    using Suc.IH [of u cs] e c Suc.prems bs by auto
  have m: "map (\<lambda>b. ide_command (bufs u b)) (take n (tl cs)) = map (\<lambda>b. ide_command (bufs s b)) (take n (tl cs))"
    using c by (cases cs) (auto dest: in_set_takeD)
  have "next_command s cs @ concat (map (\<lambda>b. ide_command (bufs u b)) (take n (tl cs)))
      = concat (map (\<lambda>b. ide_command (bufs s b)) (take (Suc n) cs))"
    unfolding m by (cases cs) (simp_all add: next_command_def)
  then have "dev_out t = dev_out s @ concat (map (\<lambda>b. ide_command (bufs s b)) (take (Suc n) (tl bs)))"
    using t(3) e bs by simp
  moreover have "b \<notin> set (take n cs)" using d by (auto dest: in_set_takeD)
  ultimately show ?case using all_served_Cons [OF u(2) t(2)] u(1) t(1) bs by (simp add: seqk_Done)
qed

section \<open>Queueing a request\<close>

lemma holdingsleep_ide:
  fixes s :: "'a kide_scheme"
  assumes "lk_free (SleepLk k) s" and "cpu_wf (thiscpu s)"
  shows "\<exists>t. holdingsleep k s = Done (sl_locked (slks s k)) t \<and> quiet s t \<and> bufs t = bufs s \<and> ptable t = ptable s
    \<and> dev_in t = dev_in s \<and> dev_out t = dev_out s \<and> idequeue t = idequeue s \<and> qnext t = qnext s \<and> havedisk1 t = havedisk1 s
    \<and> kregs t = kregs s"
proof -
  let ?a = "acquired (SleepLk k) s"
  have "holdingsleep k s = Done (sl_locked (slks s k)) (released (SleepLk k) ?a)"
    using assms by (simp add: holdingsleep_def seqk_acquire seqk_release retk_def)
  moreover have "quiet s (released (SleepLk k) ?a)" using assms by (intro quiet_section) simp_all
  ultimately show ?thesis by simp
qed

lemma iderw_queued:
  fixes s :: "'a kide_scheme"
  assumes "ide_queue s bs" and "b \<notin> set bs" and "b < NBUF" and "b_blockno (bufs s b) < FSSIZE"
    and "dev_in s (Port 0x1f7) = [v]" and "ide_idle v"
  obtains q n where "seqk (ide_append b) (bindk (getk idequeue) (\<lambda>q. seqk (unlessk (q \<noteq> Some b) (idestart (Some b))) m)) s
      = m (s\<lparr>idequeue := q, qnext := n, dev_out := dev_out s @ (if bs = [] then ide_command (bufs s b) else [])\<rparr>)"
    and "ide_queue (s\<lparr>idequeue := q, qnext := n\<rparr>) (bs @ [b])"
proof -
  obtain q n where a: "ide_append b s = Done () (s\<lparr>idequeue := q, qnext := n\<rparr>)" "ide_queue (s\<lparr>idequeue := q, qnext := n\<rparr>) (bs @ [b])"
    using ide_append_eq [OF assms(1-3)] by blast
  let ?t = "s\<lparr>idequeue := q, qnext := n\<rparr>"
  have q: "q = Some b \<longleftrightarrow> bs = []" using a(2) assms(2) by (cases bs) (auto simp: ide_queue_def)
  have i: "idestart (Some b) ?t = Done () (?t\<lparr>dev_out := dev_out s @ ide_command (bufs s b)\<rparr>)"
    using idestart_eq [of ?t b v] assms(4-6) by simp
  have "unlessk (q \<noteq> Some b) (idestart (Some b)) ?t
      = Done () (?t\<lparr>dev_out := dev_out s @ (if bs = [] then ide_command (bufs s b) else [])\<rparr>)"
    using i q by (simp add: unlessk_def retk_def)
  then have "seqk (ide_append b) (bindk (getk idequeue) (\<lambda>q. seqk (unlessk (q \<noteq> Some b) (idestart (Some b))) m)) s
      = m (s\<lparr>idequeue := q, qnext := n, dev_out := dev_out s @ (if bs = [] then ide_command (bufs s b) else [])\<rparr>)"
    by (simp add: seqk_def bindk_def a(1))
  then show thesis using that a(2) by blast
qed

section \<open>Properties\<close>

text \<open>C20: a request for a locked buffer that has to be read or written goes to the end of the queue
  of the driver and its process to sleep on the buffer, with the lock of the driver released; the
  commands for it are sent to the controller at once exactly when the queue was empty.\<close>

theorem iderw_ide_enqueues:
  fixes s :: "'a kide_scheme"
  assumes "ide_queue s bs" and "b \<notin> set bs" and "b < NBUF" and "b_blockno (bufs s b) < FSSIZE" and "ide_ready v s"
    and "curproc s = Some i" and "ncli (thiscpu s) = 0" and "lk_free (SleepLk (BufSl b)) s" and "sl_locked (slks s (BufSl b)) \<noteq> 0"
    and "b_flags (bufs s b) AND (B_VALID OR B_DIRTY) \<noteq> B_VALID" and "b_dev (bufs s b) = 0 \<or> havedisk1 s \<noteq> 0"
  shows "\<exists>t. iderw_ide b s = Switch t \<and> ide_queue t (bs @ [b]) \<and> bufs t = bufs s \<and> lk_free IdeLk t
    \<and> dev_out t = dev_out s @ (if bs = [] then ide_command (bufs s b) else [])
    \<and> p_state (ptable t i) = SLEEPING \<and> p_chan (ptable t i) = Some (BufCh b) \<and> (\<forall>j. j \<noteq> i \<longrightarrow> ptable t j = ptable s j)"
proof -
  note r = assms(5) [unfolded ide_ready_def]
  obtain u where u: "holdingsleep (BufSl b) s = Done (sl_locked (slks s (BufSl b))) u" "quiet s u" "bufs u = bufs s" "ptable u = ptable s"
      "dev_in u = dev_in s" "dev_out u = dev_out s" "idequeue u = idequeue s" "qnext u = qnext s" "havedisk1 u = havedisk1 s"
    using holdingsleep_ide [of "BufSl b" s] assms(8) r by blast
  note h = quietD [OF u(2)]
  let ?a = "acquired IdeLk u"
  have l: "lk_free IdeLk u" "lk_free PtableLk u" "cpu_wf (thiscpu u)" "ncli (thiscpu u) = 0" "curproc u = Some i"
    using r assms(6,7) h by (simp_all add: curproc_def)
  have a: "ide_queue ?a bs" "b_blockno (bufs ?a b) < FSSIZE" "dev_in ?a (Port 0x1f7) = [v]"
    using assms(1,4) u r by (simp_all add: ide_queue_def)
  have idl: "ide_idle v" and e: "dev_out ?a = dev_out s" "bufs ?a = bufs s" using u r by simp_all
  obtain q n where g: "seqk (ide_append b) (bindk (getk idequeue) (\<lambda>q. seqk (unlessk (q \<noteq> Some b) (idestart (Some b))) (iderw_wait b))) ?a
      = iderw_wait b (?a\<lparr>idequeue := q, qnext := n, dev_out := dev_out s @ (if bs = [] then ide_command (bufs s b) else [])\<rparr>)"
      "ide_queue (?a\<lparr>idequeue := q, qnext := n\<rparr>) (bs @ [b])"
    using iderw_queued [OF a(1) assms(2,3) a(2,3) idl, of "iderw_wait b"] unfolding e by blast
  let ?x = "?a\<lparr>idequeue := q, qnext := n, dev_out := dev_out s @ (if bs = [] then ide_command (bufs s b) else [])\<rparr>"
  have "ncli (acquired_cpu (thiscpu u)) = 1" "cproc (acquired_cpu (thiscpu u)) = Some i"
    using l(4,5) by (simp_all add: acquired_cpu_def curproc_def)
  then have x: "curproc ?x = Some i" "holding IdeLk ?x" "lk_free PtableLk ?x" "cpu_wf (thiscpu ?x)" "ncli (thiscpu ?x) = 1"
    using l holding_acquired [of IdeLk u] by (simp_all add: curproc_def holding_def lk_free_def cpu_wf_locked)
  let ?t = "upd_proc i (\<lambda>p. p\<lparr>p_chan := Some (BufCh b), p_state := SLEEPING,
    p_intena := intena (thiscpu ?x), p_context := kregs ?x\<rparr>) (released IdeLk (acquired PtableLk ?x))"
  have "iderw_wait b ?x = Switch ?t"
    using assms(10) u sleep_eq [OF x(1,2) _ x(3-5), of "BufCh b"] by (simp add: iderw_wait_def)
  then have "iderw_ide b s = Switch ?t"
    using assms(9-11) u l(1) g(1)
    by (simp add: iderw_ide_def bindk_Done [where m = "holdingsleep (BufSl b)", OF u(1)] seqk_acquire)
  moreover have "ide_queue ?t (bs @ [b])" using g(2) by (simp add: ide_queue_def upd_proc_def)
  ultimately show ?thesis using u by (auto simp: upd_proc_def lk_free_def store_unlocked_def)
qed

text \<open>C19: requests are served in the order in which they were queued. After \<open>n\<close> interrupts the first
  \<open>n\<close> buffers of the queue are valid and not dirty, the processes that slept on them and no others
  are RUNNABLE, the other buffers are as before, the rest of the queue is left in its order, and the
  commands sent to the controller are those of the requests from the second one on, in order.\<close>

theorem ideintr_fifo:
  fixes s :: "'a kide_scheme"
  assumes "ide_queue s bs" and "ide_ready v s" and "\<forall>c \<in> set bs. b_blockno (bufs s c) < FSSIZE" and "n \<le> length bs"
  shows "\<exists>t. ideintrs n s = Done () t \<and> all_served v (take n bs) (drop n bs) s t
    \<and> dev_out t = dev_out s @ concat (map (\<lambda>b. ide_command (bufs s b)) (take n (tl bs)))"
  using assms by (rule ideintrs_serve)

text \<open>C21: the outcome of a read. When the disk has sent the block, the buffer holds its bytes; when
  it reports an error, \<open>ideintr\<close> marks the buffer valid all the same, with the data it had before.\<close>

theorem ideintr_read:
  fixes s :: "'a kide_scheme"
  assumes "ide_queue s (b # bs)" and "ide_ready v s" and "\<forall>c \<in> set bs. b_blockno (bufs s c) < FSSIZE"
    and "b_flags (bufs s b) AND B_DIRTY = 0" and "dev_in s (Port 0x1f0) = ws @ rest" and "length ws = 128" and "rest \<noteq> []"
  shows "\<exists>t. ideintr s = Done () t \<and> b_flags (bufs t b) AND (B_VALID OR B_DIRTY) = B_VALID
    \<and> b_data (bufs t b) = (if ide_failed v then b_data (bufs s b) else concat (map word_bytes ws))"
proof -
  have w: "disk_words s = ws" using assms(5-7) by (simp add: take_in_eq BSIZE_def)
  obtain t where t: "ideintr s = Done () t" "bufs t = (bufs s)(b := served v (disk_words s) (bufs s b))"
    using ideintr_eq [OF assms(1-3)] by (auto simp: ide_served_def)
  have "b_data (served v ws (bufs s b)) = (if ide_failed v then b_data (bufs s b) else concat (map word_bytes ws))"
    using assms(4) by (simp add: served_def fetched_def)
  then show ?thesis using t w served_flags [of v ws "bufs s b"] by simp
qed

section \<open>A concrete machine\<close>

text \<open>Buffers 1 and 2 are queued, the first to be read and the second to be written.\<close>

definition ide_state :: "u32 \<Rightarrow> kide" where
  "ide_state v = kdev.extend ((dev_state (\<lambda>_. 0) ((\<lambda>_. [])(Port 0x1f7 := [v], Port 0x1f0 := replicate 128 0x01020304 @ [0])))
       \<lparr>slks := (\<lambda>_. \<lparr>sl_locked = 1, sl_name = ''buffer'', sl_pid = 1\<rparr>),
        bufs := (\<lambda>i. \<lparr>b_flags = (if i = 2 then 4 else 0), b_dev = 0, b_blockno = of_nat i, b_refcnt = 1, b_data = replicate BSIZE 7\<rparr>)\<rparr>)
     (kide.fields (Some 1) (\<lambda>i. if i = 1 then Some 2 else None) 0)"

lemma ide_state_ok:
  "ide_queue (ide_state v) [1, 2]" "ide_idle v \<Longrightarrow> ide_ready v (ide_state v)" "curproc (ide_state v) = Some 3"
  "ncli (thiscpu (ide_state v)) = 0" "lk_free k (ide_state v)" "sl_locked (slks (ide_state v) l) = 1"
  "bufs (ide_state v) i = \<lparr>b_flags = (if i = 2 then 4 else 0), b_dev = 0, b_blockno = of_nat i, b_refcnt = 1, b_data = replicate BSIZE 7\<rparr>"
  "dev_in (ide_state v) (Port 0x1f0) = replicate 128 0x01020304 @ [0]" "dev_out (ide_state v) = []"
  by (simp_all add: ide_state_def dev_state_def trap_machine_def ide_queue_def ide_ready_def NBUF_def kide.defs kdev.defs kinput.defs trap_state_def
      file_state_def log_state_def io_state_def trace_state_def user_kproc_def idle_defs curproc_def ktrace.defs kbuf.defs klog.defs
      kfs.defs kfile.defs lk_free_def free_lock_def cpu_wf_def idle_cpu_def)

theorem iderw_ide_enqueues_witness:
  "\<exists>t. iderw_ide 5 (ide_state 0x40) = Switch t \<and> ide_queue t [1, 2, 5] \<and> dev_out t = []"
  using iderw_ide_enqueues [of "ide_state 0x40" "[1, 2]" 5 "0x40" 3] ide_state_ok [where v = "0x40"]
  by (auto simp: NBUF_def FSSIZE_def B_VALID_def B_DIRTY_def ide_idle_def IDE_BSY_def IDE_DRDY_def)

theorem ideintr_fifo_witness:
  "\<exists>t. ideintrs 2 (ide_state 0x40) = Done () t \<and> ide_queue t [] \<and> b_flags (bufs t 2) AND 6 = 2"
  using ideintr_fifo [of "ide_state 0x40" "[1, 2]" "0x40" 2] ide_state_ok [where v = "0x40"]
  by (auto simp: all_served_def FSSIZE_def B_VALID_def B_DIRTY_def ide_idle_def IDE_BSY_def IDE_DRDY_def)

theorem ideintr_read_witness:
  "\<exists>t. ideintr (ide_state 0x41) = Done () t \<and> b_flags (bufs t 1) AND 6 = 2 \<and> b_data (bufs t 1) = replicate 512 7"
  using ideintr_read [of "ide_state 0x41" 1 "[2]" "0x41" "replicate 128 0x01020304" "[0]"] ide_state_ok [where v = "0x41"]
  by (auto simp: FSSIZE_def B_VALID_def B_DIRTY_def ide_idle_def IDE_BSY_def IDE_DRDY_def ide_failed_def IDE_DF_def IDE_ERR_def BSIZE_def)

end
