(* ===== verification/Boot.thy ===== *)
theory Boot
  imports Ide
begin

text \<open>
  The start of the kernel (\<open>src/main.c\<close>) as the composition of the initialisation routines of the other
  theories, the start of the other CPUs, and the loader that reads the kernel from the disk
  (\<open>src/bootmain.c\<close>).
\<close>

section \<open>Linker symbols\<close>

text \<open>The addresses that the linker gives to the symbols \<open>main.c\<close> uses, and the generated table
  \<open>vectors\<close>; \<open>ret_addr\<close> is the return address that \<open>cpunum\<close> reports.\<close>

record linked =
  end_addr :: u32
  vectors_tab :: "nat \<Rightarrow> u32"
  idt_addr :: u32
  entryother_start :: u32
  entryother_size :: u32
  mpenter_addr :: u32
  entrypgdir_addr :: u32
  initcode_start :: u32
  initcode_size :: u32
  ret_addr :: u32

definition nl :: char where "nl = CHR 0x0A"

section \<open>Starting the CPUs\<close>

text \<open>\<open>mpmain\<close> up to the first round of the scheduler. The field \<open>started\<close> of a CPU is a register that
  this CPU writes and the first one reads.\<close>

definition mpmain :: "linked \<Rightarrow> ('a kide_scheme, unit) kop" where
  "mpmain L = bindk (cpunum (ret_addr L)) (\<lambda>c. seqk (cprintf (Some (''cpu%d: starting'' @ [nl])) [CInt (of_nat c)])
     (seqk (idtinit (idt_addr L)) (bindk (getk cur_cpu) (\<lambda>c. seqk (dev_write (Started c) 1) (scheduler_enter (ret_addr L))))))"

definition mpenter :: "linked \<Rightarrow> ('a kide_scheme, unit) kop" where
  "mpenter L = seqk switchkvm (seqk seginit (seqk lapicinit (mpmain L)))"

text \<open>One round of the loop of \<open>startothers\<close>; it ends when the CPU has said that it is up.\<close>

definition start_cpu :: "linked \<Rightarrow> u32 \<Rightarrow> nat \<Rightarrow> ('a kide_scheme, unit) kop" where
  "start_cpu L code c = bindk (cpunum (ret_addr L)) (\<lambda>me. unlessk (c = me) (bindk kalloc (\<lambda>stack.
     seqk (modk (\<lambda>s. s\<lparr>mem := store32 (store32 (store32 (mem s) (code - 4) (stack + 4096)) (code - 8) (mpenter_addr L))
         (code - 12) (V2P (entrypgdir_addr L))\<rparr>))
       (bindk (getk (\<lambda>s. apicids s c)) (\<lambda>a. seqk (lapicstartap a (V2P code))
         (seqk (dev_wait (Started c) (\<lambda>v. v \<noteq> 0)) (retk ())))))))"

definition startothers :: "linked \<Rightarrow> ('a kide_scheme, unit) kop" where
  "startothers L = (let code = P2V 0x7000 in
     seqk (modk (\<lambda>s. s\<lparr>mem := memmove (mem s) code (entryother_start L) (entryother_size L)\<rparr>))
       (bindk (getk ncpu) (\<lambda>n. forallk (start_cpu L code) [0..<nat (sint n)])))"

text \<open>The entries of the boot page directory that are not 0.\<close>

definition entrypgdir :: "nat \<Rightarrow> u32" where
  "entrypgdir = (\<lambda>_. 0)(0 := PTE_P OR PTE_W OR 0x80, unat (drop_bit 22 KERNBASE) := PTE_P OR PTE_W OR 0x80)"

text \<open>\<open>main\<close>, in the phases before and after the first output.\<close>

definition main_devices :: "linked \<Rightarrow> ('a kide_scheme, unit) kop" where
  "main_devices L = seqk picinit (seqk ioapicinit (seqk consoleinit_irq (seqk uartinit (seqk pinit (seqk (tvinit (vectors_tab L))
     (seqk binit (seqk fileinit (seqk ideinit_ide (bindk (getk ismp) (\<lambda>b. unlessk (b \<noteq> 0) timerinit))))))))))"

definition main :: "linked \<Rightarrow> ('a kide_scheme, unit) kop" where
  "main L = seqk (kinit1 (end_addr L) (P2V 0x400000)) (seqk kvmalloc (seqk mpinit (seqk lapicinit (seqk seginit
     (bindk (cpunum (ret_addr L)) (\<lambda>c. seqk (cprintf (Some (nl # ''cpu%d: starting xv6'' @ [nl, nl])) [CInt (of_nat c)])
       (seqk (main_devices L) (seqk (startothers L) (seqk (kinit2 (P2V 0x400000) (P2V PHYSTOP))
         (seqk (userinit (initcode_start L) (initcode_size L)) (mpmain L)))))))))))"

section \<open>The boot loader\<close>

definition waitdisk :: "('a kdev_scheme, unit) kop" where
  "waitdisk = seqk (dev_wait (Port 0x1f7) (\<lambda>r. r AND 0xC0 = 0x40)) (retk ())"

text \<open>\<open>insl\<close> into memory, from the address \<open>dst\<close> on.\<close>

fun store_words :: "memory \<Rightarrow> u32 \<Rightarrow> u32 list \<Rightarrow> memory" where
  "store_words m a [] = m"
| "store_words m a (w # ws) = store_words (store32 m a w) (a + 4) ws"

definition readsect :: "u32 \<Rightarrow> u32 \<Rightarrow> ('a kdev_scheme, unit) kop" where
  "readsect dst offset = seqk waitdisk (seqk (outbs [(0x1f2, 1), (0x1f3, offset), (0x1f4, drop_bit 8 offset), (0x1f5, drop_bit 16 offset),
       (0x1f6, drop_bit 24 offset OR 0xE0), (0x1f7, 0x20)])
     (seqk waitdisk (bindk (insl 0x1f0 (512 div 4)) (\<lambda>ws. modk (\<lambda>s. s\<lparr>mem := store_words (mem s) dst ws\<rparr>)))))"

text \<open>The loop of \<open>readseg\<close>; the last argument bounds its rounds by the number of sectors of the address space.\<close>

fun readseg_loop :: "u32 \<Rightarrow> u32 \<Rightarrow> u32 \<Rightarrow> nat \<Rightarrow> ('a kdev_scheme, unit) kop" where
  "readseg_loop pa epa offset 0 = (\<lambda>_. Spin)"
| "readseg_loop pa epa offset (Suc n) = (if pa < epa then seqk (readsect pa offset) (readseg_loop (pa + 512) epa (offset + 1) n)
     else retk ())"

definition readseg :: "u32 \<Rightarrow> u32 \<Rightarrow> u32 \<Rightarrow> ('a kdev_scheme, unit) kop" where
  "readseg pa count offset = readseg_loop (pa - offset mod 512) (pa + count) (offset div 512 + 1) (2 ^ 23 + 1)"

text \<open>The segments of the kernel, from the program header at \<open>ph\<close> to \<open>eph\<close>; the last argument bounds the rounds.\<close>

fun load_segments :: "u32 \<Rightarrow> u32 \<Rightarrow> nat \<Rightarrow> ('a kdev_scheme, unit) kop" where
  "load_segments ph eph 0 = retk ()"
| "load_segments ph eph (Suc n) = (if \<not> ph < eph then retk () else bindk (getk mem) (\<lambda>m. let pa = load32 m (ph + 12); off = load32 m (ph + 4); filesz = load32 m (ph + 16);
       memsz = load32 m (ph + 20) in
     seqk (readseg pa filesz off) (seqk (modk (\<lambda>s. if filesz < memsz then s\<lparr>mem := stosb (mem s) (pa + filesz) 0 (unat (memsz - filesz))\<rparr> else s))
       (load_segments (ph + 32) eph n))))"

text \<open>\<open>bootmain\<close> returns the entry point it jumps to, or \<open>None\<close> when the image is not an executable.\<close>

definition bootmain :: "('a kdev_scheme, u32 option) kop" where
  "bootmain = (let elf = 0x10000 in seqk (readseg elf 4096 0) (bindk (getk mem) (\<lambda>m.
     if load32 m elf \<noteq> 0x464C457F then retk None
     else let ph = elf + load32 m (elf + 28); phnum = load16 m (elf + 44) in seqk (load_segments ph (ph + 32 * ucast phnum) (unat phnum))
       (bindk (getk (\<lambda>s. load32 (mem s) (elf + 24))) (\<lambda>e. retk (Some e))))))"

end
