(* ===== verification/Mkfs.thy ===== *)
theory Mkfs
  imports Ide "HOL-Library.Monad_Syntax"
begin

text \<open>
  The program that builds the disk image (\<open>src/mkfs.c\<close>), on the host: the layout of the disk, its inodes,
  directories and files, and the map of used blocks. The map is shown to mark exactly the blocks that the
  layout and the files of the image use, as the kernel's \<open>balloc\<close> reads it. Which sectors of the image file
  the host can seek to, read and write, that the other files can be opened, and what the reads of them
  deliver, is given.
\<close>

section \<open>State\<close>

text \<open>
  The file \<open>fsfd\<close> is the content of its sectors and their number; a sector that has not been written and
  lies below a written one reads as zeros. \<open>host_ok\<close> are the sectors on which \<open>lseek\<close>, \<open>read\<close> and \<open>write\<close> succeed. A
  read past the end of the file is short. A failing call or \<open>assert\<close> ends the program and is \<open>None\<close>. The
  conversions \<open>xshort\<close> and \<open>xint\<close> store the low byte first, as the encoders of \<open>Fs\<close> do.
\<close>

record mkfs_st =
  img :: "u32 \<Rightarrow> block"
  nsect :: nat
  host_ok :: "u32 \<Rightarrow> bool"
  freeinode :: u32
  freeblock :: u32

definition NINODES :: nat where "NINODES = 200"

definition nbitmap :: nat where "nbitmap = unat FSSIZE div (BSIZE * 8) + 1"
definition ninodeblocks :: nat where "ninodeblocks = NINODES div unat IPB + 1"
definition nlog :: nat where "nlog = LOGSIZE"
definition nmeta :: nat where "nmeta = 2 + nlog + ninodeblocks + nbitmap"

definition mkfs_sb :: superblock where
  "mkfs_sb = \<lparr>sb_size = FSSIZE, sb_nblocks = FSSIZE - of_nat nmeta, sb_ninodes = of_nat NINODES, sb_nlog = of_nat nlog, sb_logstart = 2,
     sb_inodestart = of_nat (2 + nlog), sb_bmapstart = of_nat (2 + nlog + ninodeblocks)\<rparr>"

section \<open>Sectors, inodes and blocks\<close>

definition wsect :: "u32 \<Rightarrow> block \<Rightarrow> mkfs_st \<Rightarrow> mkfs_st option" where
  "wsect sec buf m = (if host_ok m sec then Some (m\<lparr>img := (img m)(sec := buf), nsect := max (nsect m) (unat sec + 1)\<rparr>) else None)"

definition rsect :: "u32 \<Rightarrow> mkfs_st \<Rightarrow> block option" where
  "rsect sec m = (if host_ok m sec \<and> unat sec < nsect m then Some (img m sec) else None)"

definition zero_din :: "u32 \<Rightarrow> inode" where
  "zero_din inum = \<lparr>i_dev = 0, i_inum = inum, i_ref = 0, i_flags = 0, i_type = 0, i_major = 0, i_minor = 0, i_nlink = 0, i_size = 0,
     i_addrs = (\<lambda>_. 0)\<rparr>"

definition winode :: "u32 \<Rightarrow> inode \<Rightarrow> mkfs_st \<Rightarrow> mkfs_st option" where
  "winode inum ip m = (let bn = IBLOCK inum mkfs_sb in do {
     buf \<leftarrow> rsect bn m;
     wsect bn (put_dinode (ip\<lparr>i_inum := inum\<rparr>) buf) m })"

definition rinode :: "u32 \<Rightarrow> mkfs_st \<Rightarrow> inode option" where
  "rinode inum m = do { buf \<leftarrow> rsect (IBLOCK inum mkfs_sb) m; Some (get_dinode buf (zero_din inum)) }"

definition ialloc_mk :: "u16 \<Rightarrow> mkfs_st \<Rightarrow> (u32 \<times> mkfs_st) option" where
  "ialloc_mk type m = (let inum = freeinode m in do {
     m \<leftarrow> winode inum ((zero_din inum)\<lparr>i_type := type, i_nlink := 1, i_size := 0\<rparr>) (m\<lparr>freeinode := freeinode m + 1\<rparr>);
     Some (inum, m) })"

definition used_map :: "nat \<Rightarrow> block" where
  "used_map used = foldl (\<lambda>b i. b[i div 8 := b ! (i div 8) OR push_bit (i mod 8) 1]) (replicate BSIZE 0) [0..<used]"

definition balloc_mk :: "i32 \<Rightarrow> mkfs_st \<Rightarrow> mkfs_st option" where
  "balloc_mk used m = (if sint used < int (BSIZE * 8) then wsect (sb_bmapstart mkfs_sb) (used_map (nat (sint used))) m else None)"

text \<open>The block of the file with index \<open>fbn\<close>, which is given a new block of the disk when it has none.\<close>

definition new_block :: "mkfs_st \<Rightarrow> u32 \<times> mkfs_st" where
  "new_block m = (freeblock m, m\<lparr>freeblock := freeblock m + 1\<rparr>)"

text \<open>A direct address, or the address of the indirect block, and the state after it is made to exist.\<close>

definition din_block :: "nat \<Rightarrow> inode \<Rightarrow> mkfs_st \<Rightarrow> inode \<times> mkfs_st" where
  "din_block k din m = (if i_addrs din k = 0 then let (b, m) = new_block m in (din\<lparr>i_addrs := (i_addrs din)(k := b)\<rparr>, m) else (din, m))"

text \<open>The block of a file that the indirect block names.\<close>

definition indirect_block :: "nat \<Rightarrow> inode \<Rightarrow> mkfs_st \<Rightarrow> (u32 \<times> inode \<times> mkfs_st) option" where
  "indirect_block fbn din m = (let o' = 4 * (fbn - NDIRECT) in do {
     indirect \<leftarrow> rsect (i_addrs din NDIRECT) m;
     if get32 indirect o' = 0 then let (b, m) = new_block m in do {
       m \<leftarrow> wsect (i_addrs din NDIRECT) (put32 indirect o' b) m;
       Some (b, din, m) }
     else Some (get32 indirect o', din, m) })"

definition iappend_block :: "nat \<Rightarrow> inode \<Rightarrow> mkfs_st \<Rightarrow> (u32 \<times> inode \<times> mkfs_st) option" where
  "iappend_block fbn din m = (if fbn < NDIRECT then let (din, m) = din_block fbn din m in Some (i_addrs din fbn, din, m)
     else let (din, m) = din_block NDIRECT din m in indirect_block fbn din m)"

function iappend_loop :: "nat \<Rightarrow> u8 list \<Rightarrow> inode \<Rightarrow> mkfs_st \<Rightarrow> (nat \<times> inode \<times> mkfs_st) option" where
  "iappend_loop off p din m = (if p = [] then Some (off, din, m)
     else let fbn = off div BSIZE; n1 = min (length p) ((fbn + 1) * BSIZE - off); k = off - fbn * BSIZE in
       if fbn < NDIRECT + NINDIRECT then do {
         (x, din, m) \<leftarrow> iappend_block fbn din m;
         buf \<leftarrow> rsect x m;
         m \<leftarrow> wsect x (take k buf @ take n1 p @ drop (k + n1) buf) m;
         iappend_loop (off + n1) (drop n1 p) din m }
       else None)"
  by pat_completeness auto
termination
  by (relation "measure (\<lambda>(off, p, din, m). length p)")
    (auto simp: BSIZE_def less_mult_imp_div_less dividend_less_times_div min_def intro!: diff_less)

declare iappend_loop.simps [simp del]

definition iappend :: "u32 \<Rightarrow> u8 list \<Rightarrow> mkfs_st \<Rightarrow> mkfs_st option" where
  "iappend inum p m = do {
     din \<leftarrow> rinode inum m;
     (off, din, m) \<leftarrow> iappend_loop (unat (i_size din)) p din m;
     winode inum (din\<lparr>i_size := of_nat off\<rparr>) m }"

section \<open>The program\<close>

fun iappends :: "u32 \<Rightarrow> u8 list list \<Rightarrow> mkfs_st \<Rightarrow> mkfs_st option" where
  "iappends inum [] m = Some m"
| "iappends inum (p # ps) m = do { m \<leftarrow> iappend inum p m; iappends inum ps m }"

text \<open>A file is its name and what the reads of it deliver.\<close>

fun mkfs_files :: "u32 \<Rightarrow> (u8 list \<times> u8 list list) list \<Rightarrow> mkfs_st \<Rightarrow> mkfs_st option" where
  "mkfs_files rootino [] m = Some m"
| "mkfs_files rootino ((name, rs) # fs) m = (if 0x2F \<in> set name then None
     else let name = (if name \<noteq> [] \<and> hd name = 0x5F then tl name else name) in do {
       (inum, m) \<leftarrow> ialloc_mk T_FILE m;
       m \<leftarrow> iappend rootino (dirent name (ucast inum)) m;
       m \<leftarrow> iappends inum rs m;
       mkfs_files rootino fs m })"

definition sb_block :: block where
  "sb_block = foldl (\<lambda>b (k, v). put32 b (4 * k) v) (replicate BSIZE 0)
     [(0, sb_size mkfs_sb), (1, sb_nblocks mkfs_sb), (2, sb_ninodes mkfs_sb), (3, sb_nlog mkfs_sb), (4, sb_logstart mkfs_sb),
      (5, sb_inodestart mkfs_sb), (6, sb_bmapstart mkfs_sb)]"

text \<open>The loop that writes zeros to all sectors, and the superblock after it.\<close>

fun wzeros :: "nat list \<Rightarrow> mkfs_st \<Rightarrow> mkfs_st option" where
  "wzeros [] m = Some m"
| "wzeros (i # is) m = do { m \<leftarrow> wsect (of_nat i) (replicate BSIZE 0) m; wzeros is m }"

definition mkfs_empty :: "(u32 \<Rightarrow> bool) \<Rightarrow> mkfs_st option" where
  "mkfs_empty host = do {
     m \<leftarrow> wzeros [0..<unat FSSIZE] \<lparr>img = (\<lambda>_. replicate BSIZE 0), nsect = 0, host_ok = host, freeinode = 1, freeblock = of_nat nmeta\<rparr>;
     wsect 1 sb_block m }"

definition fix_root :: "u32 \<Rightarrow> mkfs_st \<Rightarrow> mkfs_st option" where
  "fix_root rootino m = do {
     din \<leftarrow> rinode rootino m;
     winode rootino (din\<lparr>i_size := (i_size din div of_nat BSIZE + 1) * of_nat BSIZE\<rparr>) m }"

definition mkfs_main :: "(u32 \<Rightarrow> bool) \<Rightarrow> (u8 list \<times> u8 list list) list \<Rightarrow> mkfs_st option" where
  "mkfs_main host files = do {
     m \<leftarrow> mkfs_empty host;
     (rootino, m) \<leftarrow> ialloc_mk T_DIR m;
     if rootino \<noteq> ROOTINO then None else do {
     m \<leftarrow> iappend rootino (dirent [0x2E] (ucast rootino)) m;
     m \<leftarrow> iappend rootino (dirent [0x2E, 0x2E] (ucast rootino)) m;
     m \<leftarrow> mkfs_files rootino files m;
     m \<leftarrow> fix_root rootino m;
     balloc_mk (freeblock m) m } }"

section \<open>The map of used blocks\<close>

lemma block_free_bit: "block_free d b \<longleftrightarrow> \<not> bit (d ! (b div 8)) (b mod 8)"
  by (simp add: block_free_def map_bit_def and_exp_eq_0_iff_not_bit)

lemma used_map_Suc: "used_map (Suc u) = (used_map u)[u div 8 := used_map u ! (u div 8) OR push_bit (u mod 8) 1]"
  by (simp add: used_map_def)

lemma length_used_map [simp]: "length (used_map u) = BSIZE"
  by (induction u) (simp_all add: used_map_Suc, simp add: used_map_def)

lemma same_bit: "b div 8 = u div 8 \<Longrightarrow> b mod 8 = u mod 8 \<longleftrightarrow> b = (u :: nat)"
  by (metis div_mult_mod_eq)

lemma used_map_free: "b < BSIZE * 8 \<Longrightarrow> block_free (used_map u) b \<longleftrightarrow> u \<le> b"
proof (induction u)
  case 0
  have "b div 8 < BSIZE" using 0 by (simp add: less_mult_imp_div_less)
  then show ?case by (simp add: block_free_bit used_map_def)
next
  case (Suc u)
  have l: "b div 8 < BSIZE" using Suc.prems by (simp add: less_mult_imp_div_less)
  show ?case
  proof (cases "b div 8 = u div 8")
    case True
    have "bit (push_bit (u mod 8) 1 :: u8) (b mod 8) \<longleftrightarrow> b = u"
      using same_bit [OF True] by (auto simp: bit_simps)
    then have "bit (used_map (Suc u) ! (b div 8)) (b mod 8) \<longleftrightarrow> bit (used_map u ! (b div 8)) (b mod 8) \<or> b = u"
      using True l by (simp add: used_map_Suc bit_or_iff)
    then show ?thesis using Suc by (auto simp: block_free_bit)
  next
    case False
    then have "used_map (Suc u) ! (b div 8) = used_map u ! (b div 8)" by (simp add: used_map_Suc)
    moreover have "b \<noteq> u" using False by auto
    ultimately show ?thesis using Suc by (auto simp: block_free_bit)
  qed
qed

text \<open>The kernel reads from the superblock what the program put into it.\<close>

lemma sb_block_decodes:
  "get32 sb_block 0 = sb_size mkfs_sb" "get32 sb_block 24 = sb_bmapstart mkfs_sb" "get32 sb_block 20 = sb_inodestart mkfs_sb"
  by (simp_all add: sb_block_def get32_put32 get32_put32_other BSIZE_def)

section \<open>The blocks that files use\<close>

text \<open>
  A place for a block address: the inode and an index, of the direct addresses, of the indirect block
  (index \<open>NDIRECT\<close>) or of an address in the indirect block. \<open>D\<close> gives the addresses in the inodes, which during
  \<open>iappend\<close> are ahead of the disk.
\<close>

definition addr :: "(u32 \<Rightarrow> nat \<Rightarrow> u32) \<Rightarrow> mkfs_st \<Rightarrow> u32 \<times> nat \<Rightarrow> u32" where
  "addr D m s = (case s of (i, k) \<Rightarrow> if k \<le> NDIRECT then D i k else if D i NDIRECT = 0 then 0
     else get32 (img m (D i NDIRECT)) (4 * (k - NDIRECT - 1)))"

definition slots :: "mkfs_st \<Rightarrow> (u32 \<times> nat) set" where
  "slots m = {(i, k). 0 < i \<and> i < freeinode m \<and> k \<le> NDIRECT + NINDIRECT}"

definition disk_addrs :: "mkfs_st \<Rightarrow> u32 \<Rightarrow> nat \<Rightarrow> u32" where
  "disk_addrs m i = i_addrs (get_dinode (img m (IBLOCK i mkfs_sb)) (zero_din i))"

text \<open>The places hold each block from \<open>nmeta\<close> up to the first free one exactly once.\<close>

definition owned :: "('s \<Rightarrow> u32) \<Rightarrow> 's set \<Rightarrow> nat \<Rightarrow> bool" where
  "owned A S hi \<longleftrightarrow> (\<forall>s\<in>S. A s \<noteq> 0 \<longrightarrow> nmeta \<le> unat (A s) \<and> unat (A s) < hi) \<and> (\<forall>s\<in>S. \<forall>t\<in>S. A s = A t \<longrightarrow> A s \<noteq> 0 \<longrightarrow> s = t)
     \<and> (\<forall>b. nmeta \<le> b \<longrightarrow> b < hi \<longrightarrow> (\<exists>s\<in>S. unat (A s) = b))"

lemma nmeta_eq: "nmeta = 59"
  by (simp add: nmeta_def nlog_def LOGSIZE_def ninodeblocks_def NINODES_def IPB_def nbitmap_def FSSIZE_def BSIZE_def)

lemma owned_cong: "(\<And>s. s \<in> S \<Longrightarrow> A s = B s) \<Longrightarrow> owned A S hi = owned B S hi"
  unfolding owned_def by (intro arg_cong2 [where f = "(\<and>)"] ball_cong all_cong bex_cong imp_cong refl) auto

lemma ownedD:
  assumes "owned A S hi" and "s \<in> S" and "A s \<noteq> 0"
  shows "nmeta \<le> unat (A s)" "unat (A s) < hi" "t \<in> S \<Longrightarrow> A t = A s \<Longrightarrow> t = s"
  using assms unfolding owned_def by auto

lemma owned_extend:
  assumes "owned A S hi" and "\<And>s. s \<in> S \<Longrightarrow> B s = A s" and "\<And>s. s \<in> T \<Longrightarrow> B s = 0"
  shows "owned B (S \<union> T) hi"
proof -
  have n: "s \<in> S" if "s \<in> S \<union> T" "B s \<noteq> 0" for s using that assms(3) by auto
  have "\<exists>s\<in>S \<union> T. unat (B s) = b" if b: "nmeta \<le> b" "b < hi" for b
  proof -
    obtain s where "s \<in> S" "unat (A s) = b" using assms(1) b by (auto simp: owned_def)
    then show ?thesis using assms(2) [of s] by (intro bexI [of _ s]) simp_all
  qed
  moreover have "s = t" if "s \<in> S \<union> T" "t \<in> S \<union> T" "B s = B t" "B s \<noteq> 0" for s t
    using ownedD(3) [OF assms(1), of t s] n [of s] n [of t] assms(2) that by simp
  moreover have "nmeta \<le> unat (B s) \<and> unat (B s) < hi" if "s \<in> S \<union> T" "B s \<noteq> 0" for s
    using ownedD(1,2) [OF assms(1) n [OF that]] assms(2) [OF n [OF that]] that(2) by simp
  ultimately show ?thesis unfolding owned_def by blast
qed

lemma owned_alloc:
  assumes "owned A S hi" and "s \<in> S" and "A s = 0" and "unat b = hi" and "nmeta \<le> hi"
  shows "owned (A(s := b)) S (Suc hi)"
proof -
  have r: "\<And>t. t \<in> S \<Longrightarrow> A t \<noteq> 0 \<Longrightarrow> nmeta \<le> unat (A t) \<and> unat (A t) < hi"
    and i: "\<And>t u. t \<in> S \<Longrightarrow> u \<in> S \<Longrightarrow> A t = A u \<Longrightarrow> A t \<noteq> 0 \<Longrightarrow> t = u"
    and o: "\<And>c. nmeta \<le> c \<Longrightarrow> c < hi \<Longrightarrow> \<exists>t\<in>S. unat (A t) = c"
    using assms(1) by (auto simp: owned_def)
  have n: "A t \<noteq> b" if "t \<in> S" for t using r [OF that] assms(4,5) by (cases "A t = 0") (auto simp: nmeta_eq)
  have "\<exists>t\<in>S. unat ((A(s := b)) t) = c" if c: "nmeta \<le> c" "c < Suc hi" for c
  proof (cases "c = hi")
    case True
    then show ?thesis using assms(2,4) by (intro bexI [of _ s]) simp_all
  next
    case False
    then have "c < hi" using c(2) by simp
    then obtain t where t: "t \<in> S" "unat (A t) = c" using o [OF c(1)] by blast
    then have "t \<noteq> s" using assms(3) c(1) by (auto simp: nmeta_eq)
    then show ?thesis using t by auto
  qed
  moreover have "t = u" if "t \<in> S" "u \<in> S" "(A(s := b)) t = (A(s := b)) u" "(A(s := b)) t \<noteq> 0" for t u
    using that n i by (auto split: if_splits)
  moreover have "nmeta \<le> unat ((A(s := b)) t) \<and> unat ((A(s := b)) t) < Suc hi" if "t \<in> S" "(A(s := b)) t \<noteq> 0" for t
    using that r [of t] assms(4,5) by (auto split: if_splits)
  ultimately show ?thesis unfolding owned_def by blast
qed

text \<open>The invariant of the program between its steps. The image file has its \<open>FSSIZE\<close> sectors with the superblock in the
  second, and a block that has not been given away is zero.\<close>

definition alloc_inv :: "(u32 \<Rightarrow> nat \<Rightarrow> u32) \<Rightarrow> mkfs_st \<Rightarrow> bool" where
  "alloc_inv D m \<longleftrightarrow> nsect m = 1000 \<and> img m 1 = sb_block \<and> unat (freeinode m) \<le> NINODES \<and> nmeta \<le> unat (freeblock m) \<and> unat (freeblock m) \<le> 1000
     \<and> (\<forall>b. length (img m b) = BSIZE) \<and> (\<forall>b. unat (freeblock m) \<le> unat b \<longrightarrow> img m b = replicate BSIZE 0)
     \<and> owned (addr D m) (slots m) (unat (freeblock m))"

lemma unat_succ: "unat (b :: u32) < 1000 \<Longrightarrow> unat (b + 1) = Suc (unat b)"
  by (subst unat_add_lem [THEN iffD1]) simp_all

lemma get32_zero: "k + 3 < n \<Longrightarrow> get32 (replicate n 0) k = 0"
  by (simp add: get32_def)

lemma alloc_din:
  assumes "alloc_inv D m" and "unat (freeblock m) < 1000" and "(i, k) \<in> slots m" and "k \<le> NDIRECT" and "D i k = 0"
  shows "alloc_inv (D(i := (D i)(k := freeblock m))) (m\<lparr>freeblock := freeblock m + 1\<rparr>)"
proof -
  let ?b = "freeblock m" let ?D = "D(i := (D i)(k := ?b))" and ?m = "m\<lparr>freeblock := ?b + 1\<rparr>"
  have I: "nsect m = 1000" "unat (freeinode m) \<le> NINODES" "nmeta \<le> unat ?b" "\<And>b. length (img m b) = BSIZE"
    "\<And>b. unat ?b \<le> unat b \<Longrightarrow> img m b = replicate BSIZE 0" "owned (addr D m) (slots m) (unat ?b)" "img m 1 = sb_block"
    using assms(1) by (simp_all add: alloc_inv_def)
  have "?b \<noteq> 0" using I(3) by (auto simp: nmeta_eq)
  then have "addr ?D ?m s = ((addr D m)((i, k) := ?b)) s" if "s \<in> slots m" for s
    using that assms(4,5) I(5) [of ?b] by (cases s) (auto simp: addr_def slots_def get32_zero NDIRECT_def NINDIRECT_def BSIZE_def)
  then have "owned (addr ?D ?m) (slots m) (Suc (unat ?b))"
    using owned_alloc [OF I(6) assms(3) _ refl I(3)] assms(4,5) owned_cong [of "slots m" "addr ?D ?m" "(addr D m)((i, k) := ?b)"]
    by (simp add: addr_def)
  moreover have "slots ?m = slots m" by (simp add: slots_def)
  ultimately show ?thesis using I assms(2) by (simp add: alloc_inv_def unat_succ)
qed

lemma alloc_indirect:
  assumes "alloc_inv D m" and "unat (freeblock m) < 1000" and "(i, k) \<in> slots m" and "NDIRECT < k" and "D i NDIRECT = q" and "q \<noteq> 0"
    and "get32 (img m q) (4 * (k - NDIRECT - 1)) = 0"
  shows "alloc_inv D (m\<lparr>freeblock := freeblock m + 1, img := (img m)(q := put32 (img m q) (4 * (k - NDIRECT - 1)) (freeblock m))\<rparr>)" (is "alloc_inv D ?m")
proof -
  let ?b = "freeblock m"
  have I: "nsect m = 1000" "unat (freeinode m) \<le> NINODES" "nmeta \<le> unat ?b" "\<And>b. length (img m b) = BSIZE"
    "\<And>b. unat ?b \<le> unat b \<Longrightarrow> img m b = replicate BSIZE 0" "owned (addr D m) (slots m) (unat ?b)" "img m 1 = sb_block"
    using assms(1) by (simp_all add: alloc_inv_def)
  have s: "(i, NDIRECT) \<in> slots m" "addr D m (i, NDIRECT) = q" using assms(3,5) by (simp_all add: slots_def addr_def)
  have q: "unat q < unat ?b" "q \<noteq> 1" using ownedD(1,2) [OF I(6) s(1)] s(2) assms(6) by (auto simp: nmeta_eq)
  have u: "D j NDIRECT = q \<longleftrightarrow> j = i" if "(j, l) \<in> slots m" for j l
    using ownedD(3) [OF I(6) s(1), of "(j, NDIRECT)"] that s(2) assms(5,6) by (auto simp: slots_def addr_def)
  have z: "addr D m (i, k) = 0" using assms(4-7) by (simp add: addr_def)
  have "addr D ?m s = ((addr D m)((i, k) := ?b)) s" if t: "s \<in> slots m" for s
  proof -
    obtain j l where jl: "s = (j, l)" by (cases s)
    have b: "4 * (k - NDIRECT - 1) + 3 < BSIZE" using assms(3) by (auto simp: slots_def NDIRECT_def NINDIRECT_def BSIZE_def)
    show ?thesis
    proof (cases "j = i \<and> NDIRECT < l")
      case True
      then show ?thesis using jl assms(4-6) b I(4) [of q]
        by (cases "l = k") (auto simp: addr_def get32_put32 intro!: get32_put32_other)
    next
      case False
      then show ?thesis using u [of j l] t jl assms(4) by (auto simp: addr_def)
    qed
  qed
  then have "owned (addr D ?m) (slots m) (Suc (unat ?b))"
    using owned_alloc [OF I(6) assms(3) z refl I(3)] owned_cong [of "slots m" "addr D ?m" "(addr D m)((i, k) := ?b)"] by simp
  moreover have "slots ?m = slots m" by (simp add: slots_def)
  ultimately show ?thesis using I q assms(2) by (auto simp: alloc_inv_def unat_succ)
qed

lemma data_write:
  assumes "alloc_inv D m" and "(i, k) \<in> slots m" and "k \<noteq> NDIRECT" and "addr D m (i, k) = x" and "x \<noteq> 0" and "length buf = BSIZE"
  shows "alloc_inv D (m\<lparr>img := (img m)(x := buf)\<rparr>)" (is "alloc_inv D ?m")
proof -
  have I: "owned (addr D m) (slots m) (unat (freeblock m))" using assms(1) by (simp add: alloc_inv_def)
  have u: "D j NDIRECT \<noteq> x" if "(j, l) \<in> slots m" for j l
    using ownedD(3) [OF I assms(2), of "(j, NDIRECT)"] that assms(3-5) by (auto simp: slots_def addr_def)
  have "addr D ?m s = addr D m s" if "s \<in> slots m" for s
    using u that by (cases s) (auto simp: addr_def)
  then have "owned (addr D ?m) (slots m) (unat (freeblock m))"
    using I owned_cong [of "slots m" "addr D ?m" "addr D m"] by simp
  moreover have "slots ?m = slots m" by (simp add: slots_def)
  ultimately show ?thesis using assms(1,6) ownedD(1,2) [OF I assms(2)] assms(4,5) by (auto simp: alloc_inv_def nmeta_eq)
qed

text \<open>What a step inside \<open>iappend\<close> leaves alone: the inodes and the other blocks of the layout.\<close>

definition kept :: "mkfs_st \<Rightarrow> mkfs_st \<Rightarrow> bool" where
  "kept m m' \<longleftrightarrow> freeinode m' = freeinode m \<and> (\<forall>b. unat b < nmeta \<longrightarrow> img m' b = img m b)"

lemma kept_refl: "kept m m"
  by (simp add: kept_def)

lemma kept_trans: "kept l m \<Longrightarrow> kept m n \<Longrightarrow> kept l n"
  by (simp add: kept_def)

lemma kept_slots: "kept m m' \<Longrightarrow> slots m' = slots m"
  by (simp add: kept_def slots_def)

lemma rsect_Some: "rsect x m = Some b \<longleftrightarrow> host_ok m x \<and> unat x < nsect m \<and> b = img m x"
  by (auto simp: rsect_def)

lemma wsect_Some: "wsect x b m = Some m' \<Longrightarrow> unat x < nsect m \<Longrightarrow> m' = m\<lparr>img := (img m)(x := b)\<rparr>"
  by (auto simp: wsect_def max_def split: if_splits)

lemma din_block_inv:
  assumes "alloc_inv D m" and "D i = i_addrs din" and "(i, k) \<in> slots m" and "k \<le> NDIRECT" and "din_block k din m = (din', m')" and "unat (i_addrs din' k) < 1000"
  shows "alloc_inv (D(i := i_addrs din')) m'" "kept m m'" "i_addrs din' k \<noteq> 0"
proof -
  have n: "nmeta \<le> unat (freeblock m)" using assms(1) by (simp add: alloc_inv_def)
  then have z: "freeblock m \<noteq> 0" by (auto simp: nmeta_eq)
  have "alloc_inv (D(i := i_addrs din')) m' \<and> kept m m' \<and> i_addrs din' k \<noteq> 0"
  proof (cases "i_addrs din k = 0")
    case True
    then have d: "din' = din\<lparr>i_addrs := (i_addrs din)(k := freeblock m)\<rparr>" "m' = m\<lparr>freeblock := freeblock m + 1\<rparr>"
      using assms(5) by (auto simp: din_block_def new_block_def)
    then show ?thesis using alloc_din [OF assms(1) _ assms(3,4)] assms(2,6) True z by (simp add: kept_def)
  next
    case False
    then have "din' = din" "m' = m" using assms(5) by (auto simp: din_block_def)
    moreover have "D(i := i_addrs din) = D" using assms(2) by auto
    ultimately show ?thesis using assms(1) False by (simp add: kept_refl)
  qed
  then show "alloc_inv (D(i := i_addrs din')) m'" "kept m m'" "i_addrs din' k \<noteq> 0" by simp_all
qed

lemma din_block_nsect: "din_block k din m = (din', m') \<Longrightarrow> nsect m' = nsect m"
  by (auto simp: din_block_def new_block_def split: if_splits)

text \<open>The place that the block with index \<open>fbn\<close> of a file has.\<close>

definition place :: "nat \<Rightarrow> nat" where
  "place fbn = (if fbn < NDIRECT then fbn else fbn + 1)"

lemma indirect_block_inv:
  assumes "alloc_inv D m" and "D i = i_addrs din" and "(i, place fbn) \<in> slots m" and "\<not> fbn < NDIRECT" and "i_addrs din NDIRECT \<noteq> 0"
    and "indirect_block fbn din m = Some (x, din', m')" and "unat x < 1000"
  shows "alloc_inv D m' \<and> din' = din \<and> addr D m' (i, place fbn) = x \<and> x \<noteq> 0 \<and> kept m m'"
proof -
  let ?q = "i_addrs din NDIRECT" and ?o = "4 * (fbn - NDIRECT)"
  have I: "nmeta \<le> unat (freeblock m)" "\<And>b. length (img m b) = BSIZE" "owned (addr D m) (slots m) (unat (freeblock m))" using assms(1) by (simp_all add: alloc_inv_def)
  have s: "(i, NDIRECT) \<in> slots m" "addr D m (i, NDIRECT) = ?q" using assms(2,3) by (auto simp: slots_def addr_def)
  have q: "nmeta \<le> unat ?q" "unat ?q < nsect m"
    using ownedD(1,2) [OF I(3) s(1)] s(2) assms(1,5) by (simp_all add: alloc_inv_def)
  have p: "NDIRECT < place fbn" "place fbn - NDIRECT - 1 = fbn - NDIRECT" using assms(4) by (simp_all add: place_def)
  show ?thesis
  proof (cases "get32 (img m ?q) ?o = 0")
    case True
    then have d: "x = freeblock m" "din' = din" "m' = m\<lparr>freeblock := freeblock m + 1, img := (img m)(?q := put32 (img m ?q) ?o (freeblock m))\<rparr>"
      using assms(6) q(2) by (auto simp: indirect_block_def Let_def rsect_Some new_block_def bind_eq_Some_conv dest!: wsect_Some)
    have "?o + 3 < length (img m ?q)" using assms(3,4) I(2) by (auto simp: slots_def place_def NDIRECT_def NINDIRECT_def BSIZE_def)
    then have "addr D m' (i, place fbn) = x" using p assms(2,5) d by (simp add: addr_def get32_put32)
    moreover have "alloc_inv D m'"
      using alloc_indirect [OF assms(1) _ assms(3) p(1), of ?q] True p(2) d assms(2,5,7) by simp
    moreover have "x \<noteq> 0" using d(1) I(1) by (auto simp: nmeta_eq)
    ultimately show ?thesis using d q(1) by (auto simp: kept_def)
  next
    case False
    then have "x = get32 (img m ?q) ?o" "din' = din" "m' = m" using assms(6) by (auto simp: indirect_block_def Let_def rsect_Some bind_eq_Some_conv)
    then show ?thesis using assms(1,2,5) p False by (simp add: addr_def kept_refl)
  qed
qed

lemma iappend_block_inv:
  assumes "alloc_inv D m" and "D i = i_addrs din" and "(i, place fbn) \<in> slots m"
    and "iappend_block fbn din m = Some (x, din', m')" and "rsect x m' = Some buf" and "nsect m' = 1000"
  shows "alloc_inv (D(i := i_addrs din')) m' \<and> addr (D(i := i_addrs din')) m' (i, place fbn) = x \<and> x \<noteq> 0 \<and> kept m m'"
proof -
  have x: "unat x < 1000" using assms(5,6) by (simp add: rsect_Some)
  show ?thesis
  proof (cases "fbn < NDIRECT")
    case True
    then have p: "place fbn = fbn" "fbn \<le> NDIRECT" by (simp_all add: place_def)
    have d: "din_block fbn din m = (din', m')" "x = i_addrs din' fbn" using assms(4) True by (auto simp: iappend_block_def split: prod.splits)
    from din_block_inv [OF assms(1,2) _ p(2) d(1)] assms(3) p(1) d(2) x show ?thesis using p(2) by (simp add: addr_def)
  next
    case False
    obtain din1 m1 where d: "din_block NDIRECT din m = (din1, m1)" by (cases "din_block NDIRECT din m")
    have b: "indirect_block fbn din1 m1 = Some (x, din', m')" using assms(4) False d by (simp add: iappend_block_def)
    have s: "(i, NDIRECT) \<in> slots m" using assms(3) by (simp add: slots_def)
    have "nsect m1 = 1000" using din_block_nsect [OF d] assms(1) by (simp add: alloc_inv_def)
    then have "unat (i_addrs din1 NDIRECT) < 1000" using b by (auto simp: indirect_block_def Let_def bind_eq_Some_conv rsect_Some)
    note i = din_block_inv [OF assms(1,2) s order_refl d this]
    have "(i, place fbn) \<in> slots m1" using assms(3) kept_slots [OF i(2)] by simp
    from indirect_block_inv [OF i(1) _ this False i(3) b x] show ?thesis using kept_trans [OF i(2)] by simp
  qed
qed

lemma block_sects:
  assumes "iappend_block fbn din m = Some (x, din', m')" and "nsect m = 1000"
  shows "nsect m' = 1000"
proof -
  obtain d1 m1 d2 m2 where b: "din_block fbn din m = (d1, m1)" "din_block NDIRECT din m = (d2, m2)"
    by (cases "din_block fbn din m", cases "din_block NDIRECT din m")
  note n = din_block_nsect [OF b(1)] din_block_nsect [OF b(2)]
  have "nsect u = nsect m2" if "indirect_block fbn d2 m2 = Some (y, d', u)" for y d' u
    using that by (auto simp: indirect_block_def Let_def rsect_Some new_block_def bind_eq_Some_conv split: if_splits dest!: wsect_Some)
  then show ?thesis using assms n b by (auto simp: iappend_block_def split: if_splits)
qed

lemma length_splice: "k + n \<le> length b \<Longrightarrow> n \<le> length p \<Longrightarrow> length (take k b @ take n p @ drop (k + n) b) = length b"
  by simp

lemma iappend_loop_inv:
  assumes "iappend_loop off p din m = Some (off', din', m')" and "alloc_inv D m" and "D i = i_addrs din" and "0 < i" and "i < freeinode m"
  shows "alloc_inv (D(i := i_addrs din')) m' \<and> kept m m'"
  using assms
proof (induction off p din m arbitrary: D rule: iappend_loop.induct)
  case (1 off p din m)
  show ?case
  proof (cases "p = []")
    case True
    then have "din' = din" "m' = m" using "1.prems"(1) by (simp_all add: iappend_loop.simps)
    moreover have "D(i := i_addrs din) = D" using "1.prems"(3) by auto
    ultimately show ?thesis using "1.prems"(2) by (simp add: kept_refl)
  next
    case False
    let ?f = "off div BSIZE" let ?n = "min (length p) ((?f + 1) * BSIZE - off)" and ?k = "off - ?f * BSIZE"
    have f: "?f < NDIRECT + NINDIRECT" using "1.prems"(1) False by (auto simp: iappend_loop.simps [of off p] Let_def split: if_splits)
    obtain x din1 m1 buf m2 where s: "iappend_block ?f din m = Some (x, din1, m1)" "rsect x m1 = Some buf"
      "wsect x (take ?k buf @ take ?n p @ drop (?k + ?n) buf) m1 = Some m2" "iappend_loop (off + ?n) (drop ?n p) din1 m2 = Some (off', din', m')"
      using "1.prems"(1) False f by (subst (asm) iappend_loop.simps) (auto simp: Let_def bind_eq_Some_conv)
    have n: "nsect m1 = 1000" using block_sects [OF s(1)] "1.prems"(2) by (simp add: alloc_inv_def)
    have sl: "(i, place ?f) \<in> slots m" using "1.prems"(4,5) f by (auto simp: slots_def place_def)
    note b = iappend_block_inv [OF "1.prems"(2,3) sl s(1,2) n]
    have sl1: "(i, place ?f) \<in> slots m1" and pn: "place ?f \<noteq> NDIRECT" using sl b kept_slots by (auto simp: place_def)
    have buf: "length buf = BSIZE" "unat x < nsect m1" using s(2) b by (auto simp: rsect_Some alloc_inv_def)
    have "?f * BSIZE + off mod BSIZE = off" "off mod BSIZE < BSIZE" "(?f + 1) * BSIZE = ?f * BSIZE + BSIZE" by (simp_all add: BSIZE_def)
    then have "?k + ?n \<le> length buf" unfolding buf(1) by linarith
    from trans [OF length_splice [OF this min.cobounded1] buf(1)]
    have l: "length (take ?k buf @ take ?n p @ drop (?k + ?n) buf) = BSIZE" .
    have m2: "m2 = m1\<lparr>img := (img m1)(x := take ?k buf @ take ?n p @ drop (?k + ?n) buf)\<rparr>" by (rule wsect_Some [OF s(3) buf(2)])
    have i2: "alloc_inv (D(i := i_addrs din1)) m2" unfolding m2 using b by (intro data_write [OF _ sl1 pn _ _ l]) simp_all
    have "nmeta \<le> unat x" using ownedD(1) [OF _ sl1] b by (auto simp: alloc_inv_def)
    then have k2: "kept m1 m2" by (auto simp: m2 kept_def)
    have "alloc_inv ((D(i := i_addrs din1))(i := i_addrs din')) m' \<and> kept m2 m'"
      by (rule "1.IH" [OF False refl refl refl f s(1) refl refl s(2,3,4) i2]) (use "1.prems"(4,5) b k2 in \<open>simp_all add: kept_def\<close>)
    then show ?thesis unfolding fun_upd_upd using b k2 kept_trans by blast
  qed
qed

section \<open>Inodes on the disk\<close>

lemma get32_foldl_put32:
  "\<forall>k\<in>set ks. f k + 4 \<le> j \<or> j + 4 \<le> f k \<Longrightarrow> get32 (foldl (\<lambda>d k. put32 d (f k) (a k)) d ks) j = get32 d j"
  by (induction ks arbitrary: d) (simp_all add: get32_put32_other)

lemma put_dinode_other:
  assumes "dinode_off (i_inum ip) + 64 \<le> j \<or> j + 4 \<le> dinode_off (i_inum ip)"
  shows "get32 (put_dinode ip d) j = get32 d j"
proof -
  let ?o = "dinode_off (i_inum ip)"
  have "\<forall>k\<in>set [0..<NDIRECT + 1]. (?o + 12 + 4 * k) + 4 \<le> j \<or> j + 4 \<le> ?o + 12 + 4 * k"
    using assms by (auto simp: NDIRECT_def)
  note f = get32_foldl_put32 [OF this, of "i_addrs ip"]
  show ?thesis
    unfolding put_dinode_def Let_def f using assms by (auto simp: get32_put32_other get32_put16_other)
qed

lemma same_iblock: "IBLOCK i sb' = IBLOCK j sb' \<Longrightarrow> dinode_off i = dinode_off j \<Longrightarrow> i = j"
  by (simp add: IBLOCK_def dinode_off_def) (metis div_mult_mod_eq unsigned_word_eqI)

lemma disk_addrs_other:
  assumes "i \<noteq> j"
  shows "disk_addrs (m\<lparr>img := (img m)(IBLOCK i mkfs_sb := put_dinode (ip\<lparr>i_inum := i\<rparr>) (img m (IBLOCK i mkfs_sb)))\<rparr>) j k = disk_addrs m j k"
proof (cases "IBLOCK i mkfs_sb = IBLOCK j mkfs_sb \<and> k \<le> NDIRECT")
  case True
  then have "dinode_off i \<noteq> dinode_off j" using same_iblock [of i mkfs_sb j] assms by auto
  then have "dinode_off i + 64 \<le> dinode_off j \<or> dinode_off j + 64 \<le> dinode_off i" by (auto simp: dinode_off_def)
  then have "dinode_off i + 64 \<le> dinode_off j + 12 + 4 * k \<or> dinode_off j + 12 + 4 * k + 4 \<le> dinode_off i"
    using True by (auto simp: NDIRECT_def)
  then show ?thesis using True put_dinode_other [of "ip\<lparr>i_inum := i\<rparr>"] by (simp add: disk_addrs_def get_dinode_def Let_def zero_din_def)
next
  case False
  then show ?thesis by (auto simp: disk_addrs_def get_dinode_def Let_def zero_din_def)
qed

lemma iblock_range:
  assumes "unat i < NINODES"
  shows "unat (IBLOCK i mkfs_sb) < 58" "32 \<le> unat (IBLOCK i mkfs_sb)"
proof -
  have d: "unat (i div 8) = unat i div 8" by (simp add: unat_div_distrib)
  have b: "IBLOCK i mkfs_sb = i div 8 + 32" by (simp add: IBLOCK_def IPB_def mkfs_sb_def nlog_def LOGSIZE_def)
  have "unat (i div 8 + 32) = unat i div 8 + 32"
    using assms d by (subst unat_add_lem [THEN iffD1]) (simp_all add: NINODES_def)
  then show "unat (IBLOCK i mkfs_sb) < 58" "32 \<le> unat (IBLOCK i mkfs_sb)" using assms b by (auto simp: NINODES_def)
qed

text \<open>The layout below \<open>nmeta\<close> can change under the invariant, as long as the inodes say the same.\<close>

lemma inv_layout:
  assumes "alloc_inv D m" and "unat b < nmeta" and "b \<noteq> 1" and "length d = BSIZE" and "\<And>i k. 0 < i \<Longrightarrow> i < freeinode m \<Longrightarrow> k \<le> NDIRECT \<Longrightarrow> D' i k = D i k"
  shows "alloc_inv D' (m\<lparr>img := (img m)(b := d)\<rparr>)" (is "alloc_inv D' ?m")
proof -
  have I: "owned (addr D m) (slots m) (unat (freeblock m))" "nmeta \<le> unat (freeblock m)" using assms(1) by (simp_all add: alloc_inv_def)
  have "addr D' ?m s = addr D m s" if t: "s \<in> slots m" for s
  proof -
    obtain i k where ik: "s = (i, k)" by (cases s)
    have n: "(i, NDIRECT) \<in> slots m" "D' i NDIRECT = D i NDIRECT" "k \<le> NDIRECT \<Longrightarrow> D' i k = D i k"
      using t ik assms(5) by (auto simp: slots_def)
    have "D i NDIRECT \<noteq> 0 \<Longrightarrow> D i NDIRECT \<noteq> b"
      using ownedD(1) [OF I(1) n(1)] assms(2) by (auto simp: addr_def)
    then show ?thesis using n(2,3) ik by (auto simp: addr_def)
  qed
  then have "owned (addr D' ?m) (slots m) (unat (freeblock m))" using I(1) owned_cong [of "slots m" "addr D' ?m" "addr D m"] by simp
  moreover have "slots ?m = slots m" by (simp add: slots_def)
  ultimately show ?thesis using assms(1-4) I(2) by (auto simp: alloc_inv_def)
qed

lemma winode_inv:
  assumes "alloc_inv (D(i := i_addrs ip)) m" and "\<And>j k. j \<noteq> i \<Longrightarrow> 0 < j \<Longrightarrow> j < freeinode m \<Longrightarrow> k \<le> NDIRECT \<Longrightarrow> D j k = disk_addrs m j k"
    and "i < freeinode m" and "winode i ip m = Some m'"
  shows "alloc_inv (disk_addrs m') m' \<and> freeinode m' = freeinode m"
proof -
  let ?b = "IBLOCK i mkfs_sb" let ?d = "put_dinode (ip\<lparr>i_inum := i\<rparr>) (img m ?b)"
  have n: "nsect m = 1000" "length (img m ?b) = BSIZE" "unat i < NINODES"
    using assms(1,3) by (auto simp: alloc_inv_def word_less_nat_alt)
  have b: "unat ?b < nmeta" "unat ?b < nsect m" "?b \<noteq> 1" using iblock_range [OF n(3)] n(1) by (auto simp: nmeta_eq)
  have m': "m' = m\<lparr>img := (img m)(?b := ?d)\<rparr>"
    using assms(4) b(2) by (auto simp: winode_def Let_def bind_eq_Some_conv rsect_Some dest!: wsect_Some)
  note g = get_put_dinode [OF n(2), of "ip\<lparr>i_inum := i\<rparr>" "zero_din i"]
  have "disk_addrs m' j k = (D(i := i_addrs ip)) j k" if "0 < j" "j < freeinode m" "k \<le> NDIRECT" for j k
  proof (cases "j = i")
    case True
    then show ?thesis using g that(3) by (simp add: disk_addrs_def m' zero_din_def)
  next
    case False
    then show ?thesis using disk_addrs_other [of i j m ip k] assms(2) that unfolding m' by simp
  qed
  then have "alloc_inv (disk_addrs m') (m\<lparr>img := (img m)(?b := ?d)\<rparr>)"
    using g by (intro inv_layout [OF assms(1) b(1,3)]) (simp_all add: zero_din_def)
  then show ?thesis using m' by simp
qed

text \<open>The steps of the program keep the invariant.\<close>

lemma rinode_addrs: "rinode i m = Some din \<Longrightarrow> i_addrs din = disk_addrs m i"
  by (auto simp: rinode_def bind_eq_Some_conv rsect_Some disk_addrs_def)

lemma iappend_inv:
  assumes "iappend i p m = Some m'" and "alloc_inv (disk_addrs m) m" and "0 < i" and "i < freeinode m"
  shows "alloc_inv (disk_addrs m') m' \<and> freeinode m' = freeinode m"
proof -
  obtain din off din1 m1 where s: "rinode i m = Some din" "iappend_loop (unat (i_size din)) p din m = Some (off, din1, m1)"
    "winode i (din1\<lparr>i_size := of_nat off\<rparr>) m1 = Some m'"
    using assms(1) by (auto simp: iappend_def bind_eq_Some_conv)
  note l = iappend_loop_inv [OF s(2) assms(2) rinode_addrs [OF s(1), symmetric] assms(3,4)]
  then have k: "freeinode m1 = freeinode m" "\<And>b. unat b < nmeta \<Longrightarrow> img m1 b = img m b" by (simp_all add: kept_def)
  have "disk_addrs m j k = disk_addrs m1 j k" if "j < freeinode m" for j k
  proof -
    have "unat j < NINODES" using that assms(2) by (simp add: alloc_inv_def word_less_nat_alt)
    then show ?thesis using k(2) [of "IBLOCK j mkfs_sb"] iblock_range(1) [of j] by (simp add: disk_addrs_def nmeta_eq)
  qed
  then show ?thesis using winode_inv [of "disk_addrs m" i "din1\<lparr>i_size := of_nat off\<rparr>" m1 m'] l s(3) assms(4) k(1) by auto
qed

lemma iappends_inv:
  "iappends i ps m = Some m' \<Longrightarrow> alloc_inv (disk_addrs m) m \<Longrightarrow> 0 < i \<Longrightarrow> i < freeinode m \<Longrightarrow> alloc_inv (disk_addrs m') m' \<and> freeinode m' = freeinode m"
proof (induction ps arbitrary: m)
  case (Cons p ps)
  then obtain m1 where "iappend i p m = Some m1" "iappends i ps m1 = Some m'" by (auto simp: bind_eq_Some_conv)
  then show ?case using Cons.IH [of m1] iappend_inv [of i p m m1] Cons.prems by simp
qed simp

lemma new_inode_inv:
  assumes "alloc_inv D m" and "freeinode m \<noteq> 0" and "unat (freeinode m) < NINODES"
  shows "alloc_inv (D(freeinode m := (\<lambda>_. 0))) (m\<lparr>freeinode := freeinode m + 1\<rparr>)" (is "alloc_inv ?D ?m")
proof -
  let ?i = "freeinode m"
  have u: "unat (?i + 1) = Suc (unat ?i)" using assms(3) by (intro unat_succ) (simp add: NINODES_def)
  then have sl: "slots ?m = slots m \<union> {?i} \<times> {..NDIRECT + NINDIRECT}" using assms(2)
    by (auto simp: slots_def word_less_nat_alt less_Suc_eq unat_gt_0 dest: unsigned_word_eqI)
  have I: "owned (addr D m) (slots m) (unat (freeblock m))" using assms(1) by (simp add: alloc_inv_def)
  have a: "addr ?D ?m s = (if fst s = ?i then 0 else addr D m s)" for s by (cases s) (simp add: addr_def)
  have o: "fst s \<noteq> ?i" if "s \<in> slots m" for s using that by (auto simp: slots_def)
  have "owned (addr ?D ?m) (slots ?m) (unat (freeblock m))"
    unfolding sl by (rule owned_extend [OF I]) (use a o in auto)
  then show ?thesis using assms(1,3) u by (simp add: alloc_inv_def)
qed

lemma ialloc_inv:
  assumes "ialloc_mk type m = Some (i, m')" and "alloc_inv (disk_addrs m) m" and "freeinode m \<noteq> 0" and "unat (freeinode m) < NINODES"
  shows "alloc_inv (disk_addrs m') m' \<and> i = freeinode m \<and> freeinode m' = freeinode m + 1 \<and> 0 < i \<and> i < freeinode m'"
proof -
  let ?m = "m\<lparr>freeinode := freeinode m + 1\<rparr>" and ?z = "(zero_din (freeinode m))\<lparr>i_type := type, i_nlink := 1, i_size := 0\<rparr>"
  have w: "winode (freeinode m) ?z ?m = Some m'" "i = freeinode m" using assms(1) by (auto simp: ialloc_mk_def Let_def bind_eq_Some_conv)
  have l: "freeinode m < freeinode m + 1"
    using unat_succ [of "freeinode m"] assms(4) by (simp add: word_less_nat_alt NINODES_def)
  have z: "i_addrs ?z = (\<lambda>_. 0)" by (simp add: zero_din_def)
  have "disk_addrs ?m j k = disk_addrs m j k" for j k by (simp add: disk_addrs_def)
  then show ?thesis
    using winode_inv [of "disk_addrs m" "freeinode m" ?z ?m m'] new_inode_inv [OF assms(2-4)] w l assms(3) unfolding z by (simp add: word_gt_0)
qed

lemma mkfs_files_inv:
  assumes "mkfs_files r fs m = Some m'" and "alloc_inv (disk_addrs m) m" and "0 < r" and "r < freeinode m" and "unat (freeinode m) + length fs \<le> NINODES"
  shows "alloc_inv (disk_addrs m') m' \<and> freeinode m' = freeinode m + of_nat (length fs)"
  using assms
proof (induction fs arbitrary: m)
  case (Cons f fs)
  obtain name rs where f: "f = (name, rs)" by (cases f)
  obtain i m1 m2 m3 n where s: "ialloc_mk T_FILE m = Some (i, m1)" "iappend r n m1 = Some m2" "iappends i rs m2 = Some m3"
    "mkfs_files r fs m3 = Some m'"
    using Cons.prems(1) f by (auto simp: Let_def bind_eq_Some_conv split: if_splits)
  have z: "freeinode m \<noteq> 0" "unat (freeinode m) < NINODES" using Cons.prems(4,5) by auto
  note a = ialloc_inv [OF s(1) Cons.prems(2) z]
  have u: "unat (freeinode m + 1) = Suc (unat (freeinode m))" using z(2) by (intro unat_succ) (simp add: NINODES_def)
  then have r: "r < freeinode m1" using a Cons.prems(4) by (simp add: word_less_nat_alt)
  note b = iappend_inv [OF s(2) _ Cons.prems(3) r]
  note c = iappends_inv [OF s(3)]
  have "alloc_inv (disk_addrs m3) m3" "freeinode m3 = freeinode m + 1" using a b c by auto
  then show ?case using Cons.IH [OF s(4)] Cons.prems(3,5) r a u by (simp add: add.assoc)
qed simp

lemma fix_root_inv:
  assumes "fix_root i m = Some m'" and "alloc_inv (disk_addrs m) m" and "0 < i" and "i < freeinode m"
  shows "alloc_inv (disk_addrs m') m' \<and> freeinode m' = freeinode m"
proof -
  obtain din where s: "rinode i m = Some din" "winode i (din\<lparr>i_size := (i_size din div of_nat BSIZE + 1) * of_nat BSIZE\<rparr>) m = Some m'"
    using assms(1) by (auto simp: fix_root_def bind_eq_Some_conv)
  have "(disk_addrs m)(i := i_addrs din) = disk_addrs m" using rinode_addrs [OF s(1)] by auto
  then show ?thesis using winode_inv [OF _ _ assms(4) s(2), of "disk_addrs m"] assms(2) by simp
qed

lemma wzeros_eq:
  assumes "\<And>b. img m b = replicate BSIZE 0" and "nsect m = k" and "k \<le> n" and "n \<le> 1000"
  shows "wzeros [k..<n] m = (if \<forall>i\<in>{k..<n}. host_ok m (of_nat i) then Some (m\<lparr>nsect := n\<rparr>) else None)"
  using assms
proof (induction "n - k" arbitrary: k m)
  case 0
  then show ?case by simp
next
  case (Suc d)
  let ?m = "m\<lparr>nsect := Suc k\<rparr>"
  have k: "k < n" using Suc.hyps(2) by simp
  then have u: "unat (of_nat k :: u32) = k" using Suc.prems(4) by (simp add: unsigned_of_nat take_bit_nat_eq_self)
  have "wsect (of_nat k) (replicate BSIZE 0) m = (if host_ok m (of_nat k) then Some ?m else None)"
    using Suc.prems(1,2) u by (simp add: wsect_def fun_upd_idem)
  moreover have "{k..<n} = insert k {Suc k..<n}" using k by auto
  ultimately show ?case using Suc.hyps(1) [of "Suc k" ?m] Suc.hyps(2) Suc.prems k by (simp add: upt_conv_Cons)
qed

lemma mkfs_empty_inv:
  assumes "mkfs_empty host = Some m"
  shows "alloc_inv (disk_addrs m) m" "freeinode m = 1"
proof -
  let ?z = "\<lparr>img = (\<lambda>_. replicate BSIZE 0), nsect = 0, host_ok = host, freeinode = 1, freeblock = of_nat nmeta\<rparr>"
  have f: "unat FSSIZE = 1000" by (simp add: FSSIZE_def)
  obtain m0 where m0: "wzeros [0..<1000] ?z = Some m0" "wsect 1 sb_block m0 = Some m"
    using assms by (auto simp: mkfs_empty_def f bind_eq_Some_conv)
  then have m0': "m0 = ?z\<lparr>nsect := 1000\<rparr>" using wzeros_eq [of ?z 0 1000] by (simp split: if_splits)
  then have m: "m = m0\<lparr>img := (img m0)(1 := sb_block)\<rparr>" by (intro wsect_Some [OF m0(2)]) simp
  have "slots m = {}" by (auto simp: slots_def m m0' word_less_nat_alt)
  moreover have "length sb_block = BSIZE" by (simp add: sb_block_def)
  ultimately show "alloc_inv (disk_addrs m) m" "freeinode m = 1"
    by (auto simp: alloc_inv_def owned_def m m0' nmeta_eq NINODES_def)
qed

lemma main_inv:
  assumes "mkfs_main host files = Some m" and "length files + 2 \<le> NINODES"
  shows "\<exists>t. alloc_inv (disk_addrs t) t \<and> freeinode t = of_nat (length files) + 2 \<and> balloc_mk (freeblock t) t = Some m"
proof -
  obtain m0 r m1 m2 m3 m4 m5 a b where s: "mkfs_empty host = Some m0" "ialloc_mk T_DIR m0 = Some (r, m1)" "iappend r a m1 = Some m2" "iappend r b m2 = Some m3"
    "mkfs_files r files m3 = Some m4" "fix_root r m4 = Some m5" "balloc_mk (freeblock m5) m5 = Some m"
    using assms(1) by (auto simp: mkfs_main_def bind_eq_Some_conv split: if_splits)
  note i0 = mkfs_empty_inv [OF s(1)]
  have i1: "alloc_inv (disk_addrs m1) m1" "freeinode m1 = 2" "0 < r" "r < freeinode m1"
    using ialloc_inv [OF s(2) i0(1)] i0(2) by (auto simp: NINODES_def)
  note i2 = iappend_inv [OF s(3) i1(1,3,4)]
  have i3: "alloc_inv (disk_addrs m3) m3" "freeinode m3 = 2" using iappend_inv [OF s(4)] i1 i2 by auto
  have i4: "alloc_inv (disk_addrs m4) m4" "freeinode m4 = 2 + of_nat (length files)"
    using mkfs_files_inv [OF s(5) i3(1) i1(3)] i1(2,4) i3(2) assms(2) by (auto simp: add.commute)
  have "unat (2 + of_nat (length files) :: u32) = 2 + length files"
    using assms(2) by (subst unat_add_lem [THEN iffD1]) (simp_all add: NINODES_def unsigned_of_nat take_bit_nat_eq_self)
  then have "r < freeinode m4" using i1(2,4) i4(2) by (simp add: word_less_nat_alt)
  then show ?thesis using fix_root_inv [OF s(6) i4(1) i1(3)] i4(2) s(7) by (auto simp: add.commute)
qed

section \<open>Properties\<close>

text \<open>The blocks of the layout, as the superblock describes it: the boot block and the superblock, the log, the
  inodes, and the bitmap for \<open>sb.size\<close> blocks.\<close>

definition layout :: "nat \<Rightarrow> bool" where
  "layout b \<longleftrightarrow> b < 2 \<or> unat (sb_logstart mkfs_sb) \<le> b \<and> b < unat (sb_logstart mkfs_sb) + unat (sb_nlog mkfs_sb)
     \<or> unat (sb_inodestart mkfs_sb) \<le> b \<and> b < unat (sb_bmapstart mkfs_sb)
     \<or> unat (sb_bmapstart mkfs_sb) \<le> b \<and> b \<le> unat (sb_bmapstart mkfs_sb) + (unat (sb_size mkfs_sb) - 1) div (BSIZE * 8)"

text \<open>The blocks that an inode of the image names, or an indirect block that an inode names, and indirect blocks.\<close>

definition file_blocks :: "mkfs_st \<Rightarrow> u32 set" where
  "file_blocks m = {x. x \<noteq> 0 \<and> (\<exists>s\<in>slots m. addr (disk_addrs m) m s = x)}"

lemma layout_eq: "layout b \<longleftrightarrow> b < 59"
  by (auto simp: layout_def mkfs_sb_def nlog_def LOGSIZE_def ninodeblocks_def NINODES_def IPB_def FSSIZE_def BSIZE_def)

lemma file_blocks_eq:
  assumes "alloc_inv (disk_addrs m) m" and "b < 4096"
  shows "of_nat b \<in> file_blocks m \<longleftrightarrow> nmeta \<le> b \<and> b < unat (freeblock m)"
proof -
  have I: "owned (addr (disk_addrs m) m) (slots m) (unat (freeblock m))" using assms(1) by (simp add: alloc_inv_def)
  have u: "unat (of_nat b :: u32) = b" using assms(2) by (simp add: unsigned_of_nat take_bit_nat_eq_self)
  show ?thesis
  proof
    assume "of_nat b \<in> file_blocks m"
    then obtain s where "s \<in> slots m" "addr (disk_addrs m) m s = of_nat b" "of_nat b \<noteq> (0 :: u32)" by (auto simp: file_blocks_def)
    then show "nmeta \<le> b \<and> b < unat (freeblock m)" using ownedD(1,2) [OF I, of s] u by simp
  next
    assume b: "nmeta \<le> b \<and> b < unat (freeblock m)"
    then obtain s where s: "s \<in> slots m" "unat (addr (disk_addrs m) m s) = b" using I by (auto simp: owned_def)
    then have "addr (disk_addrs m) m s = of_nat b" using u by (metis unsigned_word_eqI)
    moreover have "of_nat b \<noteq> (0 :: u32)" using u b by (auto simp: nmeta_eq)
    ultimately show "of_nat b \<in> file_blocks m" using s(1) by (auto simp: file_blocks_def)
  qed
qed

lemma freeblock_sint: "unat (n :: i32) \<le> 1000 \<Longrightarrow> sint n = int (unat n)"
proof -
  assume "unat n \<le> 1000"
  then have "n \<le> 1000" by (simp add: word_le_nat_alt)
  then have "uint n \<le> 1000" by (simp add: word_le_def)
  then show ?thesis by (simp add: sint_eq)
qed

lemma balloc_inv:
  assumes "balloc_mk (freeblock t) t = Some m" and "alloc_inv (disk_addrs t) t"
  shows "alloc_inv (disk_addrs m) m" "img m 58 = used_map (unat (freeblock m))" "freeinode m = freeinode t"
proof -
  have n: "nsect t = 1000" "unat (freeblock t) \<le> 1000" using assms(2) by (simp_all add: alloc_inv_def)
  have b: "sb_bmapstart mkfs_sb = 58" by (simp add: mkfs_sb_def nlog_def LOGSIZE_def ninodeblocks_def NINODES_def IPB_def)
  have i: "sint (freeblock t) = int (unat (freeblock t))" by (rule freeblock_sint [OF n(2)])
  then have m: "m = t\<lparr>img := (img t)(58 := used_map (unat (freeblock t)))\<rparr>"
    using assms(1) n(1) by (auto simp: balloc_mk_def b split: if_splits dest!: wsect_Some)
  have "disk_addrs m j k = disk_addrs t j k" if "j < freeinode t" for j k
  proof -
    have "unat j < NINODES" using that assms(2) by (simp add: alloc_inv_def word_less_nat_alt)
    then have "IBLOCK j mkfs_sb \<noteq> 58" using iblock_range(1) [of j] by auto
    then show ?thesis by (simp add: disk_addrs_def m)
  qed
  then show "alloc_inv (disk_addrs m) m" unfolding m by (intro inv_layout [OF assms(2)]) (simp_all add: nmeta_eq)
  show "img m 58 = used_map (unat (freeblock m))" "freeinode m = freeinode t" using m by simp_all
qed

text \<open>C27: in every image that the program makes of fewer files than there are inodes, the kernel's test for a
  free block (\<open>block_free\<close>, the test of \<open>balloc\<close> in \<open>fs.c\<close>), on the bitmap that the superblock of the image names,
  holds exactly for the blocks that neither belong to the layout nor are named by an inode or an
  indirect block of the image. No block has two such places, and all of them lie on the disk outside
  the layout. There is an inode for the root directory and one for each file.\<close>

theorem mkfs_bitmap:
  assumes "mkfs_main host files = Some m" and "length files + 2 \<le> NINODES"
  shows "(\<forall>b. b < BSIZE * 8 \<longrightarrow> block_free (img m (get32 (img m 1) 24)) b = (\<not> layout b \<and> of_nat b \<notin> file_blocks m))
    \<and> (\<forall>s\<in>slots m. \<forall>t\<in>slots m. addr (disk_addrs m) m s = addr (disk_addrs m) m t \<longrightarrow> addr (disk_addrs m) m s \<noteq> 0 \<longrightarrow> s = t)
    \<and> (\<forall>x\<in>file_blocks m. \<not> layout (unat x) \<and> x < sb_size mkfs_sb) \<and> freeinode m = of_nat (length files) + 2"
proof -
  obtain t where t: "alloc_inv (disk_addrs t) t" "freeinode t = of_nat (length files) + 2" "balloc_mk (freeblock t) t = Some m"
    using main_inv [OF assms] by blast
  note i = balloc_inv [OF t(3,1)]
  have I: "owned (addr (disk_addrs m) m) (slots m) (unat (freeblock m))" "img m 1 = sb_block" "nmeta \<le> unat (freeblock m)" "unat (freeblock m) \<le> 1000"
    using i(1) by (simp_all add: alloc_inv_def)
  have bm: "get32 (img m 1) 24 = 58"
    unfolding I(2) sb_block_decodes(2) by (simp add: mkfs_sb_def nlog_def LOGSIZE_def ninodeblocks_def NINODES_def IPB_def)
  have A: "block_free (img m (get32 (img m 1) 24)) b = (\<not> layout b \<and> of_nat b \<notin> file_blocks m)" if "b < BSIZE * 8" for b
  proof -
    have "b < 4096" using that by (simp add: BSIZE_def)
    then show ?thesis unfolding bm i(2) used_map_free [OF that] file_blocks_eq [OF i(1) \<open>b < 4096\<close>] layout_eq using I(3) by (auto simp: nmeta_eq)
  qed
  have B: "\<not> layout (unat x) \<and> x < sb_size mkfs_sb" if x: "x \<in> file_blocks m" for x
  proof -
    obtain s where "s \<in> slots m" "addr (disk_addrs m) m s = x" "x \<noteq> 0" using x by (auto simp: file_blocks_def)
    then have "nmeta \<le> unat x" "unat x < unat (freeblock m)" using ownedD(1,2) [OF I(1), of s] by simp_all
    then show ?thesis using I(4) by (simp add: layout_eq nmeta_eq mkfs_sb_def FSSIZE_def word_less_nat_alt)
  qed
  have C: "\<forall>s\<in>slots m. \<forall>t\<in>slots m. addr (disk_addrs m) m s = addr (disk_addrs m) m t \<longrightarrow> addr (disk_addrs m) m s \<noteq> 0 \<longrightarrow> s = t"
    using I(1) unfolding owned_def by (elim conjE)
  have "freeinode m = of_nat (length files) + 2" using i(3) t(2) by simp
  with A B C show ?thesis by (intro conjI allI impI ballI) (assumption | blast)+
qed

section \<open>The empty image\<close>

text \<open>A host on which every call succeeds.\<close>

definition sound :: "mkfs_st \<Rightarrow> bool" where
  "sound m \<longleftrightarrow> host_ok m = (\<lambda>_. True) \<and> nsect m = 1000 \<and> length (img m 32) = BSIZE"

abbreviation root_din :: "mkfs_st \<Rightarrow> inode" where
  "root_din m \<equiv> get_dinode (img m 32) (zero_din 1)"

lemma IBLOCK_root: "IBLOCK 1 mkfs_sb = 32"
  by (simp add: IBLOCK_def IPB_def mkfs_sb_def nlog_def LOGSIZE_def)

lemma rinode_root: "sound m \<Longrightarrow> rinode 1 m = Some (root_din m)"
  by (simp add: rinode_def IBLOCK_root rsect_def sound_def)

lemma winode_root:
  assumes "sound m"
  shows "\<exists>m'. winode 1 ip m = Some m' \<and> sound m' \<and> i_size (root_din m') = i_size ip \<and> i_addrs (root_din m') 0 = i_addrs ip 0
    \<and> freeblock m' = freeblock m \<and> freeinode m' = freeinode m"
proof -
  have l: "length (img m 32) = BSIZE" using assms by (simp add: sound_def)
  show ?thesis
    using assms get_put_dinode [OF l, of "ip\<lparr>i_inum := 1\<rparr>" "zero_din 1"]
    by (simp add: winode_def IBLOCK_root rsect_def wsect_def sound_def zero_din_def Let_def)
qed

lemma iappend_root:
  assumes "sound m" and "unat (i_size (root_din m)) + length p \<le> BSIZE" and "p \<noteq> []"
    and "i_addrs (root_din m) 0 = 59 \<or> i_addrs (root_din m) 0 = 0 \<and> freeblock m = 59"
  shows "\<exists>m'. iappend 1 p m = Some m' \<and> sound m' \<and> i_size (root_din m') = of_nat (unat (i_size (root_din m)) + length p)
    \<and> i_addrs (root_din m') 0 = 59 \<and> (freeblock m = 59 \<or> freeblock m = 60 \<longrightarrow> freeblock m' = 60 \<or> freeblock m' = 59)"
proof -
  let ?o = "unat (i_size (root_din m))"
  obtain din t where b: "din_block 0 (root_din m) m = (din, t)" "i_addrs din 0 = 59" "sound t" "freeblock m = 59 \<or> freeblock m = 60 \<longrightarrow> freeblock t = 60 \<or> freeblock t = 59"
    using assms(1,4) by (auto simp: din_block_def new_block_def sound_def)
  have "?o < BSIZE" using assms(2,3) by (cases p) auto
  then have o: "?o div BSIZE = 0" "min (length p) (BSIZE - ?o) = length p" using assms(2) by simp_all
  have e: "iappend_loop k [] d u = Some (k, d, u)" for k d u by (simp add: iappend_loop.simps)
  let ?t = "t\<lparr>img := (img t)(59 := take ?o (img t 59) @ p @ drop (?o + length p) (img t 59))\<rparr>"
  have r: "rsect 59 t = Some (img t 59)" "\<And>c. wsect 59 c t = Some (t\<lparr>img := (img t)(59 := c)\<rparr>)"
    using b(3) by (simp_all add: rsect_def wsect_def sound_def max_def)
  have "iappend_loop ?o p (root_din m) m = Some (?o + length p, din, ?t)"
    using assms(3) o b(1,2) r by (subst iappend_loop.simps) (simp add: NDIRECT_def Let_def e iappend_block_def)
  moreover have "sound ?t" using b(3) by (simp add: sound_def)
  from winode_root [OF this, of "din\<lparr>i_size := of_nat (?o + length p)\<rparr>"] b(2,4)
  obtain m' where "winode 1 (din\<lparr>i_size := of_nat (?o + length p)\<rparr>) ?t = Some m'" "sound m'"
    "i_size (root_din m') = of_nat (?o + length p)" "i_addrs (root_din m') 0 = 59" "freeblock m' = freeblock t" by auto
  ultimately show ?thesis using rinode_root [OF assms(1)] b(4) by (auto simp: iappend_def)
qed

lemma length_dirent: "length (dirent name n) = 16" "dirent name n \<noteq> []"
  by (simp_all add: dirent_def DIRSIZ_def)

lemma mkfs_empty_sound:
  "\<exists>m. mkfs_empty (\<lambda>_. True) = Some m \<and> sound m \<and> freeblock m = 59 \<and> freeinode m = 1"
proof -
  have f: "unat FSSIZE = 1000" by (simp add: FSSIZE_def)
  show ?thesis
    using wzeros_eq [of "\<lparr>img = (\<lambda>_. replicate BSIZE 0), nsect = 0, host_ok = (\<lambda>_. True), freeinode = 1, freeblock = of_nat nmeta\<rparr>" 0 1000]
    by (simp add: mkfs_empty_def f wsect_def sound_def nmeta_eq)
qed

lemma ialloc_root:
  assumes "sound m" and "freeinode m = 1"
  shows "\<exists>m'. ialloc_mk T_DIR m = Some (1, m') \<and> sound m' \<and> i_size (root_din m') = 0 \<and> i_addrs (root_din m') 0 = 0 \<and> freeblock m' = freeblock m"
proof -
  have "sound (m\<lparr>freeinode := 2\<rparr>)" using assms(1) by (simp add: sound_def)
  from winode_root [OF this, of "(zero_din 1)\<lparr>i_type := T_DIR, i_nlink := 1, i_size := 0\<rparr>"] show ?thesis
    using assms(2) by (auto simp: ialloc_mk_def zero_din_def)
qed

lemma mkfs_main_empty: "\<exists>m. mkfs_main (\<lambda>_. True) [] = Some m"
proof -
  obtain m0 where m0: "mkfs_empty (\<lambda>_. True) = Some m0" "sound m0" "freeblock m0 = 59" "freeinode m0 = 1" using mkfs_empty_sound by blast
  obtain m1 where m1: "ialloc_mk T_DIR m0 = Some (1, m1)" "sound m1" "i_size (root_din m1) = 0" "i_addrs (root_din m1) 0 = 0" "freeblock m1 = 59"
    using ialloc_root [OF m0(2,4)] m0(3) by auto
  obtain m2 where m2: "iappend 1 (dirent [0x2E] 1) m1 = Some m2" "sound m2" "i_size (root_din m2) = 16" "i_addrs (root_din m2) 0 = 59"
    "freeblock m2 = 60 \<or> freeblock m2 = 59"
    using iappend_root [OF m1(2), of "dirent [0x2E] 1"] m1(3-5) length_dirent by (auto simp: BSIZE_def)
  obtain m3 where m3: "iappend 1 (dirent [0x2E, 0x2E] 1) m2 = Some m3" "sound m3" "freeblock m3 = 60 \<or> freeblock m3 = 59"
    using iappend_root [OF m2(2), of "dirent [0x2E, 0x2E] 1"] m2(3-5) length_dirent by (auto simp: BSIZE_def)
  obtain m4 where m4: "fix_root 1 m3 = Some m4" "sound m4" "freeblock m4 = freeblock m3"
    using winode_root [OF m3(2)] rinode_root [OF m3(2)] by (auto simp: fix_root_def)
  have "mkfs_main (\<lambda>_. True) [] = balloc_mk (freeblock m4) m4"
    using m0(1) m1(1) m2(1) m3(1) m4(1) by (simp add: mkfs_main_def ROOTINO_def)
  moreover have "sint (freeblock m4) < 4096" using m3(3) m4(3) by auto
  ultimately show ?thesis using m4(2) by (simp add: balloc_mk_def wsect_def sound_def BSIZE_def)
qed

theorem mkfs_bitmap_witness:
  "\<exists>m. mkfs_main (\<lambda>_. True) [] = Some m \<and> \<not> block_free (img m (get32 (img m 1) 24)) 58 \<and> freeinode m = 2"
proof -
  obtain m where m: "mkfs_main (\<lambda>_. True) [] = Some m" using mkfs_main_empty by blast
  have "length ([] :: (u8 list \<times> u8 list list) list) + 2 \<le> NINODES" by (simp add: NINODES_def)
  note t = mkfs_bitmap [OF m this]
  have "block_free (img m (get32 (img m 1) 24)) 58 = (\<not> layout 58 \<and> of_nat 58 \<notin> file_blocks m)"
    using t [THEN conjunct1] by (simp add: BSIZE_def)
  then show ?thesis using m t by (auto simp: layout_eq)
qed

end
