(* ===== verification/Paging.thy ===== *)
theory Paging
  imports Sysarg
begin

text \<open>Page tables as the hardware reads them (\<open>vm.c\<close>, \<open>mmu.h\<close>): the arithmetic of directory and table
  indices, and the effect of \<open>mappages\<close> on the translation of addresses.\<close>

section \<open>Indices and entries\<close>

lemma unat_PDX: "unat (PDX va) = unat va div 2 ^ 22"
proof -
  have l: "unat va div 2 ^ 22 < 1024" using unat_lt32 [of va] by (simp add: less_mult_imp_div_less)
  have "PDX va = take_bit 10 (drop_bit 22 va)" by (simp add: PDX_def take_bit_eq_mask mask_eq_exp_minus_1)
  also have "unat \<dots> = unat va div 2 ^ 22 mod 1024"
    by (simp add: take_bit_eq_mod drop_bit_eq_div unat_mod_distrib unat_div_distrib)
  finally show ?thesis using l by simp
qed

lemma unat_PTX: "unat (PTX va) = unat va div 2 ^ 12 mod 1024"
proof -
  have "PTX va = take_bit 10 (drop_bit 12 va)" by (simp add: PTX_def take_bit_eq_mask mask_eq_exp_minus_1)
  then show ?thesis by (simp add: take_bit_eq_mod drop_bit_eq_div unat_mod_distrib unat_div_distrib)
qed

lemma index_bounds: "unat (PDX va) < 1024" "unat (PTX va) < 1024"
  using unat_lt32 [of va] by (simp_all add: unat_PDX unat_PTX less_mult_imp_div_less)

lemma page_offset: "unat (va AND 0xFFF :: u32) = unat va mod 4096"
proof -
  have "va AND 0xFFF = take_bit 12 va" by (simp add: take_bit_eq_mask mask_eq_exp_minus_1)
  then show ?thesis by (simp add: take_bit_eq_mod unat_mod_distrib)
qed

text \<open>The address of a page.\<close>

definition page :: "u32 \<Rightarrow> bool" where
  "page p \<longleftrightarrow> p AND 0xFFF = 0"

lemma page_unat: "page p \<longleftrightarrow> unat p mod 4096 = 0"
  unfolding page_def page_offset [symmetric] by (simp add: unsigned_eq_0_iff)

lemma page_multiple: "page p \<Longrightarrow> \<exists>n. unat p = 4096 * n"
  by (auto simp: page_unat dvd_def)

lemma page_room:
  assumes "page p"
  shows "unat p + 4096 \<le> 2 ^ 32"
proof -
  obtain n where n: "unat p = 4096 * n" using page_multiple [OF assms] by blast
  then have "n < 1048576" using unat_lt32 [of p] by simp
  then show ?thesis by (simp add: n)
qed

lemma in_page_facts:
  assumes "page va" and "k < 4096"
  shows "unat (va + k) = unat va + unat k" "PDX (va + k) = PDX va" "PTX (va + k) = PTX va" "(va + k) AND 0xFFF = k"
proof -
  have k: "unat k < 4096" using assms(2) by (simp add: word_less_nat_alt)
  show u: "unat (va + k) = unat va + unat k"
    using page_room [OF assms(1)] k by (subst unat_add_lem [THEN iffD1]) simp_all
  obtain n where n: "unat va = 4096 * n" using page_multiple [OF assms(1)] by blast
  have d: "(4096 * n + unat k) div 4096 = n" "(4096 * n + unat k) mod 4096 = unat k" using k by simp_all
  have "(4096 * n + unat k) div 2 ^ 22 = (4096 * n + unat k) div 4096 div 1024" "4096 * n div 2 ^ 22 = 4096 * n div 4096 div 1024"
    by (simp_all only: div_mult2_eq [symmetric]) simp_all
  then have "unat (PDX (va + k)) = unat (PDX va)" unfolding unat_PDX u n using d(1) by simp
  then show "PDX (va + k) = PDX va" by (rule word_unat_eq_iff [THEN iffD2])
  have "unat (PTX (va + k)) = unat (PTX va)" unfolding unat_PTX u n using d(1) by simp
  then show "PTX (va + k) = PTX va" by (rule word_unat_eq_iff [THEN iffD2])
  have "unat ((va + k) AND 0xFFF) = unat k" unfolding page_offset u n by (rule d(2))
  then show "(va + k) AND 0xFFF = k" by (rule word_unat_eq_iff [THEN iffD2])
qed

lemma entry_unat:
  assumes "page p" and "unat i < 1024"
  shows "unat (p + 4 * i) = unat p + 4 * unat i"
proof -
  have "unat (4 * i) = 4 * unat i" using assms(2) by (subst unat_mult_lem [THEN iffD1]) simp_all
  then show ?thesis using page_room [OF assms(1)] assms(2) by (subst unat_add_lem [THEN iffD1]) simp_all
qed

lemma entry_other:
  assumes "page p" and "page q" and "unat i < 1024" and "unat j < 1024" and "p \<noteq> q \<or> i \<noteq> j"
  shows "load32 (store32 m (p + 4 * i) v) (q + 4 * j) = load32 m (q + 4 * j)"
proof -
  obtain a b where ab: "unat p = 4096 * a" "unat q = 4096 * b" using page_multiple [OF assms(1)] page_multiple [OF assms(2)] by blast
  note u = entry_unat [OF assms(1,3)] entry_unat [OF assms(2,4)]
  have lt: "4096 * a + 4096 \<le> 2 ^ 32" "4096 * b + 4096 \<le> 2 ^ 32" using page_room [OF assms(1)] page_room [OF assms(2)] ab by simp_all
  have ne: "1024 * a + unat i \<noteq> 1024 * b + unat j"
  proof
    assume e: "1024 * a + unat i = 1024 * b + unat j"
    have "(1024 * a + unat i) div 1024 = a" "(1024 * b + unat j) div 1024 = b" using assms(3,4) by simp_all
    then have "a = b" using e by simp
    then show False using e ab assms(5) word_unat_eq_iff [of p q] word_unat_eq_iff [of i j] by simp
  qed
  define A B where "A = 1024 * a + unat i" and "B = 1024 * b + unat j"
  have AB: "unat (p + 4 * i) = 4 * A" "unat (q + 4 * j) = 4 * B" unfolding u ab A_def B_def by simp_all
  have l: "A \<noteq> B" "A < 1073741824" "B < 1073741824" using ne lt assms(3,4) unfolding A_def B_def by simp_all
  have "unat (q + 4 * j - (p + 4 * i)) = (if A \<le> B then 4 * B - 4 * A else 4 * B + 4294967296 - 4 * A)"
    unfolding unat_sub_if_size AB word_size by simp
  then have "4 \<le> unat (q + 4 * j - (p + 4 * i)) \<and> unat (q + 4 * j - (p + 4 * i)) \<le> 0xFFFFFFFC"
    using l by (cases "A \<le> B"; simp; arith)
  then show ?thesis by (intro store32_load32_far) (simp_all add: word_le_nat_alt)
qed

text \<open>The address and the flags in an entry.\<close>

lemma entry_addr:
  assumes "page pa" and "perm AND NOT 0xFFF = 0"
  shows "PTE_ADDR (pa OR perm OR PTE_P) = pa" "(pa OR perm OR PTE_P) AND PTE_P \<noteq> 0"
proof -
  have "(pa AND 0xFFF) OR (pa AND NOT 0xFFF) = pa"
    by (simp only: bit.conj_disj_distrib [symmetric] bit.disj_cancel_right bit.conj_one_right)
  then have "pa AND NOT 0xFFF = pa" using assms(1) by (simp only: page_def or.left_neutral)
  then show "PTE_ADDR (pa OR perm OR PTE_P) = pa"
    using assms(2) by (simp add: PTE_ADDR_def PTE_P_def bit.conj_disj_distrib2)
  have "bit ((pa OR perm OR PTE_P) AND PTE_P) 0" by (simp add: bit_simps PTE_P_def)
  then show "(pa OR perm OR PTE_P) AND PTE_P \<noteq> 0" by (metis bit_0_eq bot_apply bot_bool_def)
qed

section \<open>Mapping a page\<close>

text \<open>The table of the page directory entry of an address, and the state of a mapping.\<close>

definition pgtab :: "memory \<Rightarrow> u32 \<Rightarrow> u32 \<Rightarrow> u32" where
  "pgtab m pgdir va = P2V (PTE_ADDR (load32 m (pgdir + 4 * PDX va)))"

definition has_table :: "memory \<Rightarrow> u32 \<Rightarrow> u32 \<Rightarrow> bool" where
  "has_table m pgdir va \<longleftrightarrow> load32 m (pgdir + 4 * PDX va) AND PTE_P \<noteq> 0"

lemma page_pgtab: "page (pgtab m pgdir va)"
proof -
  let ?a = "PTE_ADDR (load32 m (pgdir + 4 * PDX va))"
  have "?a AND 0xFFF = 0"
    unfolding PTE_ADDR_def by (simp only: and.assoc and.commute [of "NOT 0xFFF"] bit.conj_cancel_right and_zero_eq)
  then have a: "unat ?a mod 4096 = 0" unfolding page_offset [symmetric] by simp
  have "unat (?a + KERNBASE) mod 4096 = (unat ?a + 2147483648) mod 2 ^ 32 mod 4096"
    by (simp add: unat_word_ariths(1) KERNBASE_def)
  also have "\<dots> = (unat ?a + 2147483648) mod 4096" by (rule mod_mod_cancel) simp
  also have "\<dots> = 0" using a by (simp add: mod_add_eq [symmetric])
  finally show ?thesis by (simp only: page_unat pgtab_def P2V_def)
qed

lemma walkpgdir_present:
  "has_table (mem s) pgdir va \<Longrightarrow> walkpgdir pgdir va alloc s = Done (pgtab (mem s) pgdir va + 4 * PTX va) s"
  by (simp add: walkpgdir_def has_table_def pgtab_def retk_def Let_def)

lemma round_page:
  assumes "page va"
  shows "PGROUNDDOWN va = va" "PGROUNDDOWN (va + PGSIZE - 1) = va"
proof -
  obtain n where n: "unat va = 4096 * n" using page_multiple [OF assms] by blast
  have "unat (PGROUNDDOWN va) = unat va" by (simp add: unat_PGROUNDDOWN n)
  then show "PGROUNDDOWN va = va" by (rule word_unat_eq_iff [THEN iffD2])
  have e: "va + PGSIZE - 1 = va + 4095" by (simp add: PGSIZE_def)
  have "unat (va + 4095) = unat va + 4095" using in_page_facts(1) [OF assms, of 4095] by simp
  then have "unat (PGROUNDDOWN (va + PGSIZE - 1)) = unat va" unfolding e unat_PGROUNDDOWN by (simp add: n)
  then show "PGROUNDDOWN (va + PGSIZE - 1) = va" by (rule word_unat_eq_iff [THEN iffD2])
qed

lemma same_page:
  assumes "page va" and "PDX w = PDX va" and "PTX w = PTX va"
  shows "PGROUNDDOWN w = va"
proof -
  have n: "unat x div 4096 = unat (PDX x) * 1024 + unat (PTX x)" for x :: u32
  proof -
    have "unat x div 2 ^ 22 = unat x div 4096 div 1024" by (simp add: div_mult2_eq [symmetric])
    then show ?thesis unfolding unat_PDX unat_PTX by simp
  qed
  have "unat w div 4096 = unat va div 4096" unfolding n assms(2,3) by (rule refl)
  then have "unat (PGROUNDDOWN w) = unat va" using assms(1) by (auto simp: unat_PGROUNDDOWN page_unat)
  then show ?thesis by (rule word_unat_eq_iff [THEN iffD2])
qed

lemma mappages_one:
  assumes "page va" and "has_table (mem s) pgdir va"
  shows "mappages pgdir va PGSIZE pa perm s = (let pte = pgtab (mem s) pgdir va + 4 * PTX va in
     if pte = 0 then Done (- 1) s else if load32 (mem s) pte AND PTE_P \<noteq> 0 then Panic ''remap''
     else Done 0 (s\<lparr>mem := store32 (mem s) pte (pa OR perm OR PTE_P)\<rparr>))"
proof -
  have f: "(2 :: nat) ^ 20 = Suc 1048575" by simp
  show ?thesis
    unfolding mappages_def round_page [OF assms(1)] f mappages_loop.simps
    by (simp add: bindk_Done [where m = "walkpgdir pgdir va True" and s = s, OF walkpgdir_present [OF assms(2)]] Let_def retk_def)
qed

lemma translate_eq:
  "translate m pgdir va = (if has_table m pgdir va then
     let p = load32 m (pgtab m pgdir va + 4 * PTX va) in if p AND PTE_P = 0 then None else Some (P2V (PTE_ADDR p) + (va AND 0xFFF)) else None)"
  by (simp add: translate_def has_table_def pgtab_def Let_def)

text \<open>The effect on the translation, where the address has a table.\<close>

lemma mappages_mapped:
  assumes "page pgdir" and "page va" and "page pa" and "perm AND NOT 0xFFF = 0" and "has_table (mem s) pgdir va"
    and "pgtab (mem s) pgdir va \<noteq> pgdir" and "pgtab (mem s) pgdir va + 4 * PTX va \<noteq> 0"
    and "\<forall>w. has_table (mem s) pgdir w \<longrightarrow> PDX w \<noteq> PDX va \<longrightarrow> pgtab (mem s) pgdir w \<noteq> pgtab (mem s) pgdir va"
  shows "if translate (mem s) pgdir va \<noteq> None then mappages pgdir va PGSIZE pa perm s = Panic ''remap''
    else \<exists>t. mappages pgdir va PGSIZE pa perm s = Done 0 t
      \<and> (\<forall>k<4096. translate (mem t) pgdir (va + k) = Some (P2V pa + k))
      \<and> (\<forall>w. PGROUNDDOWN w \<noteq> va \<longrightarrow> translate (mem t) pgdir w = translate (mem s) pgdir w)"
proof -
  let ?T = "pgtab (mem s) pgdir va" and ?v = "pa OR perm OR PTE_P"
  let ?m = "store32 (mem s) (?T + 4 * PTX va) ?v"
  have dir: "load32 ?m (pgdir + 4 * PDX w) = load32 (mem s) (pgdir + 4 * PDX w)" for w
    by (rule entry_other [OF page_pgtab assms(1) index_bounds(2,1)]) (simp add: assms(6))
  have tab: "has_table ?m pgdir w = has_table (mem s) pgdir w" "pgtab ?m pgdir w = pgtab (mem s) pgdir w" for w
    using dir [of w] by (simp_all only: has_table_def pgtab_def [of ?m pgdir w] pgtab_def [of "mem s" pgdir w])
  have new: "translate ?m pgdir (va + k) = Some (P2V pa + k)" if "k < 4096" for k
    using in_page_facts(2-4) [OF assms(2) that] assms(5) entry_addr [OF assms(3,4)]
    unfolding translate_eq tab by (simp add: has_table_def pgtab_def Let_def)
  have old: "translate ?m pgdir w = translate (mem s) pgdir w" if "PGROUNDDOWN w \<noteq> va" for w
  proof (cases "has_table (mem s) pgdir w")
    case True
    have "?T \<noteq> pgtab (mem s) pgdir w \<or> PTX va \<noteq> PTX w"
      using same_page [OF assms(2), of w] that assms(8) True by metis
    then have "load32 ?m (pgtab (mem s) pgdir w + 4 * PTX w) = load32 (mem s) (pgtab (mem s) pgdir w + 4 * PTX w)"
      by (rule entry_other [OF page_pgtab page_pgtab index_bounds(2,2)])
    then show ?thesis unfolding translate_eq tab by simp
  qed (simp add: translate_eq tab)
  show ?thesis
  proof (cases "load32 (mem s) (?T + 4 * PTX va) AND PTE_P = 0")
    case True
    then have "translate (mem s) pgdir va = None" by (simp add: translate_eq)
    moreover have "mappages pgdir va PGSIZE pa perm s = Done 0 (s\<lparr>mem := ?m\<rparr>)"
      using True mappages_one [OF assms(2,5), of pa perm] assms(7) by simp
    ultimately show ?thesis using new old by (auto intro!: exI [of _ "s\<lparr>mem := ?m\<rparr>"])
  next
    case False
    then show ?thesis using mappages_one [OF assms(2,5), of pa perm] assms(5,7) by (simp add: translate_eq Let_def)
  qed
qed

section \<open>Mapping a page that needs a table\<close>

lemma entry_in_page:
  assumes "page q" and "unat j < 1024" and "i < 4"
  shows "in_range q 4096 (q + 4 * j + i)"
proof -
  have "page 0" by (simp add: page_def)
  then have "unat (4 * j) = 4 * unat j" using entry_unat [of 0 j] assms(2) by simp
  then have "unat (4 * j + i) = 4 * unat j + unat i"
    using assms(2,3) by (subst unat_add_lem [THEN iffD1]) (simp_all add: word_less_nat_alt)
  then show ?thesis using assms(2,3) by (simp add: in_range_def word_less_nat_alt)
qed

lemma pages_apart:
  assumes "page p" and "page q" and "p \<noteq> q" and "in_range q 4096 a"
  shows "\<not> in_range p 4096 a"
proof
  assume "in_range p 4096 a"
  then have "unat (a - p) < 4096" "unat (a - q) < 4096" using assms(4) by (simp_all add: in_range_def)
  then have "unat a div 4096 = unat p div 4096" "unat a div 4096 = unat q div 4096"
    using in_page_facts(1) [OF assms(1), of "a - p"] in_page_facts(1) [OF assms(2), of "a - q"] assms(1,2)
    by (auto simp: word_less_nat_alt page_unat)
  then have "unat p = unat q" using assms(1,2) by (auto simp: page_unat)
  then show False using assms(3) by (simp add: word_unat_eq_iff)
qed

lemma load32_memset_page:
  assumes "page p" and "page q" and "unat j < 1024"
  shows "load32 (memset m p 0 PGSIZE) (q + 4 * j) = (if q = p then 0 else load32 m (q + 4 * j))"
proof -
  have e: "memset m p 0 PGSIZE (q + 4 * j + i) = (if q = p then 0 else m (q + 4 * j + i))" if "i < 4" for i
    using entry_in_page [OF assms(2,3) that] pages_apart [OF assms(1,2)] by (auto simp: memset_eq PGSIZE_def)
  show ?thesis
  proof (cases "q = p")
    case True
    then have "load32 (memset m p 0 PGSIZE) (q + 4 * j) = load32 (\<lambda>_. 0) (q + 4 * j)" by (intro load32_cong) (use e in simp)
    then show ?thesis using True by (simp add: load32_def)
  next
    case False
    then have "load32 (memset m p 0 PGSIZE) (q + 4 * j) = load32 m (q + 4 * j)" by (intro load32_cong) (use e in simp)
    then show ?thesis using False by simp
  qed
qed

text \<open>The memory after \<open>walkpgdir\<close> made a table of the page \<open>p\<close>.\<close>

definition with_table :: "u32 \<Rightarrow> u32 \<Rightarrow> u32 \<Rightarrow> memory \<Rightarrow> memory" where
  "with_table pgdir va p m = store32 (memset m p 0 PGSIZE) (pgdir + 4 * PDX va) (V2P p OR PTE_P OR PTE_W OR PTE_U)"

lemma new_entry:
  assumes "page p"
  shows "P2V (PTE_ADDR (V2P p OR PTE_P OR PTE_W OR PTE_U)) = p" "(V2P p OR PTE_P OR PTE_W OR PTE_U) AND PTE_P \<noteq> 0"
proof -
  have "(unat p + 2147483648) mod 4096 = 0" using assms by (simp add: page_unat mod_add_eq [symmetric])
  moreover have "V2P p = p + 0x80000000" by (simp add: V2P_def KERNBASE_def)
  moreover have "unat (p + 0x80000000) mod 4096 = (unat p + 2147483648) mod 4096"
    unfolding unat_word_ariths(1) by (subst mod_mod_cancel) simp_all
  ultimately have v: "page (V2P p)" by (simp add: page_unat)
  have e: "V2P p OR PTE_P OR PTE_W OR PTE_U = V2P p OR 6 OR PTE_P" by (simp add: PTE_P_def PTE_W_def PTE_U_def)
  show "P2V (PTE_ADDR (V2P p OR PTE_P OR PTE_W OR PTE_U)) = p" "(V2P p OR PTE_P OR PTE_W OR PTE_U) AND PTE_P \<noteq> 0"
    unfolding e using entry_addr [OF v, of 6] by (simp_all add: P2V_def V2P_def)
qed

text \<open>The page directory and its tables are different pages, none of them free.\<close>

definition tables_ok :: "memory \<Rightarrow> u32 \<Rightarrow> u32 set \<Rightarrow> bool" where
  "tables_ok m pgdir F \<longleftrightarrow> page pgdir \<and> pgdir \<notin> F
     \<and> (\<forall>w. has_table m pgdir w \<longrightarrow> pgtab m pgdir w \<notin> F \<and> pgtab m pgdir w \<noteq> pgdir \<and> pgtab m pgdir w \<noteq> 0)
     \<and> (\<forall>w w'. has_table m pgdir w \<longrightarrow> has_table m pgdir w' \<longrightarrow> PDX w \<noteq> PDX w' \<longrightarrow> pgtab m pgdir w \<noteq> pgtab m pgdir w')"

lemma with_table_ok:
  assumes "tables_ok m pgdir F" and "p \<in> F" and "page p" and "p \<noteq> 0" and "\<not> has_table m pgdir va"
  shows "tables_ok (with_table pgdir va p m) pgdir (F - {p})" "has_table (with_table pgdir va p m) pgdir va"
    "translate (with_table pgdir va p m) pgdir w = translate m pgdir w"
proof -
  let ?n = "with_table pgdir va p m"
  have d: "page pgdir" "pgdir \<noteq> p" "pgdir \<notin> F" using assms(1,2) by (auto simp: tables_ok_def)
  have pde: "load32 ?n (pgdir + 4 * PDX w) = (if PDX w = PDX va then V2P p OR PTE_P OR PTE_W OR PTE_U else load32 m (pgdir + 4 * PDX w))" for w
  proof (cases "PDX w = PDX va")
    case False
    then have "load32 ?n (pgdir + 4 * PDX w) = load32 (memset m p 0 PGSIZE) (pgdir + 4 * PDX w)"
      unfolding with_table_def by (intro entry_other [OF d(1,1) index_bounds(1,1)]) auto
    then show ?thesis using load32_memset_page [OF assms(3) d(1) index_bounds(1)] d(2) False by simp
  qed (simp add: with_table_def)
  have h: "has_table ?n pgdir w \<longleftrightarrow> PDX w = PDX va \<or> has_table m pgdir w" "pgtab ?n pgdir w = (if PDX w = PDX va then p else pgtab m pgdir w)" for w
    using new_entry [OF assms(3)] by (simp_all add: has_table_def pgtab_def pde)
  show "has_table ?n pgdir va" using h(1) by simp
  have nt: "\<not> has_table m pgdir w" if "PDX w = PDX va" for w using assms(5) that by (simp add: has_table_def)
  have t: "pgtab m pgdir w \<notin> F" "pgtab m pgdir w \<noteq> pgdir" "pgtab m pgdir w \<noteq> 0" if "has_table m pgdir w" for w
    using assms(1) that by (auto simp: tables_ok_def)
  have tp: "pgtab m pgdir w \<noteq> p" if "has_table m pgdir w" for w using t(1) [OF that] assms(2) by auto
  have i: "pgtab m pgdir w \<noteq> pgtab m pgdir w'" if "has_table m pgdir w" "has_table m pgdir w'" "PDX w \<noteq> PDX w'" for w w'
    using assms(1) that by (simp add: tables_ok_def)
  show "tables_ok ?n pgdir (F - {p})"
    using d assms(4) t tp i unfolding tables_ok_def h by (auto dest!: nt)
  have pte: "load32 ?n (q + 4 * PTX w) = (if q = p then 0 else load32 m (q + 4 * PTX w))" if "page q" "q \<noteq> pgdir" for q w
  proof -
    have "load32 ?n (q + 4 * PTX w) = load32 (memset m p 0 PGSIZE) (q + 4 * PTX w)"
      unfolding with_table_def using that by (intro entry_other [OF d(1) that(1) index_bounds(1,2)]) auto
    then show ?thesis using load32_memset_page [OF assms(3) that(1) index_bounds(2)] by simp
  qed
  show "translate ?n pgdir w = translate m pgdir w"
  proof (cases "PDX w = PDX va")
    case True
    then show ?thesis using nt [OF True] pte [OF assms(3) d(2) [symmetric]] unfolding translate_eq h by simp
  next
    case False
    then show ?thesis using pte [OF page_pgtab] t(2) tp unfolding translate_eq h by simp
  qed
qed

lemma walkpgdir_new:
  assumes "kmem_pool s F" and "\<not> has_table (mem s) pgdir va"
  shows "if F = {} then \<exists>t. walkpgdir pgdir va True s = Done 0 t \<and> mem t = mem s
    else \<exists>p t. p \<in> F \<and> page p \<and> p \<noteq> 0 \<and> walkpgdir pgdir va True s = Done (p + 4 * PTX va) t \<and> mem t = with_table pgdir va p (mem s)"
proof (cases "F = {}")
  case True
  then obtain t where t: "kalloc s = Done 0 t" "mem t = mem s" using kalloc_pool [OF assms(1)] by auto
  have "walkpgdir pgdir va True s = Done 0 t"
    using assms(2) by (simp add: walkpgdir_def has_table_def Let_def bindk_Done [where m = kalloc and s = s, OF t(1)] retk_def)
  then show ?thesis using t True by auto
next
  case False
  then obtain p t where p: "kalloc s = Done p t" "p \<in> F" "mem t = mem s" using kalloc_pool [OF assms(1)] by auto
  have ok: "page_ok (kend s) p" using assms(1) p(2) by (auto simp: kmem_pool_def free_chain_def)
  then have pg: "page p" "p \<noteq> 0" using page_ok_neq_0 [OF ok] by (simp_all add: page_ok_def aligned_unat page_unat)
  have "walkpgdir pgdir va True s = Done (p + 4 * PTX va) (t\<lparr>mem := with_table pgdir va p (mem s)\<rparr>)"
    using assms(2) pg(2)
    by (simp add: walkpgdir_def has_table_def Let_def bindk_Done [where m = kalloc and s = s, OF p(1)] retk_def with_table_def p(3))
  then show ?thesis using False p(2) pg by auto
qed

lemma table_entry_neq_0:
  assumes "page p" and "p \<noteq> 0"
  shows "p + 4 * PTX va \<noteq> 0"
proof
  assume "p + 4 * PTX va = 0"
  then have "unat p + 4 * unat (PTX va) = 0" using entry_unat [OF assms(1) index_bounds(2)] by (metis unat_0)
  then show False using assms(2) by (simp add: unsigned_eq_0_iff)
qed

text \<open>Once the table is there, \<open>mappages\<close> goes on as if it had been there before.\<close>

lemma mappages_step:
  assumes "page va" and "walkpgdir pgdir va True s = Done pte t" and "walkpgdir pgdir va True t = Done pte t"
  shows "mappages pgdir va PGSIZE pa perm s = mappages pgdir va PGSIZE pa perm t"
proof -
  have f: "(2 :: nat) ^ 20 = Suc 1048575" by simp
  show ?thesis
    unfolding mappages_def round_page [OF assms(1)] f mappages_loop.simps
    by (simp only: bindk_Done [where m = "walkpgdir pgdir va True" and s = s, OF assms(2)] bindk_Done [where m = "walkpgdir pgdir va True" and s = t, OF assms(3)])
qed

text \<open>C7: \<open>mappages\<close> maps a page. The directory and its tables are different pages and not free. Mapping a
  page that is mapped already is the panic \<open>remap\<close>. If the address needs a new table and no page is
  free, \<open>mappages\<close> returns -1 and no address is translated differently. Otherwise it returns 0, the hardware
  then translates every address of the page to the given frame, and every address of another page
  as before.\<close>

theorem mappages_page:
  assumes "kmem_pool s F" and "tables_ok (mem s) pgdir F" and "page va" and "page pa" and "perm AND NOT 0xFFF = 0"
  shows "if translate (mem s) pgdir va \<noteq> None then mappages pgdir va PGSIZE pa perm s = Panic ''remap''
    else if \<not> has_table (mem s) pgdir va \<and> F = {}
      then \<exists>t. mappages pgdir va PGSIZE pa perm s = Done (- 1) t \<and> translate (mem t) pgdir = translate (mem s) pgdir
    else \<exists>t. mappages pgdir va PGSIZE pa perm s = Done 0 t
      \<and> (\<forall>k<4096. translate (mem t) pgdir (va + k) = Some (P2V pa + k))
      \<and> (\<forall>w. PGROUNDDOWN w \<noteq> va \<longrightarrow> translate (mem t) pgdir w = translate (mem s) pgdir w)"
proof (cases "has_table (mem s) pgdir va")
  case True
  have t: "page pgdir" "pgtab (mem s) pgdir va \<noteq> pgdir" "pgtab (mem s) pgdir va \<noteq> 0"
    "\<forall>w. has_table (mem s) pgdir w \<longrightarrow> PDX w \<noteq> PDX va \<longrightarrow> pgtab (mem s) pgdir w \<noteq> pgtab (mem s) pgdir va"
    using assms(2) True by (auto simp: tables_ok_def)
  then show ?thesis using mappages_mapped [OF t(1) assms(3-5) True t(2) table_entry_neq_0 [OF page_pgtab t(3)] t(4)] True by simp
next
  case False
  then have none: "translate (mem s) pgdir va = None" by (simp add: translate_eq)
  show ?thesis
  proof (cases "F = {}")
    case True
    then obtain t where t: "walkpgdir pgdir va True s = Done 0 t" "mem t = mem s" using walkpgdir_new [OF assms(1) False] by auto
    have f: "(2 :: nat) ^ 20 = Suc 1048575" by simp
    have "mappages pgdir va PGSIZE pa perm s = Done (- 1) t"
      unfolding mappages_def round_page [OF assms(3)] f mappages_loop.simps
      by (simp add: bindk_Done [where m = "walkpgdir pgdir va True" and s = s, OF t(1)] retk_def)
    then show ?thesis using none True False t(2) by simp
  next
    case nonempty: False
    then obtain p t where p: "p \<in> F" "page p" "p \<noteq> 0" and t: "walkpgdir pgdir va True s = Done (p + 4 * PTX va) t" "mem t = with_table pgdir va p (mem s)"
      using walkpgdir_new [OF assms(1) False] by auto
    note n = with_table_ok [OF assms(2) p False, folded t(2)]
    have h: "page pgdir" "pgtab (mem t) pgdir va \<noteq> pgdir" "pgtab (mem t) pgdir va \<noteq> 0"
      "\<forall>w. has_table (mem t) pgdir w \<longrightarrow> PDX w \<noteq> PDX va \<longrightarrow> pgtab (mem t) pgdir w \<noteq> pgtab (mem t) pgdir va"
      using n(1,2) by (auto simp: tables_ok_def)
    have "pgtab (mem t) pgdir va = p"
      using new_entry(1) [OF p(2)] by (simp add: pgtab_def t(2) with_table_def)
    then have "walkpgdir pgdir va True t = Done (p + 4 * PTX va) t" using walkpgdir_present [OF n(2)] by simp
    note e = mappages_step [OF assms(3) t(1) this, of pa perm]
    show ?thesis
      using mappages_mapped [OF h(1) assms(3-5) n(2) h(2) table_entry_neq_0 [OF page_pgtab h(3)] h(4)] none nonempty False
      unfolding e n(3) by simp
  qed
qed

text \<open>A machine with an empty page directory and one free page.\<close>

definition map_state :: vmst where
  "map_state = kmem.extend (idle_kmem 0x80400000) (vmst.fields 0x80300000 0x80110000 (\<lambda>_. 0) (\<lambda>_. 0))"

lemma map_state_ok: "kmem_pool map_state {0x80400000}" "mem map_state = (\<lambda>_. 0)" "\<not> has_table (mem map_state) pgdir w"
proof -
  have s: "use_lock map_state = 1" "freelist map_state = 0x80400000" "kend map_state = 0x80100000" "mem map_state = (\<lambda>_. 0)"
    by (simp_all add: map_state_def idle_kmem_def idle_con_def idle_mach_def mach.defs conout.defs kmem.defs vmst.defs)
  then show "mem map_state = (\<lambda>_. 0)" "\<not> has_table (mem map_state) pgdir w" by (simp_all add: has_table_def load32_def)
  have "kmem_ready map_state"
    by (simp add: map_state_def kmem_ready_def lk_free_def cpu_wf_def idle_kmem_def idle_con_def idle_mach_def
        idle_cpu_def free_lock_def mach.defs conout.defs kmem.defs vmst.defs)
  moreover have "free_chain map_state [0x80400000]" using idle_page by (simp add: free_chain_def load32_def s)
  ultimately show "kmem_pool map_state {0x80400000}" unfolding kmem_pool_def by (metis list.set)
qed

theorem mappages_page_witness:
  "\<exists>t. mappages 0x80500000 0x3000 PGSIZE 0x600000 6 map_state = Done 0 t \<and> translate (mem t) 0x80500000 (0x3000 + 5) = Some (P2V 0x600000 + 5)"
proof -
  have p: "page 0x80500000" "page 0x3000" "page 0x600000" by (simp_all add: page_def)
  have o: "tables_ok (mem map_state) 0x80500000 {0x80400000}" using p(1) map_state_ok(3) by (simp add: tables_ok_def)
  obtain u where u: "mappages 0x80500000 0x3000 PGSIZE 0x600000 6 map_state = Done 0 u"
    "\<forall>k<4096. translate (mem u) 0x80500000 (0x3000 + k) = Some (P2V 0x600000 + k)"
    using mappages_page [OF map_state_ok(1) o p(2,3), of 6] map_state_ok(3) by (auto simp: translate_eq)
  have "translate (mem u) 0x80500000 (0x3000 + 5) = Some (P2V 0x600000 + 5)" using u(2) by (rule allE [of _ 5]) simp
  with u(1) show ?thesis by blast
qed

end
