(* ===== verification/Shell.thy ===== *)
theory Shell
  imports Main
begin

text \<open>
  The shell (\<open>src/sh.c\<close>): the tokenizer and the recursive-descent parser over the line buffer, the
  termination of the counted strings, the execution of a parsed command as a program of system
  calls, and the main loop with the commands of \<open>strace\<close>. A pointer into the line buffer is an
  index; reading behind the buffer gives NUL. A node that \<open>malloc\<close> allocates is a constructor of
  \<open>cmd\<close>; the allocation is taken to succeed.
\<close>

section \<open>Tokens\<close>

definition NUL :: char where "NUL = CHR 0x00"

definition char_at :: "string \<Rightarrow> nat \<Rightarrow> char" where
  "char_at b i = (if i < length b then b ! i else NUL)"

definition cstring :: "string \<Rightarrow> nat \<Rightarrow> string" where
  "cstring b i = takeWhile (\<lambda>c. c \<noteq> NUL) (drop i b)"

definition whitespace :: string where
  "whitespace = [CHR '' '', CHR 0x09, CHR 0x0D, CHR 0x0A, CHR 0x0B]"

definition symbols :: string where "symbols = ''<|>&;()''"

text \<open>The loop \<open>while(s < es && ...) s++\<close>.\<close>

function scan :: "(char \<Rightarrow> bool) \<Rightarrow> string \<Rightarrow> nat \<Rightarrow> nat \<Rightarrow> nat" where
  "scan P b es s = (if s < es \<and> P (char_at b s) then scan P b es (Suc s) else s)"
  by pat_completeness auto

termination
  by (relation "measure (\<lambda>(P, b, es, s). es - s)") auto

declare scan.simps [simp del]

abbreviation skip_ws :: "string \<Rightarrow> nat \<Rightarrow> nat \<Rightarrow> nat" where
  "skip_ws \<equiv> scan (\<lambda>c. c \<in> set whitespace)"

text \<open>\<open>gettoken\<close>: the kind of the token, its first position, the position after it, and the new
  position of the parser.\<close>

definition gettoken :: "string \<Rightarrow> nat \<Rightarrow> nat \<Rightarrow> char \<times> nat \<times> nat \<times> nat" where
  "gettoken b es s0 = (let s = skip_ws b es s0; c = char_at b s;
     (ret, e) = (if c = NUL then (NUL, s)
       else if c \<in> set ''|();&<'' then (c, Suc s)
       else if c = CHR ''>'' then (if char_at b (Suc s) = CHR ''>'' then (CHR ''+'', Suc (Suc s)) else (c, Suc s))
       else (CHR ''a'', scan (\<lambda>c. c \<notin> set whitespace \<and> c \<notin> set symbols) b es s))
     in (ret, s, e, skip_ws b es e))"

definition peek :: "string \<Rightarrow> nat \<Rightarrow> nat \<Rightarrow> string \<Rightarrow> nat \<times> bool" where
  "peek b es s toks = (let s' = skip_ws b es s in (s', char_at b s' \<noteq> NUL \<and> char_at b s' \<in> set toks))"

section \<open>Commands and the parser\<close>

definition MAXARGS :: nat where "MAXARGS = 10"
definition RDONLY :: nat where "RDONLY = 0"
definition WRONLY :: nat where "WRONLY = 1"
definition CREATE :: nat where "CREATE = 0x200"

text \<open>A word of the line is the pair of its first position and the position after it.\<close>

type_synonym span = "nat \<times> nat"

datatype cmd = EXEC "span list" | REDIR cmd span nat nat | PIPE cmd cmd | LIST cmd cmd | BACK cmd

text \<open>What a parsing routine comes to: a value and the new position, a sh_panic of the shell, or, for a
  bound on the recursion that is too small, nothing.\<close>

datatype 'a parsed = Parsed 'a nat | Syntax string | Fuel

definition pbind :: "'a parsed \<Rightarrow> ('a \<Rightarrow> nat \<Rightarrow> 'b parsed) \<Rightarrow> 'b parsed" where
  "pbind r f = (case r of Parsed a s \<Rightarrow> f a s | Syntax e \<Rightarrow> Syntax e | Fuel \<Rightarrow> Fuel)"

text \<open>The redirections around a command, the innermost first; the command inside may still be
  filled in, as \<open>parseexec\<close> does through its pointer \<open>cmd\<close>.\<close>

type_synonym redir = "span \<times> nat \<times> nat"

definition redir_of :: "char \<Rightarrow> span \<Rightarrow> redir" where
  "redir_of tok w = (if tok = CHR ''<'' then (w, RDONLY, 0) else (w, WRONLY + CREATE, 1))"

definition redirs :: "redir list \<Rightarrow> cmd \<Rightarrow> cmd" where
  "redirs rs c = foldl (\<lambda>c (w, mode, fd). REDIR c w mode fd) c rs"

primrec parseredirs :: "nat \<Rightarrow> string \<Rightarrow> nat \<Rightarrow> redir list \<Rightarrow> nat \<Rightarrow> redir list parsed" where
  "parseredirs 0 b es rs s = Fuel"
| "parseredirs (Suc n) b es rs s = (case peek b es s ''<>'' of (s, p) \<Rightarrow>
     if \<not> p then Parsed rs s
     else case gettoken b es s of (tok, _, _, s) \<Rightarrow> case gettoken b es s of (t, q, eq, s) \<Rightarrow>
       if t \<noteq> CHR ''a'' then Syntax ''missing file for redirection''
       else parseredirs n b es (rs @ [redir_of tok (q, eq)]) s)"

text \<open>The loop of \<open>parseexec\<close> with the words and the redirections so far.\<close>

primrec parseargs :: "nat \<Rightarrow> string \<Rightarrow> nat \<Rightarrow> span list \<Rightarrow> redir list \<Rightarrow> nat \<Rightarrow> (span list \<times> redir list) parsed" where
  "parseargs 0 b es args rs s = Fuel"
| "parseargs (Suc n) b es args rs s = (case peek b es s ''|)&;'' of (s, p) \<Rightarrow>
     if p then Parsed (args, rs) s
     else case gettoken b es s of (tok, q, eq, s) \<Rightarrow>
       if tok = NUL then Parsed (args, rs) s
       else if tok \<noteq> CHR ''a'' then Syntax ''syntax''
       else if Suc (length args) \<ge> MAXARGS then Syntax ''too many args''
       else pbind (parseredirs (Suc (es - s)) b es rs s) (parseargs n b es (args @ [(q, eq)])))"

text \<open>The loop of \<open>parseline\<close> over the characters \<open>&\<close>.\<close>

primrec parseback :: "nat \<Rightarrow> string \<Rightarrow> nat \<Rightarrow> cmd \<Rightarrow> nat \<Rightarrow> cmd parsed" where
  "parseback 0 b es c s = Fuel"
| "parseback (Suc n) b es c s = (case peek b es s ''&'' of (s, p) \<Rightarrow>
     if p then case gettoken b es s of (_, _, _, s) \<Rightarrow> parseback n b es (BACK c) s else Parsed c s)"

text \<open>The routines call each other; \<open>call\<close> stands for the calls, and \<open>parse\<close> ties the knot, with the
  bound \<open>n\<close> on the depth of the calls.\<close>

datatype routine = Line | Pipe | Exec | Block

definition parseline :: "(routine \<Rightarrow> nat \<Rightarrow> cmd parsed) \<Rightarrow> string \<Rightarrow> nat \<Rightarrow> nat \<Rightarrow> cmd parsed" where
  "parseline call b es s = pbind (call Pipe s) (\<lambda>c s. pbind (parseback (Suc (es - s)) b es c s) (\<lambda>c s.
     case peek b es s '';'' of (s, p) \<Rightarrow>
       if p then case gettoken b es s of (_, _, _, s) \<Rightarrow> pbind (call Line s) (\<lambda>r s. Parsed (LIST c r) s)
       else Parsed c s))"

definition parsepipe :: "(routine \<Rightarrow> nat \<Rightarrow> cmd parsed) \<Rightarrow> string \<Rightarrow> nat \<Rightarrow> nat \<Rightarrow> cmd parsed" where
  "parsepipe call b es s = pbind (call Exec s) (\<lambda>c s. case peek b es s ''|'' of (s, p) \<Rightarrow>
     if p then case gettoken b es s of (_, _, _, s) \<Rightarrow> pbind (call Pipe s) (\<lambda>r s. Parsed (PIPE c r) s)
     else Parsed c s)"

definition parseexec :: "(routine \<Rightarrow> nat \<Rightarrow> cmd parsed) \<Rightarrow> string \<Rightarrow> nat \<Rightarrow> nat \<Rightarrow> cmd parsed" where
  "parseexec call b es s = (case peek b es s ''('' of (s, p) \<Rightarrow>
     if p then call Block s
     else pbind (parseredirs (Suc (es - s)) b es [] s) (\<lambda>rs s. pbind (parseargs (Suc (es - s)) b es [] rs s)
       (\<lambda>(args, rs) s. Parsed (redirs rs (EXEC args)) s)))"

definition parseblock :: "(routine \<Rightarrow> nat \<Rightarrow> cmd parsed) \<Rightarrow> string \<Rightarrow> nat \<Rightarrow> nat \<Rightarrow> cmd parsed" where
  "parseblock call b es s = (case peek b es s ''('' of (s, p) \<Rightarrow>
     if \<not> p then Syntax ''parseblock''
     else case gettoken b es s of (_, _, _, s) \<Rightarrow> pbind (call Line s) (\<lambda>c s. case peek b es s '')'' of (s, p) \<Rightarrow>
       if \<not> p then Syntax ''syntax - missing )''
       else case gettoken b es s of (_, _, _, s) \<Rightarrow>
         pbind (parseredirs (Suc (es - s)) b es [] s) (\<lambda>rs s. Parsed (redirs rs c) s)))"

primrec parse :: "nat \<Rightarrow> string \<Rightarrow> nat \<Rightarrow> routine \<Rightarrow> nat \<Rightarrow> cmd parsed" where
  "parse 0 b es = (\<lambda>_ _. Fuel)"
| "parse (Suc n) b es = (\<lambda>r s. case r of
     Line \<Rightarrow> parseline (parse n b es) b es s
   | Pipe \<Rightarrow> parsepipe (parse n b es) b es s
   | Exec \<Rightarrow> parseexec (parse n b es) b es s
   | Block \<Rightarrow> parseblock (parse n b es) b es s)"

fun nulterminate :: "cmd \<Rightarrow> string \<Rightarrow> string" where
  "nulterminate (EXEC args) b = foldl (\<lambda>b (q, eq). b[eq := NUL]) b args"
| "nulterminate (REDIR c (q, eq) mode fd) b = (nulterminate c b)[eq := NUL]"
| "nulterminate (PIPE l r) b = nulterminate r (nulterminate l b)"
| "nulterminate (LIST l r) b = nulterminate r (nulterminate l b)"
| "nulterminate (BACK c) b = nulterminate c b"

definition parse_fuel :: "nat \<Rightarrow> nat" where "parse_fuel n = 4 * n + 4"

text \<open>\<open>parsecmd\<close> on the string at \<open>s\<close>: the command, with the buffer after \<open>nulterminate\<close>.\<close>

definition parsecmd :: "string \<Rightarrow> nat \<Rightarrow> (cmd \<times> string) parsed" where
  "parsecmd b s = (let es = s + length (cstring b s) in
     pbind (parse (parse_fuel (es - s)) b es Line s) (\<lambda>c s. case peek b es s [] of (s, _) \<Rightarrow>
       if s \<noteq> es then Syntax (''leftovers: '' @ cstring b s @ [CHR 0x0A] @ ''syntax'') else Parsed (c, nulterminate c b) s))"

section \<open>The parser returns\<close>

lemma scan_bounds: "s \<le> scan P b es s \<and> (s \<le> es \<longrightarrow> scan P b es s \<le> es)"
proof (induction P b es s rule: scan.induct)
  case (1 P b es s)
  then show ?case by (cases "s < es \<and> P (char_at b s)") (auto simp: scan.simps [of P b es s])
qed

lemmas scan_le [simp] = scan_bounds [THEN conjunct1]

lemma scan_es [simp]: "s \<le> es \<Longrightarrow> scan P b es s \<le> es"
  using scan_bounds by blast

lemma scan_stop: "scan P b es s < es \<Longrightarrow> \<not> P (char_at b (scan P b es s))"
proof (induction P b es s rule: scan.induct)
  case (1 P b es s)
  then show ?case by (cases "s < es \<and> P (char_at b s)") (auto simp: scan.simps [of P b es s])
qed

lemma scan_all: "s \<le> i \<Longrightarrow> i < scan P b es s \<Longrightarrow> P (char_at b i)"
proof (induction P b es s rule: scan.induct)
  case (1 P b es s)
  then show ?case
    by (cases "i = s") (use 1 in \<open>auto simp: scan.simps [of P b es s] split: if_splits\<close>)
qed

lemma scan_id: "\<not> (s < es \<and> P (char_at b s)) \<Longrightarrow> scan P b es s = s"
  by (subst scan.simps) auto

lemma scan_moves: "s < es \<Longrightarrow> P (char_at b s) \<Longrightarrow> s < scan P b es s"
  by (subst scan.simps) (auto intro: less_le_trans [OF _ scan_le])

text \<open>A token that is not the end of the line moves the parser forward.\<close>

lemma peek_eq: "peek b es s toks = (skip_ws b es s, char_at b (skip_ws b es s) \<noteq> NUL \<and> char_at b (skip_ws b es s) \<in> set toks)"
  by (simp add: peek_def Let_def)

text \<open>The string from \<open>l\<close> on ends with the NUL at \<open>es\<close>.\<close>

definition line :: "string \<Rightarrow> nat \<Rightarrow> nat \<Rightarrow> bool" where
  "line b l es \<longleftrightarrow> l \<le> es \<and> char_at b es = NUL \<and> (\<forall>i. l \<le> i \<longrightarrow> i < es \<longrightarrow> char_at b i \<noteq> NUL)"

lemma line_endD: "line b l es \<Longrightarrow> char_at b es = NUL"
  by (simp add: line_def)

text \<open>A word of the line: one or more plain characters, up to a character that is not plain.\<close>

definition plain :: "char \<Rightarrow> bool" where
  "plain c \<longleftrightarrow> c \<noteq> NUL \<and> c \<notin> set whitespace \<and> c \<notin> set symbols"

fun word :: "string \<Rightarrow> nat \<Rightarrow> nat \<Rightarrow> span \<Rightarrow> bool" where
  "word b l es (q, eq) \<longleftrightarrow> l \<le> q \<and> q < eq \<and> eq \<le> es \<and> (\<forall>i. q \<le> i \<longrightarrow> i < eq \<longrightarrow> plain (char_at b i)) \<and> \<not> plain (char_at b eq)"

fun cmd_ok :: "string \<Rightarrow> nat \<Rightarrow> nat \<Rightarrow> cmd \<Rightarrow> bool" where
  "cmd_ok b l es (EXEC args) \<longleftrightarrow> length args < MAXARGS \<and> list_all (word b l es) args"
| "cmd_ok b l es (REDIR c w mode fd) \<longleftrightarrow> cmd_ok b l es c \<and> word b l es w
     \<and> (mode = RDONLY \<and> fd = 0 \<or> mode = WRONLY + CREATE \<and> fd = 1)"
| "cmd_ok b l es (PIPE c d) \<longleftrightarrow> cmd_ok b l es c \<and> cmd_ok b l es d"
| "cmd_ok b l es (LIST c d) \<longleftrightarrow> cmd_ok b l es c \<and> cmd_ok b l es d"
| "cmd_ok b l es (BACK c) \<longleftrightarrow> cmd_ok b l es c"

lemma NUL_plain [simp]: "NUL \<notin> set whitespace" "NUL \<notin> set symbols"
  by (simp_all add: NUL_def whitespace_def symbols_def)

lemma gettoken_moves:
  assumes "gettoken b es s = (tok, q, eq, s')" and "s \<le> es" and "line b l es"
  shows "s \<le> q \<and> q \<le> eq \<and> eq \<le> s' \<and> s' \<le> es \<and> (tok \<noteq> NUL \<longrightarrow> q < eq)"
proof -
  let ?q = "skip_ws b es s"
  have q: "s \<le> ?q" "?q \<le> es" using assms(2) by simp_all
  have lt: "?q < es" if "char_at b ?q \<noteq> NUL"
    using that q(2) line_endD [OF assms(3)] by (cases "?q = es") auto
  have lt2: "Suc ?q < es" if "char_at b ?q \<noteq> NUL" "char_at b (Suc ?q) = CHR ''>''"
    using lt [OF that(1)] that(2) line_endD [OF assms(3)] by (cases "Suc ?q = es") (auto simp: NUL_def)
  show ?thesis
  proof (cases "char_at b ?q \<in> insert NUL (set ''|();&<>'')")
    case True
    then show ?thesis using assms(1) q lt lt2 by (auto simp: gettoken_def Let_def split: if_splits)
  next
    case False
    let ?w = "\<lambda>c. c \<notin> set whitespace \<and> c \<notin> set symbols"
    have e: "tok = CHR ''a''" "q = ?q" "eq = scan ?w b es ?q" "s' = skip_ws b es eq"
      using False assms(1) by (auto simp: gettoken_def Let_def split: if_splits)
    have "?q < es" using False lt by auto
    moreover have "?w (char_at b ?q)"
      using False scan_stop [of "\<lambda>c. c \<in> set whitespace" b es s] \<open>?q < es\<close> by (auto simp: symbols_def)
    ultimately have "?q < eq" unfolding e(3) by (rule scan_moves)
    moreover have "eq \<le> es" using q(2) e(3) by simp
    ultimately show ?thesis using q e by (simp add: NUL_def)
  qed
qed

lemma gettoken_word:
  assumes "gettoken b es s = (CHR ''a'', q, eq, s')" and "l \<le> s" and "s \<le> es" and "line b l es"
  shows "word b l es (q, eq)"
proof -
  let ?q = "skip_ws b es s" and ?w = "\<lambda>c. c \<notin> set whitespace \<and> c \<notin> set symbols"
  have e: "q = ?q" "eq = scan ?w b es ?q"
    using assms(1) by (auto simp: gettoken_def Let_def NUL_def split: if_splits)
  have m: "q < eq" "s \<le> q" "eq \<le> es"
    using gettoken_moves [OF assms(1,3,4)] by (auto simp: NUL_def)
  have "plain (char_at b i)" if "q \<le> i" "i < eq" for i
  proof -
    have "?w (char_at b i)" using scan_all [of ?q i ?w b es] that e by simp
    moreover have "char_at b i \<noteq> NUL" using that m assms(2,4) by (auto simp: line_def)
    ultimately show ?thesis by (simp add: plain_def)
  qed
  moreover have "\<not> plain (char_at b eq)"
  proof (cases "eq < es")
    case True
    then show ?thesis using scan_stop [of ?w b es ?q] e by (auto simp: plain_def)
  next
    case False
    then show ?thesis using m(3) line_endD [OF assms(4)] by (simp add: plain_def)
  qed
  ultimately show ?thesis using m assms(2) by auto
qed

lemma peek_gettoken:
  assumes "peek b es s toks = (s1, True)" and "gettoken b es s1 = (tok, q, eq, s2)" and "s \<le> es" and "line b l es"
  shows "s1 < s2 \<and> s2 \<le> es"
proof -
  have s1: "s1 = skip_ws b es s" "char_at b s1 \<noteq> NUL" "s1 \<le> es"
    using assms(1,3) by (auto simp: peek_eq)
  have "s1 < es" using s1 line_endD [OF assms(4)] by (cases "s1 = es") auto
  then have "char_at b s1 \<notin> set whitespace"
    using scan_stop [of "\<lambda>c. c \<in> set whitespace" b es s] s1(1) by simp
  then have "skip_ws b es s1 = s1" by (intro scan_id) simp
  then have "tok \<noteq> NUL" using assms(2) s1(2) by (auto simp: gettoken_def Let_def NUL_def split: if_splits)
  then show ?thesis using gettoken_moves [OF assms(2) s1(3) assms(4)] by auto
qed

text \<open>A routine started at \<open>s\<close> ended, and, with a value, at a later position of the line.\<close>

definition ends :: "nat \<Rightarrow> nat \<Rightarrow> ('a \<Rightarrow> bool) \<Rightarrow> 'a parsed \<Rightarrow> bool" where
  "ends es s P r \<longleftrightarrow> (case r of Parsed a s' \<Rightarrow> s \<le> s' \<and> s' \<le> es \<and> P a | Syntax _ \<Rightarrow> True | Fuel \<Rightarrow> False)"

lemma ends_simps [simp]:
  "ends es s P (Parsed a s') \<longleftrightarrow> s \<le> s' \<and> s' \<le> es \<and> P a" "ends es s P (Syntax e)" "\<not> ends es s P Fuel"
  by (simp_all add: ends_def)

lemma ends_pbind:
  assumes "ends es s Q r" and "\<And>a s'. s \<le> s' \<Longrightarrow> s' \<le> es \<Longrightarrow> Q a \<Longrightarrow> ends es s P (f a s')"
  shows "ends es s P (pbind r f)"
  using assms by (cases r) (auto simp: pbind_def)

lemma ends_mono: "ends es s' P r \<Longrightarrow> s \<le> s' \<Longrightarrow> ends es s P r"
  by (cases r) auto

text \<open>The redirections of a command.\<close>

definition redir_ok :: "string \<Rightarrow> nat \<Rightarrow> nat \<Rightarrow> redir \<Rightarrow> bool" where
  "redir_ok b l es = (\<lambda>(w, mode, fd). word b l es w \<and> (mode = RDONLY \<and> fd = 0 \<or> mode = WRONLY + CREATE \<and> fd = 1))"

lemma redirs_ok: "list_all (redir_ok b l es) rs \<Longrightarrow> cmd_ok b l es c \<Longrightarrow> cmd_ok b l es (redirs rs c)"
  unfolding redirs_def by (induction rs arbitrary: c) (auto simp: redir_ok_def)

lemma parseredirs_ends:
  assumes "es - s < n" and "l \<le> s" and "s \<le> es" and "line b l es" and "list_all (redir_ok b l es) rs"
  shows "ends es s (list_all (redir_ok b l es)) (parseredirs n b es rs s)"
  using assms
proof (induction n arbitrary: rs s)
  case (Suc n)
  obtain s1 p where p: "peek b es s ''<>'' = (s1, p)" by fastforce
  have s1: "s \<le> s1" "s1 \<le> es" using p Suc.prems(3) by (auto simp: peek_eq)
  obtain tok q1 e1 s2 where g: "gettoken b es s1 = (tok, q1, e1, s2)" by (metis prod_cases4)
  obtain t q eq s3 where h: "gettoken b es s2 = (t, q, eq, s3)" by (metis prod_cases4)
  show ?case
  proof (cases "p \<and> t = CHR ''a''")
    case True
    have m: "s1 < s2" "s2 \<le> es" using peek_gettoken [OF _ g Suc.prems(3,4)] p True by auto
    have m3: "s2 \<le> s3" "s3 \<le> es" using gettoken_moves [OF h m(2) Suc.prems(4)] by auto
    have l: "l \<le> s2" using Suc.prems(2) s1 m by simp
    have "word b l es (q, eq)" using gettoken_word [of b es s2] h True l m(2) Suc.prems(4) by simp
    then have "list_all (redir_ok b l es) (rs @ [redir_of tok (q, eq)])"
      using Suc.prems(5) by (simp add: redir_ok_def redir_of_def)
    then have "ends es s3 (list_all (redir_ok b l es)) (parseredirs n b es (rs @ [redir_of tok (q, eq)]) s3)"
      using Suc.prems(1,4) s1 m m3 l by (intro Suc.IH) auto
    then show ?thesis using True p g h s1 m m3 by (simp add: ends_mono)
  next
    case False
    then show ?thesis using p g h s1 Suc.prems(5) by auto
  qed
qed simp

lemma parseback_ends:
  assumes "es - s < n" and "l \<le> s" and "s \<le> es" and "line b l es" and "cmd_ok b l es c"
  shows "ends es s (cmd_ok b l es) (parseback n b es c s)"
  using assms
proof (induction n arbitrary: c s)
  case (Suc n)
  obtain s1 p where p: "peek b es s ''&'' = (s1, p)" by fastforce
  have s1: "s \<le> s1" "s1 \<le> es" using p Suc.prems(3) by (auto simp: peek_eq)
  obtain tok q1 e1 s2 where g: "gettoken b es s1 = (tok, q1, e1, s2)" by (metis prod_cases4)
  show ?case
  proof (cases p)
    case True
    have m: "s1 < s2" "s2 \<le> es" using peek_gettoken [OF _ g Suc.prems(3,4)] p True by auto
    then have "ends es s2 (cmd_ok b l es) (parseback n b es (BACK c) s2)"
      using Suc.prems s1 by (intro Suc.IH) auto
    then show ?thesis using True p g s1 m by (simp add: ends_mono)
  next
    case False
    then show ?thesis using p s1 Suc.prems(5) by simp
  qed
qed simp

lemma parseargs_ends:
  assumes "es - s < n" and "l \<le> s" and "s \<le> es" and "line b l es" and "list_all (redir_ok b l es) rs"
    and "length args < MAXARGS" and "list_all (word b l es) args"
  shows "ends es s (\<lambda>(args, rs). length args < MAXARGS \<and> list_all (word b l es) args \<and> list_all (redir_ok b l es) rs)
    (parseargs n b es args rs s)"
  using assms
proof (induction n arbitrary: args rs s)
  case (Suc n)
  let ?P = "\<lambda>(args, rs). length args < MAXARGS \<and> list_all (word b l es) args \<and> list_all (redir_ok b l es) rs"
  obtain s1 p where p: "peek b es s ''|)&;'' = (s1, p)" by fastforce
  have s1: "s \<le> s1" "s1 \<le> es" using p Suc.prems(3) by (auto simp: peek_eq)
  obtain tok q eq s2 where g: "gettoken b es s1 = (tok, q, eq, s2)" by (metis prod_cases4)
  have m: "s1 \<le> s2" "s2 \<le> es" "tok \<noteq> NUL \<longrightarrow> s1 < s2"
    using gettoken_moves [OF g s1(2) Suc.prems(4)] by auto
  show ?case
  proof (cases "\<not> p \<and> tok = CHR ''a'' \<and> Suc (length args) < MAXARGS")
    case True
    have lt: "s1 < s2" using m(3) True by (auto simp: NUL_def)
    have "word b l es (q, eq)"
      using gettoken_word [of b es s1 q eq s2 l] g True Suc.prems(2,4) s1 by simp
    then have a: "list_all (word b l es) (args @ [(q, eq)])" "length (args @ [(q, eq)]) < MAXARGS"
      using True Suc.prems(7) by simp_all
    have r: "ends es s2 (list_all (redir_ok b l es)) (parseredirs (Suc (es - s2)) b es rs s2)"
      using Suc.prems s1 m by (intro parseredirs_ends) auto
    have "ends es s2 ?P (pbind (parseredirs (Suc (es - s2)) b es rs s2) (parseargs n b es (args @ [(q, eq)])))"
    proof (rule ends_pbind [OF r])
      fix rs' s3
      assume "s2 \<le> s3" "s3 \<le> es" "list_all (redir_ok b l es) rs'"
      then have "ends es s3 ?P (parseargs n b es (args @ [(q, eq)]) rs' s3)"
        using Suc.prems(1,2,4) s1 lt a by (intro Suc.IH) auto
      then show "ends es s2 ?P (parseargs n b es (args @ [(q, eq)]) rs' s3)"
        using \<open>s2 \<le> s3\<close> by (rule ends_mono)
    qed
    then have "ends es s ?P (pbind (parseredirs (Suc (es - s2)) b es rs s2) (parseargs n b es (args @ [(q, eq)])))"
      using s1 m by (elim ends_mono) simp
    then show ?thesis using True p g by (simp add: NUL_def)
  next
    case False
    then show ?thesis using p g s1 m Suc.prems(5-7) by auto
  qed
qed simp

lemma ends_token:
  assumes "s \<le> es" and "line b l es" and "\<And>s2. s < s2 \<Longrightarrow> s2 \<le> es \<Longrightarrow> ends es s P (f s2)"
    and "\<And>s1. s \<le> s1 \<Longrightarrow> s1 \<le> es \<Longrightarrow> ends es s P (g s1)"
  shows "ends es s P (case peek b es s toks of (s1, p) \<Rightarrow>
    if p then case gettoken b es s1 of (_, _, _, s2) \<Rightarrow> f s2 else g s1)"
proof -
  obtain s1 p where p: "peek b es s toks = (s1, p)" by fastforce
  have s1: "s \<le> s1" "s1 \<le> es" using p assms(1) by (auto simp: peek_eq)
  obtain tok q eq s2 where h: "gettoken b es s1 = (tok, q, eq, s2)" by (metis prod_cases4)
  show ?thesis
  proof (cases p)
    case True
    then have "s1 < s2" "s2 \<le> es" using peek_gettoken [OF _ h assms(1,2), of toks] p by auto
    then show ?thesis using True p h s1 assms(3) by simp
  next
    case False
    then show ?thesis using p s1 assms(4) by simp
  qed
qed

text \<open>The bound on the depth of the calls that a routine needs.\<close>

primrec depth :: "routine \<Rightarrow> nat" where
  "depth Line = 4" | "depth Pipe = 3" | "depth Exec = 2" | "depth Block = 1"

lemma depth_nonzero [simp]: "depth r \<noteq> 0"
  by (cases r) simp_all

text \<open>The calls of a routine end when they have the depth they need.\<close>

definition calls_end :: "string \<Rightarrow> nat \<Rightarrow> nat \<Rightarrow> nat \<Rightarrow> (routine \<Rightarrow> nat \<Rightarrow> cmd parsed) \<Rightarrow> bool" where
  "calls_end b l es n call \<longleftrightarrow> (\<forall>r s. 4 * (es - s) + depth r \<le> n \<longrightarrow> l \<le> s \<longrightarrow> s \<le> es \<longrightarrow> ends es s (cmd_ok b l es) (call r s))"

lemma calls_endD:
  "calls_end b l es n call \<Longrightarrow> 4 * (es - s') + depth r \<le> n \<Longrightarrow> l \<le> s \<Longrightarrow> s \<le> s' \<Longrightarrow> s' \<le> es
    \<Longrightarrow> ends es s (cmd_ok b l es) (call r s')"
  unfolding calls_end_def by (metis ends_mono le_trans)

lemma redirs_end:
  assumes "line b l es" and "l \<le> s" and "s \<le> s'" and "s' \<le> es" and "cmd_ok b l es c"
  shows "ends es s (cmd_ok b l es) (pbind (parseredirs (Suc (es - s')) b es [] s') (\<lambda>rs s. Parsed (redirs rs c) s))"
proof -
  have "ends es s' (list_all (redir_ok b l es)) (parseredirs (Suc (es - s')) b es [] s')"
    using assms by (intro parseredirs_ends) auto
  then show ?thesis
    using assms by (intro ends_pbind [of es s "list_all (redir_ok b l es)"]) (auto intro: ends_mono redirs_ok)
qed

lemma parseline_ends:
  assumes C: "calls_end b l es n call" and L: "line b l es" and s: "4 * (es - s) + 3 \<le> n" "l \<le> s" "s \<le> es"
  shows "ends es s (cmd_ok b l es) (parseline call b es s)"
  unfolding parseline_def
proof (intro ends_pbind)
  show "ends es s (cmd_ok b l es) (call Pipe s)"
    using s by (intro calls_endD [OF C]) auto
  fix c s1 assume "s \<le> s1" "s1 \<le> es" "cmd_ok b l es c"
  then show "ends es s (cmd_ok b l es) (parseback (Suc (es - s1)) b es c s1)"
    using L s(2) by (intro ends_mono [OF parseback_ends]) auto
next
  fix c s2 assume c: "s \<le> s2" "s2 \<le> es" "cmd_ok b l es c"
  show "ends es s (cmd_ok b l es) (case peek b es s2 '';'' of (s, p) \<Rightarrow>
    if p then case gettoken b es s of (_, _, _, s) \<Rightarrow> pbind (call Line s) (\<lambda>r s. Parsed (LIST c r) s)
    else Parsed c s)"
    by (rule ends_mono [OF ends_token [OF c(2) L]], rule ends_pbind [where Q = "cmd_ok b l es"])
      (use c s in \<open>auto intro!: calls_endD [OF C]\<close>)
qed

lemma parsepipe_ends:
  assumes C: "calls_end b l es n call" and L: "line b l es" and s: "4 * (es - s) + 2 \<le> n" "l \<le> s" "s \<le> es"
  shows "ends es s (cmd_ok b l es) (parsepipe call b es s)"
  unfolding parsepipe_def
proof (intro ends_pbind)
  show "ends es s (cmd_ok b l es) (call Exec s)"
    using s by (intro calls_endD [OF C]) auto
  fix c s2 assume c: "s \<le> s2" "s2 \<le> es" "cmd_ok b l es c"
  show "ends es s (cmd_ok b l es) (case peek b es s2 ''|'' of (s, p) \<Rightarrow>
    if p then case gettoken b es s of (_, _, _, s) \<Rightarrow> pbind (call Pipe s) (\<lambda>r s. Parsed (PIPE c r) s)
    else Parsed c s)"
    by (rule ends_mono [OF ends_token [OF c(2) L]], rule ends_pbind [where Q = "cmd_ok b l es"])
      (use c s in \<open>auto intro!: calls_endD [OF C]\<close>)
qed

lemma parseexec_ends:
  assumes C: "calls_end b l es n call" and L: "line b l es" and s: "4 * (es - s) + 1 \<le> n" "l \<le> s" "s \<le> es"
  shows "ends es s (cmd_ok b l es) (parseexec call b es s)"
proof -
  obtain s1 p where p: "peek b es s ''('' = (s1, p)" by fastforce
  have s1: "s \<le> s1" "s1 \<le> es" using p s by (auto simp: peek_eq)
  have "ends es s (cmd_ok b l es) (call Block s1)"
    using s s1 by (intro calls_endD [OF C]) auto
  moreover have "ends es s (cmd_ok b l es) (pbind (parseredirs (Suc (es - s1)) b es [] s1)
    (\<lambda>rs s. pbind (parseargs (Suc (es - s)) b es [] rs s) (\<lambda>(args, rs) s. Parsed (redirs rs (EXEC args)) s)))"
  proof (rule ends_pbind)
    show "ends es s (list_all (redir_ok b l es)) (parseredirs (Suc (es - s1)) b es [] s1)"
      using s1 s L by (intro ends_mono [OF parseredirs_ends]) auto
    fix rs s2 assume rs: "s \<le> s2" "s2 \<le> es" "list_all (redir_ok b l es) rs"
    show "ends es s (cmd_ok b l es) (pbind (parseargs (Suc (es - s2)) b es [] rs s2) (\<lambda>(args, rs) s. Parsed (redirs rs (EXEC args)) s))"
      by (rule ends_pbind, rule ends_mono [OF parseargs_ends [where l = l]])
        (use rs L s in \<open>auto simp: MAXARGS_def intro!: redirs_ok\<close>)
  qed
  ultimately show ?thesis using p by (simp add: parseexec_def)
qed

lemma parseblock_ends:
  assumes C: "calls_end b l es n call" and L: "line b l es" and s: "4 * (es - s) \<le> n" "l \<le> s" "s \<le> es"
  shows "ends es s (cmd_ok b l es) (parseblock call b es s)"
proof -
  obtain s1 p where p: "peek b es s ''('' = (s1, p)" by fastforce
  obtain tok q eq s2 where g: "gettoken b es s1 = (tok, q, eq, s2)" by (metis prod_cases4)
  show ?thesis
  proof (cases p)
    case True
    have m: "s1 < s2" "s2 \<le> es" using peek_gettoken [OF _ g s(3) L] p True by auto
    have s1: "s \<le> s1" using p by (auto simp: peek_eq)
    have "ends es s (cmd_ok b l es) (pbind (call Line s2) (\<lambda>c s. case peek b es s '')'' of (s, p) \<Rightarrow>
       if \<not> p then Syntax ''syntax - missing )''
       else case gettoken b es s of (_, _, _, s) \<Rightarrow>
         pbind (parseredirs (Suc (es - s)) b es [] s) (\<lambda>rs s. Parsed (redirs rs c) s)))"
    proof (rule ends_pbind)
      show "ends es s (cmd_ok b l es) (call Line s2)"
        using m s1 s by (intro calls_endD [OF C]) auto
      fix c s3 assume c: "s \<le> s3" "s3 \<le> es" "cmd_ok b l es c"
      obtain s4 p' where p': "peek b es s3 '')'' = (s4, p')" by fastforce
      obtain tok' q' eq' s5 where g': "gettoken b es s4 = (tok', q', eq', s5)" by (metis prod_cases4)
      have "s4 < s5 \<and> s5 \<le> es \<and> s3 \<le> s4" if p'
        using peek_gettoken [OF _ g' c(2) L, of "'')''"] p' that by (auto simp: peek_eq)
      then show "ends es s (cmd_ok b l es) (case peek b es s3 '')'' of (s, p) \<Rightarrow>
       if \<not> p then Syntax ''syntax - missing )''
       else case gettoken b es s of (_, _, _, s) \<Rightarrow>
         pbind (parseredirs (Suc (es - s)) b es [] s) (\<lambda>rs s. Parsed (redirs rs c) s))"
        using p' g' c redirs_end [OF L s(2), of s5 c] by auto
    qed
    then show ?thesis using p g True by (simp add: parseblock_def)
  qed (use p in \<open>simp add: parseblock_def\<close>)
qed

lemma parse_ends:
  assumes "line b l es"
  shows "calls_end b l es n (parse n b es)"
proof (induction n)
  case 0
  then show ?case by (simp add: calls_end_def)
next
  case (Suc n)
  show ?case
    unfolding calls_end_def
  proof (intro allI impI)
    fix r s assume "4 * (es - s) + depth r \<le> Suc n" "l \<le> s" "s \<le> es"
    then show "ends es s (cmd_ok b l es) (parse (Suc n) b es r s)"
      using parseline_ends [OF Suc assms] parsepipe_ends [OF Suc assms] parseexec_ends [OF Suc assms] parseblock_ends [OF Suc assms]
      by (cases r) simp_all
  qed
qed

lemma line_cstr: "line b s (s + length (cstring b s))"
proof -
  let ?n = "length (cstring b s)"
  have "char_at b (s + i) \<noteq> NUL" if "i < ?n" for i
  proof -
    have "cstring b s ! i = drop s b ! i" using that by (simp add: cstring_def takeWhile_nth)
    moreover have "cstring b s ! i \<noteq> NUL" using that by (auto simp: cstring_def dest: nth_mem set_takeWhileD)
    moreover have "i < length (drop s b)" using that length_takeWhile_le [of "\<lambda>c. c \<noteq> NUL" "drop s b"] by (simp add: cstring_def)
    ultimately show ?thesis by (auto simp: char_at_def)
  qed
  then have "char_at b i \<noteq> NUL" if "s \<le> i" "i < s + ?n" for i
    using that by (metis add_diff_inverse_nat add_less_cancel_left not_less)
  moreover have "char_at b (s + ?n) = NUL"
  proof (cases "?n < length (drop s b)")
    case True
    then have "drop s b ! ?n = NUL" using nth_length_takeWhile [of "\<lambda>c. c \<noteq> NUL" "drop s b"] by (simp add: cstring_def)
    then show ?thesis using True by (simp add: char_at_def)
  qed (auto simp: char_at_def)
  ultimately show ?thesis by (simp add: line_def)
qed

lemma length_nulterminate [simp]: "length (nulterminate c b) = length b"
proof -
  have "length (foldl (\<lambda>b (q, eq). b[eq := NUL]) b args) = length b" for args :: "span list" and b :: string
    by (induction args arbitrary: b) auto
  then show ?thesis by (induction c b rule: nulterminate.induct) simp_all
qed

text \<open>The words of a command, its files included.\<close>

fun spans :: "cmd \<Rightarrow> span list" where
  "spans (EXEC args) = args"
| "spans (REDIR c w mode fd) = spans c @ [w]"
| "spans (PIPE l r) = spans l @ spans r"
| "spans (LIST l r) = spans l @ spans r"
| "spans (BACK c) = spans c"

lemma spans_ok: "cmd_ok b l es c \<Longrightarrow> w \<in> set (spans c) \<Longrightarrow> word b l es w"
  by (induction c) (auto simp: list_all_iff)

text \<open>The positions after the words.\<close>

primrec stops :: "span list \<Rightarrow> nat set" where
  "stops [] = {}"
| "stops (w # ws) = insert (snd w) (stops ws)"

lemma stops_append [simp]: "stops (ws @ vs) = stops ws \<union> stops vs"
  by (induction ws) auto

lemma stops_iff: "i \<in> stops ws \<longleftrightarrow> (\<exists>q. (q, i) \<in> set ws)"
  by (induction ws) auto

lemma nth_update: "i < length xs \<Longrightarrow> xs[j := x] ! i = (if i = j then x else xs ! i)"
  by (cases "i = j") auto

lemma nulterminate_nth:
  "i < length b \<Longrightarrow> nulterminate c b ! i = (if i \<in> stops (spans c) then NUL else b ! i)"
proof -
  have f: "i < length b \<Longrightarrow> foldl (\<lambda>b (q, eq). b[eq := NUL]) b args ! i = (if i \<in> stops args then NUL else b ! i)"
    for args :: "span list" and b
    by (induction args arbitrary: b) (auto simp: nth_update)
  show "i < length b \<Longrightarrow> nulterminate c b ! i = (if i \<in> stops (spans c) then NUL else b ! i)"
    by (induction c b rule: nulterminate.induct) (auto simp: f nth_update)
qed

lemma nulterminate_word:
  assumes "cmd_ok b l es c" and "(q, eq) \<in> set (spans c)"
  shows "cstring (nulterminate c b) q = take (eq - q) (drop q b)"
proof -
  have w: "word b l es (q, eq)" by (rule spans_ok [OF assms])
  have in_b: "i < length b" if "plain (char_at b i)" for i
    using that by (auto simp: char_at_def plain_def split: if_splits)
  have kept: "nulterminate c b ! i = b ! i" if "q \<le> i" "i < eq" for i
  proof -
    have p: "plain (char_at b i)" using w that by simp
    have "(q', i) \<notin> set (spans c)" for q'
      using p spans_ok [OF assms(1), of "(q', i)"] by auto
    then show ?thesis using in_b [OF p] by (simp add: nulterminate_nth stops_iff)
  qed
  have le: "eq \<le> length b"
    using w in_b [of "eq - 1"] by (cases eq) auto
  have "takeWhile (\<lambda>c. c \<noteq> NUL) (drop q (nulterminate c b)) = take (eq - q) (drop q (nulterminate c b))"
  proof (rule takeWhile_eq_take_P_nth)
    fix i assume i: "i < eq - q" "i < length (drop q (nulterminate c b))"
    then have "plain (char_at b (q + i))" using w by simp
    then show "drop q (nulterminate c b) ! i \<noteq> NUL"
      using i kept [of "q + i"] by (auto simp: char_at_def plain_def split: if_splits)
  next
    assume "eq - q < length (drop q (nulterminate c b))"
    then have "eq < length b" using w by simp
    then have "nulterminate c b ! eq = NUL" using assms(2) by (auto simp: nulterminate_nth stops_iff)
    then show "\<not> drop q (nulterminate c b) ! (eq - q) \<noteq> NUL" using w le by simp
  qed
  also have "take (eq - q) (drop q (nulterminate c b)) = take (eq - q) (drop q b)"
    by (rule nth_equalityI) (use kept in auto)
  finally show ?thesis by (simp add: cstring_def)
qed

lemma parsecmd_ends:
  "case parsecmd b s of Parsed (c, b') s' \<Rightarrow> cmd_ok b s (s + length (cstring b s)) c \<and> b' = nulterminate c b
    \<and> s' = s + length (cstring b s) | Syntax _ \<Rightarrow> True | Fuel \<Rightarrow> False"
proof -
  let ?es = "s + length (cstring b s)"
  have "ends ?es s (cmd_ok b s ?es) (parse (parse_fuel (?es - s)) b ?es Line s)"
    by (rule calls_endD [OF parse_ends]) (simp_all add: parse_fuel_def line_cstr)
  then show ?thesis
    by (cases "parse (parse_fuel (?es - s)) b ?es Line s") (auto simp: parsecmd_def pbind_def Let_def peek_def)
qed

section \<open>Properties\<close>

text \<open>C32: the parser of the shell ends. On every buffer and from every position in it, \<open>parsecmd\<close>
  returns a command or stops with one of its messages; the calls of its routines are never nested
  deeper than four for each character of the line and four more.\<close>

theorem parsecmd_terminates: "parsecmd b s \<noteq> Fuel"
  using parsecmd_ends [of b s] by (auto split: parsed.splits)

text \<open>C31: the commands that the parser builds are well-formed. Every node \<open>EXEC\<close> has fewer than
  \<open>MAXARGS\<close> words, so the arrays of the node have room for their last, null entry; every word and
  every file name lies inside the line, is not empty, has only plain characters and ends at a
  character that is not one; every redirection is of descriptor 0 for reading or of 1 for writing;
  and the whole line is used up.\<close>

theorem parsecmd_well_formed:
  assumes "parsecmd b s = Parsed (c, b') s'"
  shows "cmd_ok b s (s + length (cstring b s)) c \<and> s' = s + length (cstring b s)"
  using parsecmd_ends [of b s] assms by simp

text \<open>C30: \<open>nulterminate\<close> turns the counted words into strings. In the buffer that \<open>parsecmd\<close> leaves
  behind, the C string at the start of every word and file name of the command is exactly the
  word, although all the terminators are written into the one line buffer.\<close>

theorem nulterminate_strings:
  assumes "parsecmd b s = Parsed (c, b') s'" and "(q, eq) \<in> set (spans c)"
  shows "cstring b' q = take (eq - q) (drop q b)"
  using parsecmd_ends [of b s] assms nulterminate_word [of b s "s + length (cstring b s)" c q eq] by simp

definition demo_line :: string where
  "demo_line = ''cat<f|wc -l>out'' @ [CHR 0x0A, NUL, NUL]"

lemma demo_parse: "parsecmd demo_line 0 = Parsed (PIPE (REDIR (EXEC [(0, 3)]) (4, 5) 0 0) (REDIR (EXEC [(6, 8), (9, 11)]) (12, 15) 513 1),
    ''cat'' @ [NUL] @ ''f'' @ [NUL] @ ''wc'' @ [NUL] @ ''-l'' @ [NUL] @ ''out'' @ [NUL, NUL, NUL]) 16"
  by code_simp

theorem parsecmd_well_formed_witness:
  "cmd_ok demo_line 0 16 (PIPE (REDIR (EXEC [(0, 3)]) (4, 5) 0 0) (REDIR (EXEC [(6, 8), (9, 11)]) (12, 15) 513 1))"
  using parsecmd_well_formed [OF demo_parse] by (simp add: demo_line_def cstring_def NUL_def)

theorem nulterminate_strings_witness:
  "cstring (''cat'' @ [NUL] @ ''f'' @ [NUL] @ ''wc'' @ [NUL] @ ''-l'' @ [NUL] @ ''out'' @ [NUL, NUL, NUL]) 9 = ''-l''"
  using nulterminate_strings [OF demo_parse, of 9 11] by (simp add: demo_line_def)

end
