(* ===== verification/ShellRun.thy ===== *)
theory ShellRun
  imports Shell
begin

text \<open>
  Running commands (\<open>runcmd\<close>, \<open>fork1\<close>, \<open>panic\<close> and \<open>main\<close> of \<open>src/sh.c\<close>). A program is the tree of
  the system calls it makes, with a branch for each result; an abstract machine of processes with
  tables of descriptors runs such programs, and shows which programs a command line starts and what
  their descriptors are.
\<close>

section \<open>Programs of system calls\<close>

text \<open>\<open>UExec\<close> goes on only when the call fails; \<open>UFork\<close> goes on with 0 in the child and the number of
  the child (or -1) in the parent.\<close>

datatype uprog = UExit | UExec "string list" uprog | UPrint string uprog | UClose nat uprog
  | UOpen string nat "int \<Rightarrow> uprog" | UFork "int \<Rightarrow> uprog" | UWait uprog
  | UPipe "int \<Rightarrow> nat \<Rightarrow> nat \<Rightarrow> uprog" | UDup nat uprog | UStrace nat uprog

definition sh_panic :: "string \<Rightarrow> uprog" where
  "sh_panic s = UPrint (s @ [CHR 0x0A]) UExit"

definition fork1 :: "(int \<Rightarrow> uprog) \<Rightarrow> uprog" where
  "fork1 k = UFork (\<lambda>pid. if pid = - 1 then sh_panic ''fork'' else k pid)"

definition TRACE :: nat where "TRACE = 1"
definition FORKED :: nat where "FORKED = 2"

text \<open>\<open>runcmd\<close> on the command \<open>c\<close> over the buffer \<open>b\<close>; it does not return.\<close>

primrec runcmd :: "bool \<Rightarrow> string \<Rightarrow> cmd \<Rightarrow> uprog" where
  "runcmd stracing b (EXEC args) = (if args = [] then UExit
     else (if stracing then UStrace (TRACE + FORKED) else id)
       (UExec (map (\<lambda>(q, _). cstring b q) args) (UPrint (''exec '' @ cstring b (fst (hd args)) @ '' failed'' @ [CHR 0x0A]) UExit)))"
| "runcmd stracing b (REDIR c w mode fd) = UClose fd (UOpen (cstring b (fst w)) mode (\<lambda>r.
     if r < 0 then UPrint (''open '' @ cstring b (fst w) @ '' failed'' @ [CHR 0x0A]) UExit else runcmd stracing b c))"
| "runcmd stracing b (LIST l r) = fork1 (\<lambda>pid. if pid = 0 then runcmd stracing b l else UWait (runcmd stracing b r))"
| "runcmd stracing b (PIPE l r) = UPipe (\<lambda>res p0 p1. if res < 0 then sh_panic ''pipe''
     else fork1 (\<lambda>pid. if pid = 0 then UClose 1 (UDup p1 (UClose p0 (UClose p1 (runcmd stracing b l))))
       else fork1 (\<lambda>pid. if pid = 0 then UClose 0 (UDup p0 (UClose p0 (UClose p1 (runcmd stracing b r))))
         else UClose p0 (UClose p1 (UWait (UWait UExit))))))"
| "runcmd stracing b (BACK c) = fork1 (\<lambda>pid. if pid = 0 then runcmd stracing b c else UExit)"

text \<open>\<open>runcmd(parsecmd(buf + s))\<close> in a child of the shell.\<close>

definition child :: "bool \<Rightarrow> string \<Rightarrow> nat \<Rightarrow> uprog" where
  "child stracing b s = (case parsecmd b s of
     Parsed (c, b') _ \<Rightarrow> runcmd stracing b' c | Syntax e \<Rightarrow> sh_panic e | Fuel \<Rightarrow> UExit)"

section \<open>The machine\<close>

text \<open>What a descriptor refers to: a file given to the shell, one opened by name, or an end of a pipe.\<close>

datatype handle = Given nat | Named string nat | PipeR nat | PipeW nat

type_synonym fdtable = "nat \<Rightarrow> handle option"

definition lowest :: "fdtable \<Rightarrow> nat" where
  "lowest fds = length (takeWhile (\<lambda>i. fds i \<noteq> None) [0..<16])"

text \<open>The programs that are executed, each with its table of descriptors, when every system call
  succeeds and the pipes are numbered from \<open>n\<close> on.\<close>

primrec launch :: "uprog \<Rightarrow> fdtable \<Rightarrow> nat \<Rightarrow> (string list \<times> fdtable) list \<times> nat" where
  "launch UExit fds n = ([], n)"
| "launch (UExec argv k) fds n = ([(argv, fds)], n)"
| "launch (UPrint _ k) fds n = launch k fds n"
| "launch (UClose fd k) fds n = launch k (fds(fd := None)) n"
| "launch (UOpen name mode k) fds n = (let fd = lowest fds in launch (k (int fd)) (fds(fd \<mapsto> Named name mode)) n)"
| "launch (UFork k) fds n = (case launch (k 0) fds n of (xs, n) \<Rightarrow> case launch (k 1) fds n of (ys, n) \<Rightarrow> (xs @ ys, n))"
| "launch (UWait k) fds n = launch k fds n"
| "launch (UPipe k) fds n = (let p0 = lowest fds; fds = fds(p0 \<mapsto> PipeR n); p1 = lowest fds
     in launch (k 0 p0 p1) (fds(p1 \<mapsto> PipeW n)) (Suc n))"
| "launch (UDup fd k) fds n = launch k (fds(lowest fds := fds fd)) n"
| "launch (UStrace _ k) fds n = launch k fds n"

text \<open>What a command means: the programs it starts, each with its words, its standard input and its
  standard output.\<close>

primrec meaning :: "string \<Rightarrow> cmd \<Rightarrow> handle \<Rightarrow> handle \<Rightarrow> nat \<Rightarrow> (string list \<times> handle \<times> handle) list \<times> nat" where
  "meaning b (EXEC args) i out n = (if args = [] then [] else [(map (\<lambda>(q, _). cstring b q) args, i, out)], n)"
| "meaning b (REDIR c w mode fd) i out n = (let f = Named (cstring b (fst w)) mode in
     if fd = 0 then meaning b c f out n else meaning b c i f n)"
| "meaning b (LIST l r) i out n = (case meaning b l i out n of (xs, n) \<Rightarrow> case meaning b r i out n of (ys, n) \<Rightarrow> (xs @ ys, n))"
| "meaning b (PIPE l r) i out n = (case meaning b l i (PipeW n) (Suc n) of (xs, m) \<Rightarrow>
     case meaning b r (PipeR n) out m of (ys, m) \<Rightarrow> (xs @ ys, m))"
| "meaning b (BACK c) i out n = meaning b c i out n"

definition std :: "handle \<Rightarrow> handle \<Rightarrow> handle \<Rightarrow> fdtable" where
  "std i out err = [0 \<mapsto> i, 1 \<mapsto> out, 2 \<mapsto> err]"

section \<open>Lines of input\<close>

text \<open>What the shell does in its own process: the child it forks and waits for, a change of the
  directory, the calls that set the filters of \<open>strace\<close>.\<close>

datatype action = Fork uprog | Chdir string | Eflag int | Sflag int | Fflag int

record shell =
  stracing :: bool
  straceRunning :: bool
  straceFlag :: bool

definition straceRun :: string where "straceRun = ''strace on'' @ [CHR 0x0A]"
definition unstraceRun :: string where "unstraceRun = ''strace off'' @ [CHR 0x0A]"
definition straceDump :: string where "straceDump = ''strace dump'' @ [CHR 0x0A]"

text \<open>\<open>streq\<close> compares up to the first line end of the two equal strings; here the second string is
  one of the constants, which end in one.\<close>

fun streq :: "string \<Rightarrow> string \<Rightarrow> bool" where
  "streq s1 [] \<longleftrightarrow> False"
| "streq s1 (d # s2) \<longleftrightarrow> (if char_at s1 0 \<noteq> d then False else if d = CHR 0x0A then True else streq (tl s1) s2)"

definition syscall_names :: "string list" where
  "syscall_names = [''fork'', ''exit'', ''wait'', ''pipe'', ''read'', ''kill'', ''exec'', ''fstat'', ''chdir'', ''dup'', ''getpid'',
     ''sbrk'', ''sleep'', ''uptime'', ''open'', ''write'', ''mknod'', ''unlink'', ''link'', ''mkdir'', ''close'', ''trace'']"

text \<open>\<open>parse_syscallN\<close>: the name from \<open>start\<close> to before the line end, and its index; \<open>None\<close> when the
  array of 20 bytes does not hold the name and its NUL.\<close>

definition parse_syscallN :: "string \<Rightarrow> nat \<Rightarrow> int option" where
  "parse_syscallN b start = (let w = take (length (cstring b 0) - 1 - start) (drop start b) in
     if length w \<ge> 20 then None
     else Some (foldl (\<lambda>r i. if syscall_names ! i = w then int i else r) (- 1) [0..<22]))"

definition has_prefix :: "string \<Rightarrow> string \<Rightarrow> bool" where
  "has_prefix b p \<longleftrightarrow> take (length p) b = p"

definition straceR_commands :: "string \<Rightarrow> shell \<Rightarrow> (shell \<times> action list) option" where
  "straceR_commands b s = (if streq b straceRun then Some (s\<lparr>stracing := True\<rparr>, [])
     else if streq b unstraceRun then Some (s\<lparr>stracing := False\<rparr>, [])
     else if streq b straceDump then Some (s, [Fork (child (stracing s) b 7)])
     else None)"

text \<open>\<open>None\<close> is a line that is none of these commands, \<open>Some None\<close> the overrun of \<open>parse_syscallN\<close>.\<close>

definition straceO_commands :: "string \<Rightarrow> shell \<Rightarrow> (shell \<times> action list) option option" where
  "straceO_commands b s = (let t = s\<lparr>stracing := True, straceFlag := True\<rparr> in
     if has_prefix b ''strace -e '' then Some (map_option (\<lambda>i. (t, [Eflag i])) (parse_syscallN b 10))
     else if has_prefix b ''strace -s -e '' then Some (map_option (\<lambda>i. (t, [Sflag 1, Eflag i])) (parse_syscallN b 13))
     else if has_prefix b ''strace -f -e '' then Some (map_option (\<lambda>i. (t, [Fflag 1, Eflag i])) (parse_syscallN b 13))
     else if has_prefix b ''strace -s'' then Some (Some (t, [Sflag 1]))
     else if has_prefix b ''strace -f'' then Some (Some (t, [Fflag 1]))
     else None)"

definition straceR_mode :: "string \<Rightarrow> shell \<Rightarrow> (shell \<times> action list) option" where
  "straceR_mode b s = (if straceRunning s \<or> has_prefix b ''strace run ''
     then Some (s\<lparr>stracing := True, straceRunning := True\<rparr>, [Fork (child True b 11)]) else None)"

text \<open>One round of the loop of \<open>main\<close> on the buffer \<open>b\<close>.\<close>

definition shell_line :: "string \<Rightarrow> shell \<Rightarrow> (shell \<times> action list) option" where
  "shell_line b s = (if has_prefix b ''cd '' then Some (s, [Chdir (cstring (b[length (cstring b 0) - 1 := NUL]) 3)])
     else case straceR_commands b s of Some r \<Rightarrow> Some r | None \<Rightarrow>
     case straceO_commands b s of Some r \<Rightarrow> r | None \<Rightarrow>
     case straceR_mode b s of Some r \<Rightarrow> Some r | None \<Rightarrow>
       Some (s\<lparr>stracing := stracing s \<and> \<not> straceFlag s\<rparr>, [Fork (child (stracing s) b 0)]))"

text \<open>\<open>gets\<close> on the characters that \<open>read\<close> will deliver: the line and the rest; and \<open>getcmd\<close>, which
  clears the buffer first and ends the shell at an empty line (the end of the input).\<close>

fun gets_loop :: "nat \<Rightarrow> string \<Rightarrow> string \<times> string" where
  "gets_loop 0 inp = ([], inp)"
| "gets_loop (Suc k) [] = ([], [])"
| "gets_loop (Suc k) (c # inp) = (if c = CHR 0x0A \<or> c = CHR 0x0D then ([c], inp)
     else case gets_loop k inp of (l, r) \<Rightarrow> (c # l, r))"

definition getcmd :: "string \<Rightarrow> (string \<times> string) option" where
  "getcmd inp = (case gets_loop 99 inp of (l, r) \<Rightarrow>
     if char_at l 0 = NUL then None else Some (l @ replicate (100 - length l) NUL, r))"

lemma gets_loop_rest: "length (snd (gets_loop k inp)) \<le> length inp"
  by (induction k inp rule: gets_loop.induct) (auto split: prod.splits)

lemma getcmd_rest: "getcmd inp = Some (b, r) \<Longrightarrow> length r < length inp"
proof -
  assume a: "getcmd inp = Some (b, r)"
  then obtain c inp' where "inp = c # inp'"
    by (cases inp) (auto simp: getcmd_def char_at_def eval_nat_numeral)
  then show ?thesis using a gets_loop_rest [of 98 inp']
    by (auto simp: getcmd_def eval_nat_numeral split: prod.splits if_splits)
qed

text \<open>The loop of \<open>main\<close> over the whole input; \<open>None\<close> when a line overruns \<open>parse_syscallN\<close>.\<close>

function shell_main :: "string \<Rightarrow> shell \<Rightarrow> (shell \<times> action list) option" where
  "shell_main inp s = (case getcmd inp of None \<Rightarrow> Some (s, []) | Some (b, r) \<Rightarrow>
     case shell_line b s of None \<Rightarrow> None | Some (s', as) \<Rightarrow> map_option (apsnd ((@) as)) (shell_main r s'))"
  by pat_completeness auto

termination
  by (relation "measure (\<lambda>(inp, s). length inp)") (auto dest: getcmd_rest)

section \<open>Wiring\<close>

lemma lowest_simps [simp]:
  "lowest ((std i out err)(0 := None)) = 0" "lowest ((std i out err)(1 := None)) = 1" "lowest (std i out err) = 3"
  "lowest ((std i out err)(3 \<mapsto> h)) = 4"
  by (simp_all add: lowest_def std_def upt_rec)

lemma std_updates [simp]:
  "(std i out err)(0 := None, 0 \<mapsto> h) = std h out err" "(std i out err)(1 := None, 1 \<mapsto> h) = std i h err"
  "(std i out err)(0 \<mapsto> h) = std h out err" "(std i out err)(1 \<mapsto> h) = std i h err"
  by (auto simp: std_def fun_eq_iff)

text \<open>The two children of a pipe: one end of it becomes the standard output or input, and nothing else
  of it stays open.\<close>

lemma launch_left:
  "launch (UClose 1 (UDup 4 (UClose 3 (UClose 4 k)))) ((std i out err)(3 \<mapsto> PipeR n, 4 \<mapsto> PipeW n)) m = launch k (std i (PipeW n) err) m"
proof -
  let ?T = "((std i out err)(3 \<mapsto> PipeR n, 4 \<mapsto> PipeW n))(1 := None)"
  have l: "lowest ?T = 1" by (simp add: lowest_def std_def upt_rec)
  have e: "((?T(1 := ?T 4))(3 := None))(4 := None) = std i (PipeW n) err" by (auto simp: std_def fun_eq_iff)
  show ?thesis by (simp only: launch.simps l e)
qed

lemma launch_right:
  "launch (UClose 0 (UDup 3 (UClose 3 (UClose 4 k)))) ((std i out err)(3 \<mapsto> PipeR n, 4 \<mapsto> PipeW n)) m = launch k (std (PipeR n) out err) m"
proof -
  let ?T = "((std i out err)(3 \<mapsto> PipeR n, 4 \<mapsto> PipeW n))(0 := None)"
  have l: "lowest ?T = 0" by (simp add: lowest_def std_def upt_rec)
  have e: "((?T(0 := ?T 3))(3 := None))(4 := None) = std (PipeR n) out err" by (auto simp: std_def fun_eq_iff)
  show ?thesis by (simp only: launch.simps l e)
qed

lemma launch_pipe:
  "launch (runcmd tr b (PIPE l r)) (std i out err) n = (case launch (runcmd tr b l) (std i (PipeW n) err) (Suc n) of (xs, m) \<Rightarrow>
     case launch (runcmd tr b r) (std (PipeR n) out err) m of (ys, m) \<Rightarrow> (xs @ ys, m))"
proof -
  have d: "launch (UClose p (UClose q (UWait (UWait UExit)))) T m = ([], m)" for p q T m by simp
  have c: "(0 :: int) \<noteq> - 1" "(1 :: int) \<noteq> - 1" "\<not> (0 :: int) < 0" "(1 :: int) \<noteq> 0" by simp_all
  show ?thesis
    by (simp only: runcmd.simps launch.simps(6,8) Let_def lowest_simps fork1_def c if_False if_True launch_left launch_right d
        prod.case append_Nil2 simp_thms)
      (simp split: prod.split)
qed

text \<open>A command whose redirections are of the descriptors 0 and 1.\<close>

primrec redirs_std :: "cmd \<Rightarrow> bool" where
  "redirs_std (EXEC args) \<longleftrightarrow> True"
| "redirs_std (REDIR c w mode fd) \<longleftrightarrow> redirs_std c \<and> (fd = 0 \<or> fd = 1)"
| "redirs_std (PIPE l r) \<longleftrightarrow> redirs_std l \<and> redirs_std r"
| "redirs_std (LIST l r) \<longleftrightarrow> redirs_std l \<and> redirs_std r"
| "redirs_std (BACK c) \<longleftrightarrow> redirs_std c"

lemma cmd_ok_redirs: "cmd_ok b l es c \<Longrightarrow> redirs_std c"
  by (induction c) auto

lemma launch_runcmd:
  "redirs_std c \<Longrightarrow> launch (runcmd tr b c) (std i out err) n
    = apfst (map (\<lambda>(argv, i, out). (argv, std i out err))) (meaning b c i out n)"
proof (induction c arbitrary: i out n)
  case (REDIR c w mode fd)
  then show ?case by (auto simp: Let_def simp del: One_nat_def)
next
  case (PIPE l r)
  then show ?case
    by (simp add: launch_pipe del: runcmd.simps split: prod.split)
next
  case (LIST l r)
  then show ?case by (simp add: fork1_def split: prod.split)
qed (simp_all add: fork1_def)

section \<open>Lines that are empty for the parser\<close>

lemma scan_at_end [simp]: "scan P b es es = es"
  by (rule scan_id) simp

lemma parse_empty:
  assumes "cstring b s = []"
  shows "parsecmd b s = Parsed (EXEC [], b) s"
proof -
  have n: "char_at b s = NUL" using line_cstr [of b s] assms by (simp add: line_def)
  have p: "peek b s s toks = (s, False)" "gettoken b s s = (NUL, s, s, s)" for toks
    using n by (simp_all add: peek_def gettoken_def Let_def)
  have e: "parse (Suc (Suc n)) b s Exec s = Parsed (EXEC []) s" for n
    by (simp add: parseexec_def p pbind_def redirs_def)
  have "parse (Suc (Suc (Suc n))) b s Pipe s = Parsed (EXEC []) s" for n
    by (subst parse.simps) (simp only: routine.case parsepipe_def e p pbind_def parsed.case prod.case if_False)
  then have "parse (Suc (Suc (Suc (Suc n)))) b s Line s = Parsed (EXEC []) s" for n
    by (subst parse.simps) (simp add: parseline_def p pbind_def del: parse.simps)
  then show ?thesis using assms p by (simp add: parsecmd_def parse_fuel_def pbind_def eval_nat_numeral del: parse.simps)
qed

section \<open>Properties\<close>

text \<open>C29: the shell connects what it starts as the command line says. For every line that parses, when
  the system calls succeed, the programs that the processes of the command execute are those of the
  command, in order, each with its words; standard input and output of each are what the
  redirections and the pipes around it say, where of several redirections of one descriptor the
  leftmost on the line counts; and no other descriptor is left open in any of them, so a reader of a pipe sees its end.\<close>

theorem shell_wiring:
  assumes "parsecmd b s = Parsed (c, b') s'"
  shows "launch (child tr b s) (std i out err) n
    = apfst (map (\<lambda>(argv, i, out). (argv, std i out err))) (meaning b' c i out n)"
proof -
  have "cmd_ok b s (s + length (cstring b s)) c" using parsecmd_ends [of b s] assms by simp
  then show ?thesis using assms by (simp add: child_def launch_runcmd cmd_ok_redirs)
qed

theorem shell_wiring_witness:
  "launch (child False demo_line 0) (std (Given 0) (Given 1) (Given 2)) 0
    = ([([''cat''], std (Named ''f'' 0) (PipeW 0) (Given 2)), ([''wc'', ''-l''], std (PipeR 0) (Named ''out'' 513) (Given 2))], 1)"
  by (subst shell_wiring [OF demo_parse]) (simp add: cstring_def NUL_def)

text \<open>C40: \<open>strace run\<close> does not end. Once it was used, a line of at most eleven characters that is not
  one of the other commands of the shell starts no program at all: the shell stays in the mode,
  takes the line for another \<open>strace run\<close> line and parses what comes after its eleventh character.\<close>

theorem strace_run_sticks:
  assumes "straceRunning s" and "getcmd inp = Some (b, rest)" and "length (cstring b 0) \<le> 11" and "cstring b 11 = []"
    and "\<not> has_prefix b ''cd ''" and "straceR_commands b s = None" and "straceO_commands b s = None"
  shows "\<exists>p. shell_line b s = Some (s\<lparr>stracing := True\<rparr>, [Fork p]) \<and> launch p fds n = ([], n)"
proof -
  have "child True b 11 = UExit"
    using assms(4) by (simp add: child_def parse_empty)
  then show ?thesis using assms(1,5-7) by (simp add: shell_line_def straceR_mode_def)
qed

theorem strace_run_sticks_witness:
  "\<exists>p. shell_line (''ls'' @ [CHR 0x0A] @ replicate 97 NUL) \<lparr>stracing = True, straceRunning = True, straceFlag = False\<rparr>
      = Some (\<lparr>stracing = True, straceRunning = True, straceFlag = False\<rparr>, [Fork p]) \<and> launch p (std (Given 0) (Given 1) (Given 2)) 0 = ([], 0)"
proof -
  let ?s = "\<lparr>stracing = True, straceRunning = True, straceFlag = False\<rparr>" and ?b = "''ls'' @ [CHR 0x0A] @ replicate 97 NUL"
  have g: "getcmd (''ls'' @ [CHR 0x0A]) = Some (?b, [])"
    by code_simp
  have b: "length (cstring ?b 0) \<le> 11" "cstring ?b 11 = []" "\<not> has_prefix ?b ''cd ''" "straceR_commands ?b ?s = None" "straceO_commands ?b ?s = None"
    by code_simp+
  show ?thesis using strace_run_sticks [OF _ g b, of "std (Given 0) (Given 1) (Given 2)" 0] by simp
qed

end
