(* ===== verification/Cache.thy ===== *)
theory Cache
  imports Log
begin

text \<open>The buffer cache in front of the disk (\<open>bio.c\<close>, \<open>memide.c\<close>). The routines of \<open>Bio\<close> are shown to do, on
  the part of the state that the cache and the log see, exactly one step of a small abstract machine:
  \<open>bread\<close> takes a buffer that holds the current content of a block, \<open>bwrite\<close> stores it on the disk and
  \<open>brelse\<close> returns it. The invariant \<open>cache_ok\<close> says that no block is in two buffers and that a clean
  buffer agrees with the disk; \<open>content\<close> is the content of a block as a reader sees it.\<close>

section \<open>What the code of the cache and the log sees\<close>

record iov =
  vbufs :: "nat \<Rightarrow> buf"
  vlist :: "nat list"
  vlocked :: "slid \<Rightarrow> u32"
  vimage :: "u32 \<Rightarrow> block"
  vwrites :: "(u32 \<times> block) list"
  vsize :: u32
  vdev :: i32
  vstart :: i32
  vn :: i32
  vblk :: "nat \<Rightarrow> i32"
  vlogsize :: i32
  vout :: i32

definition io :: "'a klog_scheme \<Rightarrow> iov" where
  "io s = \<lparr>vbufs = bufs s, vlist = blist s, vlocked = (\<lambda>k. sl_locked (slks s k)), vimage = disk_image s, vwrites = disk_writes s,
     vsize = disksize s, vdev = log_dev s, vstart = log_start s, vn = lh_n s, vblk = lh_block s,
     vlogsize = log_size s, vout = log_outstanding s\<rparr>"

definition vdisk :: "iov \<Rightarrow> u32 \<Rightarrow> block" where
  "vdisk v = disk_after (vimage v) (vwrites v)"

definition set_buf :: "nat \<Rightarrow> buf \<Rightarrow> iov \<Rightarrow> iov" where
  "set_buf b x v = v\<lparr>vbufs := (vbufs v)(b := x)\<rparr>"

definition set_lock :: "slid \<Rightarrow> u32 \<Rightarrow> iov \<Rightarrow> iov" where
  "set_lock k l v = v\<lparr>vlocked := (vlocked v)(k := l)\<rparr>"

text \<open>The spin locks that the routines take are free, and a process runs.\<close>

definition io_lock :: "lockid \<Rightarrow> bool" where
  "io_lock l \<longleftrightarrow> l = BcacheLk \<or> l = PtableLk \<or> l = LogLk \<or> (\<exists>k. l = SleepLk k)"

definition io_ok :: "'a klog_scheme \<Rightarrow> bool" where
  "io_ok s \<longleftrightarrow> curproc s \<noteq> None \<and> cpu_wf (thiscpu s) \<and> (\<forall>l. io_lock l \<longrightarrow> lk_free l s)"

lemma io_lock_simps [simp]: "io_lock BcacheLk" "io_lock PtableLk" "io_lock LogLk" "io_lock (SleepLk k)"
  by (simp_all add: io_lock_def)

lemma io_okD:
  assumes "io_ok s"
  shows "\<exists>p. curproc s = Some p" "cpu_wf (thiscpu s)" "io_lock l \<Longrightarrow> lk_free l s"
  using assms by (auto simp: io_ok_def)

lemma io_ok_quiet: "quiet s t \<Longrightarrow> io_ok s \<Longrightarrow> io_ok t"
  by (simp add: io_ok_def quietD curproc_def)

lemma io_sel [simp]:
  "vbufs (io s) = bufs s" "vlist (io s) = blist s" "vlocked (io s) k = sl_locked (slks s k)" "vwrites (io s) = disk_writes s"
  "vsize (io s) = disksize s" "vimage (io s) = disk_image s" "vdev (io s) = log_dev s" "vstart (io s) = log_start s"
  "vn (io s) = lh_n s" "vblk (io s) = lh_block s" "vdisk (io s) = memdisk s"
  "vlogsize (io s) = log_size s" "vout (io s) = log_outstanding s"
  by (simp_all add: io_def vdisk_def memdisk_def)

lemma io_locked [simp]: "io (acquired l s) = io s" "io (released l s) = io s"
  by (simp_all add: io_def acquired_def released_def)

lemma io_upd_buf [simp]: "io (upd_buf b f s) = set_buf b (f (bufs s b)) (io s)"
  by (simp add: io_def set_buf_def upd_buf_def)

lemma io_upd_slk [simp]: "io (upd_slk k f s) = set_lock k (sl_locked (f (slks s k))) (io s)"
  by (simp add: io_def set_lock_def upd_slk_def fun_eq_iff)

text \<open>A routine returns \<open>a\<close> and leaves \<open>v\<close> behind.\<close>

definition runs :: "('a klog_scheme, 'b) kop \<Rightarrow> 'a klog_scheme \<Rightarrow> 'b \<Rightarrow> iov \<Rightarrow> bool" where
  "runs m s a v \<longleftrightarrow> (\<exists>t. m s = Done a t \<and> io_ok t \<and> io t = v)"

lemma runsI: "m s = Done a t \<Longrightarrow> io_ok t \<Longrightarrow> io t = v \<Longrightarrow> runs m s a v"
  by (auto simp: runs_def)

lemma runs_bindk:
  assumes "runs m s a v" and "\<And>t. io_ok t \<Longrightarrow> io t = v \<Longrightarrow> runs (f a) t b w"
  shows "runs (bindk m f) s b w"
  using assms by (auto simp: runs_def bindk_Done)

lemma runs_seqk:
  assumes "runs m s a v" and "\<And>t. io_ok t \<Longrightarrow> io t = v \<Longrightarrow> runs n t b w"
  shows "runs (seqk m n) s b w"
  using assms by (auto simp: runs_def seqk_Done)

lemma runs_basic [simp]:
  "io_ok s \<Longrightarrow> runs (retk a) s a' v \<longleftrightarrow> a' = a \<and> v = io s"
  by (auto simp: runs_def retk_def)

lemma runs_getk [simp]: "runs (bindk (getk g) f) s b w \<longleftrightarrow> runs (f (g s)) s b w"
  by (simp add: runs_def)

lemma runs_modk: "io_ok (f s) \<Longrightarrow> io (f s) = v \<Longrightarrow> runs (modk f) s () v"
  by (simp add: runs_def)

lemma io_eqD:
  assumes "io t = v"
  shows "bufs t = vbufs v" "blist t = vlist v" "sl_locked (slks t k) = vlocked v k" "disk_writes t = vwrites v" "disksize t = vsize v"
    "memdisk t = vdisk v" "log_dev t = vdev v" "log_start t = vstart v" "lh_n t = vn v" "lh_block t = vblk v"
    "log_size t = vlogsize v" "log_outstanding t = vout v"
  using assms by auto

lemma io_ok_upd_buf [simp]: "io_ok (upd_buf b f s) = io_ok s"
  by (simp add: io_ok_def lk_free_def curproc_def upd_buf_def)

lemma io_ok_writes [simp]: "io_ok (s\<lparr>disk_writes := w\<rparr>) = io_ok s"
  by (simp add: io_ok_def lk_free_def curproc_def)

lemma io_blist [simp]: "io (s\<lparr>blist := l\<rparr>) = (io s)\<lparr>vlist := l\<rparr>"
  by (simp add: io_def)

lemma io_writes [simp]: "io (s\<lparr>disk_writes := w\<rparr>) = (io s)\<lparr>vwrites := w\<rparr>"
  by (simp add: io_def)

text \<open>A critical section that changes only what \<open>io\<close> shows.\<close>

lemma section_facts:
  fixes s t :: "'a klog_scheme"
  assumes "io_ok s" and "io_lock l" and "cur_cpu t = cur_cpu s" and "cpus t = cpus (acquired l s)" and "slocks t = slocks (acquired l s)"
  shows "holding l t" "cpu_locked (thiscpu t)" "quiet s (released l t)" "io_ok (released l t)"
proof -
  note o = io_okD(2) [OF assms(1)] io_okD(3) [OF assms(1,2)]
  show "holding l t" "cpu_locked (thiscpu t)"
    using holding_acquired [of l s] assms(3-5) o by (simp_all add: holding_def)
  show q: "quiet s (released l t)" using assms(3-5) o by (intro quiet_section)
  show "io_ok (released l t)" by (rule io_ok_quiet [OF q assms(1)])
qed

lemma section_release:
  fixes s t :: "'a klog_scheme"
  assumes "io_ok s" and "io_lock l" and "cur_cpu t = cur_cpu s" and "cpus t = cpus (acquired l s)" and "slocks t = slocks (acquired l s)"
  shows "release l t = Done () (released l t)" "seqk (release l) n t = n (released l t)"
  using section_facts [OF assms] by (simp_all add: release_Done seqk_release)

lemma section_enter: "io_ok s \<Longrightarrow> io_lock l \<Longrightarrow> seqk (acquire l) n s = n (acquired l s)"
  by (simp add: seqk_acquire io_okD)

lemma mach_upd [simp]:
  "cur_cpu (upd_buf b f s) = cur_cpu s" "cpus (upd_buf b f s) = cpus s" "slocks (upd_buf b f s) = slocks s"
  "cur_cpu (upd_slk k g s) = cur_cpu s" "cpus (upd_slk k g s) = cpus s" "slocks (upd_slk k g s) = slocks s"
  by (simp_all add: upd_buf_def upd_slk_def)

lemma kbuf_locked [simp]:
  "blist (acquired l s) = blist s" "blist (released l s) = blist s" "disksize (acquired l s) = disksize s"
  "disksize (released l s) = disksize s" "memdisk (acquired l s) = memdisk s" "memdisk (released l s) = memdisk s"
  by (simp_all add: acquired_def released_def memdisk_def)

section \<open>Sleep locks\<close>

lemma acquiresleep_runs:
  assumes "io_ok s" and "sl_locked (slks s k) = 0"
  shows "runs (acquiresleep k) s () (set_lock k 1 (io s))"
proof -
  obtain p where p: "curproc s = Some p" using io_okD(1) [OF assms(1)] by blast
  let ?t = "upd_slk k (\<lambda>l. l\<lparr>sl_locked := 1, sl_pid := p_pid (ptable s p)\<rparr>) (acquired (SleepLk k) s)"
  have "acquiresleep k s = Done () (released (SleepLk k) ?t)"
    using p assms(2) section_release(1) [OF assms(1), of "SleepLk k" ?t]
    by (simp add: acquiresleep_def section_enter [OF assms(1)] acquiresleep_loop_def withproc_Some)
  moreover have "io_ok (released (SleepLk k) ?t)"
    using section_facts(4) [OF assms(1), of "SleepLk k" ?t] by simp
  ultimately show ?thesis by (rule runsI) simp
qed

lemma releasesleep_runs:
  assumes "io_ok s"
  shows "runs (releasesleep k) s () (set_lock k 0 (io s))"
proof -
  let ?t = "upd_slk k (\<lambda>l. l\<lparr>sl_locked := 0, sl_pid := 0\<rparr>) (acquired (SleepLk k) s)"
  let ?w = "(acquired PtableLk ?t)\<lparr>ptable := on_slots {..<NPROC} (wake_proc (Some (SleepLkCh k))) (ptable ?t)\<rparr>"
  let ?u = "released PtableLk ?w"
  note f = section_facts [OF assms, of "SleepLk k" ?t]
  have pt: "lk_free PtableLk ?t" "cpu_wf (thiscpu ?t)"
    using io_okD(3) [OF assms, of PtableLk] f(2) cpu_wf_locked by (simp_all add: lk_free_def)
  have w: "wakeup (SleepLkCh k) ?t = Done () ?u" by (rule wakeup_eq [OF pt])
  have q: "quiet ?t ?u" using pt by (intro quiet_section) simp_all
  have h: "holding (SleepLk k) ?u" "cpu_locked (thiscpu ?u)"
    using quiet_holding [OF q, of "SleepLk k"] f(1,2) by simp_all
  have "releasesleep k s = Done () (released (SleepLk k) ?u)"
    by (simp add: releasesleep_def section_enter [OF assms] seqk_Done [where m = "wakeup (SleepLkCh k)" and s = ?t, OF w] release_Done [OF h])
  moreover have "quiet s (released (SleepLk k) ?u)"
    using quiet_trans [OF f(3) quiet_released [OF q f(2)]] by simp
  then have "io_ok (released (SleepLk k) ?u)" by (rule io_ok_quiet [OF _ assms])
  moreover have "io (released (SleepLk k) ?u) = set_lock k 0 (io s)"
    by (simp add: io_def set_lock_def released_def acquired_def upd_slk_def fun_eq_iff)
  ultimately show ?thesis by (rule runsI)
qed

lemma holdingsleep_runs:
  assumes "io_ok s"
  shows "runs (holdingsleep k) s (sl_locked (slks s k)) (io s)"
proof -
  let ?a = "acquired (SleepLk k) s"
  have "holdingsleep k s = Done (sl_locked (slks s k)) (released (SleepLk k) ?a)"
    using section_facts(1,2) [OF assms, of "SleepLk k" ?a]
    by (simp add: holdingsleep_def section_enter [OF assms] seqk_release retk_def)
  moreover have "io_ok (released (SleepLk k) ?a)"
    using section_facts(4) [OF assms, of "SleepLk k" ?a] by simp
  ultimately show ?thesis by (rule runsI) simp
qed

section \<open>Transfers\<close>

lemma iderw_load:
  assumes "io_ok s" and "io s = v" and "vlocked v (BufSl b) \<noteq> 0" and "b_flags (vbufs v b) = 0" and "b_dev (vbufs v b) = 1"
    and "b_blockno (vbufs v b) < vsize v"
  shows "runs (iderw b) s () (set_buf b ((vbufs v b)\<lparr>b_data := vdisk v (b_blockno (vbufs v b)), b_flags := 2\<rparr>) v)"
  unfolding iderw_def
proof (rule runs_bindk [OF holdingsleep_runs [OF assms(1)]], goal_cases)
  case (1 t)
  then have "io t = v" using assms(2) by simp
  note e = io_eqD [OF this] and f = io_eqD(3) [OF assms(2)]
  show ?case
    using assms(3-6) 1(1) by (auto simp: e f B_VALID_def B_DIRTY_def assms(2) \<open>io t = v\<close> intro!: runs_modk)
qed

lemma iderw_store:
  assumes "io_ok s" and "io s = v" and "vlocked v (BufSl b) \<noteq> 0" and "b_flags (vbufs v b) = 6" and "b_dev (vbufs v b) = 1"
    and "b_blockno (vbufs v b) < vsize v"
  shows "runs (iderw b) s () ((set_buf b ((vbufs v b)\<lparr>b_flags := 2\<rparr>) v)\<lparr>vwrites := vwrites v @ [(b_blockno (vbufs v b), b_data (vbufs v b))]\<rparr>)"
  unfolding iderw_def
proof (rule runs_bindk [OF holdingsleep_runs [OF assms(1)]], goal_cases)
  case (1 t)
  then have "io t = v" using assms(2) by simp
  note e = io_eqD [OF this] and f = io_eqD(3) [OF assms(2)]
  show ?case
    using assms(3-6) 1(1) by (auto simp: e f B_VALID_def B_DIRTY_def assms(2) \<open>io t = v\<close> intro!: runs_modk)
qed

lemma bwrite_runs:
  assumes "io_ok s" and "io s = v" and "vlocked v (BufSl b) \<noteq> 0" and "b_flags (vbufs v b) \<in> {2, 6}" and "b_dev (vbufs v b) = 1"
    and "b_blockno (vbufs v b) < vsize v"
  shows "runs (bwrite b) s () ((set_buf b ((vbufs v b)\<lparr>b_flags := 2\<rparr>) v)\<lparr>vwrites := vwrites v @ [(b_blockno (vbufs v b), b_data (vbufs v b))]\<rparr>)"
  unfolding bwrite_def
proof (rule runs_bindk [OF holdingsleep_runs [OF assms(1)]], goal_cases)
  case (1 t)
  then have t: "io t = v" using assms(2) by simp
  note e = io_eqD [OF t] and f = io_eqD(3) [OF assms(2)]
  let ?v = "set_buf b ((vbufs v b)\<lparr>b_flags := 6\<rparr>) v"
  have m: "runs (modk (upd_buf b (\<lambda>x. x\<lparr>b_flags := b_flags x OR B_DIRTY\<rparr>))) t () ?v"
    using assms(4) 1(1) by (intro runs_modk) (auto simp: e t B_DIRTY_def)
  have "runs (seqk (modk (upd_buf b (\<lambda>x. x\<lparr>b_flags := b_flags x OR B_DIRTY\<rparr>))) (iderw b)) t ()
    ((set_buf b ((vbufs v b)\<lparr>b_flags := 2\<rparr>) v)\<lparr>vwrites := vwrites v @ [(b_blockno (vbufs v b), b_data (vbufs v b))]\<rparr>)"
  proof (rule runs_seqk [OF m])
    fix u :: "'a klog_scheme"
    assume "io_ok u" "io u = ?v"
    from iderw_store [OF this, of b] show "runs (iderw b) u ()
      ((set_buf b ((vbufs v b)\<lparr>b_flags := 2\<rparr>) v)\<lparr>vwrites := vwrites v @ [(b_blockno (vbufs v b), b_data (vbufs v b))]\<rparr>)"
      using assms(3-6) by (simp add: set_buf_def)
  qed
  then show ?case using assms(3) by (simp add: f)
qed

section \<open>Taking and returning buffers\<close>

text \<open>The buffer of block \<open>x\<close> of the disk.\<close>

definition bmatch :: "iov \<Rightarrow> u32 \<Rightarrow> nat \<Rightarrow> bool" where
  "bmatch v x b \<longleftrightarrow> b_dev (vbufs v b) = 1 \<and> b_blockno (vbufs v b) = x"

definition spare :: "iov \<Rightarrow> nat \<Rightarrow> bool" where
  "spare v b \<longleftrightarrow> b_refcnt (vbufs v b) = 0 \<and> b_flags (vbufs v b) AND B_DIRTY = 0"

lemma bget_hit:
  assumes "io_ok s" and "io s = v" and "find (bmatch v x) (vlist v) = Some b" and "vlocked v (BufSl b) = 0"
  shows "runs (bget 1 x) s b (set_lock (BufSl b) 1 (set_buf b ((vbufs v b)\<lparr>b_refcnt := b_refcnt (vbufs v b) + 1\<rparr>) v))"
proof -
  let ?t = "upd_buf b (\<lambda>x. x\<lparr>b_refcnt := b_refcnt x + 1\<rparr>) (acquired BcacheLk s)"
  note e = io_eqD [OF assms(2)]
  have f: "find (\<lambda>b. b_dev (bufs s b) = 1 \<and> b_blockno (bufs s b) = x) (blist s) = Some b"
    using assms(3) by (simp add: e bmatch_def [abs_def])
  note F = section_facts(4) [OF assms(1), of BcacheLk ?t] section_release(2) [OF assms(1), of BcacheLk ?t]
  have "bget 1 x s = seqk (acquiresleep (BufSl b)) (retk b) (released BcacheLk ?t)"
    using f by (simp add: bget_def section_enter [OF assms(1)] F(2))
  moreover have "runs (seqk (acquiresleep (BufSl b)) (retk b)) (released BcacheLk ?t) b
    (set_lock (BufSl b) 1 (set_buf b ((vbufs v b)\<lparr>b_refcnt := b_refcnt (vbufs v b) + 1\<rparr>) v))"
  proof (rule runs_seqk [OF acquiresleep_runs])
    show "io_ok (released BcacheLk ?t)" using F(1) by simp
    show "sl_locked (slks (released BcacheLk ?t) (BufSl b)) = 0" using assms(4) by (simp add: e upd_buf_def)
  qed (simp add: e assms(2))
  ultimately show ?thesis by (simp add: runs_def)
qed

lemma bget_miss:
  assumes "io_ok s" and "io s = v" and "find (bmatch v x) (vlist v) = None" and "find (spare v) (rev (vlist v)) = Some b"
    and "vlocked v (BufSl b) = 0"
  shows "runs (bget 1 x) s b (set_lock (BufSl b) 1 (set_buf b ((vbufs v b)\<lparr>b_dev := 1, b_blockno := x, b_flags := 0, b_refcnt := 1\<rparr>) v))"
proof -
  let ?t = "upd_buf b (\<lambda>y. y\<lparr>b_dev := 1, b_blockno := x, b_flags := 0, b_refcnt := 1\<rparr>) (acquired BcacheLk s)"
  note e = io_eqD [OF assms(2)]
  have f: "find (\<lambda>b. b_dev (bufs s b) = 1 \<and> b_blockno (bufs s b) = x) (blist s) = None"
    "find (\<lambda>b. b_refcnt (bufs s b) = 0 \<and> b_flags (bufs s b) AND B_DIRTY = 0) (rev (blist s)) = Some b"
    using assms(3,4) by (simp_all add: e bmatch_def [abs_def] spare_def [abs_def])
  note F = section_facts(4) [OF assms(1), of BcacheLk ?t] section_release(2) [OF assms(1), of BcacheLk ?t]
  have "bget 1 x s = seqk (acquiresleep (BufSl b)) (retk b) (released BcacheLk ?t)"
    using f by (simp add: bget_def section_enter [OF assms(1)] F(2))
  moreover have "runs (seqk (acquiresleep (BufSl b)) (retk b)) (released BcacheLk ?t) b
    (set_lock (BufSl b) 1 (set_buf b ((vbufs v b)\<lparr>b_dev := 1, b_blockno := x, b_flags := 0, b_refcnt := 1\<rparr>) v))"
  proof (rule runs_seqk [OF acquiresleep_runs])
    show "io_ok (released BcacheLk ?t)" using F(1) by simp
    show "sl_locked (slks (released BcacheLk ?t) (BufSl b)) = 0" using assms(5) by (simp add: e upd_buf_def)
  qed (simp add: e assms(2))
  ultimately show ?thesis by (simp add: runs_def)
qed

text \<open>\<open>brelse\<close> of a buffer that only the caller uses moves it to the front of the list.\<close>

lemma brelse_runs:
  assumes "io_ok s" and "io s = v" and "vlocked v (BufSl b) \<noteq> 0" and "b_refcnt (vbufs v b) = 1"
  shows "runs (brelse b) s () ((set_lock (BufSl b) 0 (set_buf b ((vbufs v b)\<lparr>b_refcnt := 0\<rparr>) v))\<lparr>vlist := b # remove1 b (vlist v)\<rparr>)"
  unfolding brelse_def
proof (rule runs_bindk [OF holdingsleep_runs [OF assms(1)]], goal_cases)
  case (1 t)
  then have t: "io t = v" using assms(2) by simp
  let ?w = "(set_lock (BufSl b) 0 (set_buf b ((vbufs v b)\<lparr>b_refcnt := 0\<rparr>) v))\<lparr>vlist := b # remove1 b (vlist v)\<rparr>"
  have "runs (seqk (releasesleep (BufSl b)) (seqk (acquire BcacheLk)
       (seqk (modk (upd_buf b (\<lambda>x. x\<lparr>b_refcnt := b_refcnt x - 1\<rparr>)))
         (seqk (modk (\<lambda>s. if b_refcnt (bufs s b) = 0 then s\<lparr>blist := b # remove1 b (blist s)\<rparr> else s))
           (release BcacheLk))))) t () ?w"
  proof (rule runs_seqk [OF releasesleep_runs [OF 1(1)]])
    fix u :: "'a klog_scheme"
    assume u: "io_ok u" "io u = set_lock (BufSl b) 0 (io t)"
    let ?x = "(upd_buf b (\<lambda>x. x\<lparr>b_refcnt := b_refcnt x - 1\<rparr>) (acquired BcacheLk u))\<lparr>blist := b # remove1 b (blist u)\<rparr>"
    have e: "bufs u = vbufs v" "blist u = vlist v"
      using io_eqD(1,2) [OF u(2)] t by (simp_all add: set_lock_def)
    note F = section_facts(4) [OF u(1), of BcacheLk ?x] section_release(1) [OF u(1), of BcacheLk ?x]
    have r: "seqk (acquire BcacheLk) (seqk (modk (upd_buf b (\<lambda>x. x\<lparr>b_refcnt := b_refcnt x - 1\<rparr>)))
         (seqk (modk (\<lambda>s. if b_refcnt (bufs s b) = 0 then s\<lparr>blist := b # remove1 b (blist s)\<rparr> else s))
           (release BcacheLk))) u = Done () (released BcacheLk ?x)"
      using F(2) assms(4) by (simp add: section_enter [OF u(1)] e upd_buf_def)
    have i: "io (released BcacheLk ?x) = ?w"
      by (rule iov.equality) (simp_all add: u(2) t e assms(4) set_lock_def set_buf_def)
    have ok: "io_ok (released BcacheLk ?x)" using F(1) by simp
    show "runs (seqk (acquire BcacheLk) (seqk (modk (upd_buf b (\<lambda>x. x\<lparr>b_refcnt := b_refcnt x - 1\<rparr>)))
         (seqk (modk (\<lambda>s. if b_refcnt (bufs s b) = 0 then s\<lparr>blist := b # remove1 b (blist s)\<rparr> else s))
           (release BcacheLk)))) u () ?w"
      unfolding runs_def using r ok i by blast
  qed
  then show ?case using assms(3) io_eqD(3) [OF assms(2)] by simp
qed

section \<open>Coherence of the cache\<close>

text \<open>Each block of the disk is in at most one buffer; a valid buffer that is not dirty holds what is on
  the disk.\<close>

definition cache_ok :: "iov \<Rightarrow> bool" where
  "cache_ok v \<longleftrightarrow> distinct (vlist v) \<and> set (vlist v) = {..<NBUF}
     \<and> (\<forall>b<NBUF. b_flags (vbufs v b) \<in> {0, 2, 6} \<and> (b_flags (vbufs v b) \<noteq> 0 \<longrightarrow> b_dev (vbufs v b) = 1)
         \<and> (b_flags (vbufs v b) = 2 \<longrightarrow> b_data (vbufs v b) = vdisk v (b_blockno (vbufs v b))))
     \<and> (\<forall>x. \<forall>b<NBUF. \<forall>c<NBUF. bmatch v x b \<longrightarrow> bmatch v x c \<longrightarrow> b = c)"

text \<open>The buffer that holds block \<open>x\<close>, and the current content of the block: what a valid buffer holds,
  or else what is on the disk.\<close>

definition holds :: "iov \<Rightarrow> u32 \<Rightarrow> nat \<Rightarrow> bool" where
  "holds v x b \<longleftrightarrow> b < NBUF \<and> bmatch v x b \<and> b_flags (vbufs v b) \<noteq> 0"

definition content :: "iov \<Rightarrow> u32 \<Rightarrow> block" where
  "content v x = (case find (holds v x) [0..<NBUF] of Some b \<Rightarrow> b_data (vbufs v b) | None \<Rightarrow> vdisk v x)"

text \<open>The buffers of \<open>h\<close> are in use by the running process, the others by nobody.\<close>

definition in_use :: "nat set \<Rightarrow> iov \<Rightarrow> bool" where
  "in_use h v \<longleftrightarrow> (\<forall>b<NBUF. b_refcnt (vbufs v b) = (if b \<in> h then 1 else 0) \<and> vlocked v (BufSl b) = (if b \<in> h then 1 else 0))"

definition clean :: "iov \<Rightarrow> nat set" where
  "clean v = {b. b < NBUF \<and> b_flags (vbufs v b) \<noteq> 6}"

lemma cache_okD:
  assumes "cache_ok v"
  shows "distinct (vlist v)" "set (vlist v) = {..<NBUF}" "b < NBUF \<Longrightarrow> b_flags (vbufs v b) \<in> {0, 2, 6}"
    "b < NBUF \<Longrightarrow> b_flags (vbufs v b) \<noteq> 0 \<Longrightarrow> b_dev (vbufs v b) = 1"
    "b < NBUF \<Longrightarrow> b_flags (vbufs v b) = 2 \<Longrightarrow> b_data (vbufs v b) = vdisk v (b_blockno (vbufs v b))"
    "b < NBUF \<Longrightarrow> c < NBUF \<Longrightarrow> bmatch v x b \<Longrightarrow> bmatch v x c \<Longrightarrow> b = c"
  using assms unfolding cache_ok_def by blast+

lemma find_holds: "find (holds v x) [0..<NBUF] = None \<longleftrightarrow> (\<forall>b. \<not> holds v x b)"
  by (auto simp: find_None_iff holds_def)

lemma content_hit:
  assumes "cache_ok v" and "holds v x b"
  shows "content v x = b_data (vbufs v b)"
proof -
  obtain c where c: "find (holds v x) [0..<NBUF] = Some c"
    using assms(2) find_holds [of v x] by (cases "find (holds v x) [0..<NBUF]") auto
  then have "holds v x c" by (metis find_Some_iff)
  then have "c = b" using cache_okD(6) [OF assms(1)] assms(2) by (auto simp: holds_def)
  then show ?thesis using c by (simp add: content_def)
qed

lemma content_miss: "(\<And>b. \<not> holds v x b) \<Longrightarrow> content v x = vdisk v x"
  using find_holds [of v x] by (simp add: content_def)

lemma content_cong:
  assumes "cache_ok v" and "cache_ok w" and "\<And>b. holds w x b = holds v x b" and "\<And>b. holds v x b \<Longrightarrow> b_data (vbufs w b) = b_data (vbufs v b)"
    and "vdisk w x = vdisk v x"
  shows "content w x = content v x"
proof (cases "\<exists>b. holds v x b")
  case True
  then show ?thesis using content_hit assms by metis
next
  case False
  then show ?thesis using content_miss assms(3,5) by metis
qed

text \<open>Buffer \<open>b\<close> is taken for block \<open>x\<close> with the content \<open>y\<close>.\<close>

definition taken :: "nat \<Rightarrow> buf \<Rightarrow> iov \<Rightarrow> iov" where
  "taken b y v = set_lock (BufSl b) 1 (set_buf b y v)"

definition may_take :: "nat set \<Rightarrow> u32 \<Rightarrow> nat \<Rightarrow> buf \<Rightarrow> iov \<Rightarrow> bool" where
  "may_take h x b y v \<longleftrightarrow> b < NBUF \<and> b \<notin> h \<and> b_dev y = 1 \<and> b_blockno y = x \<and> b_flags y \<in> {2, 6} \<and> b_refcnt y = 1 \<and> b_data y = content v x
     \<and> (b_flags y = 2 \<longrightarrow> b_data y = vdisk v x) \<and> (\<forall>c<NBUF. c \<noteq> b \<longrightarrow> \<not> bmatch v x c)
     \<and> (b_flags y = 6 \<longleftrightarrow> b_flags (vbufs v b) = 6) \<and> (bmatch v x b \<or> b_flags (vbufs v b) \<noteq> 6)"

lemma taken_sel [simp]:
  "vbufs (taken b y v) = (vbufs v)(b := y)" "vlist (taken b y v) = vlist v" "vlocked (taken b y v) = (vlocked v)(BufSl b := 1)"
  "vwrites (taken b y v) = vwrites v" "vdisk (taken b y v) = vdisk v" "vsize (taken b y v) = vsize v" "vdev (taken b y v) = vdev v"
  "vstart (taken b y v) = vstart v" "vn (taken b y v) = vn v" "vblk (taken b y v) = vblk v" "vimage (taken b y v) = vimage v"
  "vlogsize (taken b y v) = vlogsize v" "vout (taken b y v) = vout v"
  by (simp_all add: taken_def set_lock_def set_buf_def vdisk_def)

lemma may_takeD:
  assumes "may_take h x b y v"
  shows "b < NBUF" "b \<notin> h" "b_dev y = 1" "b_blockno y = x" "c < NBUF \<Longrightarrow> c \<noteq> b \<Longrightarrow> \<not> bmatch v x c"
    "b_flags y = 6 \<longleftrightarrow> b_flags (vbufs v b) = 6" "bmatch v x b \<or> b_flags (vbufs v b) \<noteq> 6"
    "b_refcnt y = 1" "b_data y = content v x"
  using assms by (simp_all add: may_take_def)

lemma may_take_flags:
  assumes "may_take h x b y v"
  shows "b_flags y = 2 \<or> b_flags y = 6" "b_flags y = 2 \<Longrightarrow> b_data y = vdisk v x"
proof -
  have "b_flags y \<in> {2, 6}" using assms unfolding may_take_def by (elim conjE)
  then show "b_flags y = 2 \<or> b_flags y = 6" by blast
  show "b_data y = vdisk v x" if "b_flags y = 2" using assms that unfolding may_take_def by (elim conjE) (simp only: simp_thms)
qed

lemma taken_bmatch:
  assumes "may_take h x b y v"
  shows "bmatch (taken b y v) z c = (if c = b then z = x else bmatch v z c)"
  using may_takeD(3,4) [OF assms] by (auto simp: bmatch_def)

lemma taken_coherent:
  assumes "cache_ok v" and "may_take h x b y v"
  shows "cache_ok (taken b y v)"
  unfolding cache_ok_def
proof (intro conjI allI impI)
  note only = may_takeD(5) [OF assms(2)] and mt = taken_bmatch [OF assms(2)]
  fix z c d assume c: "c < NBUF" "d < NBUF" "bmatch (taken b y v) z c" "bmatch (taken b y v) z d"
  show "c = d"
  proof (rule ccontr)
    assume "c \<noteq> d"
    then show False
      using c(3,4) only [OF c(1)] only [OF c(2)] cache_okD(6) [OF assms(1) c(1,2), of z] unfolding mt by (simp split: if_splits)
  qed
next
  fix c assume c: "c < NBUF"
  show "b_flags (vbufs (taken b y v) c) \<in> {0, 2, 6}"
    using may_take_flags(1) [OF assms(2)] cache_okD(3) [OF assms(1) c] by simp
  show "b_flags (vbufs (taken b y v) c) \<noteq> 0 \<Longrightarrow> b_dev (vbufs (taken b y v) c) = 1"
    using may_takeD(3) [OF assms(2)] cache_okD(4) [OF assms(1) c] by (simp split: if_splits)
  show "b_flags (vbufs (taken b y v) c) = 2 \<Longrightarrow> b_data (vbufs (taken b y v) c) = vdisk (taken b y v) (b_blockno (vbufs (taken b y v) c))"
    using may_takeD(4) [OF assms(2)] may_take_flags(2) [OF assms(2)] cache_okD(5) [OF assms(1) c] by (simp split: if_splits)
qed (simp_all add: cache_okD(1,2) [OF assms(1)])

text \<open>A block that leaves the cache is on the disk.\<close>

lemma taken_other:
  assumes "cache_ok v" and "may_take h x b y v" and "z \<noteq> x"
  shows "content (taken b y v) z = content v z"
proof (cases "holds v z b")
  note b = may_takeD(1) [OF assms(2)] and mt = taken_bmatch [OF assms(2)]
  case True
  then have z: "bmatch v z b" "b_flags (vbufs v b) \<noteq> 0" by (simp_all add: holds_def)
  then have "\<not> bmatch v x b" using assms(3) by (auto simp: bmatch_def)
  then have f2: "b_flags (vbufs v b) = 2" using may_takeD(7) [OF assms(2)] z(2) cache_okD(3) [OF assms(1) b] by blast
  have "content v z = b_data (vbufs v b)" by (rule content_hit [OF assms(1) True])
  also have "\<dots> = vdisk v (b_blockno (vbufs v b))" by (rule cache_okD(5) [OF assms(1) b f2])
  also have "b_blockno (vbufs v b) = z" using z(1) by (simp add: bmatch_def)
  finally have "content v z = vdisk v z" .
  moreover have "\<not> holds (taken b y v) z c" for c
  proof
    assume "holds (taken b y v) z c"
    then have "c < NBUF" "if c = b then z = x else bmatch v z c" unfolding holds_def mt by blast+
    then show False using assms(3) z(1) cache_okD(6) [OF assms(1) b, of c z] by (cases "c = b") simp_all
  qed
  ultimately show ?thesis using content_miss [of "taken b y v" z] by simp
next
  case False
  then have "holds (taken b y v) z c = holds v z c" for c
    using assms(3) unfolding holds_def taken_bmatch [OF assms(2)] by auto
  moreover have "c \<noteq> b" if "holds v z c" for c using that False by auto
  ultimately show ?thesis by (intro content_cong [OF assms(1) taken_coherent [OF assms(1,2)]]) auto
qed

lemma taken_ok:
  assumes "cache_ok v" and "in_use h v" and "may_take h x b y v"
  shows "cache_ok (taken b y v)" "in_use (insert b h) (taken b y v)" "content (taken b y v) = content v"
    "clean (taken b y v) = clean v" "holds (taken b y v) x b"
proof -
  show ok: "cache_ok (taken b y v)" by (rule taken_coherent [OF assms(1,3)])
  show "in_use (insert b h) (taken b y v)" using assms(2) may_takeD(8) [OF assms(3)] by (simp add: in_use_def)
  show "clean (taken b y v) = clean v" using may_takeD(6) [OF assms(3)] by (auto simp: clean_def)
  show hb: "holds (taken b y v) x b"
    unfolding holds_def taken_bmatch [OF assms(3)] using may_takeD(1) [OF assms(3)] may_take_flags(1) [OF assms(3)] by auto
  have "content (taken b y v) x = content v x" unfolding content_hit [OF ok hb] using may_takeD(9) [OF assms(3)] by simp
  then show "content (taken b y v) = content v" using taken_other [OF assms(1,3)] by (metis ext)
qed

text \<open>Writing \<open>d\<close> to the block of a buffer.\<close>

definition stored :: "nat \<Rightarrow> block \<Rightarrow> iov \<Rightarrow> iov" where
  "stored b d v = (set_buf b ((vbufs v b)\<lparr>b_data := d, b_flags := 2\<rparr>) v)\<lparr>vwrites := vwrites v @ [(b_blockno (vbufs v b), d)]\<rparr>"

lemma stored_sel [simp]:
  "vbufs (stored b d v) = (vbufs v)(b := (vbufs v b)\<lparr>b_data := d, b_flags := 2\<rparr>)" "vlist (stored b d v) = vlist v"
  "vlocked (stored b d v) = vlocked v" "vwrites (stored b d v) = vwrites v @ [(b_blockno (vbufs v b), d)]"
  "vdisk (stored b d v) = (vdisk v)(b_blockno (vbufs v b) := d)" "vsize (stored b d v) = vsize v" "vdev (stored b d v) = vdev v"
  "vstart (stored b d v) = vstart v" "vn (stored b d v) = vn v" "vblk (stored b d v) = vblk v" "vimage (stored b d v) = vimage v"
  "vlogsize (stored b d v) = vlogsize v" "vout (stored b d v) = vout v"
  by (simp_all add: stored_def set_buf_def vdisk_def disk_after_def)

lemma stored_ok:
  assumes "cache_ok v" and "in_use h v" and "holds v x b"
  shows "cache_ok (stored b d v)" "in_use h (stored b d v)" "content (stored b d v) = (content v)(x := d)"
    "clean (stored b d v) = insert b (clean v)" "holds (stored b d v) z c = holds v z c"
proof -
  have b: "b < NBUF" "b_dev (vbufs v b) = 1" "b_blockno (vbufs v b) = x" "bmatch v x b"
    using assms(3) by (auto simp: holds_def bmatch_def)
  have mt: "bmatch (stored b d v) z c = bmatch v z c" for z c
    using b by (auto simp: bmatch_def)
  have other: "b_blockno (vbufs v c) \<noteq> x" if "c < NBUF" "c \<noteq> b" "b_dev (vbufs v c) = 1" for c
    using cache_okD(6) [OF assms(1) that(1) b(1), of x] that b(4) by (auto simp: bmatch_def)
  show ok: "cache_ok (stored b d v)"
    unfolding cache_ok_def
  proof (intro conjI allI impI)
    fix c assume c: "c < NBUF" "b_flags (vbufs (stored b d v) c) = 2"
    then show "b_data (vbufs (stored b d v) c) = vdisk (stored b d v) (b_blockno (vbufs (stored b d v) c))"
      using b other [of c] cache_okD(4,5) [OF assms(1) c(1)] by (auto split: if_splits)
  next
    fix c assume c: "c < NBUF"
    show "b_flags (vbufs (stored b d v) c) \<in> {0, 2, 6}"
      using cache_okD(3) [OF assms(1) c] by auto
    show "b_flags (vbufs (stored b d v) c) \<noteq> 0 \<Longrightarrow> b_dev (vbufs (stored b d v) c) = 1"
      using b cache_okD(4) [OF assms(1) c] by (auto split: if_splits)
  next
    fix z c e assume c: "c < NBUF" "e < NBUF" "bmatch (stored b d v) z c" "bmatch (stored b d v) z e"
    then show "c = e" using mt cache_okD(6) [OF assms(1) c(1,2), of z] by simp
  qed (simp_all add: cache_okD(1,2) [OF assms(1)])
  show "in_use h (stored b d v)" using assms(2) by (auto simp: in_use_def)
  show "clean (stored b d v) = insert b (clean v)" using b by (auto simp: clean_def)
  show hz: "holds (stored b d v) z c = holds v z c" for z c using assms(3) mt by (auto simp: holds_def)
  show "content (stored b d v) = (content v)(x := d)"
  proof
    fix z
    show "content (stored b d v) z = ((content v)(x := d)) z"
    proof (cases "z = x")
      case True
      then show ?thesis using content_hit [OF ok, of x b] hz assms(3) by simp
    next
      case False
      then show ?thesis
        using b hz by (simp, intro content_cong [OF assms(1) ok]) (auto simp: holds_def bmatch_def)
    qed
  qed
qed

text \<open>Returning buffer \<open>b\<close>.\<close>

definition returned :: "nat \<Rightarrow> iov \<Rightarrow> iov" where
  "returned b v = (set_lock (BufSl b) 0 (set_buf b ((vbufs v b)\<lparr>b_refcnt := 0\<rparr>) v))\<lparr>vlist := b # remove1 b (vlist v)\<rparr>"

lemma returned_sel [simp]:
  "vbufs (returned b v) = (vbufs v)(b := (vbufs v b)\<lparr>b_refcnt := 0\<rparr>)" "vlist (returned b v) = b # remove1 b (vlist v)"
  "vlocked (returned b v) = (vlocked v)(BufSl b := 0)" "vwrites (returned b v) = vwrites v" "vdisk (returned b v) = vdisk v"
  "vsize (returned b v) = vsize v" "vdev (returned b v) = vdev v" "vimage (returned b v) = vimage v"
  "vlogsize (returned b v) = vlogsize v" "vout (returned b v) = vout v"
  "vstart (returned b v) = vstart v" "vn (returned b v) = vn v" "vblk (returned b v) = vblk v"
  by (simp_all add: returned_def set_lock_def set_buf_def vdisk_def)

lemma returned_ok:
  assumes "cache_ok v" and "in_use h v" and "b \<in> h" and "b < NBUF"
  shows "cache_ok (returned b v)" "in_use (h - {b}) (returned b v)" "content (returned b v) = content v"
    "clean (returned b v) = clean v" "holds (returned b v) z c = holds v z c"
proof -
  have mt: "bmatch (returned b v) z c = bmatch v z c" for z c by (auto simp: bmatch_def)
  have "set (vlist v) = {..<NBUF}" "distinct (vlist v)" using cache_okD [OF assms(1)] by auto
  then have l: "set (b # remove1 b (vlist v)) = {..<NBUF}" "distinct (b # remove1 b (vlist v))"
    using assms(4) by (auto simp: distinct_remove1)
  show ok: "cache_ok (returned b v)"
    unfolding cache_ok_def
  proof (intro conjI allI impI)
    show "distinct (vlist (returned b v))" "set (vlist (returned b v)) = {..<NBUF}" using l by (simp_all only: returned_sel)
    fix c assume c: "c < NBUF"
    show "b_flags (vbufs (returned b v) c) \<in> {0, 2, 6}"
      using cache_okD(3) [OF assms(1) c] by auto
    show "b_flags (vbufs (returned b v) c) \<noteq> 0 \<Longrightarrow> b_dev (vbufs (returned b v) c) = 1"
      using cache_okD(4) [OF assms(1) c] by (auto split: if_splits)
    show "b_flags (vbufs (returned b v) c) = 2 \<Longrightarrow> b_data (vbufs (returned b v) c) = vdisk (returned b v) (b_blockno (vbufs (returned b v) c))"
      using cache_okD(5) [OF assms(1) c] by (auto split: if_splits)
  next
    fix z c e assume c: "c < NBUF" "e < NBUF" "bmatch (returned b v) z c" "bmatch (returned b v) z e"
    then show "c = e" using mt cache_okD(6) [OF assms(1) c(1,2), of z] by simp
  qed
  show "in_use (h - {b}) (returned b v)" using assms(2) by (auto simp: in_use_def)
  show "clean (returned b v) = clean v" by (auto simp: clean_def)
  show hz: "holds (returned b v) z c = holds v z c" for z c using mt by (auto simp: holds_def)
  show "content (returned b v) = content v"
    using hz by (intro ext content_cong [OF assms(1) ok]) auto
qed

section \<open>Reading, writing and returning a block\<close>

lemma taken_again: "set_buf b z (taken b y v) = taken b z v"
  by (simp add: taken_def set_lock_def set_buf_def)

lemma bread_valid_hit:
  assumes "io_ok t" and "io t = taken b y v" and "b_flags y \<in> {2, 6}"
  shows "runs (bread_valid b) t b (taken b y v)"
proof -
  have "b_flags (bufs t b) AND B_VALID \<noteq> 0"
    using assms(3) io_eqD(1) [OF assms(2)] by (auto simp: B_VALID_def)
  then show ?thesis using assms(1,2) by (auto simp: bread_valid_def unlessk_def seqk_def runs_def retk_def)
qed

lemma bread_valid_load:
  assumes "io_ok t" and "io t = taken b y v" and "b_flags y = 0" and "b_dev y = 1" and "b_blockno y < vsize v"
  shows "runs (bread_valid b) t b (taken b (y\<lparr>b_data := vdisk v (b_blockno y), b_flags := 2\<rparr>) v)"
proof -
  have f: "b_flags (bufs t b) = 0" using assms(3) io_eqD(1) [OF assms(2)] by simp
  have "runs (iderw b) t () (taken b (y\<lparr>b_data := vdisk v (b_blockno y), b_flags := 2\<rparr>) v)"
    using iderw_load [OF assms(1,2), of b] assms(3-5) by (simp add: taken_again)
  then have "runs (seqk (iderw b) (retk b)) t b (taken b (y\<lparr>b_data := vdisk v (b_blockno y), b_flags := 2\<rparr>) v)"
    by (rule runs_seqk) simp
  then show ?thesis by (simp add: bread_valid_def unlessk_def f)
qed

lemma find_mem: "find P xs = Some b \<Longrightarrow> b \<in> set xs \<and> P b"
  by (induction xs) (auto split: if_splits)

lemma in_useD:
  assumes "in_use h v" and "b < NBUF"
  shows "b_refcnt (vbufs v b) = (if b \<in> h then 1 else 0)" "vlocked v (BufSl b) = (if b \<in> h then 1 else 0)"
  using assms by (simp_all add: in_use_def)

lemma bread_hit:
  fixes s :: "'a klog_scheme"
  assumes "io_ok s" and "io s = v" and "cache_ok v" and "in_use h v" and "x < vsize v"
    and "find (bmatch v x) (vlist v) = Some b" and "b \<notin> h"
  shows "\<exists>y. runs (bread 1 x) s b (taken b y v) \<and> may_take h x b y v"
proof -
  have b: "b < NBUF" "bmatch v x b"
    using find_mem [OF assms(6)] cache_okD(2) [OF assms(3)] by auto
  note u = in_useD [OF assms(4) b(1)]
  let ?y = "(vbufs v b)\<lparr>b_refcnt := 1\<rparr>"
  have g: "runs (bget 1 x) s b (taken b ?y v)"
    using bget_hit [OF assms(1,2,6)] u assms(7) by (simp add: taken_def)
  have only: "\<And>c. c < NBUF \<Longrightarrow> c \<noteq> b \<Longrightarrow> \<not> bmatch v x c"
    using cache_okD(6) [OF assms(3) b(1)] b(2) by blast
  have x: "b_dev (vbufs v b) = 1" "b_blockno (vbufs v b) = x" using b(2) by (simp_all add: bmatch_def)
  show ?thesis
  proof (cases "b_flags (vbufs v b) = 0")
    case True
    let ?z = "?y\<lparr>b_data := vdisk v x, b_flags := 2\<rparr>"
    have "runs (bread 1 x) s b (taken b ?z v)"
      unfolding bread_def
    proof (rule runs_bindk [OF g])
      fix t :: "'a klog_scheme" assume "io_ok t" "io t = taken b ?y v"
      from bread_valid_load [OF this] show "runs (bread_valid b) t b (taken b ?z v)" using True x assms(5) by simp
    qed
    moreover have "content v x = vdisk v x"
      using True only by (intro content_miss) (auto simp: holds_def)
    then have "may_take h x b ?z v"
      using b x True only assms(7) by (auto simp: may_take_def)
    ultimately show ?thesis by blast
  next
    case False
    have fl: "b_flags (vbufs v b) \<in> {2, 6}" using False cache_okD(3) [OF assms(3) b(1)] by simp
    have "runs (bread 1 x) s b (taken b ?y v)"
      unfolding bread_def
    proof (rule runs_bindk [OF g])
      fix t :: "'a klog_scheme" assume "io_ok t" "io t = taken b ?y v"
      from bread_valid_hit [OF this] show "runs (bread_valid b) t b (taken b ?y v)" using fl by simp
    qed
    moreover have "content v x = b_data (vbufs v b)"
      using b False by (intro content_hit [OF assms(3)]) (simp add: holds_def)
    then have "may_take h x b ?y v"
      using b x fl only assms(7) cache_okD(5) [OF assms(3) b(1)] by (auto simp: may_take_def)
    ultimately show ?thesis by blast
  qed
qed

lemma bread_miss:
  fixes s :: "'a klog_scheme"
  assumes "io_ok s" and "io s = v" and "cache_ok v" and "in_use h v" and "x < vsize v"
    and "find (bmatch v x) (vlist v) = None" and "c \<in> clean v" and "c \<notin> h"
  shows "\<exists>b y. runs (bread 1 x) s b (taken b y v) \<and> may_take h x b y v"
proof -
  have none: "\<not> bmatch v x d" if "d < NBUF" for d
    using assms(6) that cache_okD(2) [OF assms(3)] by (auto simp: find_None_iff)
  have "c < NBUF" "b_flags (vbufs v c) \<in> {0, 2}"
    using assms(7) cache_okD(3) [OF assms(3), of c] by (auto simp: clean_def)
  then have "spare v c" using in_useD(1) [OF assms(4), of c] assms(8) by (auto simp: spare_def B_DIRTY_def)
  then obtain b where f: "find (spare v) (rev (vlist v)) = Some b"
    using cache_okD(2) [OF assms(3)] \<open>c < NBUF\<close> by (cases "find (spare v) (rev (vlist v))") (auto simp: find_None_iff)
  then have b: "b < NBUF" "spare v b"
    using find_mem [OF f] cache_okD(2) [OF assms(3)] by auto
  note u = in_useD [OF assms(4) b(1)]
  have nh: "b \<notin> h" using b(2) u(1) by (auto simp: spare_def)
  have fl: "b_flags (vbufs v b) \<noteq> 6" using b(2) by (auto simp: spare_def B_DIRTY_def)
  let ?y = "(vbufs v b)\<lparr>b_dev := 1, b_blockno := x, b_flags := 0, b_refcnt := 1\<rparr>"
  let ?z = "?y\<lparr>b_data := vdisk v x, b_flags := 2\<rparr>"
  have g: "runs (bget 1 x) s b (taken b ?y v)"
    using bget_miss [OF assms(1,2,6) f] u nh by (simp add: taken_def)
  have "runs (bread 1 x) s b (taken b ?z v)"
    unfolding bread_def
  proof (rule runs_bindk [OF g])
    fix t :: "'a klog_scheme" assume "io_ok t" "io t = taken b ?y v"
    from bread_valid_load [OF this] show "runs (bread_valid b) t b (taken b ?z v)" using assms(5) by simp
  qed
  moreover have "content v x = vdisk v x"
    using none by (intro content_miss) (auto simp: holds_def)
  then have "may_take h x b ?z v"
    using b nh fl none by (auto simp: may_take_def)
  ultimately show ?thesis by blast
qed

lemma bread_runs:
  fixes s :: "'a klog_scheme"
  assumes "io_ok s" and "io s = v" and "cache_ok v" and "in_use h v" and "x < vsize v"
    and "\<And>b. b < NBUF \<Longrightarrow> b \<in> h \<Longrightarrow> \<not> bmatch v x b" and "(\<exists>b<NBUF. bmatch v x b) \<or> \<not> clean v \<subseteq> h"
  shows "\<exists>b y. runs (bread 1 x) s b (taken b y v) \<and> may_take h x b y v"
proof (cases "find (bmatch v x) (vlist v)")
  case None
  then have "\<not> (\<exists>b<NBUF. bmatch v x b)" using cache_okD(2) [OF assms(3)] by (auto simp: find_None_iff)
  then obtain c where "c \<in> clean v" "c \<notin> h" using assms(7) by blast
  then show ?thesis using bread_miss [OF assms(1-5) None] by blast
next
  case (Some b)
  then have "b < NBUF" "bmatch v x b"
    using find_mem [OF Some] cache_okD(2) [OF assms(3)] by auto
  then show ?thesis using bread_hit [OF assms(1-5) Some] assms(6) by blast
qed

text \<open>Writing a buffer whose data were set to \<open>d\<close>.\<close>

lemma set_bwrite_runs:
  fixes s :: "'a klog_scheme"
  assumes "io_ok s" and "io s = v" and "cache_ok v" and "in_use h v" and "b \<in> h" and "holds v x b" and "x < vsize v"
  shows "runs (seqk (set_data b d) (bwrite b)) s () (stored b d v)"
proof -
  have b: "b < NBUF" "b_dev (vbufs v b) = 1" "b_blockno (vbufs v b) = x" "b_flags (vbufs v b) \<in> {2, 6}"
    using assms(6) cache_okD(3) [OF assms(3), of b] by (auto simp: holds_def bmatch_def)
  let ?v = "set_buf b ((vbufs v b)\<lparr>b_data := d\<rparr>) v"
  have m: "runs (set_data b d) s () ?v"
    unfolding set_data_def using assms(1,2) io_eqD(1) [OF assms(2)] by (intro runs_modk) simp_all
  show ?thesis
  proof (rule runs_seqk [OF m])
    fix t :: "'a klog_scheme"
    assume "io_ok t" "io t = ?v"
    from bwrite_runs [OF this, of b] show "runs (bwrite b) t () (stored b d v)"
      using b assms(5,7) in_useD(2) [OF assms(4) b(1)] by (simp add: stored_def set_buf_def)
  qed
qed

lemma brelse_returns:
  fixes s :: "'a klog_scheme"
  assumes "io_ok s" and "io s = v" and "in_use h v" and "b \<in> h" and "b < NBUF"
  shows "runs (brelse b) s () (returned b v)"
  using brelse_runs [OF assms(1,2), of b] in_useD [OF assms(3,5)] assms(4) by (simp add: returned_def)

section \<open>Property\<close>

text \<open>C18: \<open>bread\<close> gives the current content of a block. While the process uses the buffers \<open>h\<close>, none of
  them for block \<open>x\<close>, and a clean buffer is left, \<open>bread\<close> of the block returns, with another buffer
  locked for the process; the buffer holds what was last written to the block through the cache, or
  else what the disk holds. The cache stays coherent, no block changes its content and nothing is
  written to the disk.\<close>

theorem bread_current:
  assumes "io_ok s" and "cache_ok (io s)" and "in_use h (io s)" and "x < disksize s"
    and "\<forall>b<NBUF. b \<in> h \<longrightarrow> \<not> bmatch (io s) x b" and "\<not> clean (io s) \<subseteq> h"
  shows "\<exists>b t. bread 1 x s = Done b t \<and> b \<notin> h \<and> b_data (bufs t b) = content (io s) x \<and> cache_ok (io t)
    \<and> in_use (insert b h) (io t) \<and> content (io t) = content (io s) \<and> disk_writes t = disk_writes s"
proof -
  obtain b y where r: "runs (bread 1 x) s b (taken b y (io s))" "may_take h x b y (io s)"
    using bread_runs [OF assms(1) refl assms(2,3), of x] assms(4-6) by auto
  then obtain t where t: "bread 1 x s = Done b t" "io t = taken b y (io s)" by (auto simp: runs_def)
  have "b \<notin> h" "b_data y = content (io s) x" using r(2) by (simp_all add: may_take_def)
  then show ?thesis
    using t taken_ok [OF assms(2,3) r(2)] io_eqD(1,4) [OF t(2)] by (intro exI [of _ b] exI [of _ t]) simp
qed

theorem bread_current_witness:
  "\<exists>b t. bread 1 600 (log_state 0 0) = Done b t \<and> b_data (bufs t b) = replicate BSIZE 0"
proof -
  let ?s = "log_state 0 0"
  have s: "bufs ?s = (\<lambda>_. \<lparr>b_flags = 0, b_dev = 0, b_blockno = 0, b_refcnt = 0, b_data = replicate BSIZE 0\<rparr>)" "blist ?s = [0..<NBUF]"
    "disksize ?s = 1000" "sl_locked (slks ?s k) = 0" "memdisk ?s = (\<lambda>_. replicate BSIZE 0)" for k
    by (simp_all add: log_state_def io_state_def ktrace.defs kbuf.defs klog.defs memdisk_def disk_after_def)
  have m: "\<not> bmatch (io ?s) x b" for x b by (simp add: bmatch_def s)
  have "io_ok ?s" by (simp add: io_ok_def log_state_ok)
  moreover have "cache_ok (io ?s)" "in_use {} (io ?s)" by (simp_all add: cache_ok_def in_use_def m s atLeast0LessThan)
  moreover have "0 \<in> clean (io ?s)" by (simp add: clean_def s NBUF_def)
  then have "\<not> clean (io ?s) \<subseteq> {}" by blast
  moreover have "content (io ?s) 600 = replicate BSIZE 0" by (simp add: content_miss holds_def m s)
  ultimately show ?thesis using bread_current [of ?s "{}" 600] m by (auto simp: s(3))
qed

end
