(* ===== verification/Crash.thy ===== *)
theory Crash
  imports Cache
begin

text \<open>Crash safety of the log (\<open>log.c\<close>) over the buffer cache. Every routine of a commit is shown to write
  a known sequence of blocks to the disk; a crash leaves the disk after some prefix of the sequence, and
  recovery from any such disk gives either all blocks of the transaction or none.\<close>

section \<open>Routines that copy blocks\<close>

text \<open>A routine returns, and leaves a state with \<open>P\<close> behind.\<close>

definition does :: "('a klog_scheme, 'b) kop \<Rightarrow> 'a klog_scheme \<Rightarrow> ('b \<Rightarrow> iov \<Rightarrow> bool) \<Rightarrow> bool" where
  "does m s P \<longleftrightarrow> (\<exists>a t. m s = Done a t \<and> io_ok t \<and> P a (io t))"

lemma doesI: "runs m s a v \<Longrightarrow> P a v \<Longrightarrow> does m s P"
  by (auto simp: runs_def does_def)

lemma does_bindk: "does m s Q \<Longrightarrow> (\<And>a t. io_ok t \<Longrightarrow> Q a (io t) \<Longrightarrow> does (f a) t P) \<Longrightarrow> does (bindk m f) s P"
  unfolding does_def by (metis bindk_Done)

lemma does_seqk: "does m s Q \<Longrightarrow> (\<And>a t. io_ok t \<Longrightarrow> Q a (io t) \<Longrightarrow> does n t P) \<Longrightarrow> does (seqk m n) s P"
  unfolding does_def by (metis seqk_Done)

lemma does_getk [simp]: "does (bindk (getk g) f) s P \<longleftrightarrow> does (f (g s)) s P"
  by (simp add: does_def)

lemma does_mono: "does m s Q \<Longrightarrow> (\<And>a v. Q a v \<Longrightarrow> P a v) \<Longrightarrow> does m s P"
  by (auto simp: does_def)

definition dirty :: "iov \<Rightarrow> u32 \<Rightarrow> bool" where
  "dirty v x \<longleftrightarrow> (\<exists>b<NBUF. bmatch v x b \<and> b_flags (vbufs v b) = 6)"

text \<open>No buffer is in use and the cache is coherent.\<close>

definition still :: "iov \<Rightarrow> bool" where
  "still v \<longleftrightarrow> cache_ok v \<and> in_use {} v"

definition same_log :: "iov \<Rightarrow> iov \<Rightarrow> bool" where
  "same_log v w \<longleftrightarrow> vn w = vn v \<and> vblk w = vblk v \<and> vstart w = vstart v \<and> vdev w = vdev v \<and> vsize w = vsize v \<and> vimage w = vimage v
     \<and> vlogsize w = vlogsize v \<and> vout w = vout v"

text \<open>The data \<open>d\<close> went to block \<open>x\<close>, in the cache and on the disk, and nothing else changed.\<close>

definition moved :: "iov \<Rightarrow> u32 \<Rightarrow> block \<Rightarrow> iov \<Rightarrow> bool" where
  "moved v x d w \<longleftrightarrow> still w \<and> content w = (content v)(x := d) \<and> vdisk w = (vdisk v)(x := d) \<and> vwrites w = vwrites v @ [(x, d)]
     \<and> clean v \<subseteq> clean w \<and> (\<forall>z. dirty w z \<longleftrightarrow> dirty v z \<and> z \<noteq> x) \<and> same_log v w"

lemma holds_taken: "c \<noteq> b \<Longrightarrow> holds (taken c y v) x b = holds v x b"
  by (simp add: holds_def bmatch_def)

lemma dirty_taken:
  assumes "may_take h x b y v"
  shows "dirty (taken b y v) z = dirty v z"
proof -
  note m = may_takeD(3,4,6,7) [OF assms]
  have "bmatch (taken b y v) z c \<and> b_flags (vbufs (taken b y v) c) = 6 \<longleftrightarrow> bmatch v z c \<and> b_flags (vbufs v c) = 6" for c
    using m by (cases "c = b") (auto simp: bmatch_def)
  then show ?thesis by (simp add: dirty_def)
qed

lemma dirty_stored:
  assumes "cache_ok v" and "holds v x b"
  shows "dirty (stored b d v) z \<longleftrightarrow> dirty v z \<and> z \<noteq> x"
proof -
  have b: "b < NBUF" "bmatch v x b" using assms(2) by (simp_all add: holds_def)
  have "bmatch (stored b d v) z c \<and> b_flags (vbufs (stored b d v) c) = 6 \<longleftrightarrow> bmatch v z c \<and> b_flags (vbufs v c) = 6 \<and> z \<noteq> x"
    if "c < NBUF" for c
    using b cache_okD(6) [OF assms(1) that b(1), of x] by (cases "c = b") (auto simp: bmatch_def)
  then show ?thesis unfolding dirty_def by blast
qed

lemma dirty_returned: "dirty (returned b v) z = dirty v z"
proof -
  have "bmatch (returned b v) z c \<and> b_flags (vbufs (returned b v) c) = 6 \<longleftrightarrow> bmatch v z c \<and> b_flags (vbufs v c) = 6" for c
    by (auto simp: bmatch_def)
  then show ?thesis by (simp add: dirty_def)
qed

lemma same_log_simps [simp]:
  "same_log v v" "same_log v (taken b y w) = same_log v w" "same_log v (stored b d w) = same_log v w" "same_log v (returned b w) = same_log v w"
  by (simp_all add: same_log_def)

text \<open>What holds while the buffers of \<open>h\<close> are in use, compared with the state \<open>v\<close> before.\<close>

definition busy :: "nat set \<Rightarrow> iov \<Rightarrow> iov \<Rightarrow> bool" where
  "busy h v w \<longleftrightarrow> cache_ok w \<and> in_use h w \<and> content w = content v \<and> vdisk w = vdisk v \<and> vwrites w = vwrites v
     \<and> clean w = clean v \<and> (\<forall>z. dirty w z = dirty v z) \<and> same_log v w"

lemma busy_taken:
  assumes "busy h v w" and "may_take h x b y w"
  shows "busy (insert b h) v (taken b y w)" "holds (taken b y w) x b" "b \<notin> h" "b < NBUF"
proof -
  have w: "cache_ok w" "in_use h w" using assms(1) by (simp_all add: busy_def)
  show "busy (insert b h) v (taken b y w)"
    using assms(1) taken_ok [OF w assms(2)] dirty_taken [OF assms(2)] by (simp add: busy_def)
  show "holds (taken b y w) x b" by (rule taken_ok(5) [OF w assms(2)])
  show "b \<notin> h" "b < NBUF" by (rule may_takeD [OF assms(2)])+
qed

lemma bread_does:
  assumes "io_ok s" and "busy h v (io s)" and "x < vsize v"
    and "\<And>b. b < NBUF \<Longrightarrow> b \<in> h \<Longrightarrow> \<not> bmatch (io s) x b" and "(\<exists>b<NBUF. bmatch (io s) x b) \<or> \<not> clean v \<subseteq> h"
  shows "does (bread 1 x) s (\<lambda>b w. busy (insert b h) v w \<and> holds w x b \<and> b \<notin> h \<and> b < NBUF \<and> (\<exists>y. may_take h x b y (io s) \<and> w = taken b y (io s)))"
proof -
  have w: "cache_ok (io s)" "in_use h (io s)" "vsize (io s) = vsize v" "clean (io s) = clean v"
    using assms(2) by (simp_all add: busy_def same_log_def)
  obtain b y where r: "runs (bread 1 x) s b (taken b y (io s))" "may_take h x b y (io s)"
    using bread_runs [OF assms(1) refl w(1,2), of x] assms(3-5) w(3,4) by auto
  then show ?thesis using busy_taken [OF assms(2) r(2)] by (intro doesI [OF r(1)]) blast
qed

text \<open>Two blocks can be read one after the other.\<close>

definition room :: "iov \<Rightarrow> u32 \<Rightarrow> u32 \<Rightarrow> bool" where
  "room v x y \<longleftrightarrow> clean v \<noteq> {} \<and> (dirty v x \<or> dirty v y \<or> (\<forall>c. clean v \<noteq> {c}))"

lemma room_second:
  assumes "room v x y" and "x \<noteq> y" and "may_take {} x b z v"
  shows "(\<exists>c<NBUF. bmatch (taken b z v) y c) \<or> \<not> clean v \<subseteq> {b}"
proof -
  note m = may_takeD(3,4,5,7) [OF assms(3)]
  consider "dirty v x" | "dirty v y" | "\<forall>c. clean v \<noteq> {c}" using assms(1) by (auto simp: room_def)
  then show ?thesis
  proof cases
    case 1
    then obtain c where "c < NBUF" "bmatch v x c" "b_flags (vbufs v c) = 6" by (auto simp: dirty_def)
    then have "b \<notin> clean v" using m(3) by (auto simp: clean_def)
    then show ?thesis using assms(1) by (auto simp: room_def)
  next
    case 2
    then obtain c where c: "c < NBUF" "bmatch v y c" "b_flags (vbufs v c) = 6" by (auto simp: dirty_def)
    then have "c \<noteq> b" using m(4) assms(2) by (auto simp: bmatch_def)
    then have "bmatch (taken b z v) y c" using c(2) by (simp add: bmatch_def)
    then show ?thesis using c(1) by blast
  next
    case 3
    then show ?thesis using assms(1) by (auto simp: room_def subset_singleton_iff)
  qed
qed

lemma two_breads:
  fixes s :: "'a klog_scheme"
  assumes "io_ok s" and "still (io s)" and "x \<noteq> y" and "x < disksize s" and "y < disksize s" and "room (io s) x y"
    and "\<And>b c (t :: 'a klog_scheme). io_ok t \<Longrightarrow> busy {c, b} (io s) (io t) \<Longrightarrow> holds (io t) x b \<Longrightarrow> holds (io t) y c \<Longrightarrow> b \<noteq> c \<Longrightarrow> does (f b c) t P"
  shows "does (bindk (bread 1 x) (\<lambda>b. bindk (bread 1 y) (f b))) s P"
proof -
  have v: "busy {} (io s) (io s)" using assms(2) by (simp add: busy_def still_def)
  show ?thesis
  proof (rule does_bindk [OF bread_does [OF assms(1) v]])
    show "x < vsize (io s)" using assms(4) by simp
    show "(\<exists>b<NBUF. bmatch (io s) x b) \<or> \<not> clean (io s) \<subseteq> {}" using assms(6) by (simp add: room_def)
    fix b and t :: "'a klog_scheme"
    assume t: "io_ok t" "busy {b} (io s) (io t) \<and> holds (io t) x b \<and> b \<notin> {} \<and> b < NBUF
      \<and> (\<exists>z. may_take {} x b z (io s) \<and> io t = taken b z (io s))"
    then obtain z where z: "may_take {} x b z (io s)" "io t = taken b z (io s)" by blast
    have hb: "bmatch (io t) x b" using t(2) by (simp add: holds_def)
    show "does (bindk (bread 1 y) (f b)) t P"
    proof (rule does_bindk [OF bread_does [OF t(1)]])
      show "busy {b} (io s) (io t)" using t(2) by simp
      show "y < vsize (io s)" using assms(5) by simp
      show "\<not> bmatch (io t) y c" if "c < NBUF" "c \<in> {b}" for c using that hb assms(3) by (auto simp: bmatch_def)
      show "(\<exists>c<NBUF. bmatch (io t) y c) \<or> \<not> clean (io s) \<subseteq> {b}"
        using room_second [OF assms(6,3) z(1)] z(2) by simp
      fix c and u :: "'a klog_scheme"
      assume u: "io_ok u" "busy {c, b} (io s) (io u) \<and> holds (io u) y c \<and> c \<notin> {b} \<and> c < NBUF
        \<and> (\<exists>z. may_take {b} y c z (io t) \<and> io u = taken c z (io t))"
      then obtain z' where z': "io u = taken c z' (io t)" "c \<noteq> b" by blast
      have "holds (io u) x b" unfolding z'(1) using holds_taken [OF z'(2)] t(2) by simp
      then show "does (f b c) u P" using u by (intro assms(7)) auto
    qed
  qed simp
qed

text \<open>Returning the two buffers after one of them was written.\<close>

lemma returns_does:
  assumes "io_ok s" and "busy {c, b} v w" and "holds w x b" and "b \<noteq> c" and "c < NBUF" and "e = b \<or> e = c" and "holds w z e"
    and "io s = stored e d w"
  shows "does (seqk (brelse c) (brelse b)) s (\<lambda>_. moved v z d)"
proof -
  have w: "cache_ok w" "in_use {c, b} w" using assms(2) by (simp_all add: busy_def)
  have b: "b < NBUF" using assms(3) by (simp add: holds_def)
  let ?w = "stored e d w"
  note s = stored_ok [OF w assms(7), of d]
  have cin: "c \<in> {c, b}" and sb: "{c, b} - {c} = {b}" and bin: "b \<in> {b}" using assms(4) by auto
  note r1 = returned_ok [OF s(1,2) cin assms(5)]
  note r1' = r1(1) r1(2) [unfolded sb]
  note r2 = returned_ok [OF r1' bin b]
  have "runs (brelse c) s () (returned c ?w)"
    using assms(5) by (intro brelse_returns [OF assms(1,8) s(2)]) simp_all
  then have "runs (seqk (brelse c) (brelse b)) s () (returned b (returned c ?w))"
    by (rule runs_seqk) (rule brelse_returns [OF _ _ r1'(2)], simp_all add: b)
  moreover have "b_blockno (vbufs w e) = z" using assms(7) by (simp add: holds_def bmatch_def)
  then have "moved v z d (returned b (returned c ?w))"
    using assms(2) r2(1-3) r1(3,4) r2(4) s(3,4) dirty_stored [OF w(1) assms(7)]
    by (auto simp: moved_def still_def busy_def dirty_returned)
  ultimately show ?thesis by (intro doesI)
qed

lemma write_log_one_does:
  assumes "io_ok s" and "still (io s)" and "vdev (io s) = 1" and "x = log_start s + of_nat i + 1" and "y = lh_block s i"
    and "x \<noteq> y" and "x < disksize s" and "y < disksize s" and "room (io s) x y"
  shows "does (write_log_one i) s (\<lambda>_. moved (io s) x (content (io s) y))"
proof -
  have dev: "log_dev s = 1" using assms(3) by simp
  have "does (bindk (bread 1 x) (\<lambda>b. bindk (bread 1 y) (\<lambda>c. bindk (getk (\<lambda>s. b_data (bufs s c))) (\<lambda>d.
    seqk (set_data b d) (seqk (bwrite b) (seqk (brelse c) (brelse b))))))) s (\<lambda>_. moved (io s) x (content (io s) y))"
  proof (rule two_breads [OF assms(1,2,6-9)])
    fix b c and t :: "'a klog_scheme"
    assume t: "io_ok t" "busy {c, b} (io s) (io t)" "holds (io t) x b" "holds (io t) y c" "b \<noteq> c"
    have w: "cache_ok (io t)" "in_use {c, b} (io t)" "vsize (io t) = vsize (io s)" "content (io t) = content (io s)"
      using t(2) by (simp_all add: busy_def same_log_def)
    have d: "b_data (bufs t c) = content (io s) y"
      using content_hit [OF w(1) t(4)] w(4) by simp
    have c: "c < NBUF" using t(4) by (simp add: holds_def)
    have "runs (seqk (set_data b (content (io s) y)) (bwrite b)) t () (stored b (content (io s) y) (io t))"
      using assms(7) w(3) by (intro set_bwrite_runs [OF t(1) refl w(1,2) _ t(3)]) simp_all
    then have "does (seqk (set_data b (content (io s) y)) (bwrite b)) t (\<lambda>_ w. w = stored b (content (io s) y) (io t))"
      by (rule doesI) simp
    then have "does (seqk (seqk (set_data b (content (io s) y)) (bwrite b)) (seqk (brelse c) (brelse b))) t (\<lambda>_. moved (io s) x (content (io s) y))"
      by (rule does_seqk) (rule returns_does [OF _ t(2,3,5) c _ t(3)], simp_all)
    then show "does (bindk (getk (\<lambda>s. b_data (bufs s c))) (\<lambda>d. seqk (set_data b d) (seqk (bwrite b) (seqk (brelse c) (brelse b)))))
      t (\<lambda>_. moved (io s) x (content (io s) y))"
      by (simp add: d does_def)
  qed
  then show ?thesis by (simp add: write_log_one_def dev assms(4,5))
qed

lemma install_one_does:
  assumes "io_ok s" and "still (io s)" and "vdev (io s) = 1" and "x = log_start s + of_nat i + 1" and "y = lh_block s i"
    and "x \<noteq> y" and "x < disksize s" and "y < disksize s" and "room (io s) x y"
  shows "does (install_one i) s (\<lambda>_. moved (io s) y (content (io s) x))"
proof -
  have dev: "log_dev s = 1" using assms(3) by simp
  have "does (bindk (bread 1 x) (\<lambda>c. bindk (bread 1 y) (\<lambda>b. bindk (getk (\<lambda>s. b_data (bufs s c))) (\<lambda>d.
    seqk (set_data b d) (seqk (bwrite b) (seqk (brelse c) (brelse b))))))) s (\<lambda>_. moved (io s) y (content (io s) x))"
  proof (rule two_breads [OF assms(1,2,6-9)])
    fix c b and t :: "'a klog_scheme"
    assume t: "io_ok t" "busy {b, c} (io s) (io t)" "holds (io t) x c" "holds (io t) y b" "c \<noteq> b"
    have bc: "busy {c, b} (io s) (io t)" using t(2) by (simp add: insert_commute)
    have w: "cache_ok (io t)" "in_use {c, b} (io t)" "vsize (io t) = vsize (io s)" "content (io t) = content (io s)"
      using bc by (simp_all add: busy_def same_log_def)
    have d: "b_data (bufs t c) = content (io s) x"
      using content_hit [OF w(1) t(3)] w(4) by simp
    have c: "c < NBUF" using t(3) by (simp add: holds_def)
    have "runs (seqk (set_data b (content (io s) x)) (bwrite b)) t () (stored b (content (io s) x) (io t))"
      using assms(8) w(3) by (intro set_bwrite_runs [OF t(1) refl w(1,2) _ t(4)]) simp_all
    then have "does (seqk (set_data b (content (io s) x)) (bwrite b)) t (\<lambda>_ w. w = stored b (content (io s) x) (io t))"
      by (rule doesI) simp
    then have "does (seqk (seqk (set_data b (content (io s) x)) (bwrite b)) (seqk (brelse c) (brelse b))) t (\<lambda>_. moved (io s) y (content (io s) x))"
      by (rule does_seqk) (rule returns_does [OF _ bc t(4) t(5) [symmetric] c _ t(4)], simp_all)
    then show "does (bindk (getk (\<lambda>s. b_data (bufs s c))) (\<lambda>d. seqk (set_data b d) (seqk (bwrite b) (seqk (brelse c) (brelse b)))))
      t (\<lambda>_. moved (io s) y (content (io s) x))"
      by (simp add: d does_def)
  qed
  then show ?thesis by (simp add: install_one_def dev assms(4,5))
qed

lemma write_head_does:
  assumes "io_ok s" and "still (io s)" and "vdev (io s) = 1" and "log_start s < disksize s" and "clean (io s) \<noteq> {}"
  shows "does write_head s (\<lambda>_. moved (io s) (log_start s) (head_block (lh_n s) (lh_block s) (content (io s) (log_start s))))"
proof -
  let ?x = "log_start s" and ?v = "io s"
  let ?d = "head_block (lh_n s) (lh_block s) (content (io s) (log_start s))"
  have v: "busy {} ?v ?v" using assms(2) by (simp add: busy_def still_def)
  have "does (bindk (bread 1 ?x) (\<lambda>b. bindk (getk (\<lambda>s. head_block (lh_n s) (lh_block s) (b_data (bufs s b)))) (\<lambda>d.
       seqk (set_data b d) (seqk (bwrite b) (brelse b))))) s (\<lambda>_. moved ?v ?x ?d)"
  proof (rule does_bindk [OF bread_does [OF assms(1) v]])
    show "?x < vsize ?v" "(\<exists>b<NBUF. bmatch ?v ?x b) \<or> \<not> clean ?v \<subseteq> {}" using assms(4,5) by simp_all
    fix b and t :: "'a klog_scheme"
    assume t: "io_ok t" "busy {b} ?v (io t) \<and> holds (io t) ?x b \<and> b \<notin> {} \<and> b < NBUF \<and> (\<exists>y. may_take {} ?x b y ?v \<and> io t = taken b y ?v)"
    then have w: "cache_ok (io t)" "in_use {b} (io t)" "vsize (io t) = vsize ?v" "content (io t) = content ?v" "vn (io t) = vn ?v"
      "vblk (io t) = vblk ?v" and h: "holds (io t) ?x b" and b: "b < NBUF"
      by (simp_all add: busy_def same_log_def)
    have d: "head_block (lh_n t) (lh_block t) (b_data (bufs t b)) = ?d"
      using content_hit [OF w(1) h] w(4-6) by simp
    note s = stored_ok [OF w(1,2) h, of ?d]
    note r = returned_ok [OF s(1,2), of b, simplified, OF b]
    have "runs (seqk (set_data b ?d) (bwrite b)) t () (stored b ?d (io t))"
      using assms(4) w(3) by (intro set_bwrite_runs [OF t(1) refl w(1,2) _ h]) simp_all
    then have "runs (seqk (seqk (set_data b ?d) (bwrite b)) (brelse b)) t () (returned b (stored b ?d (io t)))"
      by (rule runs_seqk) (rule brelse_returns [OF _ _ s(2)], simp_all add: b)
    moreover have "b_blockno (vbufs (io t) b) = ?x" using h by (simp add: holds_def bmatch_def)
    then have "moved ?v ?x ?d (returned b (stored b ?d (io t)))"
      using t(2) r s(3,4) dirty_stored [OF w(1) h] by (auto simp: moved_def still_def busy_def dirty_returned)
    ultimately have "does (seqk (seqk (set_data b ?d) (bwrite b)) (brelse b)) t (\<lambda>_. moved ?v ?x ?d)"
      by (intro doesI)
    then show "does (bindk (getk (\<lambda>s. head_block (lh_n s) (lh_block s) (b_data (bufs s b)))) (\<lambda>d.
       seqk (set_data b d) (seqk (bwrite b) (brelse b)))) t (\<lambda>_. moved ?v ?x ?d)"
      by (simp add: d does_def)
  qed simp
  then show ?thesis using assms(3) by (simp add: write_head_def)
qed

lemma disk_after_simps [simp]:
  "disk_after f [] = f" "disk_after f (p # ws) = disk_after (f(fst p := snd p)) ws" "disk_after f (ws @ xs) = disk_after (disk_after f ws) xs"
  by (simp_all add: disk_after_def case_prod_unfold)

lemma disk_after_other: "x \<notin> fst ` set ws \<Longrightarrow> disk_after f ws x = f x"
  by (induction ws arbitrary: f) auto

text \<open>A sequence of writes, each going through the cache to the disk.\<close>

definition went :: "iov \<Rightarrow> (u32 \<times> block) list \<Rightarrow> iov \<Rightarrow> bool" where
  "went v ws w \<longleftrightarrow> still w \<and> content w = disk_after (content v) ws \<and> vdisk w = disk_after (vdisk v) ws \<and> vwrites w = vwrites v @ ws
     \<and> clean v \<subseteq> clean w \<and> (\<forall>z. dirty w z \<longleftrightarrow> dirty v z \<and> z \<notin> fst ` set ws) \<and> same_log v w"

lemma went_Nil: "still v \<Longrightarrow> went v [] v"
  by (simp add: went_def same_log_def)

lemma same_log_trans: "same_log u v \<Longrightarrow> same_log v w \<Longrightarrow> same_log u w"
  by (simp add: same_log_def)

lemma went_moved: "went u ws v \<Longrightarrow> moved v x d w \<Longrightarrow> went u (ws @ [(x, d)]) w"
  by (auto simp: went_def moved_def intro: same_log_trans)

lemma went_trans: "went u ws v \<Longrightarrow> went v xs w \<Longrightarrow> went u (ws @ xs) w"
  by (auto simp: went_def intro: same_log_trans)

lemma wentD:
  assumes "went v ws w"
  shows "still w" "content w = disk_after (content v) ws" "vdisk w = disk_after (vdisk v) ws" "vwrites w = vwrites v @ ws"
    "clean v \<subseteq> clean w" "dirty w z \<longleftrightarrow> dirty v z \<and> z \<notin> fst ` set ws"
    "vn w = vn v" "vblk w = vblk v" "vstart w = vstart v" "vdev w = vdev v" "vsize w = vsize v" "vlogsize w = vlogsize v"
  using assms by (simp_all add: went_def same_log_def)

lemma does_upto:
  assumes "io_ok s" and "Q k (io s)" and "k \<le> n"
    and "\<And>i t. k \<le> i \<Longrightarrow> i < n \<Longrightarrow> io_ok t \<Longrightarrow> Q i (io t) \<Longrightarrow> does (f i) t (\<lambda>_. Q (Suc i))"
  shows "does (forallk f [k..<n]) s (\<lambda>_. Q n)"
  using assms
proof (induction "n - k" arbitrary: k s)
  case 0
  then show ?case by (simp add: does_def retk_def)
next
  case (Suc m)
  then have k: "k < n" by simp
  have step: "does (f k) s (\<lambda>_. Q (Suc k))" using Suc.prems(1,2) k by (intro Suc.prems(4)) simp_all
  have rest: "does (forallk f [Suc k..<n]) t (\<lambda>_. Q n)" if "io_ok t" "Q (Suc k) (io t)" for t
    using Suc.hyps(2) k that Suc.prems(4) by (intro Suc.hyps(1)) simp_all
  show ?case using does_seqk [OF step rest] k by (simp add: upt_conv_Cons)
qed

text \<open>The blocks of the log: the header and the block of entry \<open>i\<close>.\<close>

definition slot :: "iov \<Rightarrow> nat \<Rightarrow> u32" where
  "slot v i = vstart v + of_nat i + 1"

definition entries :: "iov \<Rightarrow> nat" where
  "entries v = nat (sint (vn v))"

text \<open>The log is the \<open>log.size\<close> blocks from \<open>log.start\<close> on, as the superblock says: the header and the room for
  \<open>log.size - 1\<close> entries, of which the header can name \<open>LOGSIZE\<close>. It lies on the disk, and the entries of the
  header name blocks of the disk outside it.\<close>

definition log_len :: "iov \<Rightarrow> nat" where
  "log_len v = nat (sint (vlogsize v))"

definition log_cap :: "iov \<Rightarrow> nat" where
  "log_cap v = min LOGSIZE (log_len v - 1)"

definition log_area :: "iov \<Rightarrow> u32 set" where
  "log_area v = {x. unat (vstart v) \<le> unat x \<and> unat x < unat (vstart v) + log_len v}"

definition log_placed :: "iov \<Rightarrow> bool" where
  "log_placed v \<longleftrightarrow> 0 < log_len v \<and> unat (vstart v) + log_len v \<le> unat (vsize v)"

definition log_ok :: "iov \<Rightarrow> bool" where
  "log_ok v \<longleftrightarrow> vdev v = 1 \<and> log_placed v \<and> entries v \<le> log_cap v
     \<and> (\<forall>i<entries v. vblk v i < vsize v \<and> vblk v i \<notin> log_area v)"

lemmas log_dims_defs = log_ok_def log_area_def log_len_def log_cap_def log_placed_def

lemma slot_unat:
  assumes "log_placed v" and "i < log_cap v"
  shows "unat (slot v i) = unat (vstart v) + i + 1"
proof -
  have l: "unat (vsize v) < 2 ^ 32" using unsigned_less [of "vsize v"] by simp
  have b: "unat (vstart v) + i + 1 < 2 ^ 32" using assms l unfolding log_placed_def log_cap_def by linarith
  have "slot v i = of_nat (unat (vstart v) + i + 1)" by (simp add: slot_def)
  also have "unat \<dots> = unat (vstart v) + i + 1"
    using b by (simp only: unsigned_of_nat of_nat_id) (simp add: take_bit_nat_eq_self)
  finally show ?thesis .
qed

lemma slot_area:
  assumes "log_ok v" and "i < log_cap v"
  shows "slot v i \<in> log_area v" "slot v i \<noteq> vstart v" "slot v i < vsize v"
    "j < log_cap v \<Longrightarrow> slot v i = slot v j \<longleftrightarrow> i = j"
proof -
  have a: "log_placed v" using assms(1) by (simp add: log_ok_def)
  note u = slot_unat [OF a]
  have c: "i + 1 < log_len v" using assms(2) unfolding log_cap_def by linarith
  show "slot v i \<in> log_area v" "slot v i < vsize v"
    using a c by (simp_all add: log_area_def word_less_nat_alt u [OF assms(2)] log_placed_def)
  show "slot v i \<noteq> vstart v" using u [OF assms(2)] by auto
  show "slot v i = slot v j \<longleftrightarrow> i = j" if "j < log_cap v"
  proof
    assume "slot v i = slot v j"
    then have "unat (slot v i) = unat (slot v j)" by simp
    then show "i = j" unfolding u [OF assms(2)] u [OF that] by simp
  qed simp
qed

lemma head_area:
  assumes "log_ok v"
  shows "vstart v \<in> log_area v" "vstart v < vsize v"
  using assms by (simp_all add: log_ok_def log_area_def log_placed_def word_less_nat_alt)

lemma log_okD:
  assumes "log_ok v"
  shows "vdev v = 1" "entries v \<le> log_cap v" "i < entries v \<Longrightarrow> vblk v i < vsize v" "i < entries v \<Longrightarrow> vblk v i \<notin> log_area v"
    "i < entries v \<Longrightarrow> i < log_cap v" "entries v \<le> LOGSIZE"
  using assms by (auto simp: log_ok_def log_cap_def)

text \<open>What the loops write.\<close>

definition log_copies :: "(u32 \<Rightarrow> block) \<Rightarrow> iov \<Rightarrow> nat \<Rightarrow> (u32 \<times> block) list" where
  "log_copies f v n = map (\<lambda>i. (slot v i, f (vblk v i))) [0..<n]"

definition home_copies :: "(u32 \<Rightarrow> block) \<Rightarrow> iov \<Rightarrow> nat \<Rightarrow> (u32 \<times> block) list" where
  "home_copies f v n = map (\<lambda>i. (vblk v i, f (slot v i))) [0..<n]"

lemma write_log_does:
  assumes "io_ok s" and "still (io s)" and "log_ok (io s)" and "clean (io s) \<noteq> {}" and "\<forall>i<entries (io s). dirty (io s) (lh_block s i)"
  shows "does write_log s (\<lambda>_. went (io s) (log_copies (content (io s)) (io s) (entries (io s))))"
proof -
  let ?v = "io s" and ?n = "entries (io s)"
  have "does (forallk write_log_one [0..<?n]) s (\<lambda>_. went ?v (log_copies (content ?v) ?v ?n))"
  proof (rule does_upto [OF assms(1), where Q = "\<lambda>k. went ?v (log_copies (content ?v) ?v k)"])
    fix i and t :: "'a klog_scheme"
    assume i: "i < ?n" and t: "io_ok t" and w: "went ?v (log_copies (content ?v) ?v i) (io t)"
    note d = wentD [OF w] and i30 = log_okD(5) [OF assms(3) i]
    note l = log_okD [OF assms(3)] and a = slot_area [OF assms(3) i30]
    have out: "lh_block s i \<notin> fst ` set (log_copies (content ?v) ?v i)"
      using l(4) [OF i] slot_area(1) [OF assms(3)] i30 by (auto simp: log_copies_def)
    have c: "content (io t) (lh_block s i) = content ?v (lh_block s i)"
      unfolding d(2) by (rule disk_after_other [OF out])
    have dt: "dirty (io t) (lh_block s i)" using d(6) out assms(5) i by blast
    have "does (write_log_one i) t (\<lambda>_. moved (io t) (slot ?v i) (content (io t) (lh_block s i)))"
    proof (rule write_log_one_does [OF t d(1)])
      show "vdev (io t) = 1" using d(10) l(1) by simp
      show "slot ?v i = log_start t + of_nat i + 1" using d(9) by (simp add: slot_def)
      show "lh_block s i = lh_block t i" using d(8) by simp
      show "slot ?v i \<noteq> lh_block s i" using a(1) l(4) [OF i] by auto
      show "slot ?v i < disksize t" "lh_block s i < disksize t" using d(11) a(3) l(3) [OF i] by simp_all
      show "room (io t) (slot ?v i) (lh_block s i)" using dt d(5) assms(4) by (auto simp: room_def)
    qed
    then show "does (write_log_one i) t (\<lambda>_. went ?v (log_copies (content ?v) ?v (Suc i)))"
      by (rule does_mono) (drule went_moved [OF w], simp add: c log_copies_def)
  qed (simp_all add: log_copies_def went_Nil assms(2))
  then show ?thesis by (simp add: write_log_def tails_def entries_def)
qed

lemma install_trans_does:
  assumes "io_ok s" and "still (io s)" and "log_ok (io s)" and "clean (io s) \<noteq> {}"
    and "(\<forall>i<entries (io s). dirty (io s) (lh_block s i)) \<and> inj_on (lh_block s) {..<entries (io s)} \<or> (\<forall>c. \<not> clean (io s) \<subseteq> {c})"
  shows "does install_trans s (\<lambda>_. went (io s) (home_copies (content (io s)) (io s) (entries (io s))))"
proof -
  let ?v = "io s" and ?n = "entries (io s)"
  have "does (forallk install_one [0..<?n]) s (\<lambda>_. went ?v (home_copies (content ?v) ?v ?n))"
  proof (rule does_upto [OF assms(1), where Q = "\<lambda>k. went ?v (home_copies (content ?v) ?v k)"])
    fix i and t :: "'a klog_scheme"
    assume i: "i < ?n" and t: "io_ok t" and w: "went ?v (home_copies (content ?v) ?v i) (io t)"
    note d = wentD [OF w] and i30 = log_okD(5) [OF assms(3) i]
    note l = log_okD [OF assms(3)] and a = slot_area [OF assms(3) i30]
    have "slot ?v i \<notin> fst ` set (home_copies (content ?v) ?v i)"
      using l(4) a(1) i by (auto simp: home_copies_def)
    then have c: "content (io t) (slot ?v i) = content ?v (slot ?v i)"
      unfolding d(2) by (rule disk_after_other)
    have r: "room (io t) (slot ?v i) (lh_block s i)"
      using assms(5)
    proof
      assume h: "(\<forall>i<?n. dirty ?v (lh_block s i)) \<and> inj_on (lh_block s) {..<?n}"
      then have "lh_block s j \<noteq> lh_block s i" if "j < i" for j
        using i that inj_onD [of "lh_block s" "{..<?n}" j i] by auto
      then have "lh_block s i \<notin> fst ` set (home_copies (content ?v) ?v i)" by (force simp: home_copies_def)
      then have "dirty (io t) (lh_block s i)" using i d(6) h by blast
      then show ?thesis using d(5) assms(4) by (auto simp: room_def)
    next
      assume "\<forall>c. \<not> clean ?v \<subseteq> {c}"
      then show ?thesis using d(5) assms(4) by (auto simp: room_def)
    qed
    have "does (install_one i) t (\<lambda>_. moved (io t) (lh_block s i) (content (io t) (slot ?v i)))"
    proof (rule install_one_does [OF t d(1)])
      show "vdev (io t) = 1" using d(10) l(1) by simp
      show "slot ?v i = log_start t + of_nat i + 1" using d(9) by (simp add: slot_def)
      show "lh_block s i = lh_block t i" using d(8) by simp
      show "slot ?v i \<noteq> lh_block s i" using a(1) l(4) [OF i] by auto
      show "slot ?v i < disksize t" "lh_block s i < disksize t" using d(11) a(3) l(3) [OF i] by simp_all
    qed (rule r)
    then show "does (install_one i) t (\<lambda>_. went ?v (home_copies (content ?v) ?v (Suc i)))"
      by (rule does_mono) (drule went_moved [OF w], simp add: c home_copies_def)
  qed (simp_all add: home_copies_def went_Nil assms(2))
  then show ?thesis by (simp add: install_trans_def tails_def entries_def)
qed

section \<open>Commit\<close>

text \<open>A transaction is ready to commit: the dirty buffers are those of the blocks that the header lists,
  each once, and a clean buffer is left for the blocks of the log.\<close>

definition pending :: "iov \<Rightarrow> bool" where
  "pending v \<longleftrightarrow> still v \<and> log_ok v \<and> 0 < sint (vn v) \<and> clean v \<noteq> {} \<and> inj_on (vblk v) {..<entries v}
     \<and> (\<forall>x. dirty v x \<longleftrightarrow> x \<in> vblk v ` {..<entries v})"

definition new_head :: "iov \<Rightarrow> block" where
  "new_head v = head_block (vn v) (vblk v) (content v (vstart v))"

definition homes :: "iov \<Rightarrow> (u32 \<times> block) list" where
  "homes v = map (\<lambda>i. (vblk v i, content v (vblk v i))) [0..<entries v]"

text \<open>The blocks that a commit writes, in order: the log, the header, the blocks at home, the empty header.\<close>

definition commit_writes :: "iov \<Rightarrow> (u32 \<times> block) list" where
  "commit_writes v = log_copies (content v) v (entries v) @ [(vstart v, new_head v)] @ homes v
     @ [(vstart v, head_block 0 (vblk v) (new_head v))]"

lemma log_copies_outside:
  assumes "log_ok v" and "n \<le> log_cap v" and "x \<notin> slot v ` {..<n}"
  shows "disk_after f (log_copies g v n) x = f x" "disk_after f (take k (log_copies g v n)) x = f x"
  using assms(3) by (auto simp: log_copies_def dest!: in_set_takeD intro!: disk_after_other)

lemma head_not_slot: "log_ok v \<Longrightarrow> n \<le> log_cap v \<Longrightarrow> vstart v \<notin> slot v ` {..<n}"
  by (metis imageE lessThan_iff less_le_trans slot_area(2))

lemma area_not_slot: "log_ok v \<Longrightarrow> n \<le> log_cap v \<Longrightarrow> x \<notin> log_area v \<Longrightarrow> x \<notin> slot v ` {..<n}"
  by (metis imageE lessThan_iff less_le_trans slot_area(1))

lemma log_copies_read:
  assumes "log_ok v" and "n \<le> log_cap v" and "i < n"
  shows "disk_after f (log_copies g v n) (slot v i) = g (vblk v i)"
  using assms(2,3)
proof (induction n)
  case (Suc n)
  show ?case
  proof (cases "i = n")
    case False
    then have "slot v n \<noteq> slot v i" using slot_area(4) [OF assms(1), of n i] Suc.prems by simp
    then show ?thesis using Suc False by (simp add: log_copies_def)
  qed (simp add: log_copies_def)
qed simp

lemma homes_after:
  "disk_after f (homes v) x = (if x \<in> vblk v ` {..<entries v} then content v x else f x)"
  "x \<notin> vblk v ` {..<entries v} \<Longrightarrow> disk_after f (take k (homes v)) x = f x"
proof -
  have "disk_after f (map (\<lambda>i. (g i, h (g i))) [0..<n]) x = (if x \<in> g ` {..<n} then h x else f x)" for g :: "nat \<Rightarrow> u32" and h n
    by (induction n) (auto simp: less_Suc_eq)
  then show "disk_after f (homes v) x = (if x \<in> vblk v ` {..<entries v} then content v x else f x)"
    by (simp add: homes_def)
  show "disk_after f (take k (homes v)) x = f x" if "x \<notin> vblk v ` {..<entries v}"
    using that by (auto simp: homes_def dest!: in_set_takeD intro!: disk_after_other)
qed

lemma homes_set: "fst ` set (homes v) = vblk v ` {..<entries v}"
  by (force simp: homes_def)

lemma log_copies_set: "fst ` set (log_copies g v n) = slot v ` {..<n}"
  by (force simp: log_copies_def)

text \<open>The fields of the header do not matter to the cache.\<close>

definition set_head :: "i32 \<Rightarrow> (nat \<Rightarrow> i32) \<Rightarrow> iov \<Rightarrow> iov" where
  "set_head n f v = v\<lparr>vn := n, vblk := f\<rparr>"

lemma set_head_sel [simp]:
  "vbufs (set_head n f v) = vbufs v" "vlist (set_head n f v) = vlist v" "vlocked (set_head n f v) = vlocked v" "vwrites (set_head n f v) = vwrites v"
  "vsize (set_head n f v) = vsize v" "vimage (set_head n f v) = vimage v" "vdev (set_head n f v) = vdev v" "vstart (set_head n f v) = vstart v"
  "vn (set_head n f v) = n" "vblk (set_head n f v) = f" "vdisk (set_head n f v) = vdisk v"
  "vlogsize (set_head n f v) = vlogsize v" "vout (set_head n f v) = vout v"
  by (simp_all add: set_head_def vdisk_def)

lemma set_head_cache [simp]:
  "bmatch (set_head n f v) = bmatch v" "holds (set_head n f v) = holds v" "content (set_head n f v) = content v" "clean (set_head n f v) = clean v"
  "dirty (set_head n f v) = dirty v" "cache_ok (set_head n f v) = cache_ok v" "in_use h (set_head n f v) = in_use h v"
  "still (set_head n f v) = still v" "slot (set_head n f v) = slot v" "log_area (set_head n f v) = log_area v"
proof -
  show b: "bmatch (set_head n f v) = bmatch v" by (simp add: fun_eq_iff bmatch_def)
  show h: "holds (set_head n f v) = holds v" by (simp add: fun_eq_iff holds_def b)
  show "content (set_head n f v) = content v" by (simp add: fun_eq_iff content_def h split: option.split)
  show "clean (set_head n f v) = clean v" "dirty (set_head n f v) = dirty v" by (simp_all add: fun_eq_iff clean_def dirty_def b)
  show c: "cache_ok (set_head n f v) = cache_ok v" "in_use h (set_head n f v) = in_use h v" for h
    unfolding cache_ok_def in_use_def b set_head_sel by (rule refl)+
  show "still (set_head n f v) = still v" by (simp add: still_def c)
  show "slot (set_head n f v) = slot v" "log_area (set_head n f v) = log_area v" by (simp_all add: fun_eq_iff slot_def log_area_def log_len_def)
qed

lemma io_set_head [simp]:
  "io (s\<lparr>lh_n := n\<rparr>) = set_head n (lh_block s) (io s)" "io (s\<lparr>lh_block := f\<rparr>) = set_head (lh_n s) f (io s)"
  "io_ok (s\<lparr>lh_n := n\<rparr>) = io_ok s" "io_ok (s\<lparr>lh_block := f\<rparr>) = io_ok s"
  by (simp_all add: io_def set_head_def io_ok_def curproc_def lk_free_def)

lemma went_set_head: "went v ws w \<Longrightarrow> went (set_head n f v) ws (set_head n f w)"
  by (simp add: went_def same_log_def)

lemma set_head_twice [simp]: "set_head n f (set_head m g v) = set_head n f v"
  by (simp add: set_head_def)

text \<open>The two halves of \<open>commit\<close>: up to the header, and from there.\<close>

lemma commit_log_does:
  assumes "io_ok s" and "pending (io s)"
  shows "does (seqk write_log write_head) s (\<lambda>_. went (io s) (log_copies (content (io s)) (io s) (entries (io s)) @ [(log_start s, new_head (io s))]))"
proof -
  let ?v = "io s" and ?lc = "log_copies (content (io s)) (io s) (entries (io s))"
  have p: "still ?v" "log_ok ?v" "clean ?v \<noteq> {}" "\<forall>i<entries ?v. dirty ?v (lh_block s i)"
    using assms(2) by (auto simp: pending_def)
  show ?thesis
  proof (rule does_seqk [OF write_log_does [OF assms(1) p]])
    fix t :: "'a klog_scheme"
    assume t: "io_ok t" "went ?v ?lc (io t)"
    note d = wentD [OF t(2)]
    have h: "content (io t) (log_start s) = content ?v (log_start s)"
      unfolding d(2) using log_copies_outside(1) [OF p(2) log_okD(2) [OF p(2)] head_not_slot [OF p(2) log_okD(2) [OF p(2)]]] by simp
    have e: "log_start t = log_start s" "lh_n t = lh_n s" "lh_block t = lh_block s" using d(7-9) by simp_all
    have "does write_head t (\<lambda>_. moved (io t) (log_start t) (head_block (lh_n t) (lh_block t) (content (io t) (log_start t))))"
      using d(5,10,11) p(3) log_okD(1) [OF p(2)] head_area(2) [OF p(2)] e(1) by (intro write_head_does [OF t(1) d(1)]) auto
    then show "does write_head t (\<lambda>_. went ?v (?lc @ [(log_start s, new_head ?v)]))"
      unfolding e h by (rule does_mono) (drule went_moved [OF t(2)], simp add: new_head_def)
  qed
qed

lemma commit_install_does:
  assumes "io_ok t" and "pending v" and "went v (log_copies (content v) v (entries v) @ [(vstart v, new_head v)]) (io t)"
  shows "does (seqk install_trans (seqk (modk (\<lambda>s. s\<lparr>lh_n := 0\<rparr>)) write_head)) t (\<lambda>_. went (set_head 0 (vblk v) v) (commit_writes v))"
proof -
  let ?lc = "log_copies (content v) v (entries v)"
  have p: "still v" "log_ok v" "clean v \<noteq> {}" "\<forall>i<entries v. dirty v (vblk v i)" "inj_on (vblk v) {..<entries v}"
    using assms(2) by (auto simp: pending_def)
  note l = log_okD [OF p(2)] and d = wentD [OF assms(3)]
  have e: "entries (io t) = entries v" "slot (io t) = slot v" "vblk (io t) = vblk v" "log_ok (io t) = log_ok v"
    using d(7-12) by (simp_all add: entries_def slot_def fun_eq_iff log_dims_defs)
  have out: "vblk v i \<notin> fst ` set (?lc @ [(vstart v, new_head v)])" if "i < entries v" for i
    using area_not_slot [OF p(2) l(2) l(4) [OF that]] head_area(1) [OF p(2)] l(4) [OF that] by (auto simp: log_copies_set)
  have c: "content (io t) (slot v i) = content v (vblk v i)" if "i < entries v" for i
    unfolding d(2) using log_copies_read [OF p(2) l(2) that] slot_area(2) [OF p(2) l(5) [OF that]] by simp
  have hc: "home_copies (content (io t)) (io t) (entries (io t)) = homes v"
    unfolding home_copies_def homes_def e using c by simp
  have i: "does install_trans t (\<lambda>_. went (io t) (homes v))"
    unfolding hc [symmetric]
  proof (rule install_trans_does [OF assms(1) d(1)])
    show "log_ok (io t)" using e(4) p(2) by simp
    show "clean (io t) \<noteq> {}" using d(5) p(3) by auto
    show "(\<forall>i<entries (io t). dirty (io t) (lh_block t i)) \<and> inj_on (lh_block t) {..<entries (io t)} \<or> (\<forall>c. \<not> clean (io t) \<subseteq> {c})"
      using e(1,3) p(4,5) d(6) out by simp
  qed
  show ?thesis
  proof (rule does_seqk [OF i])
    fix u :: "'a klog_scheme"
    assume u: "io_ok u" "went (io t) (homes v) (io u)"
    note w = went_trans [OF assms(3) u(2)]
    note du = wentD [OF w]
    let ?u = "u\<lparr>lh_n := 0\<rparr>"
    have st: "vstart v \<notin> vblk v ` {..<entries v}" using head_area(1) [OF p(2)] l(4) by auto
    have h: "content (io u) (vstart v) = new_head v" unfolding du(2) by (simp add: homes_after st)
    have eu: "log_start u = vstart v" "lh_block u = vblk v" "log_dev u = 1" "disksize u = vsize v" using du(8-11) l(1) by simp_all
    have "does write_head ?u (\<lambda>_. moved (io ?u) (log_start ?u) (head_block (lh_n ?u) (lh_block ?u) (content (io ?u) (log_start ?u))))"
      using du(1,5) p(3) eu head_area(2) [OF p(2)] u(1) by (intro write_head_does) auto
    then have "does write_head ?u (\<lambda>_. moved (set_head 0 (vblk v) (io u)) (vstart v) (head_block 0 (vblk v) (new_head v)))"
      by (simp add: eu h)
    then have "does write_head ?u (\<lambda>_. went (set_head 0 (vblk v) v) (commit_writes v))"
      by (rule does_mono) (drule went_moved [OF went_set_head [OF w]], simp add: commit_writes_def)
    then show "does (seqk (modk (\<lambda>s. s\<lparr>lh_n := 0\<rparr>)) write_head) u (\<lambda>_. went (set_head 0 (vblk v) v) (commit_writes v))"
      by (simp add: does_def)
  qed
qed

lemma seqk_assoc: "seqk (seqk m n) k = seqk m (seqk n k)"
  by (rule ext) (simp add: seqk_def bindk_def split: kres.splits)

lemma commit_does:
  assumes "io_ok s" and "pending (io s)"
  shows "does commit s (\<lambda>_. went (set_head 0 (lh_block s) (io s)) (commit_writes (io s)))"
proof -
  have "0 < sint (lh_n s)" using assms(2) by (simp add: pending_def)
  moreover have "does (seqk (seqk write_log write_head) (seqk install_trans (seqk (modk (\<lambda>s. s\<lparr>lh_n := 0\<rparr>)) write_head))) s
     (\<lambda>_. went (set_head 0 (lh_block s) (io s)) (commit_writes (io s)))"
    using commit_install_does [OF _ assms(2)] by (intro does_seqk [OF commit_log_does [OF assms]]) simp
  ultimately show ?thesis by (simp add: commit_def seqk_assoc unlessk_def)
qed

section \<open>Recovery\<close>

text \<open>A cache without dirty buffers, as after a boot.\<close>

definition cold :: "iov \<Rightarrow> bool" where
  "cold v \<longleftrightarrow> still v \<and> (\<forall>b<NBUF. b_flags (vbufs v b) \<noteq> 6)"

lemma content_not_dirty:
  assumes "cache_ok v" and "\<not> dirty v x"
  shows "content v x = vdisk v x"
proof (cases "\<exists>b. holds v x b")
  case True
  then obtain b where b: "holds v x b" by blast
  then have n: "b < NBUF" "b_flags (vbufs v b) \<noteq> 0" "bmatch v x b" by (simp_all add: holds_def)
  have "b_flags (vbufs v b) = 2" using cache_okD(3) [OF assms(1) n(1)] assms(2) n by (auto simp: dirty_def)
  then show ?thesis using cache_okD(5) [OF assms(1) n(1)] content_hit [OF assms(1) b] n(3) by (simp add: bmatch_def)
qed (simp add: content_miss)

lemma coldD:
  assumes "cold v"
  shows "still v" "content v = vdisk v" "clean v \<noteq> {}" "\<not> clean v \<subseteq> {c}" "\<not> dirty v x"
proof -
  have s: "cache_ok v" and f: "\<And>b. b < NBUF \<Longrightarrow> b_flags (vbufs v b) \<noteq> 6" and st: "still v"
    using assms by (simp_all add: cold_def still_def)
  show "still v" by (rule st)
  have nd: "\<not> dirty v x" for x using f by (auto simp: dirty_def)
  then show "\<not> dirty v x" "content v = vdisk v" using content_not_dirty [OF s] by auto
  have "0 \<in> clean v" "1 \<in> clean v" using f [of 0] f [of 1] by (auto simp: clean_def NBUF_def)
  then show "clean v \<noteq> {}" "\<not> clean v \<subseteq> {c}" by auto
qed

text \<open>What \<open>read_head\<close> makes of a header block.\<close>

definition read_blocks :: "block \<Rightarrow> (nat \<Rightarrow> i32) \<Rightarrow> nat \<Rightarrow> i32" where
  "read_blocks d f i = (if i < nat (sint (get32 d 0)) then get32 d (4 + 4 * i) else f i)"

definition loaded :: "iov \<Rightarrow> iov" where
  "loaded v = set_head (get32 (content v (vstart v)) 0) (read_blocks (content v (vstart v)) (vblk v)) v"

lemma read_head_does:
  assumes "io_ok s" and "still (io s)" and "vdev (io s) = 1" and "log_start s < disksize s" and "clean (io s) \<noteq> {}"
    and "sint (get32 (content (io s) (log_start s)) 0) \<le> int LOGSIZE"
  shows "does read_head s (\<lambda>_. went (loaded (io s)) [])"
proof -
  let ?x = "log_start s" and ?v = "io s" and ?d = "content (io s) (log_start s)"
  have v: "busy {} ?v ?v" using assms(2) by (simp add: busy_def still_def)
  have "does (bindk (bread 1 ?x) (\<lambda>b. bindk (getk (\<lambda>s. b_data (bufs s b))) (\<lambda>d.
       seqk (modk (\<lambda>s. s\<lparr>lh_n := get32 d 0\<rparr>))
         (if sint (get32 d 0) > int LOGSIZE then undefk
          else seqk (modk (\<lambda>s. s\<lparr>lh_block := (\<lambda>i. if i < nat (sint (get32 d 0)) then get32 d (4 + 4 * i) else lh_block s i)\<rparr>))
            (brelse b))))) s (\<lambda>_. went (loaded ?v) [])"
  proof (rule does_bindk [OF bread_does [OF assms(1) v]])
    show "?x < vsize ?v" "(\<exists>b<NBUF. bmatch ?v ?x b) \<or> \<not> clean ?v \<subseteq> {}" using assms(4,5) by simp_all
    fix b and t :: "'a klog_scheme"
    assume t: "io_ok t" "busy {b} ?v (io t) \<and> holds (io t) ?x b \<and> b \<notin> {} \<and> b < NBUF \<and> (\<exists>y. may_take {} ?x b y ?v \<and> io t = taken b y ?v)"
    then have w: "cache_ok (io t)" "in_use {b} (io t)" "content (io t) = content ?v" "lh_block t = lh_block s"
      and h: "holds (io t) ?x b" and b: "b < NBUF"
      by (simp_all add: busy_def same_log_def)
    have d: "b_data (bufs t b) = ?d" using content_hit [OF w(1) h] w(3) by simp
    let ?t = "t\<lparr>lh_n := get32 ?d 0, lh_block := read_blocks ?d (lh_block s)\<rparr>" and ?w = "set_head (get32 ?d 0) (read_blocks ?d (lh_block s)) (io t)"
    have "runs (brelse b) ?t () (returned b ?w)"
      using t(1) w(2) b by (intro brelse_returns [where h = "{b}"]) simp_all
    moreover have "cache_ok ?w" "in_use {b} ?w" using w(1,2) by simp_all
    note r = returned_ok [OF this singletonI b, simplified]
    then have "went (loaded ?v) [] (returned b ?w)"
      using t(2) by (simp add: went_def still_def busy_def dirty_returned same_log_def loaded_def)
    ultimately have "does (brelse b) ?t (\<lambda>_. went (loaded ?v) [])" by (intro doesI)
    then show "does (bindk (getk (\<lambda>s. b_data (bufs s b))) (\<lambda>d.
       seqk (modk (\<lambda>s. s\<lparr>lh_n := get32 d 0\<rparr>))
         (if sint (get32 d 0) > int LOGSIZE then undefk
          else seqk (modk (\<lambda>s. s\<lparr>lh_block := (\<lambda>i. if i < nat (sint (get32 d 0)) then get32 d (4 + 4 * i) else lh_block s i)\<rparr>))
            (brelse b)))) t (\<lambda>_. went (loaded ?v) [])"
      using assms(6) by (simp add: d does_def read_blocks_def [abs_def] w(4) cong: if_cong)
  qed simp
  then show ?thesis using assms(3) by (simp add: read_head_def)
qed

text \<open>The writes of a recovery: the blocks at home, from the log, and the empty header.\<close>

definition recovery_writes :: "iov \<Rightarrow> (u32 \<times> block) list" where
  "recovery_writes v = home_copies (vdisk v) (loaded v) (entries (loaded v)) @ [(vstart v, head_block 0 (vblk (loaded v)) (vdisk v (vstart v)))]"

lemma recover_does:
  assumes "io_ok s" and "cold (io s)" and "log_ok (loaded (io s))"
  shows "does recover_from_log s (\<lambda>_. went (set_head 0 (vblk (loaded (io s))) (io s)) (recovery_writes (io s)))"
proof -
  let ?v = "io s" and ?l = "loaded (io s)"
  note c = coldD [OF assms(2)] and l = log_okD [OF assms(3)]
  have sel: "content ?l = vdisk ?v" "vdisk ?l = vdisk ?v" "clean ?l = clean ?v" "vstart ?l = log_start s" "vsize ?l = disksize s" "vdev ?l = log_dev s"
    by (simp_all add: loaded_def c(2))
  have n: "sint (get32 (content ?v (log_start s)) 0) \<le> int LOGSIZE"
    using l(6) by (simp add: entries_def loaded_def LOGSIZE_def)
  have hd: "log_start s < disksize s" using head_area(2) [OF assms(3)] sel by simp
  have rh: "does read_head s (\<lambda>_. went ?l [])"
    using l(1) sel c(1,3) hd by (intro read_head_does [OF assms(1) _ _ _ _ n]) simp_all
  have inst: "does install_trans t (\<lambda>_. went ?l (home_copies (vdisk ?v) ?l (entries ?l)))" if t: "io_ok t" "went ?l [] (io t)" for t :: "'a klog_scheme"
  proof -
    note d = wentD [OF t(2)]
    have e: "entries (io t) = entries ?l" "slot (io t) = slot ?l" "vblk (io t) = vblk ?l" "log_ok (io t)" "content (io t) = vdisk ?v"
      using d(2,7-12) assms(3) sel by (simp_all add: entries_def slot_def fun_eq_iff log_dims_defs)
    have "clean (io t) \<noteq> {}" "\<forall>c. \<not> clean (io t) \<subseteq> {c}" using d(5) c(4) sel(3) by (auto dest: subset_trans)
    then have "does install_trans t (\<lambda>_. went (io t) (home_copies (content (io t)) (io t) (entries (io t))))"
      by (intro install_trans_does [OF t(1) d(1) e(4)] disjI2)
    then show ?thesis unfolding e(5) home_copies_def e(1-3)
      by (rule does_mono) (drule went_trans [OF t(2)], simp)
  qed
  have fin: "does (seqk (modk (\<lambda>s. s\<lparr>lh_n := 0\<rparr>)) write_head) t (\<lambda>_. went (set_head 0 (vblk ?l) ?v) (recovery_writes ?v))"
    if t: "io_ok t" "went ?l (home_copies (vdisk ?v) ?l (entries ?l)) (io t)" for t :: "'a klog_scheme"
  proof -
    note d = wentD [OF t(2)]
    let ?t = "t\<lparr>lh_n := 0\<rparr>"
    have "log_start s \<notin> fst ` set (home_copies (vdisk ?v) ?l (entries ?l))"
      using head_area(1) [OF assms(3)] l(4) sel(4) by (auto simp: home_copies_def)
    then have h: "content (io t) (log_start s) = vdisk ?v (log_start s)"
      unfolding d(2) sel(1) by (rule disk_after_other)
    have e: "log_start t = log_start s" "lh_block t = vblk ?l" "log_dev t = 1" "disksize t = disksize s" using d(8-11) sel l(1) by simp_all
    have "does write_head ?t (\<lambda>_. moved (io ?t) (log_start ?t) (head_block (lh_n ?t) (lh_block ?t) (content (io ?t) (log_start ?t))))"
      using d(1,5) c(3) e hd sel(3) t(1) by (intro write_head_does) auto
    then have "does write_head ?t (\<lambda>_. moved (set_head 0 (vblk ?l) (io t)) (log_start s) (head_block 0 (vblk ?l) (vdisk ?v (log_start s))))"
      by (simp add: e h)
    then have "does write_head ?t (\<lambda>_. went (set_head 0 (vblk ?l) ?l) (recovery_writes ?v))"
      by (rule does_mono) (drule went_moved [OF went_set_head [OF t(2)]], simp add: recovery_writes_def)
    then show ?thesis by (simp add: does_def loaded_def)
  qed
  show ?thesis unfolding recover_from_log_def
    by (rule does_seqk [OF rh does_seqk [OF inst fin]])
qed

section \<open>Crashes\<close>

text \<open>The disk that a crash leaves holds a log without entries.\<close>

lemma recovery_empty:
  assumes "cold r" and "vdev r = 1" and "log_placed r" and "get32 (vdisk r (vstart r)) 0 = 0"
  shows "log_ok (loaded r)" "x \<noteq> vstart r \<Longrightarrow> disk_after (vdisk r) (recovery_writes r) x = vdisk r x"
proof -
  have "entries (loaded r) = 0" using assms(4) coldD(2) [OF assms(1)] by (simp add: entries_def loaded_def)
  then show "log_ok (loaded r)" "x \<noteq> vstart r \<Longrightarrow> disk_after (vdisk r) (recovery_writes r) x = vdisk r x"
    using assms(2,3) by (simp_all add: log_ok_def loaded_def recovery_writes_def home_copies_def log_placed_def log_len_def)
qed

lemma new_head_words:
  assumes "pending v" and "length (content v (vstart v)) = BSIZE"
  shows "length (new_head v) = BSIZE" "get32 (new_head v) 0 = vn v" "i < entries v \<Longrightarrow> get32 (new_head v) (4 + 4 * i) = vblk v i"
    "get32 (head_block 0 f (new_head v)) 0 = 0"
proof -
  have n: "0 \<le> sint (vn v)" "sint (vn v) \<le> int LOGSIZE" using assms(1) by (auto simp: pending_def entries_def dest: log_okD(6))
  note h = log_header_roundtrip [OF assms(2) n, of "vblk v", folded new_head_def]
  show l: "length (new_head v) = BSIZE" "get32 (new_head v) 0 = vn v" "i < entries v \<Longrightarrow> get32 (new_head v) (4 + 4 * i) = vblk v i"
    using h by (simp_all add: entries_def)
  show "get32 (head_block 0 f (new_head v)) 0 = 0"
    using log_header_roundtrip [OF l(1), of 0 f] by simp
qed

text \<open>The disk that a crash leaves holds the complete log of the transaction.\<close>

lemma recovery_logged:
  assumes "cold r" and "pending v" and "length (content v (vstart v)) = BSIZE" and "vdev r = 1" and "vstart r = vstart v" and "vsize r = vsize v"
    and "vlogsize r = vlogsize v" and "vdisk r (vstart v) = new_head v" and "\<And>i. i < entries v \<Longrightarrow> vdisk r (slot v i) = content v (vblk v i)"
  shows "log_ok (loaded r)"
    "x \<noteq> vstart v \<Longrightarrow> disk_after (vdisk r) (recovery_writes r) x = (if x \<in> vblk v ` {..<entries v} then content v x else vdisk r x)"
proof -
  note h = new_head_words [OF assms(2,3)]
  have lv: "log_ok v" using assms(2) by (simp add: pending_def)
  have l: "loaded r = set_head (vn v) (read_blocks (new_head v) (vblk r)) r"
    using coldD(2) [OF assms(1)] by (simp add: loaded_def assms(5,8) h(2))
  have b: "vblk (loaded r) i = vblk v i" if "i < entries v" for i
    using that h(2) h(3) [OF that] by (simp add: l read_blocks_def entries_def)
  have e: "entries (loaded r) = entries v" "slot (loaded r) = slot v" "log_area (loaded r) = log_area v"
    using assms(5,7) by (simp_all add: l entries_def slot_def log_area_def log_len_def fun_eq_iff)
  show "log_ok (loaded r)"
    using lv b e assms(4-7) unfolding log_ok_def by (simp add: l log_placed_def log_cap_def log_len_def)
  have "home_copies (vdisk r) (loaded r) (entries (loaded r)) = homes v"
    unfolding home_copies_def homes_def e using b assms(9) by simp
  then show "x \<noteq> vstart v \<Longrightarrow> disk_after (vdisk r) (recovery_writes r) x = (if x \<in> vblk v ` {..<entries v} then content v x else vdisk r x)"
    by (simp add: recovery_writes_def assms(5) homes_after)
qed

text \<open>The disk after a prefix of the writes of a commit.\<close>

lemma commit_prefix:
  assumes "k \<le> entries v"
  shows "take k (commit_writes v) = take k (log_copies (content v) v (entries v))"
  using assms by (simp add: commit_writes_def log_copies_def)

lemma commit_middle:
  assumes "entries v < k" and "k \<le> 2 * entries v + 1"
  shows "take k (commit_writes v) = log_copies (content v) v (entries v) @ (vstart v, new_head v) # take (k - entries v - 1) (homes v)"
proof -
  have "k - entries v = Suc (k - entries v - 1)" using assms(1) by simp
  moreover have "k - entries v - 1 \<le> length (homes v)" "length (log_copies (content v) v (entries v)) = entries v"
    using assms by (simp_all add: homes_def log_copies_def)
  ultimately show ?thesis using assms(1) by (simp add: commit_writes_def take_Cons')
qed

lemma commit_whole: "2 * entries v + 1 < k \<Longrightarrow> take k (commit_writes v) = commit_writes v"
  by (simp add: commit_writes_def log_copies_def homes_def)

lemma commit_writes_after:
  assumes "pending v" and "x \<notin> log_area v"
  shows "disk_after (vdisk v) (commit_writes v) x = content v x"
    "x \<notin> vblk v ` {..<entries v} \<Longrightarrow> content v x = vdisk v x"
proof -
  have p: "log_ok v" "cache_ok v" "\<And>x. dirty v x \<longleftrightarrow> x \<in> vblk v ` {..<entries v}" using assms(1) by (simp_all add: pending_def still_def)
  show o: "x \<notin> vblk v ` {..<entries v} \<Longrightarrow> content v x = vdisk v x" using content_not_dirty [OF p(2)] p(3) by blast
  have "x \<noteq> vstart v" using head_area(1) [OF p(1)] assms(2) by auto
  moreover have "disk_after (vdisk v) (log_copies (content v) v (entries v)) x = vdisk v x"
    by (rule log_copies_outside(1) [OF p(1) log_okD(2) [OF p(1)] area_not_slot [OF p(1) log_okD(2) [OF p(1)] assms(2)]])
  ultimately show "disk_after (vdisk v) (commit_writes v) x = content v x"
    using o by (simp add: commit_writes_def homes_after)
qed

lemma recovery_after_crash:
  assumes "cold r" and "pending v" and "length (vdisk v (vstart v)) = BSIZE" and "get32 (vdisk v (vstart v)) 0 = 0"
    and "vdev r = 1" and "vstart r = vstart v" and "vsize r = vsize v" and "vlogsize r = vlogsize v"
    and "vdisk r = disk_after (vdisk v) (take k (commit_writes v))"
  shows "log_ok (loaded r) \<and> (\<forall>x. x \<notin> log_area v \<longrightarrow>
    disk_after (vdisk r) (recovery_writes r) x = (if k \<le> entries v then vdisk v x else content v x))"
proof -
  have p: "log_ok v" "cache_ok v" "\<And>x. dirty v x \<longleftrightarrow> x \<in> vblk v ` {..<entries v}" using assms(2) by (simp_all add: pending_def still_def)
  note l = log_okD [OF p(1)]
  have H: "vstart v \<in> log_area v" "vstart v \<notin> slot v ` {..<entries v}" "vstart v \<notin> vblk v ` {..<entries v}"
    using head_area(1) [OF p(1)] head_not_slot [OF p(1) l(2)] l(4) by auto
  have dims: "log_placed r" using p(1) assms(6-8) by (simp add: log_ok_def log_placed_def log_len_def)
  have cH: "content v (vstart v) = vdisk v (vstart v)" using content_not_dirty [OF p(2)] p(3) H(3) by blast
  note hw = new_head_words [OF assms(2), unfolded cH, OF assms(3)]
  note em = recovery_empty [OF assms(1,5) dims, unfolded assms(6)]
  consider "k \<le> entries v" | "entries v < k" "k \<le> 2 * entries v + 1" | "2 * entries v + 1 < k" by linarith
  then show ?thesis
  proof cases
    case 1
    have o: "vdisk r x = vdisk v x" if "x \<notin> slot v ` {..<entries v}" for x
      unfolding assms(9) commit_prefix [OF 1] by (rule log_copies_outside(2) [OF p(1) l(2) that])
    have "disk_after (vdisk r) (recovery_writes r) x = vdisk v x" if "x \<notin> log_area v" for x
      using em(2) o area_not_slot [OF p(1) l(2)] that H assms(4) by metis
    then show ?thesis using em(1) o [OF H(2)] assms(4) 1 by simp
  next
    case 2
    have h: "vdisk r (vstart v) = new_head v" unfolding assms(9) commit_middle [OF 2] by (simp add: homes_after(2) [OF H(3)])
    have s: "vdisk r (slot v i) = content v (vblk v i)" if "i < entries v" for i
    proof -
      have "slot v i \<notin> vblk v ` {..<entries v}" using slot_area(1) [OF p(1) l(5) [OF that]] l(4) by auto
      then show ?thesis unfolding assms(9) commit_middle [OF 2]
        using slot_area(2) [OF p(1) l(5) [OF that]] by (simp add: homes_after(2) log_copies_read [OF p(1) l(2) that])
    qed
    note r = recovery_logged [OF assms(1,2) _ assms(5-8) h s, unfolded cH, OF assms(3)]
    have "vdisk r x = vdisk v x" if "x \<notin> log_area v" "x \<notin> vblk v ` {..<entries v}" for x
      unfolding assms(9) commit_middle [OF 2]
      using that H(1) by (auto simp: homes_after(2) log_copies_outside(1) [OF p(1) l(2) area_not_slot [OF p(1) l(2)]])
    then have "disk_after (vdisk r) (recovery_writes r) x = content v x" if "x \<notin> log_area v" for x
      using r(2) [of x] commit_writes_after(2) [OF assms(2) that] H(1) that by metis
    then show ?thesis using r(1) 2(1) by simp
  next
    case 3
    have "vdisk r (vstart v) = head_block 0 (vblk v) (new_head v)" unfolding assms(9) commit_whole [OF 3] by (simp add: commit_writes_def)
    then have e: "get32 (vdisk r (vstart v)) 0 = 0" using hw(4) by simp
    have "disk_after (vdisk r) (recovery_writes r) x = content v x" if "x \<notin> log_area v" for x
      using em(2) [OF e, of x] commit_writes_after(1) [OF assms(2) that] H(1) that assms(9) commit_whole [OF 3] by metis
    then show ?thesis using em(1) [OF e] 3 by simp
  qed
qed

text \<open>The machine that boots on the disk left by the writes \<open>ws\<close>, just before it recovers: the cache
  holds nothing unwritten and the log is where the superblock says.\<close>

definition rebooted :: "'a klog_scheme \<Rightarrow> (u32 \<times> block) list \<Rightarrow> 'a klog_scheme \<Rightarrow> bool" where
  "rebooted s ws r \<longleftrightarrow> io_ok r \<and> cold (io r) \<and> memdisk r = disk_after (memdisk s) ws
     \<and> log_dev r = log_dev s \<and> log_start r = log_start s \<and> log_size r = log_size s \<and> disksize r = disksize s"

text \<open>C3: a transaction is atomic under crashes. A \<open>commit\<close> of a pending transaction returns with
  every block outside the log on the disk as the cache has it. If the machine stops after any number \<open>k\<close> of the
  commit's disk writes, then \<open>recover_from_log\<close> of the machine booted on that disk returns, and every
  block outside the log is as before the transaction if the header was not yet written, and as after
  the transaction otherwise: never a mixture.\<close>

theorem commit_crash_atomic:
  assumes "io_ok s" and "pending (io s)" and "length (memdisk s (log_start s)) = BSIZE" and "get32 (memdisk s (log_start s)) 0 = 0"
  shows "\<exists>t. commit s = Done () t \<and> disk_writes t = disk_writes s @ commit_writes (io s) \<and> lh_n t = 0
    \<and> (\<forall>x. x \<notin> log_area (io s) \<longrightarrow> memdisk t x = content (io s) x)
    \<and> (\<forall>k r. rebooted s (take k (commit_writes (io s))) r \<longrightarrow> (\<exists>u. recover_from_log r = Done () u \<and> lh_n u = 0
        \<and> (\<forall>x. x \<notin> log_area (io s) \<longrightarrow> memdisk u x = (if k \<le> nat (sint (lh_n s)) then memdisk s x else content (io s) x))))"
proof -
  let ?v = "io s"
  obtain t where t: "commit s = Done () t" "went (set_head 0 (lh_block s) ?v) (commit_writes ?v) (io t)"
    using commit_does [OF assms(1,2)] by (auto simp: does_def)
  have rec: "\<exists>u. recover_from_log r = Done () u \<and> lh_n u = 0
      \<and> (\<forall>x. x \<notin> log_area ?v \<longrightarrow> memdisk u x = (if k \<le> nat (sint (lh_n s)) then memdisk s x else content ?v x))"
    if r: "rebooted s (take k (commit_writes ?v)) r" for k r
  proof -
    have c: "io_ok r" "cold (io r)" and e: "log_dev r = 1" "log_start r = log_start s" "disksize r = disksize s" "log_size r = log_size s"
      "memdisk r = disk_after (memdisk s) (take k (commit_writes ?v))"
      using r assms(2) by (simp_all add: rebooted_def pending_def log_ok_def)
    note a = recovery_after_crash [OF c(2) assms(2), unfolded io_sel, OF assms(3,4) e]
    obtain u where "recover_from_log r = Done () u" "went (set_head 0 (vblk (loaded (io r))) (io r)) (recovery_writes (io r)) (io u)"
      using recover_does [OF c a [THEN conjunct1]] by (auto simp: does_def)
    then show ?thesis using a wentD(3,7) [of "set_head 0 (vblk (loaded (io r))) (io r)" "recovery_writes (io r)" "io u"]
      by (auto simp: entries_def)
  qed
  have "disk_writes t = disk_writes s @ commit_writes ?v" "lh_n t = 0" "memdisk t = disk_after (memdisk s) (commit_writes ?v)"
    using wentD(3,4,7) [OF t(2)] by simp_all
  then show ?thesis using t(1) rec commit_writes_after(1) [OF assms(2)] by auto
qed

text \<open>A machine with one logged block dirty in buffer 0, the block 32 that follows the log and holds the root inode; and the machine booted on the disk after
  the copy in the log and the header are written, but not the block itself.\<close>

definition crash_state :: klog where
  "crash_state = (log_state 0 1)\<lparr>lh_block := (\<lambda>_. 32), blist := [0..<30], disksize := 1000, disk_image := (\<lambda>_. replicate BSIZE 0), disk_writes := [],
     bufs := (\<lambda>b. if b = 0 then \<lparr>b_flags = 6, b_dev = 1, b_blockno = 32, b_refcnt = 0, b_data = replicate BSIZE 7\<rparr>
       else \<lparr>b_flags = 0, b_dev = 0, b_blockno = 0, b_refcnt = 0, b_data = []\<rparr>)\<rparr>"

definition reboot_state :: klog where
  "reboot_state = crash_state\<lparr>disk_image := disk_after (memdisk crash_state) (take 2 (commit_writes (io crash_state))),
     bufs := (\<lambda>b. \<lparr>b_flags = 0, b_dev = 0, b_blockno = 0, b_refcnt = 0, b_data = []\<rparr>)\<rparr>"

lemma crash_state_sel:
  "bufs crash_state b = (if b = 0 then \<lparr>b_flags = 6, b_dev = 1, b_blockno = 32, b_refcnt = 0, b_data = replicate BSIZE 7\<rparr>
       else \<lparr>b_flags = 0, b_dev = 0, b_blockno = 0, b_refcnt = 0, b_data = []\<rparr>)"
  "blist crash_state = [0..<30]" "disksize crash_state = 1000" "memdisk crash_state = (\<lambda>_. replicate BSIZE 0)" "lh_n crash_state = 1"
  "lh_block crash_state i = 32" "log_start crash_state = 2" "log_dev crash_state = 1" "log_size crash_state = 30" "sl_locked (slks crash_state (BufSl b)) = 0"
  by (simp_all add: crash_state_def memdisk_def log_state_def ktrace.defs kbuf.defs klog.defs io_state_def)

lemma crash_state_io: "io_ok crash_state"
  using log_state_ok(1-3) [where out = 0 and n = 1] by (simp add: io_ok_def crash_state_def curproc_def lk_free_def)

lemma crash_state_cache: "still (io crash_state)" "dirty (io crash_state) x \<longleftrightarrow> x = 32" "1 \<in> clean (io crash_state)" "content (io crash_state) 32 = replicate BSIZE 7"
proof -
  have m: "bmatch (io crash_state) x b \<longleftrightarrow> b = 0 \<and> x = 32" for x b by (auto simp: bmatch_def crash_state_sel)
  show s: "still (io crash_state)"
    by (simp add: still_def cache_ok_def in_use_def m crash_state_sel NBUF_def atLeast0LessThan)
  show "dirty (io crash_state) x \<longleftrightarrow> x = 32" "1 \<in> clean (io crash_state)"
    by (auto simp: dirty_def m clean_def crash_state_sel NBUF_def)
  have "holds (io crash_state) 32 0" by (simp add: holds_def m NBUF_def crash_state_sel)
  then show "content (io crash_state) 32 = replicate BSIZE 7"
    using content_hit s by (simp add: still_def crash_state_sel)
qed

lemma crash_state_pending: "pending (io crash_state)" "32 \<notin> log_area (io crash_state)"
proof -
  have e: "entries (io crash_state) = 1" by (simp add: entries_def crash_state_sel)
  show a: "32 \<notin> log_area (io crash_state)" by (simp add: log_area_def log_len_def crash_state_sel)
  have "log_ok (io crash_state)" using a by (simp add: log_ok_def log_placed_def log_cap_def log_len_def e crash_state_sel LOGSIZE_def)
  then show "pending (io crash_state)"
    using crash_state_cache by (auto simp: pending_def e crash_state_sel inj_on_def)
qed

lemma reboot_state_ok: "rebooted crash_state (take 2 (commit_writes (io crash_state))) reboot_state"
proof -
  have "io_ok reboot_state" using crash_state_io by (simp add: io_ok_def reboot_state_def curproc_def lk_free_def)
  moreover have w: "disk_writes crash_state = []" by (simp add: crash_state_def)
  have "memdisk reboot_state = disk_after (memdisk crash_state) (take 2 (commit_writes (io crash_state)))"
    by (simp add: memdisk_def [of reboot_state]) (simp add: reboot_state_def w)
  moreover have "cold (io reboot_state)"
    using crash_state_sel(2,10) by (simp add: cold_def still_def cache_ok_def in_use_def bmatch_def reboot_state_def NBUF_def atLeast0LessThan)
  ultimately show ?thesis by (simp add: rebooted_def reboot_state_def)
qed

theorem commit_crash_atomic_witness:
  "(\<exists>t. commit crash_state = Done () t \<and> memdisk t 32 = replicate BSIZE 7)
   \<and> (\<exists>u. recover_from_log reboot_state = Done () u \<and> memdisk u 32 = replicate BSIZE 7)"
proof -
  have h: "length (memdisk crash_state (log_start crash_state)) = BSIZE" "get32 (memdisk crash_state (log_start crash_state)) 0 = 0"
    by (simp_all add: crash_state_sel get32_def BSIZE_def)
  note c = commit_crash_atomic [OF crash_state_io crash_state_pending(1) h]
  then show ?thesis
    using crash_state_pending(2) crash_state_cache(4) reboot_state_ok by (fastforce simp: crash_state_sel(5))
qed

end
