(* ===== verification/Journal.thy ===== *)
theory Journal
  imports Crash Fs
begin

text \<open>Transactions of the file system (\<open>fs.c\<close>, \<open>log.c\<close>) from the first change of a block to the commit:
  \<open>log_write\<close> keeps the invariant that the dirty buffers are exactly the blocks that the header of the log
  lists, a block changed by \<open>bread\<close>, \<open>log_write\<close> and \<open>brelse\<close> is seen by every reader and by no crash, and
  \<open>end_op\<close> commits the transaction or wakes the operations that wait for space.\<close>

section \<open>Writing a block inside a transaction\<close>

text \<open>What \<open>log_write\<close> does to the view: the buffer becomes dirty and the header lists its block.\<close>

definition listed :: "iov \<Rightarrow> u32 set" where
  "listed v = vblk v ` {..<entries v}"

definition relog :: "u32 \<Rightarrow> iov \<Rightarrow> iov" where
  "relog x v = (if x \<in> listed v then v else set_head (vn v + 1) ((vblk v)(entries v := x)) v)"

definition dirtied :: "nat \<Rightarrow> iov \<Rightarrow> iov" where
  "dirtied b v = set_buf b ((vbufs v b)\<lparr>b_flags := b_flags (vbufs v b) OR B_DIRTY\<rparr>) v"

lemma set_buf_sel [simp]:
  "vbufs (set_buf b y v) = (vbufs v)(b := y)" "vlist (set_buf b y v) = vlist v" "vlocked (set_buf b y v) = vlocked v" "vwrites (set_buf b y v) = vwrites v"
  "vsize (set_buf b y v) = vsize v" "vimage (set_buf b y v) = vimage v" "vdev (set_buf b y v) = vdev v" "vstart (set_buf b y v) = vstart v"
  "vn (set_buf b y v) = vn v" "vblk (set_buf b y v) = vblk v" "vdisk (set_buf b y v) = vdisk v" "vlogsize (set_buf b y v) = vlogsize v" "vout (set_buf b y v) = vout v"
  by (simp_all add: set_buf_def vdisk_def)

lemma relog_sel [simp]:
  "vbufs (relog x v) = vbufs v" "vstart (relog x v) = vstart v" "vsize (relog x v) = vsize v" "vdev (relog x v) = vdev v" "vdisk (relog x v) = vdisk v"
  "vlogsize (relog x v) = vlogsize v" "vout (relog x v) = vout v" "vwrites (relog x v) = vwrites v"
  by (simp_all add: relog_def)

lemma relog_cache [simp]:
  "bmatch (relog x v) = bmatch v" "holds (relog x v) = holds v" "content (relog x v) = content v" "clean (relog x v) = clean v"
  "dirty (relog x v) = dirty v" "cache_ok (relog x v) = cache_ok v" "in_use h (relog x v) = in_use h v" "log_area (relog x v) = log_area v"
  by (simp_all add: relog_def)

lemma log_write_runs:
  fixes s :: "'a klog_scheme"
  assumes "io_ok s" and "io s = v" and "sint (vn v) < int LOGSIZE" and "sint (vn v) < sint (vlogsize v - 1)" and "1 \<le> sint (vout v)"
  shows "runs (log_write b) s () (dirtied b (relog (b_blockno (vbufs v b)) v))"
proof -
  let ?x = "b_blockno (bufs s b)" and ?n = "nat (sint (lh_n s))" and ?a = "acquired LogLk s"
  let ?r = "find_index (\<lambda>i. lh_block s i = ?x) ?n"
  define m where "m = (case ?r of Some i \<Rightarrow> ?a\<lparr>lh_block := (lh_block s)(i := ?x)\<rparr>
    | None \<Rightarrow> ?a\<lparr>lh_block := (lh_block s)(?n := ?x), lh_n := lh_n s + 1\<rparr>)"
  let ?t = "upd_buf b (\<lambda>x. x\<lparr>b_flags := b_flags x OR B_DIRTY\<rparr>) m"
  have m: "cur_cpu m = cur_cpu s" "cpus m = cpus ?a" "slocks m = slocks ?a" "bufs m = bufs s"
    by (simp_all add: m_def split: option.split)
  then have mt: "cur_cpu ?t = cur_cpu s" "cpus ?t = cpus ?a" "slocks ?t = slocks ?a" by simp_all
  note f = section_facts [OF assms(1) io_lock_simps(3) mt] section_release [OF assms(1) io_lock_simps(3) mt]
  have g: "\<not> sint (lh_n s) \<ge> int LOGSIZE" "\<not> sint (lh_n s) \<ge> sint (log_size s - 1)" "\<not> sint (log_outstanding s) < 1"
    using assms(2-5) by auto
  have "log_write b s = Done () (released LogLk ?t)"
    using g f(5) by (cases ?r) (simp_all add: log_write_def section_enter [OF assms(1)] m_def)
  moreover have "io m = relog ?x (io s)"
  proof (cases ?r)
    case None
    then have "?x \<notin> listed (io s)" by (auto simp: find_index_None listed_def entries_def)
    then show ?thesis using None by (simp add: m_def relog_def entries_def)
  next
    case (Some i)
    then have i: "i < ?n" "lh_block s i = ?x" by (rule find_index_SomeD)+
    then have "?x \<in> listed (io s)" by (auto simp: listed_def entries_def intro!: image_eqI [of _ _ i])
    moreover have "(lh_block s)(i := ?x) = lh_block s" using i(2) by auto
    ultimately show ?thesis using Some by (simp add: m_def relog_def)
  qed
  then have "io (released LogLk ?t) = dirtied b (relog ?x (io s))" by (simp add: dirtied_def m(4))
  ultimately show ?thesis using f(4) assms(2) by (intro runsI) auto
qed

text \<open>The data \<open>d\<close> is in the cache, in the dirty buffer \<open>b\<close>.\<close>

definition put_dirty :: "nat \<Rightarrow> block \<Rightarrow> iov \<Rightarrow> iov" where
  "put_dirty b d v = set_buf b ((vbufs v b)\<lparr>b_data := d, b_flags := 6\<rparr>) v"

lemma put_dirty_sel [simp]:
  "vbufs (put_dirty b d v) = (vbufs v)(b := (vbufs v b)\<lparr>b_data := d, b_flags := 6\<rparr>)" "vlist (put_dirty b d v) = vlist v"
  "vlocked (put_dirty b d v) = vlocked v" "vwrites (put_dirty b d v) = vwrites v" "vsize (put_dirty b d v) = vsize v" "vdev (put_dirty b d v) = vdev v"
  "vstart (put_dirty b d v) = vstart v" "vn (put_dirty b d v) = vn v" "vblk (put_dirty b d v) = vblk v" "vdisk (put_dirty b d v) = vdisk v"
  "vlogsize (put_dirty b d v) = vlogsize v" "vout (put_dirty b d v) = vout v"
  by (simp_all add: put_dirty_def)

lemma put_dirty_bmatch [simp]: "bmatch (put_dirty b d v) z c = bmatch v z c"
  by (auto simp: bmatch_def)

lemma put_dirty_ok:
  assumes "cache_ok v" and "in_use h v" and "holds v x b"
  shows "cache_ok (put_dirty b d v)" "in_use h (put_dirty b d v)" "content (put_dirty b d v) = (content v)(x := d)"
    "dirty (put_dirty b d v) z \<longleftrightarrow> dirty v z \<or> z = x"
proof -
  note c = cache_okD [OF assms(1)]
  have b: "b < NBUF" "bmatch v x b" "b_flags (vbufs v b) \<noteq> 0" using assms(3) by (simp_all add: holds_def)
  have dev: "b_dev (vbufs v b) = 1" "b_blockno (vbufs v b) = x" using b(2) by (simp_all add: bmatch_def)
  have "b_flags (vbufs (put_dirty b d v) e) \<in> {0, 2, 6} \<and> (b_flags (vbufs (put_dirty b d v) e) \<noteq> 0 \<longrightarrow> b_dev (vbufs (put_dirty b d v) e) = 1)
     \<and> (b_flags (vbufs (put_dirty b d v) e) = 2 \<longrightarrow> b_data (vbufs (put_dirty b d v) e) = vdisk (put_dirty b d v) (b_blockno (vbufs (put_dirty b d v) e)))"
    if e: "e < NBUF" for e
  proof (cases "e = b")
    case False
    then show ?thesis using c(3-5) [OF e] by simp
  qed (simp add: dev)
  moreover have "bmatch v z e \<Longrightarrow> bmatch v z e' \<Longrightarrow> e = e'" if "e < NBUF" "e' < NBUF" for z e e'
    using c(6) [OF that] by blast
  ultimately show ok: "cache_ok (put_dirty b d v)"
    unfolding cache_ok_def put_dirty_bmatch put_dirty_sel(2) using c(1,2) by blast
  show "in_use h (put_dirty b d v)" using assms(2) by (auto simp: in_use_def)
  have hp: "holds (put_dirty b d v) z e \<longleftrightarrow> holds v z e" for z e
    using b(3) by (auto simp: holds_def)
  have "content (put_dirty b d v) z = ((content v)(x := d)) z" for z
  proof (cases "z = x")
    case True
    have "holds (put_dirty b d v) x b" using assms(3) hp by simp
    then show ?thesis using content_hit [OF ok] True by simp
  next
    case False
    have "content (put_dirty b d v) z = content v z"
    proof (rule content_cong [OF assms(1) ok hp])
      show "b_data (vbufs (put_dirty b d v) e) = b_data (vbufs v e)" if "holds v z e" for e
        using that False dev(2) by (auto simp: holds_def bmatch_def)
    qed simp
    then show ?thesis using False by simp
  qed
  then show "content (put_dirty b d v) = (content v)(x := d)" by blast
  show "dirty (put_dirty b d v) z \<longleftrightarrow> dirty v z \<or> z = x"
    using b(1,2) dev(2) by (auto simp: dirty_def bmatch_def)
qed

text \<open>Inside a transaction, while the process uses the buffers \<open>h\<close>: the dirty buffers are those of the
  blocks that the header lists, each once, and the log has room for another block.\<close>

definition tracked :: "nat set \<Rightarrow> iov \<Rightarrow> bool" where
  "tracked h v \<longleftrightarrow> cache_ok v \<and> in_use h v \<and> log_ok v \<and> 0 \<le> sint (vn v) \<and> inj_on (vblk v) {..<entries v} \<and> (\<forall>x. dirty v x \<longleftrightarrow> x \<in> listed v)"

definition log_room :: "iov \<Rightarrow> bool" where
  "log_room v \<longleftrightarrow> sint (vn v) < int LOGSIZE - 1 \<and> sint (vn v) < sint (vlogsize v - 1) \<and> 1 \<le> sint (vout v)"

lemma relog_listed:
  assumes "0 \<le> sint (vn v)" and "sint (vn v) < int LOGSIZE - 1" and "inj_on (vblk v) {..<entries v}"
  shows "listed (relog x v) = insert x (listed v)" "inj_on (vblk (relog x v)) {..<entries (relog x v)}" "entries (relog x v) < 30" "0 \<le> sint (vn (relog x v))"
    "0 < sint (vn (relog x v))" "entries (relog x v) \<le> Suc (entries v)"
proof -
  have e: "sint (vn v + 1) = sint (vn v) + 1" "entries v < 29"
    using assms(1,2) sint_small_add(3) [of "vn v" 0] by (simp_all add: LOGSIZE_def entries_def)
  have n: "entries (set_head (vn v + 1) f v) = Suc (entries v)" for f using assms(1) by (simp add: entries_def e(1))
  have p: "0 < sint (vn v)" if "x \<in> listed v" using that by (auto simp: listed_def entries_def)
  show "listed (relog x v) = insert x (listed v)"
    by (auto simp: relog_def listed_def n lessThan_Suc)
  show "inj_on (vblk (relog x v)) {..<entries (relog x v)}"
    using assms(3) by (auto simp: relog_def n lessThan_Suc listed_def inj_on_def)
  show "entries (relog x v) < 30" "0 \<le> sint (vn (relog x v))" "0 < sint (vn (relog x v))"
    using e(2) assms(1) p by (simp_all add: relog_def n) (simp_all add: e(1))
  show "entries (relog x v) \<le> Suc (entries v)" by (simp add: relog_def n)
qed

lemma log_ok_listed: "log_ok v \<longleftrightarrow> vdev v = 1 \<and> log_placed v \<and> entries v \<le> log_cap v \<and> (\<forall>x\<in>listed v. x < vsize v \<and> x \<notin> log_area v)"
  by (auto simp: log_ok_def listed_def)

lemma sint_pred: "0 < sint (x :: i32) \<Longrightarrow> sint (x - 1) = sint x - 1"
  using sint_lt [of x] by (simp add: sint_word_ariths signed_take_bit_int_eq_self)

lemma room_cap:
  assumes "log_ok v" and "0 \<le> sint (vn v)" and "log_room v"
  shows "Suc (entries v) \<le> log_cap v"
proof -
  have "0 < sint (vlogsize v)" using assms(1) by (simp add: log_ok_def log_placed_def log_len_def)
  then show ?thesis using assms(2,3) by (simp add: log_room_def sint_pred entries_def log_cap_def log_len_def LOGSIZE_def) linarith
qed

lemma tracked_put:
  assumes "tracked h v" and "log_room v" and "holds v x b" and "x < vsize v" and "x \<notin> log_area v"
  shows "tracked h (put_dirty b d (relog x v))" "0 < sint (vn (put_dirty b d (relog x v)))" "content (put_dirty b d (relog x v)) = (content v)(x := d)"
    "entries (put_dirty b d (relog x v)) < 30"
proof -
  have v: "cache_ok v" "in_use h v" "log_ok v" "0 \<le> sint (vn v)" "inj_on (vblk v) {..<entries v}" "\<forall>x. dirty v x \<longleftrightarrow> x \<in> listed v"
    using assms(1) by (simp_all add: tracked_def)
  note r = relog_listed [OF v(4) _ v(5), of x]
  have n: "sint (vn v) < int LOGSIZE - 1" using assms(2) by (simp add: log_room_def)
  let ?w = "relog x v" and ?p = "put_dirty b d (relog x v)"
  have w: "cache_ok ?w" "in_use h ?w" "holds ?w x b" using v assms(3) by simp_all
  note p = put_dirty_ok [OF w, of d]
  have s: "listed ?p = listed ?w" "entries ?p = entries ?w" "vn ?p = vn ?w" "log_area ?p = log_area v"
    "log_placed ?p = log_placed v" "log_cap ?p = log_cap v"
    by (simp_all add: listed_def entries_def) (simp_all add: log_area_def log_placed_def log_cap_def log_len_def)
  show "0 < sint (vn ?p)" "entries ?p < 30" unfolding s using r(3,5) [OF n] by simp_all
  show "content ?p = (content v)(x := d)" using p(3) by simp
  have "log_ok ?p" using v(3) r(1) [OF n] order_trans [OF r(6) [OF n] room_cap [OF v(3,4) assms(2)]] assms(4,5) unfolding log_ok_listed s by simp
  moreover have "inj_on (vblk ?p) {..<entries ?p}" using r(2) [OF n] unfolding s by simp
  moreover have "dirty ?p z \<longleftrightarrow> z \<in> listed ?p" for z using p(4) v(6) r(1) [OF n] unfolding s by auto
  ultimately show "tracked h ?p" using p(1,2) r(4) [OF n] unfolding tracked_def s by blast
qed

lemma clean_left:
  assumes "tracked h v" and "entries v < 30"
  shows "clean v \<noteq> {}"
proof
  assume e: "clean v = {}"
  have v: "cache_ok v" "\<forall>x. dirty v x \<longleftrightarrow> x \<in> listed v" using assms(1) by (simp_all add: tracked_def)
  let ?f = "\<lambda>b. b_blockno (vbufs v b)"
  have f: "b_flags (vbufs v b) = 6" if "b < NBUF" for b using e that by (auto simp: clean_def)
  have m: "bmatch v (?f b) b" if "b < NBUF" for b using cache_okD(4) [OF v(1) that] f [OF that] by (simp add: bmatch_def)
  have "?f ` {..<NBUF} \<subseteq> listed v" using f m v(2) by (auto simp: dirty_def)
  moreover have "inj_on ?f {..<NBUF}"
    using m cache_okD(6) [OF v(1)] by (auto simp: inj_on_def) metis
  moreover have "finite (listed v)" "card (listed v) \<le> entries v" unfolding listed_def using card_image_le [of "{..<entries v}"] by auto
  ultimately have "NBUF \<le> entries v" using card_inj_on_le [of ?f "{..<NBUF}" "listed v"] by auto
  then show False using assms(2) by (simp add: NBUF_def)
qed

lemma set_data_runs: "io_ok s \<Longrightarrow> runs (set_data b d) s () (set_buf b ((bufs s b)\<lparr>b_data := d\<rparr>) (io s))"
  unfolding set_data_def by (rule runs_modk) simp_all

lemma dirtied_put:
  assumes "cache_ok v" and "holds v x b"
  shows "dirtied b (relog x (set_buf b ((vbufs v b)\<lparr>b_data := d\<rparr>) v)) = put_dirty b d (relog x v)"
proof -
  have b: "b < NBUF" "b_flags (vbufs v b) \<noteq> 0" using assms(2) by (simp_all add: holds_def)
  have "b_flags (vbufs v b) = 2 \<or> b_flags (vbufs v b) = 6" using cache_okD(3) [OF assms(1) b(1)] b(2) by blast
  then have f: "b_flags (vbufs v b) OR B_DIRTY = 6" by (auto simp: B_DIRTY_def)
  have "relog x (set_buf b y v) = set_buf b y (relog x v)" for y
    by (simp add: relog_def listed_def entries_def set_head_def set_buf_def)
  then show ?thesis by (simp add: dirtied_def put_dirty_def f set_buf_def)
qed

text \<open>The way the file system changes a block: read it, change the buffer, log it, return it.\<close>

definition written :: "iov \<Rightarrow> u32 \<Rightarrow> block \<Rightarrow> iov \<Rightarrow> bool" where
  "written v x d w \<longleftrightarrow> tracked {} w \<and> pending w \<and> content w = (content v)(x := d) \<and> vdisk w = vdisk v \<and> vwrites w = vwrites v
     \<and> listed w = insert x (listed v) \<and> vstart w = vstart v \<and> vsize w = vsize v \<and> vlogsize w = vlogsize v \<and> vout w = vout v"

lemma tracked_pending:
  assumes "tracked {} v" and "entries v < 30" and "0 < sint (vn v)"
  shows "pending v"
  using assms clean_left [OF assms(1,2)] by (simp add: tracked_def pending_def still_def listed_def)

lemma tracked_returned:
  assumes "tracked h v" and "b \<in> h" and "b < NBUF"
  shows "tracked (h - {b}) (returned b v)" "listed (returned b v) = listed v" "entries (returned b v) = entries v"
proof -
  have v: "cache_ok v" "in_use h v" using assms(1) by (simp_all add: tracked_def)
  note r = returned_ok [OF v assms(2,3)]
  show l: "listed (returned b v) = listed v" "entries (returned b v) = entries v" by (simp_all add: listed_def entries_def)
  have "log_ok (returned b v) = log_ok v" by (simp add: log_dims_defs l)
  then show "tracked (h - {b}) (returned b v)"
    using assms(1) r l by (simp add: tracked_def dirty_returned)
qed

lemma log_store_runs:
  fixes t :: "'a klog_scheme"
  assumes "io_ok t" and "tracked {b} (io t)" and "log_room (io t)" and "holds (io t) x b" and "x < disksize t" and "x \<notin> log_area (io t)"
  shows "runs (seqk (set_data b d) (seqk (log_write b) (brelse b))) t () (returned b (put_dirty b d (relog x (io t))))"
proof (rule runs_seqk [OF set_data_runs [OF assms(1)]])
  let ?p = "put_dirty b d (relog x (io t))"
  have c: "cache_ok (io t)" and b: "b < NBUF" "b_blockno (bufs t b) = x"
    using assms(2,4) by (simp_all add: tracked_def holds_def bmatch_def)
  have p: "in_use {b} ?p" using tracked_put(1) [OF assms(2-4), of d] assms(5,6) by (simp add: tracked_def)
  have g: "sint (lh_n t) < int LOGSIZE" "sint (lh_n t) < sint (log_size t - 1)" "1 \<le> sint (log_outstanding t)"
    using assms(3) by (simp_all add: log_room_def)
  fix u :: "'a klog_scheme"
  assume u: "io_ok u" "io u = set_buf b ((bufs t b)\<lparr>b_data := d\<rparr>) (io t)"
  show "runs (seqk (log_write b) (brelse b)) u () (returned b ?p)"
  proof (rule runs_seqk)
    show "runs (log_write b) u () ?p"
      using log_write_runs [OF u, of b] g dirtied_put [OF c assms(4), of d] by (simp add: b(2))
    show "runs (brelse b) t' () (returned b ?p)" if "io_ok t'" "io t' = ?p" for t' :: "'a klog_scheme"
      using that p b(1) by (intro brelse_returns [where h = "{b}"]) simp_all
  qed
qed

lemma log_store_written:
  assumes "busy {b} v w" and "tracked {b} w" and "log_room w" and "holds w x b" and "x < vsize w" and "x \<notin> log_area w"
  shows "written v x d (returned b (put_dirty b d (relog x w)))"
proof -
  let ?p = "put_dirty b d (relog x w)"
  have w: "content w = content v" "vdisk w = vdisk v" "vwrites w = vwrites v" "same_log v w" and b: "b < NBUF"
    using assms(1,4) by (simp_all add: busy_def holds_def)
  note p = tracked_put [OF assms(2-6), of d]
  have cp: "cache_ok ?p" "in_use {b} ?p" using p(1) by (simp_all add: tracked_def)
  note r = returned_ok [OF cp singletonI b] and q = tracked_returned [OF p(1) singletonI b]
  have q': "tracked {} (returned b ?p)" using q(1) by simp
  moreover have "pending (returned b ?p)" using p(2,4) q(3) by (intro tracked_pending [OF q']) simp_all
  moreover have "listed ?p = insert x (listed v)"
    using relog_listed(1) [of w x] assms(2,3) w(4) by (simp add: listed_def entries_def tracked_def log_room_def same_log_def)
  ultimately show ?thesis using r(3) p(3) w q(2) by (simp add: written_def same_log_def)
qed

lemma update_does:
  fixes s :: "'a klog_scheme"
  assumes "io_ok s" and "tracked {} (io s)" and "log_room (io s)" and "x < disksize s" and "x \<notin> log_area (io s)"
    and "\<And>b t :: 'a klog_scheme. b_data (bufs t b) = content (io s) x \<Longrightarrow> f b t = seqk (set_data b d) (seqk (log_write b) (brelse b)) t"
  shows "does (bindk (bread 1 x) f) s (\<lambda>_. written (io s) x d)"
proof -
  let ?v = "io s"
  have v: "busy {} ?v ?v" using assms(2) by (simp add: busy_def tracked_def)
  have "sint (vn ?v) < int LOGSIZE - 1" using assms(3) by (simp add: log_room_def)
  then have cl: "clean ?v \<noteq> {}" by (intro clean_left [OF assms(2)]) (simp add: entries_def LOGSIZE_def)
  show ?thesis
  proof (rule does_bindk [OF bread_does [OF assms(1) v]])
    show "x < vsize ?v" "(\<exists>b<NBUF. bmatch ?v x b) \<or> \<not> clean ?v \<subseteq> {}" using assms(4) cl by simp_all
    fix b and t :: "'a klog_scheme"
    assume t: "io_ok t" "busy {b} ?v (io t) \<and> holds (io t) x b \<and> b \<notin> {} \<and> b < NBUF \<and> (\<exists>y. may_take {} x b y ?v \<and> io t = taken b y ?v)"
    then have bs: "busy {b} ?v (io t)" and h: "holds (io t) x b" by simp_all
    then have w: "cache_ok (io t)" "in_use {b} (io t)" "content (io t) = content ?v" "same_log ?v (io t)" "\<forall>z. dirty (io t) z = dirty ?v z"
      by (simp_all add: busy_def)
    have l: "listed (io t) = listed ?v" "entries (io t) = entries ?v" "log_area (io t) = log_area ?v" "log_ok (io t) = log_ok ?v" "log_room (io t) = log_room ?v"
      using w(4) by (simp_all add: same_log_def listed_def entries_def log_dims_defs log_room_def)
    have tr: "tracked {b} (io t)" using assms(2) w l by (simp add: tracked_def same_log_def)
    have x: "log_room (io t)" "x < disksize t" "x \<notin> log_area (io t)" using assms(3-5) w(4) l(3,5) by (simp_all add: same_log_def)
    have "runs (f b) t () (returned b (put_dirty b d (relog x (io t))))"
      using log_store_runs [OF t(1) tr x(1) h x(2,3), of d] assms(6) [of t b] content_hit [OF w(1) h] w(3) by (simp add: runs_def)
    moreover have "written ?v x d (returned b (put_dirty b d (relog x (io t))))"
      using x(2) by (intro log_store_written [OF bs tr x(1) h _ x(3)]) simp
    ultimately show "does (f b) t (\<lambda>_. written ?v x d)" by (rule doesI)
  qed simp
qed

text \<open>C16: \<open>bzero\<close> inside a transaction. If the dirty buffers are exactly the listed blocks and the log has
  room, zeroing a block outside the log returns; a reader then sees zeros there and every other block
  as before, the disk is unchanged, the invariant holds again and the transaction can be committed.\<close>

theorem bzero_logged:
  assumes "io_ok s" and "tracked {} (io s)" and "log_room (io s)" and "x < disksize s" and "x \<notin> log_area (io s)"
  shows "\<exists>t. bzero 1 x s = Done () t \<and> io_ok t \<and> tracked {} (io t) \<and> pending (io t)
    \<and> content (io t) = (content (io s))(x := replicate BSIZE 0) \<and> memdisk t = memdisk s \<and> listed (io t) = insert x (listed (io s))"
proof -
  have "does (bzero 1 x) s (\<lambda>_. written (io s) x (replicate BSIZE 0))"
    unfolding bzero_def by (rule update_does [OF assms]) simp
  then show ?thesis by (auto simp: does_def written_def)
qed


text \<open>The number of running operations does not matter to the cache.\<close>

definition set_out :: "i32 \<Rightarrow> iov \<Rightarrow> iov" where
  "set_out k v = v\<lparr>vout := k\<rparr>"

lemma set_out_sel [simp]:
  "vbufs (set_out k v) = vbufs v" "vlist (set_out k v) = vlist v" "vlocked (set_out k v) = vlocked v" "vwrites (set_out k v) = vwrites v"
  "vsize (set_out k v) = vsize v" "vimage (set_out k v) = vimage v" "vdev (set_out k v) = vdev v" "vstart (set_out k v) = vstart v"
  "vn (set_out k v) = vn v" "vblk (set_out k v) = vblk v" "vdisk (set_out k v) = vdisk v" "vlogsize (set_out k v) = vlogsize v" "vout (set_out k v) = k"
  by (simp_all add: set_out_def vdisk_def)

lemma set_out_cache [simp]:
  "content (set_out k v) = content v" "entries (set_out k v) = entries v" "log_area (set_out k v) = log_area v" "pending (set_out k v) = pending v"
proof -
  have b: "bmatch (set_out k v) = bmatch v" by (simp add: fun_eq_iff bmatch_def)
  have h: "holds (set_out k v) = holds v" by (simp add: fun_eq_iff holds_def b)
  show "content (set_out k v) = content v" by (simp add: fun_eq_iff content_def h split: option.split)
  have d: "clean (set_out k v) = clean v" "dirty (set_out k v) = dirty v" by (simp_all add: fun_eq_iff clean_def dirty_def b)
  have c: "still (set_out k v) = still v"
    unfolding still_def cache_ok_def in_use_def b set_out_sel by (rule refl)
  show e: "entries (set_out k v) = entries v" and a: "log_area (set_out k v) = log_area v" by (simp_all add: entries_def log_area_def log_len_def)
  have "log_ok (set_out k v) = log_ok v" by (simp add: log_dims_defs e)
  then show "pending (set_out k v) = pending v" by (simp add: pending_def c d e)
qed

lemma log_locked [simp]:
  "log_outstanding (acquired l s) = log_outstanding s" "log_committing (acquired l s) = log_committing s"
  "log_outstanding (released l s) = log_outstanding s" "log_committing (released l s) = log_committing s"
  by (simp_all add: acquired_def released_def)

lemma io_log_upd [simp]:
  "io (s\<lparr>log_outstanding := k\<rparr>) = set_out k (io s)" "io (s\<lparr>log_committing := c\<rparr>) = io s"
  by (simp_all add: io_def set_out_def)

text \<open>After the commit no block is dirty and the header is empty.\<close>

lemma committed_tracked:
  assumes "pending v" and "went (set_head 0 (vblk v) v) (commit_writes v) w"
  shows "tracked {} w" "listed w = {}" "x \<notin> log_area v \<Longrightarrow> content w x = content v x" "x \<notin> log_area v \<Longrightarrow> vdisk w x = content v x"
proof -
  note d = wentD [OF assms(2)]
  have p: "log_ok v" "\<And>x. dirty v x \<longleftrightarrow> x \<in> vblk v ` {..<entries v}" using assms(1) by (simp_all add: pending_def)
  have e: "entries w = 0" using d(7) by (simp add: entries_def)
  then show l: "listed w = {}" by (simp add: listed_def)
  have "\<not> dirty w z" for z using d(6) [of z] p(2) homes_set [of v] by (auto simp: commit_writes_def)
  moreover have "log_ok w" using p(1) d(9-12) e by (simp add: log_ok_def log_placed_def log_len_def)
  ultimately show "tracked {} w" using d(1,7) e l by (simp add: tracked_def still_def)
  then have c: "content w x = vdisk w x" using \<open>\<not> dirty w x\<close> content_not_dirty by (simp add: tracked_def)
  show "x \<notin> log_area v \<Longrightarrow> vdisk w x = content v x" using d(3) commit_writes_after(1) [OF assms(1)] by simp
  then show "x \<notin> log_area v \<Longrightarrow> content w x = content v x" using c by simp
qed

lemma end_op_leave_last:
  assumes "io_ok s" and "log_outstanding s = 1" and "log_committing s = 0"
  shows "runs end_op_leave s True (set_out 0 (io s))"
proof -
  let ?t = "(acquired LogLk s)\<lparr>log_outstanding := 0, log_committing := 1\<rparr>"
  have mt: "cur_cpu ?t = cur_cpu s" "cpus ?t = cpus (acquired LogLk s)" "slocks ?t = slocks (acquired LogLk s)" by simp_all
  note f = section_facts [OF assms(1) io_lock_simps(3) mt] section_release [OF assms(1) io_lock_simps(3) mt]
  have "end_op_leave s = Done True (released LogLk ?t)"
    using assms(2,3) by (simp add: end_op_leave_def section_enter [OF assms(1)] f(6) retk_def)
  moreover have "io (released LogLk ?t) = set_out 0 (io s)" by (simp add: io_def set_out_def released_def acquired_def)
  ultimately show ?thesis using f(4) by (intro runsI)
qed

lemma end_op_wake:
  assumes "io_ok s"
  shows "\<exists>t. seqk (acquire LogLk) (seqk (modk (\<lambda>s. s\<lparr>log_committing := 0\<rparr>)) (seqk (wakeup LogCh) (release LogLk))) s = Done () t
    \<and> io_ok t \<and> io t = io s \<and> log_committing t = 0"
proof -
  let ?t = "(acquired LogLk s)\<lparr>log_committing := 0\<rparr>"
  let ?w = "(acquired PtableLk ?t)\<lparr>ptable := on_slots {..<NPROC} (wake_proc (Some LogCh)) (ptable ?t)\<rparr>"
  let ?u = "released PtableLk ?w"
  have mt: "cur_cpu ?t = cur_cpu s" "cpus ?t = cpus (acquired LogLk s)" "slocks ?t = slocks (acquired LogLk s)" by simp_all
  note f = section_facts [OF assms io_lock_simps(3) mt]
  have pt: "lk_free PtableLk ?t" "cpu_wf (thiscpu ?t)"
    using io_okD(3) [OF assms, of PtableLk] f(2) cpu_wf_locked by (simp_all add: lk_free_def)
  have w: "wakeup LogCh ?t = Done () ?u" by (rule wakeup_eq [OF pt])
  have q: "quiet ?t ?u" using pt by (intro quiet_section) simp_all
  have h: "holding LogLk ?u" "cpu_locked (thiscpu ?u)"
    using quiet_holding [OF q, of LogLk] f(1,2) by simp_all
  have e: "seqk (acquire LogLk) (seqk (modk (\<lambda>s. s\<lparr>log_committing := 0\<rparr>)) (seqk (wakeup LogCh) (release LogLk))) s = Done () (released LogLk ?u)"
    using release_Done [OF h] by (simp add: section_enter [OF assms] seqk_Done [where m = "wakeup LogCh" and s = ?t, OF w])
  have "quiet s (released LogLk ?u)"
    using quiet_trans [OF f(3) quiet_released [OF q f(2)]] by simp
  then have "io_ok (released LogLk ?u)" by (rule io_ok_quiet [OF _ assms])
  moreover have "io (released LogLk ?u) = io s" "log_committing (released LogLk ?u) = 0"
    by (simp_all add: io_def released_def acquired_def)
  ultimately show ?thesis using e by blast
qed

text \<open>C15: the last \<open>end_op\<close> of a transaction commits it. With one operation left and a pending transaction,
  \<open>end_op\<close> returns; every block outside the log is on the disk as the cache had it, the log in memory
  and on the disk is empty and no operation is left, so that the invariant of the next transaction
  holds.\<close>

theorem end_op_commits:
  assumes "io_ok s" and "pending (io s)" and "log_outstanding s = 1" and "log_committing s = 0" and "length (memdisk s (log_start s)) = BSIZE"
  shows "\<exists>t. end_op s = Done () t \<and> io_ok t \<and> tracked {} (io t) \<and> listed (io t) = {} \<and> log_committing t = 0 \<and> log_outstanding t = 0
    \<and> get32 (memdisk t (log_start s)) 0 = 0
    \<and> (\<forall>x. x \<notin> log_area (io s) \<longrightarrow> memdisk t x = content (io s) x \<and> content (io t) x = content (io s) x)"
proof -
  let ?v = "set_out 0 (io s)"
  obtain t where t: "end_op_leave s = Done True t" "io_ok t" "io t = ?v"
    using end_op_leave_last [OF assms(1,3,4)] by (auto simp: runs_def)
  have p: "pending ?v" "pending (io t)" using assms(2) t(3) by simp_all
  obtain u where u: "commit t = Done () u" "io_ok u" "went (set_head 0 (vblk ?v) ?v) (commit_writes ?v) (io u)"
    using commit_does [OF t(2) p(2)] io_eqD(10) [OF t(3)] unfolding t(3) by (auto simp: does_def)
  obtain w where w: "seqk (acquire LogLk) (seqk (modk (\<lambda>s. s\<lparr>log_committing := 0\<rparr>)) (seqk (wakeup LogCh) (release LogLk))) u = Done () w"
    "io_ok w" "io w = io u" "log_committing w = 0" using end_op_wake [OF u(2)] by blast
  have e: "end_op s = Done () w"
    by (simp add: end_op_def bindk_Done [where m = end_op_leave and s = s, OF t(1)] unlessk_def seqk_Done [where m = commit and s = t, OF u(1)] w(1))
  note c = committed_tracked [OF p(1) u(3), folded w(3)] and d = wentD [OF u(3), folded w(3)]
  have o: "log_outstanding w = 0" using u(3) io_eqD(12) [OF w(3)] by (simp add: went_def same_log_def)
  have cH: "content ?v (vstart ?v) = vdisk ?v (vstart ?v)"
    using p(1) head_area(1) [of ?v] log_okD(4) [of ?v] by (intro content_not_dirty) (auto simp: pending_def still_def)
  have "length (content ?v (vstart ?v)) = BSIZE" unfolding cH using assms(5) by simp
  then have "get32 (memdisk w (log_start s)) 0 = 0"
    using new_head_words(4) [OF p(1)] d(3) by (simp add: commit_writes_def)
  then show ?thesis using e w(2,4) c o by auto
qed

text \<open>The state of \<open>crash_state\<close> in its last operation.\<close>

definition last_state :: klog where
  "last_state = crash_state\<lparr>log_outstanding := 1\<rparr>"

lemma last_state_ok:
  "io_ok last_state" "pending (io last_state)" "log_outstanding last_state = 1" "log_committing last_state = 0" "log_start last_state = 2"
  "memdisk last_state = (\<lambda>_. replicate BSIZE 0)" "content (io last_state) 32 = replicate BSIZE 7" "32 \<notin> log_area (io last_state)"
proof -
  show "io_ok last_state" using crash_state_io by (simp add: io_ok_def last_state_def curproc_def lk_free_def)
  show "pending (io last_state)" "content (io last_state) 32 = replicate BSIZE 7" "32 \<notin> log_area (io last_state)"
    using crash_state_pending crash_state_cache(4) by (simp_all add: last_state_def)
  show "log_outstanding last_state = 1" "log_start last_state = 2" by (simp_all add: last_state_def crash_state_sel)
  show "log_committing last_state = 0" using log_state_ok(7) [where out = 0 and n = 1] by (simp add: last_state_def crash_state_def)
  show "memdisk last_state = (\<lambda>_. replicate BSIZE 0)" using crash_state_sel(4) by (simp add: last_state_def memdisk_def)
qed

theorem end_op_commits_witness:
  "\<exists>t. end_op last_state = Done () t \<and> memdisk t 32 = replicate BSIZE 7 \<and> log_outstanding t = 0"
proof -
  have l: "length (memdisk last_state (log_start last_state)) = BSIZE" by (simp add: last_state_ok)
  show ?thesis using end_op_commits [OF last_state_ok(1-4) l] last_state_ok(7,8) by auto
qed

theorem bzero_logged_witness:
  "\<exists>t. bzero 1 700 last_state = Done () t \<and> content (io t) 700 = replicate BSIZE 0 \<and> content (io t) 32 = replicate BSIZE 7 \<and> pending (io t)"
proof -
  have "tracked {} (io last_state)" using last_state_ok(2) by (simp add: tracked_def pending_def still_def listed_def)
  moreover have "lh_n last_state = 1" "log_size last_state = 30"
    by (simp_all add: last_state_def crash_state_sel)
  then have "log_room (io last_state)" by (simp add: log_room_def LOGSIZE_def last_state_ok(3))
  moreover have "disksize last_state = 1000" by (simp add: last_state_def crash_state_sel)
  moreover have "700 \<notin> log_area (io last_state)" by (simp add: log_area_def log_len_def last_state_ok(5) last_state_def crash_state_sel)
  ultimately show ?thesis using bzero_logged [OF last_state_ok(1), of 700] last_state_ok(7) by auto
qed

text \<open>C17: waiting operations are not forgotten. An \<open>end_op\<close> that is not the last one returns with one
  operation less, and every process that \<open>begin_op\<close> had put to sleep on the log is runnable again.\<close>

theorem end_op_wakes:
  assumes "io_ok s" and "log_committing s = 0" and "log_outstanding s \<noteq> 1" and "p < NPROC" and "p_state (ptable s p) = SLEEPING" and "p_chan (ptable s p) = Some LogCh"
  shows "\<exists>t. end_op s = Done () t \<and> log_outstanding t = log_outstanding s - 1 \<and> p_state (ptable t p) = RUNNABLE"
proof -
  let ?t = "(acquired LogLk s)\<lparr>log_outstanding := log_outstanding s - 1\<rparr>"
  let ?w = "(acquired PtableLk ?t)\<lparr>ptable := on_slots {..<NPROC} (wake_proc (Some LogCh)) (ptable ?t)\<rparr>"
  let ?u = "released PtableLk ?w"
  have mt: "cur_cpu ?t = cur_cpu s" "cpus ?t = cpus (acquired LogLk s)" "slocks ?t = slocks (acquired LogLk s)" by simp_all
  note f = section_facts [OF assms(1) io_lock_simps(3) mt]
  have pt: "lk_free PtableLk ?t" "cpu_wf (thiscpu ?t)"
    using io_okD(3) [OF assms(1), of PtableLk] f(2) cpu_wf_locked by (simp_all add: lk_free_def)
  have w: "wakeup LogCh ?t = Done () ?u" by (rule wakeup_eq [OF pt])
  have q: "quiet ?t ?u" using pt by (intro quiet_section) simp_all
  have h: "holding LogLk ?u" "cpu_locked (thiscpu ?u)"
    using quiet_holding [OF q, of LogLk] f(1,2) by simp_all
  have nz: "log_outstanding s - 1 \<noteq> 0" using assms(3) by simp
  have e: "end_op_leave s = Done False (released LogLk ?u)"
    using seqk_release [OF h, of "retk False"] assms(2) nz
    by (simp add: end_op_leave_def section_enter [OF assms(1)] seqk_Done [where m = "wakeup LogCh" and s = ?t, OF w] retk_def)
  have "end_op s = Done () (released LogLk ?u)"
    by (simp only: end_op_def bindk_Done [where m = end_op_leave and s = s, OF e] unlessk_def not_False_eq_True if_True retk_def)
  moreover have "ptable (released LogLk ?u) = on_slots {..<NPROC} (wake_proc (Some LogCh)) (ptable s)"
    "log_outstanding (released LogLk ?u) = log_outstanding s - 1"
    by (simp_all add: released_def acquired_def)
  ultimately show ?thesis using assms(4-6) by (auto simp: on_slots_apply wake_proc_def)
qed

theorem end_op_wakes_witness:
  "\<exists>t. end_op ((log_state 2 5)\<lparr>ptable := (ptable (log_state 2 5))(4 := (ptable (log_state 2 5) 4)\<lparr>p_state := SLEEPING, p_chan := Some LogCh\<rparr>)\<rparr>) = Done () t
    \<and> log_outstanding t = 1 \<and> p_state (ptable t 4) = RUNNABLE"
proof -
  let ?s = "(log_state 2 5)\<lparr>ptable := (ptable (log_state 2 5))(4 := (ptable (log_state 2 5) 4)\<lparr>p_state := SLEEPING, p_chan := Some LogCh\<rparr>)\<rparr>"
  have "io_ok ?s" using log_state_ok(1-3) [where out = 2 and n = 5] by (simp add: io_ok_def curproc_def lk_free_def)
  then show ?thesis
    using end_op_wakes [of ?s 4] log_state_ok(5,7) [where out = 2 and n = 5] by (simp add: NPROC_def)
qed

text \<open>Recovery establishes the invariant of the first transaction after the boot.\<close>

lemma recover_ready:
  assumes "io_ok s" and "cold (io s)" and "log_ok (loaded (io s))"
  shows "\<exists>t. recover_from_log s = Done () t \<and> io_ok t \<and> tracked {} (io t) \<and> listed (io t) = {}"
proof -
  let ?v = "set_head 0 (vblk (loaded (io s))) (io s)"
  obtain t where t: "recover_from_log s = Done () t" "io_ok t" "went ?v (recovery_writes (io s)) (io t)"
    using recover_does [OF assms] by (auto simp: does_def)
  note d = wentD [OF t(3)]
  have e: "entries (io t) = 0" using d(7) by (simp add: entries_def)
  then have l: "listed (io t) = {}" by (simp add: listed_def)
  have "\<not> dirty (io t) z" for z using d(6) [of z] coldD(5) [OF assms(2)] by simp
  moreover have "vdev (io t) = 1" "log_placed (io t)"
    using assms(3) d(9-12) by (simp_all add: log_ok_def loaded_def log_placed_def log_len_def)
  then have "log_ok (io t)" using e by (simp add: log_ok_def)
  ultimately have "tracked {} (io t)" using d(1,7) e l by (simp add: tracked_def still_def)
  then show ?thesis using t(1,2) l by blast
qed

end
