(* ===== verification/Grep.thy ===== *)
theory Grep
  imports Main
begin

text \<open>
  The program \<open>grep\<close> (\<open>src/grep.c\<close>): the regular-expression matcher with \<open>^\<close>, \<open>.\<close>, \<open>*\<close> and
  \<open>$\<close>, and the loop that splits its input into lines. Strings are lists of characters before the
  NUL. The matcher is shown to decide membership in the language that a pattern denotes, the
  line loop to print exactly the lines that match.
\<close>

section \<open>The matcher\<close>

text \<open>\<open>matchhere\<close> and \<open>matchstar\<close> call each other: a call of \<open>matchstar\<close> has a shorter pattern, and
  each round of its loop a shorter text.\<close>

function (sequential) matchhere :: "string \<Rightarrow> string \<Rightarrow> bool"
  and matchstar :: "char \<Rightarrow> string \<Rightarrow> string \<Rightarrow> bool" where
  "matchhere [] str = True"
| "matchhere (c # re) str = (if re \<noteq> [] \<and> hd re = CHR ''*'' then matchstar c (tl re) str
     else if c = CHR ''$'' \<and> re = [] then str = []
     else if str \<noteq> [] \<and> (c = CHR ''.'' \<or> c = hd str) then matchhere re (tl str)
     else False)"
| "matchstar c re str = (if matchhere re str then True
     else if str \<noteq> [] \<and> (hd str = c \<or> c = CHR ''.'') then matchstar c re (tl str) else False)"
  by pat_completeness auto

termination
  by (relation "measures [\<lambda>x. case x of Inl (re, t) \<Rightarrow> length re | Inr (c, re, t) \<Rightarrow> length re,
      \<lambda>x. case x of Inl (re, t) \<Rightarrow> length t | Inr (c, re, t) \<Rightarrow> length t, \<lambda>x. case x of Inl _ \<Rightarrow> 0 | Inr _ \<Rightarrow> 1]")
    (auto simp: neq_Nil_conv)

fun match_loop :: "string \<Rightarrow> string \<Rightarrow> bool" where
  "match_loop re str = (if matchhere re str then True
     else case str of [] \<Rightarrow> False | _ # str' \<Rightarrow> match_loop re str')"

definition match_c :: "string \<Rightarrow> string \<Rightarrow> bool" where
  "match_c re str = (if re \<noteq> [] \<and> hd re = CHR ''^'' then matchhere (tl re) str else match_loop re str)"

section \<open>The line loop\<close>

text \<open>\<open>strchr(p, c)\<close> on a buffer that may hold NULs before its end; the result is an index.\<close>

fun strchr :: "string \<Rightarrow> char \<Rightarrow> nat option" where
  "strchr [] c = None"
| "strchr (x # xs) c = (if x = CHR 0x00 then None else if x = c then Some 0 else map_option Suc (strchr xs c))"

lemma strchr_Some: "strchr p c = Some k \<Longrightarrow> k < length p \<and> p ! k = c \<and> c \<notin> set (take k p)"
  by (induction p arbitrary: k) (auto split: if_splits)

text \<open>The inner loop of \<open>grep\<close> from position \<open>p\<close>: what it writes and what is left of the buffer.\<close>

function grep_lines :: "string \<Rightarrow> string \<Rightarrow> string \<times> string" where
  "grep_lines pattern p = (case strchr p (CHR 0x0A) of
     None \<Rightarrow> ([], p)
   | Some k \<Rightarrow> let line = take k p; (out, left) = grep_lines pattern (drop (Suc k) p) in
       ((if match_c pattern line then line @ [CHR 0x0A] else []) @ out, left))"
  by auto

termination
  by (relation "measure (\<lambda>(pattern, p). length p)") (auto dest: strchr_Some)

declare grep_lines.simps [simp del]

text \<open>
  The outer loop over the results of \<open>read\<close>; \<open>pend\<close> is the content of \<open>buf\<close> up to \<open>m\<close>. When
  the buffer holds no newline the loop sets \<open>m\<close> to 0, otherwise it moves the rest to the front.
\<close>

fun grep :: "string \<Rightarrow> string \<Rightarrow> string list \<Rightarrow> string" where
  "grep pattern pend [] = []"
| "grep pattern pend (chunk # reads) = (if chunk = [] then [] else
     let (out, left) = grep_lines pattern (pend @ chunk);
         pend' = (if length left = length (pend @ chunk) then [] else left)
     in out @ grep pattern pend' reads)"

section \<open>The language of a pattern\<close>

datatype ritem = One char | Star char

text \<open>The items of a pattern and whether it ends in the anchor \<open>$\<close>.\<close>

fun items :: "string \<Rightarrow> ritem list \<times> bool" where
  "items [] = ([], False)"
| "items (c # re) = (if re \<noteq> [] \<and> hd re = CHR ''*'' then apfst ((#) (Star c)) (items (tl re))
     else if c = CHR ''$'' \<and> re = [] then ([], True)
     else apfst ((#) (One c)) (items re))"

definition fits :: "char \<Rightarrow> char \<Rightarrow> bool" where
  "fits c x \<longleftrightarrow> c = CHR ''.'' \<or> c = x"

fun lang :: "ritem list \<Rightarrow> string set" where
  "lang [] = {[]}"
| "lang (One c # is) = {x # w |x w. fits c x \<and> w \<in> lang is}"
| "lang (Star c # is) = {u @ w |u w. (\<forall>x\<in>set u. fits c x) \<and> w \<in> lang is}"

text \<open>The texts that start with a word of the language, to the end if the pattern is anchored.\<close>

definition starts :: "ritem list \<times> bool \<Rightarrow> string \<Rightarrow> bool" where
  "starts r str \<longleftrightarrow> (\<exists>u v. str = u @ v \<and> u \<in> lang (fst r) \<and> (snd r \<longrightarrow> v = []))"

lemma starts_Nil: "starts ([], False) str" "starts ([], True) str \<longleftrightarrow> str = []"
  by (auto simp: starts_def)

lemma starts_One: "starts (apfst ((#) (One c)) r) str \<longleftrightarrow> str \<noteq> [] \<and> fits c (hd str) \<and> starts r (tl str)"
  by (cases str) (auto simp: starts_def Cons_eq_append_conv)

lemma starts_Star_iff:
  "starts (apfst ((#) (Star c)) r) s \<longleftrightarrow> (\<exists>u v. s = u @ v \<and> (\<forall>x\<in>set u. fits c x) \<and> starts r v)"
proof
  assume "starts (apfst ((#) (Star c)) r) s"
  then obtain p q where p: "s = p @ q" "p \<in> lang (Star c # fst r)" "snd r \<longrightarrow> q = []"
    unfolding starts_def by auto
  from p(2) obtain u w where "p = u @ w" "\<forall>x\<in>set u. fits c x" "w \<in> lang (fst r)"
    by auto
  then have "s = (u @ w) @ q" "\<forall>x\<in>set u. fits c x" "w \<in> lang (fst r)" "snd r \<longrightarrow> q = []"
    using p by simp_all
  then have "s = u @ (w @ q)" "starts r (w @ q)" by (auto simp: starts_def)
  then show "\<exists>u v. s = u @ v \<and> (\<forall>x\<in>set u. fits c x) \<and> starts r v"
    using \<open>\<forall>x\<in>set u. fits c x\<close> by blast
next
  assume "\<exists>u v. s = u @ v \<and> (\<forall>x\<in>set u. fits c x) \<and> starts r v"
  then obtain u w q where "s = u @ w @ q" "\<forall>x\<in>set u. fits c x" "w \<in> lang (fst r)" "snd r \<longrightarrow> q = []"
    unfolding starts_def by blast
  then have "s = (u @ w) @ q" "u @ w \<in> lang (fst (apfst ((#) (Star c)) r))" "snd (apfst ((#) (Star c)) r) \<longrightarrow> q = []"
    by auto
  then show "starts (apfst ((#) (Star c)) r) s"
    unfolding starts_def by blast
qed

lemma starts_Star:
  "starts (apfst ((#) (Star c)) r) str \<longleftrightarrow>
     starts r str \<or> str \<noteq> [] \<and> fits c (hd str) \<and> starts (apfst ((#) (Star c)) r) (tl str)"
proof
  assume "starts (apfst ((#) (Star c)) r) str"
  then obtain u v where "str = u @ v" "\<forall>x\<in>set u. fits c x" "starts r v"
    by (auto simp: starts_Star_iff)
  then show "starts r str \<or> str \<noteq> [] \<and> fits c (hd str) \<and> starts (apfst ((#) (Star c)) r) (tl str)"
    by (cases u) (auto simp: starts_Star_iff)
next
  assume "starts r str \<or> str \<noteq> [] \<and> fits c (hd str) \<and> starts (apfst ((#) (Star c)) r) (tl str)"
  then show "starts (apfst ((#) (Star c)) r) str"
  proof
    assume "starts r str"
    then have "str = [] @ str \<and> (\<forall>x\<in>set []. fits c x) \<and> starts r str" by simp
    then show ?thesis unfolding starts_Star_iff by blast
  next
    assume a: "str \<noteq> [] \<and> fits c (hd str) \<and> starts (apfst ((#) (Star c)) r) (tl str)"
    then obtain u v where "tl str = u @ v" "\<forall>x\<in>set u. fits c x" "starts r v"
      by (auto simp: starts_Star_iff)
    then have "str = (hd str # u) @ v \<and> (\<forall>x\<in>set (hd str # u). fits c x) \<and> starts r v"
      using a by (metis append_Cons list.collapse set_ConsD)
    then show ?thesis unfolding starts_Star_iff by blast
  qed
qed

lemma matchhere_starts:
  "matchhere re str \<longleftrightarrow> starts (items re) str"
  "matchstar c re str \<longleftrightarrow> starts (apfst ((#) (Star c)) (items re)) str"
proof (induction re str and c re str rule: matchhere_matchstar.induct)
  case (1 str)
  then show ?case by (simp add: starts_Nil)
next
  case (2 c re str)
  then show ?case by (auto simp: starts_Nil starts_One fits_def simp del: apfst_conv)
next
  case (3 c re str)
  then show ?case by (subst starts_Star) (auto simp: fits_def)
qed

lemma match_loop_iff: "match_loop re str \<longleftrightarrow> (\<exists>a b. str = a @ b \<and> starts (items re) b)"
proof (induction str)
  case Nil
  then show ?case by (simp add: matchhere_starts)
next
  case (Cons x str)
  then show ?case by (auto simp: matchhere_starts Cons_eq_append_conv)
qed

declare match_loop.simps [simp del]

lemma ex_append: "(\<exists>a b. s = a @ b \<and> (\<exists>u v. b = u @ v \<and> P u v)) \<longleftrightarrow> (\<exists>a u v. s = a @ u @ v \<and> P u v)"
  by blast

section \<open>Lines\<close>

text \<open>The complete lines of a text, without the newlines, and the rest after the last newline.\<close>

fun split_lines :: "string \<Rightarrow> string list \<times> string" where
  "split_lines [] = ([], [])"
| "split_lines (x # xs) = (let (ls, r) = split_lines xs in
     if x = CHR 0x0A then ([] # ls, r) else case ls of [] \<Rightarrow> ([], x # r) | l # ls' \<Rightarrow> ((x # l) # ls', r))"

definition print_lines :: "string \<Rightarrow> string list \<Rightarrow> string" where
  "print_lines pattern ls = concat (map (\<lambda>l. l @ [CHR 0x0A]) (filter (match_c pattern) ls))"

lemma split_lines_no: "CHR 0x0A \<notin> set p \<Longrightarrow> split_lines p = ([], p)"
  by (induction p) auto

lemma split_lines_line:
  "CHR 0x0A \<notin> set l \<Longrightarrow> split_lines (l @ CHR 0x0A # r) = (l # fst (split_lines r), snd (split_lines r))"
  by (induction l) (auto split: prod.splits)

lemma split_lines_append:
  "split_lines (p @ q) = (fst (split_lines p) @ fst (split_lines (snd (split_lines p) @ q)), snd (split_lines (snd (split_lines p) @ q)))"
  by (induction p) (auto split: prod.splits list.splits)

lemma strchr_None: "CHR 0x00 \<notin> set p \<Longrightarrow> strchr p c = None \<longleftrightarrow> c \<notin> set p"
  by (induction p) auto

lemma grep_lines_eq:
  "CHR 0x00 \<notin> set p \<Longrightarrow> grep_lines pattern p = (print_lines pattern (fst (split_lines p)), snd (split_lines p))"
proof (induction pattern p rule: grep_lines.induct)
  case (1 pattern p)
  show ?case
  proof (cases "strchr p (CHR 0x0A)")
    case None
    then show ?thesis
      using 1(2) strchr_None [of p "CHR 0x0A"] by (simp add: grep_lines.simps [of pattern p] split_lines_no print_lines_def del: not_None_eq)
  next
    case (Some k)
    then have k: "k < length p" "p ! k = CHR 0x0A" "CHR 0x0A \<notin> set (take k p)"
      by (auto dest: strchr_Some)
    then have p: "p = take k p @ CHR 0x0A # drop (Suc k) p"
      by (metis id_take_nth_drop)
    have "CHR 0x00 \<notin> set (drop (Suc k) p)"
      using 1(2) by (meson in_set_dropD)
    note ih = 1(1) [OF Some refl this]
    have s: "split_lines p = (take k p # fst (split_lines (drop (Suc k) p)), snd (split_lines (drop (Suc k) p)))"
      by (subst p, rule split_lines_line) (rule k(3))
    show ?thesis
      unfolding s by (simp add: grep_lines.simps [of pattern p] Some ih print_lines_def Let_def)
  qed
qed

lemma snd_split_lines: "length (snd (split_lines p)) = length p \<longleftrightarrow> CHR 0x0A \<notin> set p"
proof
  have le: "length (snd (split_lines p)) \<le> length p" for p
    by (induction p) (auto split: prod.splits list.splits)
  assume "length (snd (split_lines p)) = length p"
  then show "CHR 0x0A \<notin> set p"
  proof (rule contrapos_pp)
    assume "\<not> CHR 0x0A \<notin> set p"
    then obtain l r where "p = l @ CHR 0x0A # r" "CHR 0x0A \<notin> set l"
      by (meson split_list_first)
    then show "length (snd (split_lines p)) \<noteq> length p"
      using le [of r] by (simp add: split_lines_line)
  qed
qed (simp add: split_lines_no)

lemma grep_eq:
  assumes "\<forall>c\<in>set reads. c \<noteq> [] \<and> CHR 0x00 \<notin> set c \<and> CHR 0x0A \<in> set c" and "CHR 0x00 \<notin> set pend"
  shows "grep pattern pend reads = print_lines pattern (fst (split_lines (pend @ concat reads)))
    \<or> reads = [] \<and> grep pattern pend reads = []"
  using assms
proof (induction reads arbitrary: pend)
  case (Cons c reads)
  let ?p = "pend @ c" and ?r = "snd (split_lines (pend @ c))"
  have nul: "CHR 0x00 \<notin> set ?p" using Cons.prems by simp
  have "CHR 0x0A \<in> set ?p" using Cons.prems by simp
  then have ne: "length ?r \<noteq> length ?p" using snd_split_lines [of ?p] by blast
  have "set (snd (split_lines q)) \<subseteq> set q" for q
    by (induction q) (auto split: prod.splits list.splits)
  then have "CHR 0x00 \<notin> set ?r" using nul by blast
  then have ih: "grep pattern ?r reads = print_lines pattern (fst (split_lines (?r @ concat reads)))
      \<or> reads = [] \<and> grep pattern ?r reads = []"
    using Cons.prems(1) by (intro Cons.IH) auto
  have g: "grep pattern pend (c # reads) = print_lines pattern (fst (split_lines ?p)) @ grep pattern ?r reads"
    using Cons.prems(1) ne by (simp add: grep_lines_eq [OF nul])
  have i: "split_lines ?r = ([], ?r)"
  proof (rule split_lines_no)
    have "CHR 0x0A \<notin> set (snd (split_lines q))" for q
      by (induction q) (auto split: prod.splits list.splits)
    then show "CHR 0x0A \<notin> set ?r" .
  qed
  show ?case
    using ih g i split_lines_append [of ?p "concat reads"] by (auto simp: print_lines_def)
qed simp

section \<open>Properties\<close>

text \<open>C38: the matcher decides the language of the pattern. \<open>match(re, text)\<close> returns, and returns
  true exactly when, for a pattern with \<open>^\<close>, the text starts with a word of the language of the
  rest and, for another one, some part of the text is such a word; with \<open>$\<close> at the end of the
  pattern the word has to reach the end of the text. A character stands for itself, \<open>.\<close> for any
  character, and \<open>c*\<close> for any number of characters that \<open>c\<close> stands for.\<close>

theorem match_correct:
  "match_c re str \<longleftrightarrow>
    (if re \<noteq> [] \<and> hd re = CHR ''^''
     then \<exists>u v. str = u @ v \<and> u \<in> lang (fst (items (tl re))) \<and> (snd (items (tl re)) \<longrightarrow> v = [])
     else \<exists>a u v. str = a @ u @ v \<and> u \<in> lang (fst (items re)) \<and> (snd (items re) \<longrightarrow> v = []))"
  unfolding match_c_def matchhere_starts match_loop_iff starts_def ex_append ..

theorem match_correct_witness: "match_c ''a.*b$'' ''xaccb'' \<and> \<not> match_c ''^a'' ''ba''"
proof
  have i: "items ''a.*b$'' = ([One CHR ''a'', Star CHR ''.'', One CHR ''b''], True)"
    and n: "\<not> (''a.*b$'' \<noteq> [] \<and> hd ''a.*b$'' = CHR ''^'')"
    by code_simp+
  have "''accb'' \<in> lang [One CHR ''a'', Star CHR ''.'', One CHR ''b'']"
    by (auto simp: fits_def intro!: exI [of _ "''cc''"])
  then have "''xaccb'' = ''x'' @ ''accb'' @ [] \<and> ''accb'' \<in> lang [One CHR ''a'', Star CHR ''.'', One CHR ''b''] \<and> (True \<longrightarrow> [] = [])"
    by simp
  then show "match_c ''a.*b$'' ''xaccb''"
    unfolding match_correct if_not_P [OF n] i fst_conv snd_conv by blast
  have j: "items (tl ''^a'') = ([One CHR ''a''], False)" and m: "''^a'' \<noteq> [] \<and> hd ''^a'' = CHR ''^''"
    by code_simp+
  show "\<not> match_c ''^a'' ''ba''"
    unfolding match_correct if_P [OF m] j by (auto simp: fits_def Cons_eq_append_conv)
qed

text \<open>C39: \<open>grep\<close> prints the matching lines. When every \<open>read\<close> delivers a newline and no NUL, what
  the program writes for its whole input is the complete lines of the input that match the
  pattern, in order and with their newlines, however the reads cut the lines.\<close>

theorem grep_prints_matching_lines:
  assumes "\<forall>c\<in>set reads. CHR 0x00 \<notin> set c \<and> CHR 0x0A \<in> set c"
  shows "grep pattern [] reads
    = concat (map (\<lambda>l. l @ [CHR 0x0A]) (filter (match_c pattern) (fst (split_lines (concat reads)))))"
proof -
  have "\<forall>c\<in>set reads. c \<noteq> [] \<and> CHR 0x00 \<notin> set c \<and> CHR 0x0A \<in> set c"
    using assms by auto
  from grep_eq [OF this, of "[]" pattern] show ?thesis
    by (auto simp: print_lines_def)
qed

theorem grep_prints_matching_lines_witness:
  "grep ''b'' [] [''a'' @ [CHR 0x0A] @ ''x'', ''b'' @ [CHR 0x0A]] = ''xb'' @ [CHR 0x0A]"
proof -
  let ?r = "[''a'' @ [CHR 0x0A] @ ''x'', ''b'' @ [CHR 0x0A]]"
  have s: "fst (split_lines (concat ?r)) = [''a'', ''xb'']" and m: "filter (match_c ''b'') [''a'', ''xb''] = [''xb'']"
    by code_simp+
  have "\<forall>c\<in>set ?r. CHR 0x00 \<notin> set c \<and> CHR 0x0A \<in> set c" by simp
  from grep_prints_matching_lines [OF this, of "''b''"] show ?thesis
    unfolding s m by simp
qed

text \<open>A read without a newline is lost: whatever a read delivers that holds no newline, its
  characters are dropped, although a later read may bring the end of the line.\<close>

theorem grep_drops_partial_line:
  assumes "chunk \<noteq> []" and "CHR 0x00 \<notin> set chunk" and "CHR 0x0A \<notin> set chunk"
  shows "grep pattern [] (chunk # reads) = grep pattern [] reads"
  using assms by (simp add: grep_lines_eq split_lines_no print_lines_def)

theorem grep_drops_partial_line_witness:
  "grep ''ab'' [] [''a'', ''b'' @ [CHR 0x0A]] = grep ''ab'' [] [''b'' @ [CHR 0x0A]] \<and> \<not> match_c ''ab'' ''b'' \<and> match_c ''ab'' ''ab''"
  using grep_drops_partial_line [of "''a''" "''ab''" "[''b'' @ [CHR 0x0A]]"] by (intro conjI) (simp, code_simp+)

end
