(* ===== verification/Utils.thy ===== *)
theory Utils
  imports Console Grep
begin

text \<open>The user library and small user programs: \<open>strcmp\<close> and \<open>atoi\<close> of \<open>ulib.c\<close>, \<open>printf.c\<close>, \<open>wc.c\<close>, \<open>tail.c\<close>,
  \<open>cat.c\<close>, \<open>echo.c\<close>, \<open>kill.c\<close>, \<open>mkdir.c\<close>, \<open>rm.c\<close> and \<open>ln.c\<close>. Input is the list of strings that \<open>read\<close>
  delivers, or one string where the program reads single characters; output is what is written.\<close>

section \<open>The user library\<close>

text \<open>\<open>strcmp\<close> on two C strings, given without their NULs; the bytes are compared as unsigned.\<close>

fun strcmp :: "string \<Rightarrow> string \<Rightarrow> int" where
  "strcmp [] [] = 0"
| "strcmp [] (d # q) = - of_char d"
| "strcmp (c # p) [] = of_char c"
| "strcmp (c # p) (d # q) = (if c = d then strcmp p q else of_char c - of_char d)"

text \<open>\<open>atoi\<close>: the arithmetic is that of a C \<open>int\<close>.\<close>

definition is_digit :: "char \<Rightarrow> bool" where
  "is_digit c \<longleftrightarrow> (48 :: nat) \<le> of_char c \<and> of_char c \<le> (57 :: nat)"

fun atoi_loop :: "i32 \<Rightarrow> string \<Rightarrow> i32" where
  "atoi_loop n [] = n"
| "atoi_loop n (c # s) = (if is_digit c then atoi_loop (n * 10 + of_char c - 48) s else n)"

definition atoi :: "string \<Rightarrow> i32" where
  "atoi s = atoi_loop 0 s"

text \<open>\<open>printint\<close> and \<open>printf\<close> of the user library write single characters; what they write is a string.\<close>

definition udigits :: string where
  "udigits = ''0123456789ABCDEF''"

function urev_digits :: "u32 \<Rightarrow> u32 \<Rightarrow> string" where
  "urev_digits base x = udigits ! unat (x mod base) #
     (if base \<le> 1 \<or> x div base = 0 then [] else urev_digits base (x div base))"
  by auto

termination
proof (relation "measure (\<lambda>(b, x). unat x)")
  fix base x :: u32
  assume A: "\<not> (base \<le> 1 \<or> x div base = 0)"
  then have "1 < unat base" and "0 < unat x"
    by (auto simp: word_le_nat_alt unat_gt_0)
  then show "((base, x div base), base, x) \<in> measure (\<lambda>(b, x). unat x)"
    by (simp add: unat_div_distrib)
qed simp

declare urev_digits.simps [simp del]

definition uprintint :: "i32 \<Rightarrow> u32 \<Rightarrow> bool \<Rightarrow> string" where
  "uprintint xx base sg = (let neg = sg \<and> sint xx < 0; x = (if neg then - xx else xx)
     in rev (urev_digits base x @ (if neg then ''-'' else [])))"

fun printf_loop :: "bool \<Rightarrow> string \<Rightarrow> carg list \<Rightarrow> string" where
  "printf_loop st [] ap = []"
| "printf_loop False (c # f) ap = (if c = CHR ''%'' then printf_loop True f ap else c # printf_loop False f ap)"
| "printf_loop True (c # f) ap =
     (if c = CHR ''d'' then uprintint (arg_int ap) 10 True @ printf_loop False f (tl ap)
      else if c = CHR ''x'' \<or> c = CHR ''p'' then uprintint (arg_int ap) 16 False @ printf_loop False f (tl ap)
      else if c = CHR ''s'' then (case arg_str ap of None \<Rightarrow> ''(null)'' | Some s \<Rightarrow> s) @ printf_loop False f (tl ap)
      else if c = CHR ''c'' then char_of (unat (arg_int ap)) # printf_loop False f (tl ap)
      else if c = CHR ''%'' then c # printf_loop False f ap
      else CHR ''%'' # c # printf_loop False f ap)"

definition printf :: "string \<Rightarrow> carg list \<Rightarrow> string" where
  "printf fmt ap = printf_loop False fmt ap"

section \<open>wc\<close>

definition wc_space :: "char \<Rightarrow> bool" where
  "wc_space c \<longleftrightarrow> strchr [CHR '' '', CHR 0x0D, CHR 0x09, CHR 0x0A, CHR 0x0B] c \<noteq> None"

record wcst =
  wc_l :: i32
  wc_w :: i32
  wc_c :: i32
  inword :: bool

definition wc_char :: "wcst \<Rightarrow> char \<Rightarrow> wcst" where
  "wc_char s x = (let s = s\<lparr>wc_c := wc_c s + 1\<rparr>; s = (if x = CHR 0x0A then s\<lparr>wc_l := wc_l s + 1\<rparr> else s)
     in if wc_space x then s\<lparr>inword := False\<rparr> else if \<not> inword s then s\<lparr>wc_w := wc_w s + 1, inword := True\<rparr> else s)"

text \<open>The calls of \<open>read\<close> deliver the strings of a list, then the end of the file or, with \<open>err\<close>, an error.\<close>

definition wc :: "string \<Rightarrow> string list \<Rightarrow> bool \<Rightarrow> string" where
  "wc name reads err = (let s = foldl (foldl wc_char) \<lparr>wc_l = 0, wc_w = 0, wc_c = 0, inword = False\<rparr> reads
     in if err then printf (''wc: read error'' @ [CHR 0x0A]) []
        else printf (''%d %d %d %s'' @ [CHR 0x0A]) [CInt (wc_l s), CInt (wc_w s), CInt (wc_c s), CStr (Some name)])"

text \<open>\<open>main\<close>: for each name what reading the file delivers, if it can be opened; \<open>stdin\<close> without names. A read
  error ends the program.\<close>

fun wc_files :: "(string \<Rightarrow> (string list \<times> bool) option) \<Rightarrow> string list \<Rightarrow> string" where
  "wc_files fopen [] = []"
| "wc_files fopen (a # as) = (case fopen a of None \<Rightarrow> printf (''wc: cannot open %s'' @ [CHR 0x0A]) [CStr (Some a)]
     | Some (reads, err) \<Rightarrow> wc a reads err @ (if err then [] else wc_files fopen as))"

definition wc_main :: "(string \<Rightarrow> (string list \<times> bool) option) \<Rightarrow> string list \<times> bool \<Rightarrow> string list \<Rightarrow> string" where
  "wc_main fopen stdin argv = (if length argv \<le> 1 then wc [] (fst stdin) (snd stdin) else wc_files fopen (tl argv))"

section \<open>tail\<close>

definition MAX_LINES :: nat where "MAX_LINES = 100"
definition MAX_LINE_LENGTH :: nat where "MAX_LINE_LENGTH = 512"

text \<open>The inner loop of \<open>read_and_storelines\<close>: the array \<open>line\<close>, the index and the input that is left.\<close>

fun read_line :: "nat \<Rightarrow> string \<Rightarrow> nat \<Rightarrow> string \<Rightarrow> string \<times> nat \<times> string" where
  "read_line m line i [] = (line, i, [])"
| "read_line m line i (c # inp) = (if c = CHR 0x0A \<or> i = m - 2 then (line[i := c, i + 1 := CHR 0x00], i + 1, inp)
     else read_line m (line[i := c]) (i + 1) inp)"

text \<open>The lines stored, given the array \<open>line\<close>, which the code does not initialise and does not clear
  between lines; \<open>None\<close> when \<open>strlen\<close> runs past the end of the array.\<close>

fun read_and_storelines :: "nat \<Rightarrow> nat \<Rightarrow> string \<Rightarrow> string \<Rightarrow> string list option" where
  "read_and_storelines 0 m line inp = Some []"
| "read_and_storelines (Suc k) m line inp = (case read_line m line 0 inp of (line', i, rest) \<Rightarrow>
     if i = 0 then Some []
     else if CHR 0x00 \<notin> set line' then None
     else map_option (\<lambda>ls. takeWhile (\<lambda>c. c \<noteq> CHR 0x00) line' # ls) (read_and_storelines k m line' rest))"

definition print_lastlines :: "string list \<Rightarrow> int \<Rightarrow> string" where
  "print_lastlines lines n = (let start = (if int (length lines) > n then nat (int (length lines) - n) else 0)
     in concat (map (\<lambda>l. printf ''%s'' [CStr (Some l)]) (drop start lines)))"

definition tail :: "int \<Rightarrow> string \<Rightarrow> string \<Rightarrow> string option" where
  "tail n junk inp = map_option (\<lambda>ls. print_lastlines ls n) (read_and_storelines MAX_LINES MAX_LINE_LENGTH junk inp)"

text \<open>\<open>main\<close>, with the contents of the files that can be opened: the descriptor and the text written.\<close>

definition tail_main :: "string \<Rightarrow> (string \<Rightarrow> string option) \<Rightarrow> string \<Rightarrow> string list \<Rightarrow> (nat \<times> string) option" where
  "tail_main junk files stdin argv = (let (n, argv) = (if length argv > 1 \<and> take 1 (argv ! 1) = ''-'' then (sint (atoi (drop 1 (argv ! 1))), tl argv) else (10, argv))
     in if length argv = 1 then map_option (Pair 1) (tail n junk stdin)
        else case files (argv ! 1) of
          None \<Rightarrow> Some (2, printf (''tail: can'' @ [CHR 0x27] @ ''t be opened :( %s'' @ [CHR 0x0A]) [CStr (Some (argv ! 1))])
        | Some inp \<Rightarrow> map_option (Pair 1) (tail n junk inp))"

section \<open>Other programs\<close>

text \<open>The system calls of the small programs, in order, where the result of the \<open>i\<close>-th call that the
  program looks at is \<open>r i\<close>. All of them end in \<open>exit\<close>.\<close>

datatype ucall = Write nat string | Kill i32 | Mkdir string | Unlink string | Link string string

definition uprint :: "nat \<Rightarrow> string \<Rightarrow> carg list \<Rightarrow> ucall list" where
  "uprint fd fmt ap = map (\<lambda>c. Write fd [c]) (printf fmt ap)"

fun echo_loop :: "string list \<Rightarrow> ucall list" where
  "echo_loop [] = []"
| "echo_loop (a # as) = uprint 1 ''%s%s'' [CStr (Some a), CStr (Some (if as \<noteq> [] then '' '' else [CHR 0x0A]))] @ echo_loop as"

definition echo_main :: "string list \<Rightarrow> ucall list" where
  "echo_main argv = echo_loop (tl argv)"

definition kill_main :: "string list \<Rightarrow> ucall list" where
  "kill_main argv = (if length argv < 2 then uprint 2 (''usage: kill pid...'' @ [CHR 0x0A]) []
     else map (\<lambda>a. Kill (atoi a)) (tl argv))"

fun each_file :: "(string \<Rightarrow> ucall) \<Rightarrow> string \<Rightarrow> (nat \<Rightarrow> int) \<Rightarrow> nat \<Rightarrow> string list \<Rightarrow> ucall list" where
  "each_file call fmt r i [] = []"
| "each_file call fmt r i (a # as) = call a # (if r i < 0 then uprint 2 fmt [CStr (Some a)] else each_file call fmt r (Suc i) as)"

definition mkdir_main :: "(nat \<Rightarrow> int) \<Rightarrow> string list \<Rightarrow> ucall list" where
  "mkdir_main r argv = (if length argv < 2 then uprint 2 (''Usage: mkdir files...'' @ [CHR 0x0A]) []
     else each_file Mkdir (''mkdir: %s failed to create'' @ [CHR 0x0A]) r 0 (tl argv))"

definition rm_main :: "(nat \<Rightarrow> int) \<Rightarrow> string list \<Rightarrow> ucall list" where
  "rm_main r argv = (if length argv < 2 then uprint 2 (''Usage: rm files...'' @ [CHR 0x0A]) []
     else each_file Unlink (''rm: %s failed to delete'' @ [CHR 0x0A]) r 0 (tl argv))"

definition ln_main :: "(nat \<Rightarrow> int) \<Rightarrow> string list \<Rightarrow> ucall list" where
  "ln_main r argv = (if length argv \<noteq> 3 then uprint 2 (''Usage: ln old new'' @ [CHR 0x0A]) []
     else Link (argv ! 1) (argv ! 2) # (if r 0 < 0 then uprint 2 (''link %s %s: failed'' @ [CHR 0x0A]) [CStr (Some (argv ! 1)), CStr (Some (argv ! 2))] else []))"

text \<open>\<open>cat\<close> of one descriptor: the strings that \<open>read\<close> delivers before the end of the file or, with \<open>err\<close>, an
  error, and the results \<open>w\<close> of the writes. The second component says whether \<open>cat\<close> returns.\<close>

fun cat :: "(nat \<Rightarrow> int) \<Rightarrow> nat \<Rightarrow> string list \<Rightarrow> bool \<Rightarrow> ucall list \<times> bool" where
  "cat w i [] err = (if err then (uprint 1 (''cat: read error'' @ [CHR 0x0A]) [], False) else ([], True))"
| "cat w i (x # xs) err = (if w i \<noteq> int (length x) then (Write 1 x # uprint 1 (''cat: write error'' @ [CHR 0x0A]) [], False)
     else case cat w (Suc i) xs err of (cs, ok) \<Rightarrow> (Write 1 x # cs, ok))"

fun cat_files :: "(nat \<Rightarrow> int) \<Rightarrow> nat \<Rightarrow> (string \<Rightarrow> (string list \<times> bool) option) \<Rightarrow> string list \<Rightarrow> ucall list" where
  "cat_files w i fopen [] = []"
| "cat_files w i fopen (a # as) = (case fopen a of None \<Rightarrow> uprint 1 (''cat: cannot open %s'' @ [CHR 0x0A]) [CStr (Some a)]
     | Some (reads, err) \<Rightarrow> (case cat w i reads err of (cs, ok) \<Rightarrow> cs @ (if ok then cat_files w (i + length reads) fopen as else [])))"

definition cat_main :: "(nat \<Rightarrow> int) \<Rightarrow> (string \<Rightarrow> (string list \<times> bool) option) \<Rightarrow> string list \<times> bool \<Rightarrow> string list \<Rightarrow> ucall list" where
  "cat_main w fopen stdin argv = (if length argv \<le> 1 then fst (cat w 0 (fst stdin) (snd stdin)) else cat_files w 0 fopen (tl argv))"

text \<open>What a list of calls writes to a descriptor.\<close>

fun written_to :: "nat \<Rightarrow> ucall list \<Rightarrow> string" where
  "written_to fd [] = []"
| "written_to fd (Write f s # cs) = (if f = fd then s @ written_to fd cs else written_to fd cs)"
| "written_to fd (_ # cs) = written_to fd cs"

section \<open>Numbers\<close>

lemma udigits_eq: "k < 10 \<Longrightarrow> udigits ! k = hexdigits ! k"
  by (simp add: udigits_def hexdigits_def nth_Cons' del: One_nat_def) 

lemma urev_digits_decimal: "urev_digits 10 x = rev_digits 10 x"
proof (induction "unat x" arbitrary: x rule: less_induct)
  case less
  have "unat (x mod 10) < 10" by (simp add: unat_mod_distrib)
  then have d: "udigits ! unat (x mod 10) = hexdigits ! unat (x mod 10)" by (rule udigits_eq)
  have "unat (x div 10) < unat x" if "x div 10 \<noteq> 0"
  proof -
    have "x \<noteq> 0" using that by auto
    then have "0 < unat x" by (simp add: unat_gt_0)
    then show ?thesis by (simp add: unat_div_distrib)
  qed
  then show ?case using less d by (simp add: urev_digits.simps [of 10 x] rev_digits.simps [of 10 x])
qed

lemma uprintint_decimal: "uprintint xx 10 True = rev (printint_buf xx 10 True)"
  by (simp add: uprintint_def printint_buf_def urev_digits_decimal Let_def)

lemma rev_digits_digit: "c \<in> set (rev_digits 10 x) \<Longrightarrow> is_digit c"
proof (induction "unat x" arbitrary: x rule: less_induct)
  case less
  have "\<forall>k\<in>set [0..<10]. is_digit (hexdigits ! k)" by code_simp
  moreover have "unat (x mod 10) < 10" by (simp add: unat_mod_distrib)
  ultimately have d: "is_digit (hexdigits ! unat (x mod 10))" by simp
  have "unat (x div 10) < unat x" if "x div 10 \<noteq> 0"
  proof -
    have "x \<noteq> 0" using that by auto
    then have "0 < unat x" by (simp add: unat_gt_0)
    then show ?thesis by (simp add: unat_div_distrib)
  qed
  then show ?case using less d by (auto simp: rev_digits.simps [of 10 x] split: if_splits)
qed

lemma atoi_loop_digits:
  "\<forall>c\<in>set s. is_digit c \<Longrightarrow> atoi_loop (of_nat k) s = of_nat (foldl (\<lambda>a c. a * 10 + digit_val c) k s)"
proof (induction s arbitrary: k)
  case (Cons c s)
  then have c: "is_digit c" by simp
  have "(of_char c :: i32) = of_nat (of_char c)" by (rule of_nat_of_char [symmetric])
  moreover have "of_char c = digit_val c + (48 :: nat)" using c by (simp add: is_digit_def digit_val_def Let_def)
  ultimately have e: "of_nat k * 10 + of_char c - 48 = (of_nat (k * 10 + digit_val c) :: i32)" by simp
  have "atoi_loop (of_nat k) (c # s) = atoi_loop (of_nat (k * 10 + digit_val c)) s"
    by (simp only: atoi_loop.simps c if_True e)
  also have "\<dots> = of_nat (foldl (\<lambda>a c. a * 10 + digit_val c) (k * 10 + digit_val c) s)" using Cons.prems by (intro Cons.IH) simp
  finally show ?case by simp
qed simp

text \<open>\<open>atoi\<close> reads what \<open>printf\<close> prints. For a number that is not negative the text of \<open>%d\<close> gives the
  number back; for a negative one \<open>atoi\<close> stops at the sign and gives 0.\<close>

theorem atoi_printf: "atoi (printf ''%d'' [CInt xx]) = (if sint xx < 0 then 0 else xx)"
proof (cases "sint xx < 0")
  case True
  then show ?thesis by (simp add: atoi_def printf_def uprintint_def is_digit_def)
next
  case False
  then have p: "printf ''%d'' [CInt xx] = rev (rev_digits 10 xx)"
    by (simp add: printf_def uprintint_decimal printint_buf_def)
  have "\<forall>c\<in>set (rev (rev_digits 10 xx)). is_digit c" using rev_digits_digit by auto
  from atoi_loop_digits [OF this, of 0] have "atoi (rev (rev_digits 10 xx)) = of_nat (read_digits 10 (rev (rev_digits 10 xx)))"
    by (simp add: atoi_def read_digits_def)
  also have "\<dots> = xx" using read_rev_digits [of 10 xx] by simp
  finally show ?thesis using False p by simp
qed

lemma of_char_0: "(of_char c :: int) = 0 \<longleftrightarrow> c = CHR 0x00"
  using of_char_eq_iff [of c "CHR 0x00", where 'a = int] by simp

lemma strcmp_0: "strcmp p q = 0 \<longleftrightarrow> p = q" if "CHR 0x00 \<notin> set p" "CHR 0x00 \<notin> set q"
  using that by (induction p q rule: strcmp.induct) (auto simp: of_char_0 of_char_eq_iff)

section \<open>What wc and tail print\<close>

text \<open>The words of a text are counted where they begin.\<close>

definition word_count :: "string \<Rightarrow> nat" where
  "word_count s = length (filter (\<lambda>(a, b). wc_space a \<and> \<not> wc_space b) (zip (CHR '' '' # s) s))"

lemma wc_space_blank [simp]: "wc_space (CHR '' '')"
  by (simp add: wc_space_def)

lemma zip_previous: "zip (x # s @ [c]) (s @ [c]) = zip (x # s) s @ [(last (x # s), c)]"
  by (induction s arbitrary: x) simp_all

lemma wc_chars:
  "foldl wc_char \<lparr>wc_l = 0, wc_w = 0, wc_c = 0, inword = False\<rparr> s =
     \<lparr>wc_l = of_nat (count_list s (CHR 0x0A)), wc_w = of_nat (word_count s), wc_c = of_nat (length s), inword = (\<not> wc_space (last (CHR '' '' # s)))\<rparr>"
proof (induction s rule: rev_induct)
  case (snoc c s)
  have "word_count (s @ [c]) = word_count s + (if wc_space (last (CHR '' '' # s)) \<and> \<not> wc_space c then 1 else 0)"
    by (simp add: word_count_def zip_previous del: zip_Cons_Cons)
  then show ?case using snoc by (auto simp: wc_char_def Let_def)
qed (simp add: word_count_def)

lemma foldl_reads: "foldl (foldl f) z xss = foldl f z (concat xss)"
  by (induction xss arbitrary: z) simp_all

text \<open>\<open>wc\<close> counts. However the reads cut the input into pieces, the three numbers printed are those of
  the newlines, of the places where a word begins, and of the bytes of the whole input, as C integers.\<close>

theorem wc_counts:
  "wc name reads False = printf (''%d %d %d %s'' @ [CHR 0x0A])
     [CInt (of_nat (count_list (concat reads) (CHR 0x0A))), CInt (of_nat (word_count (concat reads))), CInt (of_nat (length (concat reads))), CStr (Some name)]"
  by (simp add: wc_def foldl_reads wc_chars)

text \<open>The lines that fit the array of \<open>tail\<close>.\<close>

definition tail_line :: "string \<Rightarrow> bool" where
  "tail_line l \<longleftrightarrow> l \<noteq> [] \<and> last l = CHR 0x0A \<and> CHR 0x0A \<notin> set (butlast l) \<and> CHR 0x00 \<notin> set l \<and> length l \<le> MAX_LINE_LENGTH - 1"

lemma read_line_whole:
  assumes "CHR 0x0A \<notin> set q" and "i + length q \<le> m - 2" and "m \<le> length line" and "2 \<le> m"
  shows "read_line m line i (q @ CHR 0x0A # rest) = (take i line @ q @ [CHR 0x0A, CHR 0x00] @ drop (i + length q + 2) line, i + length q + 1, rest)"
  using assms
proof (induction q arbitrary: i line)
  case Nil
  then have "i + 1 < length line" by simp
  then show ?case by (simp add: upd_conv_take_nth_drop [of "Suc i"] take_Suc_conv_app_nth)
next
  case (Cons c q)
  have "take (Suc i) (line[i := c]) = take i line @ [c]" using Cons.prems by (simp add: take_Suc_conv_app_nth)
  then show ?case using Cons.IH [of "Suc i" "line[i := c]"] Cons.prems by auto
qed

lemma read_line_partial:
  assumes "CHR 0x0A \<notin> set p" and "i + length p \<le> m - 2" and "m \<le> length line" and "2 \<le> m"
  shows "read_line m line i p = (take i line @ p @ drop (i + length p) line, i + length p, [])"
  using assms
proof (induction p arbitrary: i line)
  case (Cons c p)
  have "take (Suc i) (line[i := c]) = take i line @ [c]" using Cons.prems by (simp add: take_Suc_conv_app_nth)
  then show ?case using Cons.IH [of "Suc i" "line[i := c]"] Cons.prems by auto
qed simp

lemma read_line_first:
  assumes "tail_line l" and "length line = MAX_LINE_LENGTH"
  shows "read_line MAX_LINE_LENGTH line 0 (l @ rest) = (l @ CHR 0x00 # drop (length l + 1) line, length l, rest)"
proof -
  obtain q where q: "l = q @ [CHR 0x0A]" using assms(1) by (metis append_butlast_last_id tail_line_def)
  then have "CHR 0x0A \<notin> set q" "length q \<le> MAX_LINE_LENGTH - 2" using assms(1) by (auto simp: tail_line_def MAX_LINE_LENGTH_def)
  from read_line_whole [of q 0 MAX_LINE_LENGTH line rest] this assms(2) show ?thesis
    by (simp add: q MAX_LINE_LENGTH_def)
qed

lemma takeWhile_NUL: "CHR 0x00 \<notin> set l \<Longrightarrow> takeWhile (\<lambda>c. c \<noteq> CHR 0x00) (l @ CHR 0x00 # r) = l"
  by (induction l) auto

lemma store_lines:
  assumes "\<forall>l\<in>set ls. tail_line l" and "length line = MAX_LINE_LENGTH"
  shows "read_and_storelines k MAX_LINE_LENGTH line (concat ls) = Some (take k ls)"
  using assms
proof (induction k arbitrary: ls line)
  case (Suc k)
  show ?case
  proof (cases ls)
    case (Cons l ls')
    then have l: "tail_line l" "CHR 0x00 \<notin> set l" "length l \<noteq> 0" "length l \<le> 511"
      using Suc.prems(1) by (auto simp: tail_line_def MAX_LINE_LENGTH_def)
    have "length (l @ CHR 0x00 # drop (length l + 1) line) = MAX_LINE_LENGTH" using l(4) Suc.prems(2) by (simp add: MAX_LINE_LENGTH_def)
    then have "read_and_storelines k MAX_LINE_LENGTH (l @ CHR 0x00 # drop (length l + 1) line) (concat ls') = Some (take k ls')"
      using Suc Cons by simp
    then show ?thesis
      using read_line_first [OF l(1) Suc.prems(2), of "concat ls'"] takeWhile_NUL [OF l(2)] l(3) Cons by simp
  qed simp
qed simp

lemma print_lines_eq: "print_lastlines ls n = concat (drop (nat (int (length ls) - n)) ls)"
  by (simp add: print_lastlines_def printf_def)

text \<open>\<open>tail\<close> prints the last lines of the first \<open>MAX_LINES\<close>. On an input of complete lines that fit the
  array, whatever the array holds at first, \<open>tail\<close> prints the last \<open>n\<close> of the first hundred lines: for a
  file of at most a hundred lines the last \<open>n\<close> lines, for a longer one not the end of the file.\<close>

theorem tail_prints_last:
  assumes "\<forall>l\<in>set ls. tail_line l" and "length junk = MAX_LINE_LENGTH"
  shows "tail n junk (concat ls) = Some (concat (drop (nat (int (min (length ls) 100) - n)) (take 100 ls)))"
  using store_lines [OF assms, of MAX_LINES] by (simp add: tail_def print_lines_eq MAX_LINES_def)

theorem tail_prints_last_witness:
  "tail 1 (replicate 512 (CHR ''x'')) (''ab'' @ [CHR 0x0A] @ ''c'' @ [CHR 0x0A]) = Some (''c'' @ [CHR 0x0A])"
proof -
  have "\<forall>l\<in>set [''ab'' @ [CHR 0x0A], ''c'' @ [CHR 0x0A]]. tail_line l" by (simp add: tail_line_def MAX_LINE_LENGTH_def)
  then show ?thesis
    using tail_prints_last [of "[''ab'' @ [CHR 0x0A], ''c'' @ [CHR 0x0A]]" "replicate 512 (CHR ''x'')" 1] by (simp add: MAX_LINE_LENGTH_def)
qed

text \<open>A last line without newline is printed with the end of the line before it. When the input
  ends in the middle of a line, \<open>tail\<close> does not terminate the string in the array, so what is left there
  of the line before is printed after it.\<close>

theorem tail_garbles_last:
  assumes "tail_line l" and "p \<noteq> []" and "CHR 0x0A \<notin> set p" and "CHR 0x00 \<notin> set p" and "length p < length l" and "length junk = MAX_LINE_LENGTH"
  shows "tail 10 junk (l @ p) = Some (l @ p @ drop (length p) l)"
proof -
  have l: "CHR 0x00 \<notin> set l" "length l \<noteq> 0" "length l \<le> 511" using assms(1) by (auto simp: tail_line_def MAX_LINE_LENGTH_def)
  let ?a = "l @ CHR 0x00 # drop (length l + 1) junk"
  have a: "length ?a = MAX_LINE_LENGTH" using l(3) assms(6) by (simp add: MAX_LINE_LENGTH_def)
  have p: "read_line MAX_LINE_LENGTH ?a 0 p = (p @ drop (length p) l @ CHR 0x00 # drop (length l + 1) junk, length p, [])"
    using read_line_partial [of p 0 MAX_LINE_LENGTH ?a] assms(3,5) a l(3) by (simp add: MAX_LINE_LENGTH_def)
  have n: "CHR 0x00 \<notin> set (p @ drop (length p) l)" using assms(4) l(1) by (auto dest: in_set_dropD)
  note t = takeWhile_NUL [OF n, of "drop (length l + 1) junk"] and f = read_line_first [OF assms(1,6), of p]
  have "read_and_storelines (Suc (Suc k)) MAX_LINE_LENGTH junk (l @ p) = Some [l, p @ drop (length p) l]" for k
    using t f p takeWhile_NUL [OF l(1)] l(2) assms(2) by (cases k) simp_all
  from this [of 98] show ?thesis by (simp add: tail_def print_lines_eq MAX_LINES_def)
qed

theorem tail_garbles_last_witness:
  "tail 10 (replicate 512 (CHR ''x'')) (''abc'' @ [CHR 0x0A] @ ''d'') = Some (''abc'' @ [CHR 0x0A] @ ''dbc'' @ [CHR 0x0A])"
  using tail_garbles_last [of "''abc'' @ [CHR 0x0A]" "''d''" "replicate 512 (CHR ''x'')"] by (simp add: tail_line_def MAX_LINE_LENGTH_def)

lemma written_to_append [simp]: "written_to fd (xs @ ys) = written_to fd xs @ written_to fd ys"
  by (induction fd xs rule: written_to.induct) simp_all

lemma written_to_uprint [simp]: "written_to fd (uprint f fmt ap) = (if f = fd then printf fmt ap else [])"
proof -
  have "written_to fd (map (\<lambda>c. Write f [c]) s) = (if f = fd then s else [])" for s by (cases "f = fd"; induction s) simp_all
  from this [of "printf fmt ap"] show ?thesis unfolding uprint_def .
qed

lemma printf_two: "printf ''%s%s'' [CStr (Some a), CStr (Some b)] = a @ b"
  by (simp add: printf_def)

lemma echo_writes: "written_to 1 (echo_main (p # as)) = (if as = [] then [] else concat (map (\<lambda>a. a @ '' '') (butlast as)) @ last as @ [CHR 0x0A])"
  unfolding echo_main_def by (induction as) (simp_all add: printf_two)

text \<open>As long as the writes are complete, \<open>cat\<close> writes what it reads.\<close>

lemma cat_copies: "\<forall>k<length reads. w (i + k) = int (length (reads ! k)) \<Longrightarrow> cat w i reads False = (map (Write 1) reads, True)"
proof (induction reads arbitrary: i)
  case (Cons x xs)
  have "w i = int (length x)" using Cons.prems by force
  moreover have "\<forall>k<length xs. w (Suc i + k) = int (length (xs ! k))" using Cons.prems by force
  ultimately show ?case using Cons.IH [of "Suc i"] by simp
qed simp


text \<open>With complete writes and files that can be opened and read, \<open>cat\<close> writes their contents one after
  the other.\<close>

lemma cat_concatenates:
  assumes "\<forall>a\<in>set as. \<exists>reads. fopen a = Some (reads, False)"
    and "\<forall>k<length (concat (map (\<lambda>a. fst (the (fopen a))) as)). w (i + k) = int (length (concat (map (\<lambda>a. fst (the (fopen a))) as) ! k))"
  shows "cat_files w i fopen as = map (Write 1) (concat (map (\<lambda>a. fst (the (fopen a))) as))"
  using assms
proof (induction as arbitrary: i)
  case (Cons a as)
  obtain reads where r: "fopen a = Some (reads, False)" using Cons.prems(1) by auto
  let ?rest = "concat (map (\<lambda>a. fst (the (fopen a))) as)"
  have n: "w (i + k) = int (length ((reads @ ?rest) ! k))" if "k < length reads + length ?rest" for k
    using Cons.prems(2) that by (simp add: r)
  have "\<forall>k<length reads. w (i + k) = int (length (reads ! k))"
  proof (intro allI impI)
    fix k assume "k < length reads"
    then show "w (i + k) = int (length (reads ! k))" using n [of k] by (simp add: nth_append)
  qed
  then have c: "cat w i reads False = (map (Write 1) reads, True)" by (rule cat_copies)
  have "w (i + length reads + k) = int (length (?rest ! k))" if "k < length ?rest" for k
    using n [of "length reads + k"] that by (simp add: nth_append add.assoc)
  then have "cat_files w (i + length reads) fopen as = map (Write 1) ?rest"
    using Cons.prems(1) by (intro Cons.IH) auto
  then show ?case by (simp add: r c)
qed simp

end
