(* ===== verification/Programs.thy ===== *)
theory Programs
  imports Utils
begin

text \<open>
  The programs \<open>nice\<close> (\<open>src/nice.c\<close>) and \<open>ls\<close> (\<open>src/ls.c\<close>): the calls the one makes and the lines the other
  prints, for the results of their system calls.
\<close>

section \<open>nice\<close>

text \<open>The calls of the program \<open>nice\<close>; \<open>NLoop\<close> is the endless loop of a child, and the \<open>exit\<close> at the end is left out. The results of \<open>fork\<close> are a list,
  after whose end \<open>fork\<close> fails.\<close>

datatype ncall = NOut ucall | NGetpid | NNice i32 i32 | NFork | NSleep i32 | NLoop

fun spawn :: "i32 \<Rightarrow> i32 list \<Rightarrow> ncall list" where
  "spawn target_pid [] = [NFork]"
| "spawn target_pid (pid # forks) = NFork # (if sint pid > 0 then if sint pid \<ge> sint target_pid then [] else NSleep 10 # spawn target_pid forks
     else if pid = 0 then [NLoop] else [])"

definition nice_done :: "i32 \<Rightarrow> i32 \<Rightarrow> ncall list" where
  "nice_done pid old_nice = map NOut (uprint 1 (''%d  %d'' @ [CHR 0x0A]) [CInt pid, CInt old_nice])"

definition nice_main :: "i32 \<Rightarrow> (nat \<Rightarrow> i32) \<Rightarrow> i32 list \<Rightarrow> string list \<Rightarrow> ncall list" where
  "nice_main self r forks argv = (if length argv < 2 then map NOut (uprint 2 (''Usage: nice [pid] value'' @ [CHR 0x0A]) [])
     else let (pre, pid, val) = (if length argv = 2 then ([NGetpid], self, atoi (argv ! 1))
         else if length argv = 3 then ([], atoi (argv ! 1), atoi (argv ! 2)) else ([], - 1, 0)) in
       pre @ (if sint val < 1 \<or> sint val > 5 then map NOut (uprint 2 (''Error: nice value must be between 1 and 5'' @ [CHR 0x0A]) [])
         else NNice pid val # (if r 0 \<noteq> - 1 then nice_done pid (r 0)
           else map NOut (uprint 2 (''Process with PID  %d  isn'' @ [CHR 0x27] @ ''t found.'' @ [CHR 0x0A]) [CInt pid, CInt pid]) @ spawn pid forks
             @ (if NLoop \<in> set (spawn pid forks) then []
                else NNice pid val # (if r 1 \<noteq> - 1 then nice_done pid (r 1)
                  else map NOut (uprint 2 (''Error: Unable to change nice value for PID %d'' @ [CHR 0x0A]) [CInt pid]))))))"

text \<open>The program asks the kernel only for values that \<open>sys_nice\<close> accepts.\<close>

lemma spawn_no_nice: "NNice p v \<notin> set (spawn t fs)"
  by (induction t fs rule: spawn.induct) auto

lemma nice_main_range: "NNice p v \<in> set (nice_main self r fs argv) \<Longrightarrow> 1 \<le> sint v \<and> sint v \<le> 5"
  by (auto simp: nice_main_def nice_done_def spawn_no_nice Let_def split: if_splits prod.splits)

section \<open>ls\<close>

record lsstat =
  st_type :: i32
  st_ino :: u32
  st_size :: u32

definition fmtname :: "string \<Rightarrow> string" where
  "fmtname path = (let p = rev (takeWhile (\<lambda>c. c \<noteq> CHR ''/'') (rev path)) in
     if length p \<ge> 14 then p else p @ replicate (14 - length p) (CHR '' ''))"

definition ls_line :: "string \<Rightarrow> lsstat \<Rightarrow> ucall list" where
  "ls_line path st = uprint 1 (''%s %d %d %d'' @ [CHR 0x0A]) [CStr (Some (fmtname path)), CInt (st_type st), CInt (st_ino st), CInt (st_size st)]"

text \<open>The entries of a directory that have an inode, by the bytes of their names.\<close>

fun ls_entries :: "(string \<Rightarrow> lsstat option) \<Rightarrow> string \<Rightarrow> (u16 \<times> string) list \<Rightarrow> ucall list" where
  "ls_entries stat' path [] = []"
| "ls_entries stat' path ((inum, name) # des) = (if inum = 0 then [] else
     let buf = path @ ''/'' @ takeWhile (\<lambda>c. c \<noteq> CHR 0x00) (take 14 name) in
     case stat' buf of None \<Rightarrow> uprint 1 (''ls: cannot stat %s'' @ [CHR 0x0A]) [CStr (Some buf)] | Some st \<Rightarrow> ls_line buf st)
     @ ls_entries stat' path des"

text \<open>\<open>fopen\<close> says which paths can be opened, \<open>fstat'\<close> what \<open>fstat\<close> then reports, \<open>dents\<close> what is read from a directory.\<close>

definition ls :: "(string \<Rightarrow> bool) \<Rightarrow> (string \<Rightarrow> lsstat option) \<Rightarrow> (string \<Rightarrow> lsstat option) \<Rightarrow> (string \<Rightarrow> (u16 \<times> string) list) \<Rightarrow> string \<Rightarrow> ucall list" where
  "ls fopen fstat' stat' dents path = (if \<not> fopen path then uprint 2 (''ls: cannot open %s'' @ [CHR 0x0A]) [CStr (Some path)]
     else case fstat' path of None \<Rightarrow> uprint 2 (''ls: cannot stat %s'' @ [CHR 0x0A]) [CStr (Some path)]
     | Some st \<Rightarrow> if st_type st = 2 then ls_line path st
         else if st_type st = 1 then if length path + 1 + 14 + 1 > 512 then uprint 1 (''ls: path too long'' @ [CHR 0x0A]) []
           else ls_entries stat' path (dents path)
         else [])"

definition ls_main :: "(string \<Rightarrow> bool) \<Rightarrow> (string \<Rightarrow> lsstat option) \<Rightarrow> (string \<Rightarrow> lsstat option) \<Rightarrow> (string \<Rightarrow> (u16 \<times> string) list)
    \<Rightarrow> string list \<Rightarrow> ucall list" where
  "ls_main fopen fstat' stat' dents argv = (if length argv < 2 then ls fopen fstat' stat' dents ''.''
     else concat (map (ls fopen fstat' stat' dents) (tl argv)))"

lemma length_fmtname: "14 \<le> length (fmtname path)"
  by (simp add: fmtname_def Let_def)

end
