(* ===== verification/Ulib.thy ===== *)
theory Ulib
  imports Memory
begin

text \<open>
  The routines of the user library (\<open>src/ulib.c\<close>) that work on memory, and \<open>stat\<close>. The copy of strings is
  shown to end and to copy; \<open>memmove\<close> is shown to be the copy upwards, which is wrong for some overlaps.
\<close>

section \<open>Strings and memory\<close>

text \<open>\<open>strcpy\<close>; \<open>None\<close> is a loop that does not end.\<close>

partial_function (option) ustrcpy :: "memory \<Rightarrow> u32 \<Rightarrow> u32 \<Rightarrow> memory option" where
  [code]: "ustrcpy m s t = (if m t \<noteq> 0 then ustrcpy (m(s := m t)) (s + 1) (t + 1) else Some (m(s := m t)))"

definition ustrlen :: "memory \<Rightarrow> u32 \<Rightarrow> u32 option" where
  "ustrlen m s = strlen_from m s 0"

definition umemset :: "memory \<Rightarrow> u32 \<Rightarrow> i32 \<Rightarrow> u32 \<Rightarrow> memory" where
  "umemset m dst c n = stosb m dst (ucast c) (unat n)"

text \<open>\<open>memmove\<close> of the user library copies upwards whatever the addresses are.\<close>

fun umemmove_loop :: "memory \<Rightarrow> u32 \<Rightarrow> u32 \<Rightarrow> nat \<Rightarrow> memory" where
  "umemmove_loop m dst src 0 = m"
| "umemmove_loop m dst src (Suc n) = umemmove_loop (m(dst := m src)) (dst + 1) (src + 1) n"

definition umemmove :: "memory \<Rightarrow> u32 \<Rightarrow> u32 \<Rightarrow> i32 \<Rightarrow> memory" where
  "umemmove m vdst vsrc n = umemmove_loop m vdst vsrc (nat (sint n))"

text \<open>The calls of \<open>stat\<close> and its result, for the results of \<open>open\<close> and \<open>fstat\<close>.\<close>

datatype statcall = SOpen string | SFstat i32 | SClose i32

definition ustat :: "(string \<Rightarrow> i32) \<Rightarrow> (i32 \<Rightarrow> i32) \<Rightarrow> string \<Rightarrow> i32 \<times> statcall list" where
  "ustat op fst' n = (let fd = op n in if sint fd < 0 then (- 1, [SOpen n]) else (fst' fd, [SOpen n, SFstat fd, SClose fd]))"

section \<open>Properties of the copies\<close>

lemma ustrcpy_step: "ustrcpy m s t = (if m t \<noteq> 0 then ustrcpy (m(s := m t)) (s + 1) (t + 1) else Some (m(s := m t)))"
  by (rule ustrcpy.simps)

lemma ustrcpy_copies:
  assumes "Suc (length xs) < 2 ^ 32" and "cstr m t xs" and "sep_buf s (Suc (length xs)) t (Suc (length xs))"
  shows "\<exists>m'. ustrcpy m s t = Some m' \<and> cstr m' s xs \<and> (\<forall>a. \<not> in_range s (Suc (length xs)) a \<longrightarrow> m' a = m a)"
  using assms
proof (induction xs arbitrary: m s t)
  case Nil
  then show ?case by (simp add: ustrcpy_step [of m s t] in_range_Suc)
next
  case (Cons x xs)
  let ?m = "m(s := m t)"
  have x: "m t = x" "x \<noteq> 0" using Cons.prems(2) by simp_all
  have "cstr ?m t (x # xs)" using Cons.prems(2,3) sep_buf_cstr by blast
  then have c: "cstr ?m (t + 1) xs" by (simp only: cstr.simps)
  have s: "sep_buf (s + 1) (Suc (length xs)) (t + 1) (Suc (length xs))" using Cons.prems(3) by (auto dest: sep_buf_step)
  obtain m' where m': "ustrcpy ?m (s + 1) (t + 1) = Some m'" "cstr m' (s + 1) xs"
      "\<forall>a. \<not> in_range (s + 1) (Suc (length xs)) a \<longrightarrow> m' a = ?m a"
    using Cons.IH [OF _ c s] Cons.prems(1) by (auto simp del: fun_upd_apply)
  have "\<not> in_range (s + 1) (Suc (length xs)) s" using not_in_range_self [of "Suc (length xs)" s] Cons.prems(1) by simp
  then have "m' s = x" using m'(3) x(1) by simp
  moreover have "ustrcpy m s t = Some m'" using x m'(1) by (simp add: ustrcpy_step [of m s t])
  ultimately show ?case using m'(2,3) x(2) by (auto simp: in_range_Suc)
qed

lemma umemmove_loop_frame: "\<not> in_range dst n a \<Longrightarrow> umemmove_loop m dst src n a = m a"
  by (induction n arbitrary: m dst src) (auto simp: in_range_Suc)

lemma umemmove_loop_copy_up: "umemmove_loop m dst src n = copy_up m dst src n"
  by (induction n arbitrary: m dst src) simp_all

lemma umemmove_spreads: "n < 2 ^ 32 \<Longrightarrow> j < n \<Longrightarrow> umemmove_loop m (src + 1) src n (src + 1 + of_nat j) = m src"
proof (induction n arbitrary: m src j)
  case (Suc n)
  show ?case
  proof (cases j)
    case 0
    have "\<not> in_range (src + 1 + 1) n (src + 1)" using not_in_range_self [of n "src + 1"] Suc.prems(1) by simp
    then show ?thesis using 0 umemmove_loop_frame [of "src + 1 + 1" n "src + 1"] by simp
  next
    case (Suc i)
    then have "umemmove_loop (m(src + 1 := m src)) (src + 1 + 1) (src + 1) n (src + 1 + 1 + of_nat i) = (m(src + 1 := m src)) (src + 1)"
      using Suc.prems Suc.IH [of i "m(src + 1 := m src)" "src + 1"] by (simp del: fun_upd_apply)
    then show ?thesis using Suc by (simp add: add.assoc fun_upd_same del: fun_upd_apply)
  qed
qed simp

text \<open>\<open>memmove\<close> of the user library does not copy overlapping memory: moving a block up by one byte leaves the
  first byte of the block in every place of the new block.\<close>

lemma umemmove_overlap:
  assumes "j < nat (sint n)"
  shows "umemmove m (src + 1) src n (src + 1 + of_nat j) = m src"
proof -
  have "sint n < 2 ^ 31" using sint_lt [of n] by simp
  then have "nat (sint n) < 2 ^ 32" by simp
  then show ?thesis unfolding umemmove_def by (rule umemmove_spreads [OF _ assms])
qed

end
