(* ===== verification/Umalloc.thy ===== *)
theory Umalloc
  imports Kalloc
begin

text \<open>
  The memory allocator of user programs (\<open>src/umalloc.c\<close>): the ring of free blocks as the headers in memory
  link it, \<open>malloc\<close>, \<open>free\<close> and \<open>morecore\<close> on it. The ring is related to the list of its blocks in the order
  of their addresses; \<open>malloc\<close> and \<open>free\<close> are shown to return and to move exactly one block between the list
  and its user.
\<close>

section \<open>State\<close>

text \<open>
  The union \<open>Header\<close>, the headers by their address, the variable \<open>freep\<close> and the size of the process.
  The address of the variable \<open>base\<close> is a parameter.
\<close>

record header =
  s_ptr :: u32
  s_size :: u32

type_synonym headers = "u32 \<Rightarrow> header"

record uheap =
  hdrs :: headers
  freep :: u32
  brk :: u32

section \<open>The allocator\<close>

text \<open>
  \<open>sbrk\<close> as \<open>sys_sbrk\<close> and \<open>growproc\<close> define it on the size of the process; \<open>mem n m\<close> says whether the
  kernel has the pages to grow from \<open>n\<close> to \<open>m\<close> bytes.
\<close>

definition sbrk :: "(u32 \<Rightarrow> u32 \<Rightarrow> bool) \<Rightarrow> u32 \<Rightarrow> uheap \<Rightarrow> u32 \<times> uheap" where
  "sbrk pages n h = (let sz = brk h;
     new = (if sint n > 0 then if sz + n \<ge> KERNBASE then 0 else if sz + n < sz then sz else if pages sz (sz + n) then sz + n else 0
            else if sint n < 0 then if sz + n \<ge> sz then sz else sz + n else sz)
     in if n \<noteq> 0 \<and> new = 0 then (- 1, h) else (sz, h\<lparr>brk := new\<rparr>))"

text \<open>The loop of \<open>free\<close> that finds the neighbour of the block; \<open>None\<close> is a loop that does not end.\<close>

partial_function (option) free_find :: "headers \<Rightarrow> u32 \<Rightarrow> u32 \<Rightarrow> u32 option" where
  [code]: "free_find h bp p = (if bp > p \<and> bp < s_ptr (h p) then Some p
     else if p \<ge> s_ptr (h p) \<and> (bp > p \<or> bp < s_ptr (h p)) then Some p
     else free_find h bp (s_ptr (h p)))"

text \<open>The two joins at the end of \<open>free\<close>: with the block after \<open>bp\<close>, and with the block \<open>p\<close> before it.\<close>

definition join_next :: "u32 \<Rightarrow> u32 \<Rightarrow> headers \<Rightarrow> headers" where
  "join_next bp p h = (let n = s_ptr (h p) in
     if bp + 8 * s_size (h bp) = n then h(bp := \<lparr>s_ptr = s_ptr (h n), s_size = s_size (h bp) + s_size (h n)\<rparr>)
     else h(bp := (h bp)\<lparr>s_ptr := n\<rparr>))"

definition join_prev :: "u32 \<Rightarrow> u32 \<Rightarrow> headers \<Rightarrow> headers" where
  "join_prev bp p h = (if p + 8 * s_size (h p) = bp then h(p := \<lparr>s_ptr = s_ptr (h bp), s_size = s_size (h p) + s_size (h bp)\<rparr>)
     else h(p := (h p)\<lparr>s_ptr := bp\<rparr>))"

definition free :: "u32 \<Rightarrow> uheap \<Rightarrow> uheap option" where
  "free ap h = (let bp = ap - 8 in case free_find (hdrs h) bp (freep h) of None \<Rightarrow> None
     | Some p \<Rightarrow> Some (h\<lparr>hdrs := join_prev bp p (join_next bp p (hdrs h)), freep := p\<rparr>))"

definition morecore :: "(u32 \<Rightarrow> u32 \<Rightarrow> bool) \<Rightarrow> u32 \<Rightarrow> uheap \<Rightarrow> (u32 \<times> uheap) option" where
  "morecore pages nu h = (let nu = (if nu < 4096 then 4096 else nu); (p, h) = sbrk pages (nu * 8) h in
     if p = - 1 then Some (0, h)
     else case free (p + 8) (h\<lparr>hdrs := (hdrs h)(p := (hdrs h p)\<lparr>s_size := nu\<rparr>)\<rparr>) of None \<Rightarrow> None
       | Some h \<Rightarrow> Some (freep h, h))"

text \<open>Taking a block that is large enough out of the list, or its end when it is larger.\<close>

definition carve :: "u32 \<Rightarrow> u32 \<Rightarrow> u32 \<Rightarrow> uheap \<Rightarrow> u32 \<times> uheap" where
  "carve nunits prevp p h = (let d = hdrs h in
     if s_size (d p) = nunits then (p + 8, h\<lparr>hdrs := d(prevp := (d prevp)\<lparr>s_ptr := s_ptr (d p)\<rparr>), freep := prevp\<rparr>)
     else let m = s_size (d p) - nunits; q = p + 8 * m; d = d(p := (d p)\<lparr>s_size := m\<rparr>) in
       (q + 8, h\<lparr>hdrs := d(q := (d q)\<lparr>s_size := nunits\<rparr>), freep := prevp\<rparr>))"

partial_function (option) malloc_loop :: "(u32 \<Rightarrow> u32 \<Rightarrow> bool) \<Rightarrow> u32 \<Rightarrow> u32 \<Rightarrow> u32 \<Rightarrow> uheap \<Rightarrow> (u32 \<times> uheap) option" where
  [code]: "malloc_loop pages nunits prevp p h = (if s_size (hdrs h p) \<ge> nunits then Some (carve nunits prevp p h)
     else if p = freep h then (case morecore pages nunits h of None \<Rightarrow> None
       | Some (q, h') \<Rightarrow> if q = 0 then Some (0, h') else malloc_loop pages nunits q (s_ptr (hdrs h' q)) h')
     else malloc_loop pages nunits p (s_ptr (hdrs h p)) h)"

definition nunits_of :: "u32 \<Rightarrow> u32" where
  "nunits_of nbytes = (nbytes + 8 - 1) div 8 + 1"

definition malloc :: "u32 \<Rightarrow> (u32 \<Rightarrow> u32 \<Rightarrow> bool) \<Rightarrow> u32 \<Rightarrow> uheap \<Rightarrow> (u32 \<times> uheap) option" where
  "malloc base pages nbytes h = (let nunits = nunits_of nbytes in
     if freep h = 0 then let h = h\<lparr>hdrs := (hdrs h)(base := \<lparr>s_ptr = base, s_size = 0\<rparr>), freep := base\<rparr> in
       malloc_loop pages nunits base (s_ptr (hdrs h base)) h
     else malloc_loop pages nunits (freep h) (s_ptr (hdrs h (freep h))) h)"

section \<open>The list of free blocks\<close>

text \<open>The address after a block, and \<open>seg h p xs q l\<close>: the pointers lead from \<open>p\<close> through the blocks \<open>xs\<close>
  to \<open>q\<close>, each block ends before the next one begins, and the last one ends before \<open>l\<close>.\<close>

definition fin :: "headers \<Rightarrow> u32 \<Rightarrow> nat" where
  "fin h x = unat x + 8 * unat (s_size (h x))"

fun seg :: "headers \<Rightarrow> u32 \<Rightarrow> u32 list \<Rightarrow> u32 \<Rightarrow> nat \<Rightarrow> bool" where
  "seg h p [] q l \<longleftrightarrow> s_ptr (h p) = q \<and> fin h p < l"
| "seg h p (x # xs) q l \<longleftrightarrow> s_ptr (h p) = x \<and> fin h p < unat x \<and> seg h x xs q l"

lemma seg_append: "seg h p (xs @ y # ys) q l \<longleftrightarrow> seg h p xs y (unat y) \<and> seg h y ys q l"
  by (induction xs arbitrary: p) auto

lemma seg_cong: "seg h p xs q l \<Longrightarrow> (\<And>z. z \<in> set (p # xs) \<Longrightarrow> h' z = h z) \<Longrightarrow> seg h' p xs q l"
  by (induction xs arbitrary: p) (auto simp: fin_def)

lemma seg_mono: "seg h p xs q l \<Longrightarrow> l \<le> l' \<Longrightarrow> seg h p xs q l'"
  by (induction xs arbitrary: p) auto

lemma fin_ge: "unat x \<le> fin h x"
  by (simp add: fin_def)

lemma seg_bounds: "seg h p xs q l \<Longrightarrow> (\<forall>z \<in> set xs. fin h p < unat z \<and> fin h z < l) \<and> fin h p < l \<and> distinct (p # xs)"
proof (induction xs arbitrary: p)
  case (Cons x xs)
  then have x: "\<forall>z \<in> set xs. fin h x < unat z \<and> fin h z < l" "fin h x < l" "distinct (x # xs)" "fin h p < unat x" by auto
  have "unat x \<le> fin h x" "unat p \<le> fin h p" by (rule fin_ge)+
  then show ?case using x by (auto dest: order.strict_trans1)
qed simp

text \<open>The header of the last block replaced, and the first block replaced by another one.\<close>

lemma seg_last:
  "seg h p xs q l \<Longrightarrow> (\<And>z. z \<in> set (butlast (p # xs)) \<Longrightarrow> h' z = h z) \<Longrightarrow> s_ptr (h' (last (p # xs))) = q' \<Longrightarrow> fin h' (last (p # xs)) < l'
    \<Longrightarrow> seg h' p xs q' l'"
proof (induction xs arbitrary: p)
  case (Cons x xs)
  have "h' p = h p" using Cons.prems(2) [of p] by simp
  moreover have "seg h' x xs q' l'" using Cons.prems by (intro Cons.IH) auto
  ultimately show ?case using Cons.prems(1) by (simp add: fin_def)
qed simp

lemma seg_first:
  "seg h p xs q l \<Longrightarrow> (\<And>z. z \<in> set xs \<Longrightarrow> h' z = h z) \<Longrightarrow> s_ptr (h' p') = s_ptr (h p) \<Longrightarrow> fin h' p' = fin h p \<Longrightarrow> seg h' p' xs q l"
proof (cases xs)
  case (Cons x ys)
  assume a: "seg h p xs q l" "\<And>z. z \<in> set xs \<Longrightarrow> h' z = h z" "s_ptr (h' p') = s_ptr (h p)" "fin h' p' = fin h p"
  have "seg h' x ys q l" using a(1,2) Cons by (intro seg_cong [of h x ys q l h']) auto
  then show ?thesis using a Cons by simp
qed simp

text \<open>The heap: a ring of free blocks from \<open>base\<close>, which has no room of its own, in the order of their
  addresses, below the size of the process.\<close>

definition heap_ok :: "u32 \<Rightarrow> uheap \<Rightarrow> u32 list \<Rightarrow> bool" where
  "heap_ok base h bs \<longleftrightarrow> 0 < base \<and> s_size (hdrs h base) = 0 \<and> seg (hdrs h) base bs base (Suc (unat (brk h)))
     \<and> freep h \<in> set (base # bs) \<and> (\<forall>x \<in> set (base # bs). x < brk h) \<and> brk h \<le> KERNBASE"

definition room :: "headers \<Rightarrow> u32 list \<Rightarrow> nat set" where
  "room h bs = (\<Union>x \<in> set bs. {unat x..<fin h x})"

section \<open>Finding the place of a block\<close>

text \<open>The block before \<open>bp\<close> and the pointer of a block in the ring.\<close>

lemma seg_next:
  "seg h p xs q l \<Longrightarrow> i < Suc (length xs) \<Longrightarrow> s_ptr (h ((p # xs) ! i)) = (p # xs @ [q]) ! Suc i"
proof (induction xs arbitrary: p i)
  case (Cons x xs)
  then show ?case by (cases i) auto
qed simp

lemma ring_next:
  assumes "seg h p xs p l" and "i < Suc (length xs)"
  shows "s_ptr (h ((p # xs) ! i)) = (p # xs) ! (Suc i mod Suc (length xs))"
proof (cases "i = length xs")
  case True
  then show ?thesis using seg_next [OF assms] by (simp add: nth_append)
next
  case False
  then show ?thesis using seg_next [OF assms] assms(2) by (simp add: nth_append)
qed

text \<open>A walk around the ring comes to every block.\<close>

lemma ring_walk:
  assumes "\<And>i. i < n \<Longrightarrow> i \<noteq> j \<Longrightarrow> f (cs ! i) = f (cs ! (Suc i mod n))" and "i < n" and "(i + d) mod n = j"
  shows "f (cs ! i) = f (cs ! j)"
  using assms(2,3)
proof (induction d arbitrary: i)
  case (Suc d)
  show ?case
  proof (cases "i = j")
    case False
    have "(Suc i mod n + d) mod n = j" using Suc.prems(2) by (simp add: mod_simps)
    then show ?thesis using Suc.IH [of "Suc i mod n"] assms(1) [OF Suc.prems(1) False] Suc.prems(1) by simp
  qed simp
qed simp

lemma ring_reaches: "i < n \<Longrightarrow> j < n \<Longrightarrow> (i + (n - i + j)) mod n = (j :: nat)"
  by simp

text \<open>The blocks below \<open>bp\<close> and above it, for a block \<open>bp\<close> that is in none of the free blocks.\<close>

definition apart :: "headers \<Rightarrow> u32 \<Rightarrow> u32 \<Rightarrow> bool" where
  "apart h bp x \<longleftrightarrow> unat x < unat bp \<and> fin h x \<le> unat bp \<or> fin h bp \<le> unat x"

lemma seg_split:
  assumes "seg h p bs q l" and "unat p < unat bp" and "unat bp < fin h bp" and "\<And>x. x \<in> set bs \<Longrightarrow> apart h bp x"
  obtains xs ys where "bs = xs @ ys" and "\<And>x. x \<in> set (p # xs) \<Longrightarrow> unat x < unat bp" and "\<And>y. y \<in> set ys \<Longrightarrow> fin h bp \<le> unat y"
  using assms
proof (induction bs arbitrary: p thesis)
  case Nil
  show ?case by (rule Nil.prems(1) [of "[]" "[]"]) (use Nil.prems(3) in simp_all)
next
  case (Cons x bs)
  have s: "seg h x bs q l" using Cons.prems(2) by simp
  show ?case
  proof (cases "unat x < unat bp")
    case True
    show ?thesis
    proof (rule Cons.IH [OF _ s True Cons.prems(4)])
      fix xs ys
      assume "bs = xs @ ys" "\<And>z. z \<in> set (x # xs) \<Longrightarrow> unat z < unat bp" "\<And>y. y \<in> set ys \<Longrightarrow> fin h bp \<le> unat y"
      then show thesis using Cons.prems(1) [of "x # xs" ys] Cons.prems(3) by auto
    qed (use Cons.prems(5) in auto)
  next
    case False
    have a: "fin h bp \<le> unat x" using False Cons.prems(5) [of x] by (auto simp: apart_def)
    have "\<And>z. z \<in> set bs \<Longrightarrow> fin h x < unat z" using seg_bounds [OF s] by blast
    then have "\<And>z. z \<in> set bs \<Longrightarrow> fin h bp \<le> unat z" using a fin_ge [of x h] by fastforce
    then show ?thesis using Cons.prems(1) [of "[]" "x # bs"] Cons.prems(3) a by auto
  qed
qed

text \<open>The test of the loop holds exactly at the last block below \<open>bp\<close>.\<close>

definition free_stops :: "headers \<Rightarrow> u32 \<Rightarrow> u32 \<Rightarrow> bool" where
  "free_stops h bp p \<longleftrightarrow> bp > p \<and> bp < s_ptr (h p) \<or> p \<ge> s_ptr (h p) \<and> (bp > p \<or> bp < s_ptr (h p))"

lemma free_find_step: "free_find h bp p = (if free_stops h bp p then Some p else free_find h bp (s_ptr (h p)))"
  by (subst free_find.simps) (auto simp: free_stops_def)

lemma seg_increasing: "seg h p xs q l \<Longrightarrow> i < length xs \<Longrightarrow> (p # xs) ! i < xs ! i"
proof (induction xs arbitrary: p i)
  case (Cons x xs)
  then show ?case using fin_ge [of p h] by (cases i) (auto simp: word_less_nat_alt)
qed simp

lemma free_stops_iff:
  assumes "seg h b (xs @ ys) b l" and "\<And>x. x \<in> set (b # xs) \<Longrightarrow> x < bp" and "\<And>y. y \<in> set ys \<Longrightarrow> bp < y"
    and "i < Suc (length (xs @ ys))"
  shows "free_stops h bp ((b # xs @ ys) ! i) \<longleftrightarrow> i = length xs"
proof -
  let ?cs = "b # xs @ ys"
  have n: "s_ptr (h (?cs ! i)) = (?cs @ [b]) ! Suc i" using seg_next [OF assms(1,4)] by simp
  have lt: "?cs ! i < bp \<longleftrightarrow> i \<le> length xs"
  proof (cases "i \<le> length xs")
    case True
    then have "?cs ! i \<in> set (b # xs)" using nth_mem [of i "b # xs"] nth_append [of "b # xs" ys i] by simp
    then show ?thesis using True assms(2) by blast
  next
    case False
    then have "?cs ! i \<in> set ys" using assms(4) by (cases i) (auto simp: nth_append)
    then show ?thesis using False assms(3) by fastforce
  qed
  have d: "unat b < unat z" if "z \<in> set (xs @ ys)" for z
    using seg_bounds [OF assms(1)] that fin_ge [of b h] by fastforce
  show ?thesis
  proof (cases "Suc i < Suc (length (xs @ ys))")
    case True
    then have e: "s_ptr (h (?cs ! i)) = (xs @ ys) ! i" using n nth_append_left [of i "xs @ ys" "[b]"] by simp
    then have up: "?cs ! i < s_ptr (h (?cs ! i))"
      using True seg_increasing [OF assms(1), of i] by simp
    have "bp < (xs @ ys) ! i \<longleftrightarrow> length xs \<le> i"
    proof (cases "length xs \<le> i")
      case True
      then have "(xs @ ys) ! i \<in> set ys" using \<open>Suc i < Suc (length (xs @ ys))\<close> by (auto simp: nth_append)
      then show ?thesis using assms(3) True by blast
    next
      case False
      then have "(xs @ ys) ! i \<in> set xs" by (simp add: nth_append)
      then show ?thesis using assms(2) False by fastforce
    qed
    then show ?thesis using up e lt by (auto simp: free_stops_def)
  next
    case False
    then have i: "i = length (xs @ ys)" using assms(4) by simp
    then have e: "s_ptr (h (?cs ! i)) = b" using n by (simp add: nth_append)
    have "b \<le> ?cs ! i"
    proof (cases "xs @ ys = []")
      case False
      then have "?cs ! i \<in> set (xs @ ys)" using i nth_mem [of "length (xs @ ys) - 1" "xs @ ys"] by (cases i) simp_all
      then show ?thesis using d [of "?cs ! i"] by (simp add: word_le_nat_alt less_imp_le)
    qed (use i in simp)
    moreover have "b < bp" using assms(2) by simp
    ultimately show ?thesis using e lt i by (auto simp: free_stops_def)
  qed
qed

lemma free_find_eq:
  assumes "seg h b (xs @ ys) b l" and "\<And>x. x \<in> set (b # xs) \<Longrightarrow> x < bp" and "\<And>y. y \<in> set ys \<Longrightarrow> bp < y"
    and "p \<in> set (b # xs @ ys)"
  shows "free_find h bp p = Some (last (b # xs))"
proof -
  let ?cs = "b # xs @ ys" and ?n = "Suc (length (xs @ ys))" and ?j = "length xs"
  obtain i where i: "i < ?n" "p = ?cs ! i" using assms(4) by (metis in_set_conv_nth length_Cons)
  have j: "?j < ?n" "?cs ! ?j = last (b # xs)" by (simp_all add: last_conv_nth nth_append nth_Cons' last_ConsR)
  have "free_find h bp (?cs ! i) = free_find h bp (?cs ! ?j)"
  proof (rule ring_walk [where n = ?n and j = ?j and d = "?n - i + ?j"])
    fix k assume "k < ?n" "k \<noteq> ?j"
    then show "free_find h bp (?cs ! k) = free_find h bp (?cs ! (Suc k mod ?n))"
      using free_stops_iff [OF assms(1-3), of k] ring_next [OF assms(1), of k] by (subst free_find_step) simp
  qed (use i(1) ring_reaches [OF i(1) j(1)] in simp_all)
  also have "\<dots> = Some (?cs ! ?j)" using free_stops_iff [OF assms(1-3), of ?j] j(1) by (subst free_find_step) simp
  finally show ?thesis using i(2) j(2) by simp
qed

section \<open>Putting a block back\<close>

text \<open>The first join makes \<open>bp\<close> the head of the blocks above it.\<close>

lemma unat_end: "fin h x < 2 ^ 32 \<Longrightarrow> unat (x + 8 * s_size (h x)) = fin h x"
  by (simp add: fin_def unat_word_ariths mod_simps)

lemma end_eq: "fin h x < 2 ^ 32 \<Longrightarrow> x + 8 * s_size (h x) = y \<longleftrightarrow> fin h x = unat y"
  using unat_end [of h x] by (metis word_unat_eq_iff)

lemma size_add: "8 * (unat a + unat b) < 2 ^ 32 \<Longrightarrow> unat (a + b :: u32) = unat a + unat b"
  by (simp add: unat_word_ariths)

lemma join_next_seg:
  assumes "s_ptr (h p) = (ys @ [b]) ! 0" and "ys \<noteq> [] \<Longrightarrow> seg h (hd ys) (tl ys) b l" and "\<And>y. y \<in> set ys \<Longrightarrow> fin h bp \<le> unat y"
    and "fin h bp < l" and "l \<le> 2 ^ 31 + 1" and "unat b < unat bp" and "unat bp < fin h bp"
  obtains zs where "seg (join_next bp p h) bp zs b l" and "set zs \<subseteq> set ys"
    and "{unat bp..<fin (join_next bp p h) bp} \<union> room h zs = {unat bp..<fin h bp} \<union> room h ys" and "fin h bp \<le> fin (join_next bp p h) bp"
proof (cases ys)
  case Nil
  have e: "bp + 8 * s_size (h bp) \<noteq> b" using end_eq [of h bp b] assms(4-7) by auto
  have "seg (join_next bp p h) bp [] b l" "fin (join_next bp p h) bp = fin h bp"
    using e assms(1,4) Nil by (simp_all add: join_next_def fin_def)
  then show ?thesis using that [of "[]"] Nil by (simp add: room_def)
next
  case (Cons y zs)
  have s: "seg h y zs b l" "fin h bp \<le> unat y" "s_ptr (h p) = y" using assms(1-3) Cons by auto
  have y: "bp \<notin> set ys" using assms(3,7) by fastforce
  have fy: "fin h y < l" using seg_bounds [OF s(1)] by simp
  show ?thesis
  proof (cases "fin h bp = unat y")
    case True
    then have j: "join_next bp p h = h(bp := \<lparr>s_ptr = s_ptr (h y), s_size = s_size (h bp) + s_size (h y)\<rparr>)"
      using s(3) end_eq [of h bp y] assms(4,5) by (simp add: join_next_def)
    have z: "unat (s_size (h bp) + s_size (h y)) = unat (s_size (h bp)) + unat (s_size (h y))"
      using True fy assms(5) by (intro size_add) (simp add: fin_def)
    have f: "fin (join_next bp p h) bp = fin h y" using True z unfolding j by (simp add: fin_def)
    have "seg (join_next bp p h) bp zs b l"
      by (rule seg_first [OF s(1)]) (use y Cons f j in auto)
    moreover have "unat y \<le> fin h y" by (rule fin_ge)
    moreover have "{unat bp..<fin h y} = {unat bp..<fin h bp} \<union> {unat y..<fin h y}"
      using True calculation(2) assms(7) by auto
    ultimately show ?thesis using that [of zs] Cons f True by (auto simp: room_def)
  next
    case False
    then have j: "join_next bp p h = h(bp := (h bp)\<lparr>s_ptr := y\<rparr>)"
      using s(3) end_eq [of h bp y] assms(4,5) by (simp add: join_next_def)
    have f: "fin (join_next bp p h) bp = fin h bp" unfolding j by (simp add: fin_def)
    have "seg (join_next bp p h) y zs b l"
      by (rule seg_cong [OF s(1)]) (use y Cons j in auto)
    then have "seg (join_next bp p h) bp ys b l" using False s(2) f Cons j by simp
    then show ?thesis using that [of ys] f by simp
  qed
qed

text \<open>The second join, with the blocks below.\<close>

lemma room_append: "room h (xs @ ys) = room h xs \<union> room h ys"
  by (simp add: room_def)

lemma room_cong: "(\<And>z. z \<in> set xs \<Longrightarrow> h' z = h z) \<Longrightarrow> room h' xs = room h xs"
  by (auto simp: room_def fin_def)

lemma last_notin_butlast: "distinct xs \<Longrightarrow> xs \<noteq> [] \<Longrightarrow> last xs \<notin> set (butlast xs)"
  by (induction xs rule: rev_induct) auto

lemma join_prev_seg:
  assumes "seg h b xs q (unat bp + 1)" and "seg h bp zs b l" and "p = last (b # xs)" and "\<And>z. z \<in> set zs \<Longrightarrow> fin h bp < unat z"
    and "s_size (h b) = 0" and "unat b < unat bp" and "unat bp < fin h bp" and "l \<le> 2 ^ 31 + 1"
  obtains ws where "seg (join_prev bp p h) b ws b l" and "p \<in> set (b # ws)" and "set ws \<subseteq> insert bp (set (xs @ zs))"
    and "room (join_prev bp p h) ws = room h xs \<union> {unat bp..<fin h bp} \<union> room h zs" and "s_size (join_prev bp p h b) = 0"
    and "\<exists>x \<in> set ws. unat x \<le> unat bp \<and> fin h bp \<le> fin (join_prev bp p h) x"
proof -
  have bl: "unat z \<le> fin h z" "fin h z \<le> unat bp" "z \<noteq> bp" "z \<notin> set zs" if "z \<in> set (b # xs)" for z
  proof -
    show "unat z \<le> fin h z" by (rule fin_ge)
    show le: "fin h z \<le> unat bp" using seg_bounds [OF assms(1)] that by fastforce
    show "z \<noteq> bp" using le assms(7) fin_ge [of z h] that by auto
    show "z \<notin> set zs" using le assms(4,7) fin_ge [of z h] by fastforce
  qed
  have lp: "p \<in> set (b # xs)" using assms(3) by (cases xs) auto
  have nl: "p \<notin> set (butlast (b # xs))" using seg_bounds [OF assms(1)] assms(3) last_notin_butlast by blast
  have zb: "bp \<notin> set zs" using seg_bounds [OF assms(2)] by simp
  have fl: "fin h bp < l" using seg_bounds [OF assms(2)] by simp
  show ?thesis
  proof (cases "fin h p = unat bp")
    case False
    let ?h = "h(p := (h p)\<lparr>s_ptr := bp\<rparr>)"
    have j: "join_prev bp p h = ?h"
      using False end_eq [of h p bp] bl(2) [OF lp] unat_lt32 [of bp] by (simp add: join_prev_def)
    have fp: "fin ?h z = fin h z" for z by (simp add: fin_def)
    have "seg ?h b xs bp (unat bp)"
    proof (rule seg_last [OF assms(1)])
      show "?h z = h z" if "z \<in> set (butlast (b # xs))" for z using nl that by auto
      show "s_ptr (?h (last (b # xs))) = bp" unfolding assms(3) [symmetric] by simp
      show "fin ?h (last (b # xs)) < unat bp" unfolding assms(3) [symmetric] using False bl(2) [OF lp] fp [of p] by simp
    qed
    moreover have "seg ?h bp zs b l" using bl [OF lp] by (intro seg_cong [OF assms(2)]) auto
    ultimately have "seg ?h b (xs @ bp # zs) b l" by (simp add: seg_append)
    moreover have "room ?h (xs @ bp # zs) = room h xs \<union> {unat bp..<fin h bp} \<union> room h zs"
      by (auto simp: room_def fp)
    ultimately show ?thesis using that [of "xs @ bp # zs"] j assms(5) lp fp by (cases "b = p") auto
  next
    case True
    let ?h = "h(p := \<lparr>s_ptr = s_ptr (h bp), s_size = s_size (h p) + s_size (h bp)\<rparr>)"
    have j: "join_prev bp p h = ?h"
      using True end_eq [of h p bp] unat_lt32 [of bp] by (simp add: join_prev_def)
    have nb: "p \<noteq> b" using True assms(5,6) by (auto simp: fin_def)
    then obtain vs where vs: "xs = vs @ [p]" using assms(3) by (cases xs rule: rev_cases) auto
    have z: "unat (s_size (h p) + s_size (h bp)) = unat (s_size (h p)) + unat (s_size (h bp))"
      using True fl assms(8) by (intro size_add) (simp add: fin_def)
    have f: "fin ?h p = fin h bp" using True z by (simp add: fin_def)
    have a: "seg h b vs p (unat p)" "p \<notin> set (b # vs)" using assms(1) seg_bounds [OF assms(1)] by (auto simp: vs seg_append)
    have "seg ?h b vs p (unat p)" using a(2) by (intro seg_cong [OF a(1)]) auto
    moreover have "seg ?h p zs b l"
      by (rule seg_first [OF assms(2)]) (use bl(4) [OF lp] f in auto)
    ultimately have "seg ?h b (vs @ p # zs) b l" by (simp add: seg_append)
    moreover have "room ?h (vs @ p # zs) = room h xs \<union> {unat bp..<fin h bp} \<union> room h zs"
    proof -
      have "room ?h vs = room h vs" by (rule room_cong) (use a(2) in auto)
      moreover have "room ?h zs = room h zs" by (rule room_cong) (use bl(4) [OF lp] in auto)
      moreover have "{unat p..<fin h bp} = {unat p..<fin h p} \<union> {unat bp..<fin h bp}"
        using True assms(7) fin_ge [of p h] by auto
      ultimately show ?thesis using f by (auto simp: room_def vs)
    qed
    ultimately show ?thesis using that [of "vs @ p # zs"] j assms(5) nb vs f bl(1,2) [OF lp] by auto
  qed
qed

text \<open>A block that can be given back: it lies between \<open>base\<close> and the size of the process and in none of the
  free blocks.\<close>

definition freeable :: "u32 \<Rightarrow> uheap \<Rightarrow> u32 list \<Rightarrow> u32 \<Rightarrow> bool" where
  "freeable base h bs bp \<longleftrightarrow> base < bp \<and> 0 < s_size (hdrs h bp) \<and> fin (hdrs h) bp \<le> unat (brk h) \<and> (\<forall>x \<in> set bs. apart (hdrs h) bp x)"

lemma unat_brk: "heap_ok base h bs \<Longrightarrow> Suc (unat (brk h)) \<le> 2 ^ 31 + 1"
  by (simp add: heap_ok_def word_le_nat_alt KERNBASE_def)

lemma seg_last_ptr: "seg h p xs q l \<Longrightarrow> s_ptr (h (last (p # xs))) = q"
  by (induction xs arbitrary: p) auto

lemma seg_split_last:
  assumes "seg h p (xs @ ys) q l"
  shows "\<exists>l'. seg h p xs ((ys @ [q]) ! 0) l'" and "ys \<noteq> [] \<Longrightarrow> seg h (hd ys) (tl ys) q l"
  using assms by (cases ys; auto simp: seg_append)+

lemma free_eq:
  assumes "heap_ok base h bs" and "freeable base h bs bp"
  shows "\<exists>h' bs'. free (bp + 8) h = Some h' \<and> heap_ok base h' bs' \<and> brk h' = brk h
    \<and> room (hdrs h') bs' = room (hdrs h) bs \<union> {unat bp..<fin (hdrs h) bp}
    \<and> (\<exists>x \<in> set bs'. s_size (hdrs h bp) \<le> s_size (hdrs h' x)) \<and> (\<forall>z. z \<notin> set (base # bp # bs) \<longrightarrow> hdrs h' z = hdrs h z)"
proof -
  let ?d = "hdrs h" and ?l = "Suc (unat (brk h))"
  have o: "seg ?d base bs base ?l" "s_size (?d base) = 0" "0 < base" "freep h \<in> set (base # bs)" "?l \<le> 2 ^ 31 + 1"
    using assms(1) unat_brk [OF assms(1)] by (auto simp: heap_ok_def)
  have f: "unat base < unat bp" "unat bp < fin ?d bp" "fin ?d bp < ?l" "\<And>x. x \<in> set bs \<Longrightarrow> apart ?d bp x"
    using assms(2) by (auto simp: freeable_def fin_def word_less_nat_alt)
  obtain xs ys where s: "bs = xs @ ys" "\<And>x. x \<in> set (base # xs) \<Longrightarrow> unat x < unat bp" "\<And>y. y \<in> set ys \<Longrightarrow> fin ?d bp \<le> unat y"
    using seg_split [OF o(1) f(1,2,4)] by blast
  let ?p = "last (base # xs)" and ?d1 = "join_next bp (last (base # xs)) ?d"
  have "free_find ?d bp (freep h) = Some ?p"
    using s f(2) o(1,4) by (intro free_find_eq [of ?d base xs ys ?l]) (fastforce simp: word_less_nat_alt)+
  then have e: "free (bp + 8) h = Some (h\<lparr>hdrs := join_prev bp ?p ?d1, freep := ?p\<rparr>)"
    by (simp add: free_def)
  have fx: "fin ?d x < unat bp + 1" "x \<noteq> bp" if "x \<in> set (base # xs)" for x
    using that s(1) s(2) [OF that] f(2) f(4) [of x] o(2) by (auto simp: apart_def fin_def)
  have pin: "?p \<in> set (base # xs)" by (cases xs) auto
  obtain l' where l': "seg ?d base xs ((ys @ [base]) ! 0) l'" using seg_split_last(1) o(1) s(1) by blast
  obtain zs where z: "seg ?d1 bp zs base ?l" "set zs \<subseteq> set ys" "fin ?d bp \<le> fin ?d1 bp"
      "{unat bp..<fin ?d1 bp} \<union> room ?d zs = {unat bp..<fin ?d bp} \<union> room ?d ys"
    using join_next_seg [OF seg_last_ptr [OF l'] seg_split_last(2) s(3) f(3) o(5) f(1,2)] o(1) s(1) by blast
  have d1: "?d1 x = ?d x" if "x \<noteq> bp" for x using that by (simp add: join_next_def Let_def)
  have "seg ?d base xs ((ys @ [base]) ! 0) (unat bp + 1)"
    by (rule seg_last [OF l' refl seg_last_ptr [OF l'] fx(1) [OF pin]])
  then have x1: "seg ?d1 base xs ((ys @ [base]) ! 0) (unat bp + 1)"
    by (rule seg_cong) (use d1 fx(2) in blast)
  have s0: "s_size (?d1 base) = 0" using d1 [of base] fx(2) [of base] o(2) by simp
  have zf: "\<And>x. x \<in> set zs \<Longrightarrow> fin ?d1 bp < unat x" using seg_bounds [OF z(1)] by blast
  have bf: "unat bp < fin ?d1 bp" using f(2) z(3) by simp
  obtain ws where w: "seg (join_prev bp ?p ?d1) base ws base ?l" "?p \<in> set (base # ws)" "set ws \<subseteq> insert bp (set (xs @ zs))"
      "room (join_prev bp ?p ?d1) ws = room ?d1 xs \<union> {unat bp..<fin ?d1 bp} \<union> room ?d1 zs" "s_size (join_prev bp ?p ?d1 base) = 0"
      "\<exists>x \<in> set ws. unat x \<le> unat bp \<and> fin ?d1 bp \<le> fin (join_prev bp ?p ?d1) x"
    using join_prev_seg [OF x1 z(1) refl zf s0 f(1) bf o(5)] by blast
  let ?d2 = "join_prev bp ?p ?d1"
  have nb: "bp \<notin> set xs" "bp \<notin> set zs" using fx(2) zf bf by fastforce+
  have "room ?d1 xs = room ?d xs" by (rule room_cong) (use d1 nb(1) in metis)
  moreover have "room ?d1 zs = room ?d zs" by (rule room_cong) (use d1 nb(2) in metis)
  ultimately have r: "room ?d2 ws = room ?d bs \<union> {unat bp..<fin ?d bp}" using w(4) z(4) s(1) by (auto simp: room_append)
  have k: "\<exists>x \<in> set ws. s_size (?d bp) \<le> s_size (?d2 x)"
  proof -
    obtain x where x: "x \<in> set ws" "unat x \<le> unat bp" "fin ?d1 bp \<le> fin ?d2 x" using w(6) by blast
    then have "fin ?d bp \<le> fin ?d2 x" using z(3) by simp
    then have "unat (s_size (?d bp)) \<le> unat (s_size (?d2 x))" using x(2) by (simp add: fin_def)
    then show ?thesis using x(1) by (auto simp: word_le_nat_alt)
  qed
  have c: "?d2 y = ?d y" if "y \<notin> set (base # bp # bs)" for y
  proof -
    have "y \<noteq> ?p" "y \<noteq> bp" using that pin s(1) by auto
    then show ?thesis using d1 by (simp add: join_prev_def)
  qed
  have "set ws \<subseteq> insert bp (set bs)" using w(3) z(2) s(1) by auto
  moreover have "bp < brk h" using f(2,3) by (simp add: word_less_nat_alt)
  moreover have b: "\<forall>x \<in> set (base # bs). x < brk h" "0 < base" "brk h \<le> KERNBASE" using assms(1) by (simp_all add: heap_ok_def)
  ultimately have "\<forall>x \<in> set (base # ws). x < brk h" by auto
  then have "heap_ok base (h\<lparr>hdrs := ?d2, freep := ?p\<rparr>) ws" using w(1,2,5) b(2,3) by (simp add: heap_ok_def)
  then show ?thesis using e r k c by (intro exI [of _ "h\<lparr>hdrs := ?d2, freep := ?p\<rparr>"] exI [of _ ws]) auto
qed

section \<open>Taking a block\<close>

lemma unat_add8: "unat p + 8 * unat m < 2 ^ 32 \<Longrightarrow> unat (p + 8 * m :: u32) = unat p + 8 * unat m"
  by (simp add: unat_word_ariths mod_simps)

lemma heap_ok_upd:
  "heap_ok base h bs \<Longrightarrow> seg d base ws base (Suc (unat (brk h))) \<Longrightarrow> s_size (d base) = 0 \<Longrightarrow> p \<in> set (base # ws) \<Longrightarrow> set ws \<subseteq> set bs
    \<Longrightarrow> heap_ok base (h\<lparr>hdrs := d, freep := p\<rparr>) ws"
  by (auto simp: heap_ok_def)

lemma carve_exact:
  assumes "heap_ok base h (xs @ p # ys)" and "s_size (hdrs h p) = n"
  shows "\<exists>h'. carve n (last (base # xs)) p h = (p + 8, h') \<and> heap_ok base h' (xs @ ys) \<and> brk h' = brk h
    \<and> hdrs h' p = hdrs h p \<and> room (hdrs h') (xs @ ys) = room (hdrs h) (xs @ ys) \<and> (\<forall>x. fin (hdrs h') x = fin (hdrs h) x)"
proof -
  obtain k where k: "k = last (base # xs)" by simp
  let ?d = "hdrs h" and ?l = "Suc (unat (brk h))"
  let ?e = "?d(k := (?d k)\<lparr>s_ptr := s_ptr (?d p)\<rparr>)"
  have o: "seg ?d base xs p (unat p)" "seg ?d p ys base ?l" "distinct (base # xs @ p # ys)"
    using assms(1) seg_bounds [of ?d base "xs @ p # ys" base ?l] by (auto simp: heap_ok_def seg_append)
  have pin: "k \<in> set (base # xs)" unfolding k by (cases xs) auto
  have nl: "k \<notin> set (butlast (base # xs))" unfolding k by (rule last_notin_butlast) (use o(3) in auto)
  have np: "k \<noteq> p" "k \<notin> set ys" using o(3) pin by auto
  have fe: "fin ?e z = fin ?d z" for z by (simp add: fin_def)
  have fq: "fin ?d k < unat p" using seg_bounds [OF o(1)] pin by auto
  have up: "seg ?e base xs b l" if "s_ptr (?d p) = b" "unat p \<le> l" for b l
  proof (rule seg_last [OF o(1)])
    show "?e z = ?d z" if "z \<in> set (butlast (base # xs))" for z using that nl by auto
    show "s_ptr (?e (last (base # xs))) = b" "fin ?e (last (base # xs)) < l"
      unfolding k [symmetric] using that fq fe [of k] by simp_all
  qed
  have pl: "unat p \<le> fin ?d p" by (rule fin_ge)
  have "seg ?e base (xs @ ys) base ?l"
  proof (cases ys)
    case Nil
    then have "s_ptr (?d p) = base" "unat p \<le> ?l" using o(2) pl by simp_all
    then show ?thesis using up Nil by simp
  next
    case (Cons y zs)
    then have "s_ptr (?d p) = y" "unat p \<le> unat y" "seg ?d y zs base ?l" using o(2) pl by simp_all
    note c = this
    have "seg ?e base xs y (unat y)" by (rule up [OF c(1,2)])
    moreover have "seg ?e y zs base ?l" by (rule seg_cong [OF c(3)]) (use np(2) Cons in auto)
    ultimately show ?thesis using Cons by (simp add: seg_append)
  qed
  moreover have "s_size (?e base) = 0" using assms(1) by (cases "base = k") (auto simp: heap_ok_def)
  moreover have "k \<in> set (base # xs @ ys)" using pin by auto
  ultimately have "heap_ok base (h\<lparr>hdrs := ?e, freep := k\<rparr>) (xs @ ys)"
    by (intro heap_ok_upd [OF assms(1)]) auto
  moreover have "room ?e (xs @ ys) = room ?d (xs @ ys)" using fe by (simp add: room_def)
  ultimately show ?thesis using assms(2) np(1) fe unfolding k [symmetric] by (simp add: carve_def Let_def)
qed

lemma carve_larger:
  "s_size (hdrs h p) \<noteq> n \<Longrightarrow> q = p + 8 * (s_size (hdrs h p) - n) \<Longrightarrow> p \<noteq> q \<Longrightarrow> carve n k p h
    = (q + 8, h\<lparr>hdrs := (hdrs h)(p := (hdrs h p)\<lparr>s_size := s_size (hdrs h p) - n\<rparr>, q := (hdrs h q)\<lparr>s_size := n\<rparr>), freep := k\<rparr>)"
  by (simp add: carve_def Let_def)

lemma carve_split:
  assumes "heap_ok base h (xs @ p # ys)" and "n < s_size (hdrs h p)" and "0 < n" and "q = p + 8 * (s_size (hdrs h p) - n)"
  shows "\<exists>h'. carve n (last (base # xs)) p h = (q + 8, h') \<and> heap_ok base h' (xs @ p # ys) \<and> brk h' = brk h
    \<and> s_size (hdrs h' q) = n \<and> fin (hdrs h') q = fin (hdrs h) p \<and> fin (hdrs h') p = unat q \<and> unat p < unat q
    \<and> (\<forall>z. z \<noteq> p \<longrightarrow> z \<noteq> q \<longrightarrow> hdrs h' z = hdrs h z) \<and> q \<notin> set (base # xs @ p # ys)"
proof -
  let ?d = "hdrs h" and ?l = "Suc (unat (brk h))" and ?q = "last (base # xs)" and ?m = "s_size (hdrs h p) - n"
  let ?e = "(?d(p := (?d p)\<lparr>s_size := ?m\<rparr>))(q := (?d q)\<lparr>s_size := n\<rparr>)"
  have sg: "seg ?d base (xs @ p # ys) base ?l" using assms(1) by (simp add: heap_ok_def)
  have o: "seg ?d base xs p (unat p)" "seg ?d p ys base ?l" "distinct (base # xs @ p # ys)"
    using sg seg_bounds [OF sg] by (auto simp: seg_append)
  have fl: "fin ?d p < ?l" "?l \<le> 2 ^ 31 + 1" using seg_bounds [OF o(2)] unat_brk [OF assms(1)] by auto
  have m: "unat ?m = unat (s_size (?d p)) - unat n" "unat n < unat (s_size (?d p))" "0 < unat n"
    using assms(2,3) by (simp_all add: unat_sub word_less_nat_alt word_le_nat_alt)
  have uq: "unat q = unat p + 8 * unat ?m"
    unfolding assms(4) by (rule unat_add8) (use fl m in \<open>simp add: fin_def\<close>)
  have pq: "unat p < unat q" "unat q < fin ?d p" using uq m by (simp_all add: fin_def)
  have nq: "q \<notin> set (base # xs @ p # ys)"
  proof
    assume a: "q \<in> set (base # xs @ p # ys)"
    have "fin ?d z < unat p" if "z \<in> set (base # xs)" for z using seg_bounds [OF o(1)] that by auto
    then have "unat z < unat p" if "z \<in> set (base # xs)" for z using that fin_ge [of z ?d] le_less_trans by blast
    moreover have "fin ?d p < unat z" if "z \<in> set ys" for z using seg_bounds [OF o(2)] that by blast
    ultimately show False using a pq by (metis Un_iff list.set_intros(2) not_less_iff_gr_or_eq set_ConsD set_append list.set_intros(1))
  qed
  obtain e where e: "e = ?e" by simp
  have e1: "e z = ?d z" if "z \<noteq> p" "z \<noteq> q" for z using that by (simp add: e)
  have "p \<noteq> q" using nq by auto
  then have e2: "e p = (?d p)\<lparr>s_size := ?m\<rparr>" "e q = (?d q)\<lparr>s_size := n\<rparr>" by (simp_all add: e)
  have f: "fin e q = fin ?d p" "fin e p = unat q" using uq m by (simp_all add: fin_def e2)
  have "seg e base xs p (unat p)" by (rule seg_cong [OF o(1)], rule e1) (use o(3) nq in auto)
  moreover have "seg e p ys base ?l"
  proof (cases ys)
    case Nil
    then show ?thesis using o(2) f(2) pq fl(1) by (simp add: e2)
  next
    case (Cons y zs)
    then have c: "s_ptr (?d p) = y" "fin ?d p < unat y" "seg ?d y zs base ?l" using o(2) by simp_all
    have "seg e y zs base ?l" by (rule seg_cong [OF c(3)], rule e1) (use o(3) nq Cons in auto)
    then show ?thesis using c f(2) pq Cons by (simp add: e2)
  qed
  ultimately have "seg e base (xs @ p # ys) base ?l" by (simp add: seg_append)
  moreover have "base \<noteq> p" "base \<noteq> q" using o(3) nq by auto
  moreover from this have "s_size (e base) = 0" using assms(1) e1 by (simp add: heap_ok_def)
  moreover have "?q \<in> set (base # xs @ p # ys)" by (cases xs) auto
  ultimately have h: "heap_ok base (h\<lparr>hdrs := e, freep := ?q\<rparr>) (xs @ p # ys)"
    by (intro heap_ok_upd [OF assms(1)]) simp_all
  have "carve n ?q p h = (q + 8, h\<lparr>hdrs := e, freep := ?q\<rparr>)"
    unfolding e by (rule carve_larger) (use assms(2,4) \<open>p \<noteq> q\<close> in auto)
  then show ?thesis using f nq pq(1) h e1 e2(2) by (intro exI [of _ "h\<lparr>hdrs := e, freep := ?q\<rparr>"]) simp
qed

section \<open>Looking for a block\<close>

text \<open>The loop of \<open>malloc\<close> at the block after \<open>prevp\<close>, and a walk from \<open>freep\<close> past blocks that are too small.\<close>

abbreviation look_from :: "(u32 \<Rightarrow> u32 \<Rightarrow> bool) \<Rightarrow> u32 \<Rightarrow> uheap \<Rightarrow> u32 \<Rightarrow> (u32 \<times> uheap) option" where
  "look_from pages n h prevp \<equiv> malloc_loop pages n prevp (s_ptr (hdrs h prevp)) h"

lemma mod_shift: "i < N \<Longrightarrow> 0 < e \<Longrightarrow> e < N \<Longrightarrow> (i + e) mod N \<noteq> (i :: nat)"
  by (cases "i + e < N") (auto simp: le_mod_geq)

lemma heap_ring:
  assumes "heap_ok base h bs" and "i < Suc (length bs)"
  shows "s_ptr (hdrs h ((base # bs) ! i)) = (base # bs) ! (Suc i mod Suc (length bs))"
  using assms by (intro ring_next) (auto simp: heap_ok_def)

lemma heap_distinct: "heap_ok base h bs \<Longrightarrow> distinct (base # bs)"
  using seg_bounds by (auto simp: heap_ok_def)

lemma scan_walk:
  assumes "heap_ok base h bs" and "N = Suc (length bs)" and "i < N" and "(base # bs) ! i = freep h"
  shows "d < N \<Longrightarrow> \<forall>k < d. \<not> n \<le> s_size (hdrs h ((base # bs) ! (Suc (i + k) mod N)))
    \<Longrightarrow> look_from pages n h (freep h) = look_from pages n h ((base # bs) ! ((i + d) mod N))"
proof (induction d)
  case 0
  then show ?case using assms(3,4) by simp
next
  case (Suc d)
  let ?j = "(i + d) mod N" and ?cs = "base # bs"
  have j: "?j < N" "Suc ?j mod N = Suc (i + d) mod N" using assms(2) by (simp_all add: mod_Suc_eq)
  have nx: "s_ptr (hdrs h (?cs ! ?j)) = ?cs ! (Suc (i + d) mod N)"
    using heap_ring [OF assms(1), of ?j] j assms(2) by simp
  have "Suc (i + d) mod N \<noteq> i" using mod_shift [of i N "Suc d"] assms(3) Suc.prems(1) by simp
  then have "?cs ! (Suc (i + d) mod N) \<noteq> ?cs ! i"
    using heap_distinct [OF assms(1)] assms(2,3) by (simp add: nth_eq_iff_index_eq del: nth.simps distinct.simps)
  then have "look_from pages n h (?cs ! ?j) = look_from pages n h (?cs ! (Suc (i + d) mod N))"
    using Suc.prems(2) nx assms(4) by (subst malloc_loop.simps) simp
  then show ?case using Suc by simp
qed

lemma last_nth: "j \<le> length bs \<Longrightarrow> last (base # take j bs) = (base # bs) ! j"
  by (cases bs; cases j) (auto simp: last_conv_nth)

lemma freep_index:
  assumes "heap_ok base h bs"
  obtains i where "i < Suc (length bs)" and "(base # bs) ! i = freep h"
proof -
  have "freep h \<in> set (base # bs)" using assms by (simp add: heap_ok_def)
  then show thesis using that unfolding in_set_conv_nth length_Cons by blast
qed

lemma scan_fit:
  assumes "heap_ok base h bs" and "0 < n" and "x \<in> set bs" and "n \<le> s_size (hdrs h x)"
  shows "\<exists>xs p ys. bs = xs @ p # ys \<and> n \<le> s_size (hdrs h p) \<and> look_from pages n h (freep h) = Some (carve n (last (base # xs)) p h)"
proof -
  let ?N = "Suc (length bs)" and ?cs = "base # bs"
  obtain i where i: "i < ?N" "?cs ! i = freep h" using freep_index [OF assms(1)] .
  let ?P = "\<lambda>k. n \<le> s_size (hdrs h (?cs ! (Suc (i + k) mod ?N)))"
  obtain k where "k < length bs" "bs ! k = x" using assms(3) unfolding in_set_conv_nth by blast
  then obtain m where m: "m < ?N" "?cs ! m = x" by (intro that [of "Suc k"]) simp_all
  have "Suc (i + (length bs - i + m) mod ?N) mod ?N = Suc (i + (length bs - i + m)) mod ?N"
    by (metis mod_Suc_eq mod_add_right_eq)
  also have "Suc (i + (length bs - i + m)) = m + ?N" using i(1) by simp
  also have "(m + ?N) mod ?N = m" by (simp only: mod_add_self2 mod_less m(1))
  finally have idx: "Suc (i + (length bs - i + m) mod ?N) mod ?N = m" .
  have P: "?P ((length bs - i + m) mod ?N)" unfolding idx m(2) by (rule assms(4))
  obtain d where d: "?P d" "\<forall>k < d. \<not> ?P k" "d \<le> (length bs - i + m) mod ?N"
  proof (rule that [of "LEAST k. ?P k"])
    show "?P (LEAST k. ?P k)" by (rule LeastI [of ?P, OF P])
    show "\<forall>k < (LEAST k. ?P k). \<not> ?P k" using not_less_Least [of _ ?P] by blast
    show "(LEAST k. ?P k) \<le> (length bs - i + m) mod ?N" by (rule Least_le [of ?P, OF P])
  qed
  have "(length bs - i + m) mod ?N < ?N" by simp
  then have dN: "d < ?N" using d(3) by linarith
  obtain j where j: "j = (i + d) mod ?N" by simp
  have w: "look_from pages n h (freep h) = look_from pages n h (?cs ! j)"
    unfolding j by (rule scan_walk [OF assms(1) refl i dN d(2)])
  have jN: "j < ?N" unfolding j by simp
  have e: "Suc (i + d) mod ?N = Suc j mod ?N" unfolding j by (simp only: mod_Suc_eq)
  have fit: "n \<le> s_size (hdrs h (?cs ! (Suc j mod ?N)))" using d(1) unfolding e .
  have jb: "j < length bs"
  proof (rule ccontr)
    assume "\<not> j < length bs"
    then have "j = length bs" using jN by simp
    then have "Suc j mod ?N = 0" by simp
    then have "n \<le> s_size (hdrs h base)" using fit by simp
    then show False using assms(1,2) by (simp add: heap_ok_def)
  qed
  then have sj: "?cs ! (Suc j mod ?N) = bs ! j" by simp
  then have fp: "n \<le> s_size (hdrs h (bs ! j))" "s_ptr (hdrs h (?cs ! j)) = bs ! j"
    using fit heap_ring [OF assms(1) jN] by (simp_all only: sj)
  have "look_from pages n h (?cs ! j) = Some (carve n (?cs ! j) (bs ! j) h)"
    unfolding fp(2) by (subst malloc_loop.simps) (simp only: fp(1) if_True)
  then have "look_from pages n h (freep h) = Some (carve n (last (base # take j bs)) (bs ! j) h)"
    using w last_nth [of j bs base] jb by (simp only: less_imp_le)
  then show ?thesis using id_take_nth_drop [OF jb] fp(1) by blast
qed

lemma scan_nofit:
  assumes "heap_ok base h bs" and "0 < n" and "\<forall>x \<in> set bs. \<not> n \<le> s_size (hdrs h x)"
  shows "look_from pages n h (freep h) = (case morecore pages n h of None \<Rightarrow> None
    | Some (q, h') \<Rightarrow> if q = 0 then Some (0, h') else look_from pages n h' q)"
proof -
  let ?N = "Suc (length bs)" and ?cs = "base # bs"
  obtain i where i: "i < ?N" "?cs ! i = freep h" using freep_index [OF assms(1)] .
  have no: "\<not> n \<le> s_size (hdrs h z)" if "z \<in> set ?cs" for z
    using that assms by (auto simp: heap_ok_def)
  then have no': "\<not> n \<le> s_size (hdrs h (?cs ! (k mod ?N)))" for k
    using nth_mem [of "k mod ?N" ?cs] by (simp del: nth.simps)
  let ?j = "(i + length bs) mod ?N"
  have w: "look_from pages n h (freep h) = look_from pages n h (?cs ! ?j)"
    using scan_walk [OF assms(1) refl i, of "length bs" n pages] no' by simp
  have "Suc ?j mod ?N = (i + ?N) mod ?N" by (simp only: mod_Suc_eq add_Suc_right)
  also have "\<dots> = i" by (simp only: mod_add_self2 mod_less i(1))
  finally have "Suc ?j mod ?N = i" .
  then have "s_ptr (hdrs h (?cs ! ?j)) = freep h" using heap_ring [OF assms(1), of ?j] i(2) by simp
  moreover have "freep h \<in> set ?cs" using assms(1) by (simp add: heap_ok_def)
  ultimately have n: "s_ptr (hdrs h (?cs ! ?j)) = freep h" "\<not> n \<le> s_size (hdrs h (freep h))" using no by blast+
  show ?thesis unfolding w n(1) by (subst malloc_loop.simps) (simp only: n(2) if_True if_False simp_thms)
qed

section \<open>More memory\<close>

lemma sbrk_eq:
  assumes "brk h \<le> KERNBASE" and "0 < unat n" and "unat n < 2 ^ 31" and "0 < brk h"
  shows "sbrk pages n h = (- 1, h) \<or> sbrk pages n h = (brk h, h\<lparr>brk := brk h + n\<rparr>) \<and> unat (brk h + n) = unat (brk h) + unat n
    \<and> brk h + n < KERNBASE"
proof -
  have b: "unat (brk h) \<le> 2 ^ 31" using assms(1) by (simp add: word_le_nat_alt KERNBASE_def)
  have "n < 2 ^ 31" "0 < n" using assms(2,3) by (simp_all add: word_less_nat_alt)
  then have "uint n < 2 ^ 31" "0 < uint n" by (simp_all add: word_less_def)
  then have s: "0 < sint n" by (simp add: sint_eq)
  have u: "unat (brk h + n) = unat (brk h) + unat n" using b assms(3) by (simp add: unat_word_ariths)
  then have "\<not> brk h + n < brk h" "brk h + n \<noteq> 0" using assms(2) by (auto simp: word_less_nat_alt unat_eq_zero)
  moreover have "n \<noteq> 0" using assms(2) by auto
  ultimately show ?thesis using s u by (auto simp: sbrk_def Let_def not_le)
qed

lemma freep_neq_0:
  assumes "heap_ok base h bs"
  shows "freep h \<noteq> 0"
proof
  assume z: "freep h = 0"
  have o: "seg (hdrs h) base bs base (Suc (unat (brk h)))" "0 < base" "freep h \<in> set (base # bs)" using assms by (auto simp: heap_ok_def)
  then have "fin (hdrs h) base < unat (0 :: u32)" using seg_bounds [OF o(1)] z by auto
  then show False by simp
qed

lemma morecore_eq:
  assumes "heap_ok base h bs" and "unat n < 2 ^ 28" and "0 < n"
  shows "morecore pages n h = Some (0, h) \<or> (\<exists>q h' bs'. morecore pages n h = Some (q, h') \<and> q \<noteq> 0 \<and> q = freep h' \<and> heap_ok base h' bs'
    \<and> brk h < brk h' \<and> room (hdrs h') bs' = room (hdrs h) bs \<union> {unat (brk h)..<unat (brk h')} \<and> (\<exists>x \<in> set bs'. n \<le> s_size (hdrs h' x)))"
proof -
  obtain nu where nu: "nu = (if n < 4096 then 4096 else n)" by simp
  have nn: "n \<le> nu" "unat nu < 2 ^ 28" "0 < unat nu" using assms(2) by (auto simp: nu word_less_nat_alt word_le_nat_alt not_less)
  have n8: "unat (nu * 8) = 8 * unat nu" using nn(2) by (simp add: unat_word_ariths)
  have b: "brk h \<le> KERNBASE" "0 < brk h" "base < brk h" "\<forall>x \<in> set bs. x < brk h" "seg (hdrs h) base bs base (Suc (unat (brk h)))"
      "s_size (hdrs h base) = 0" "0 < base" "freep h \<in> set (base # bs)"
    using assms(1) by (auto simp: heap_ok_def)
  consider "sbrk pages (nu * 8) h = (- 1, h)" | "sbrk pages (nu * 8) h = (brk h, h\<lparr>brk := brk h + nu * 8\<rparr>)"
      "unat (brk h + nu * 8) = unat (brk h) + 8 * unat nu" "brk h + nu * 8 < KERNBASE"
    using sbrk_eq [of h "nu * 8" pages] b n8 nn by auto
  then show ?thesis
  proof cases
    case 1
    then show ?thesis by (simp add: morecore_def nu [symmetric] Let_def)
  next
    case 2
    let ?p = "brk h"
    let ?d = "(hdrs h)(?p := (hdrs h ?p)\<lparr>s_size := nu\<rparr>)"
    let ?h = "h\<lparr>brk := brk h + nu * 8, hdrs := ?d\<rparr>"
    have np: "?p \<notin> set (base # bs)" using b(3,4) by auto
    have lt: "?p < brk h + nu * 8" using 2(2) nn(3) by (simp add: word_less_nat_alt)
    have "seg ?d base bs base (Suc (unat ?p))" by (rule seg_cong [OF b(5)]) (use np in auto)
    then have "seg ?d base bs base (Suc (unat (brk ?h)))" by (rule seg_mono) (use 2(2) in simp)
    then have ok: "heap_ok base ?h bs" using b np lt 2(3) by (auto simp: heap_ok_def)
    have fin: "fin ?d ?p = unat (brk ?h)" using 2(2) by (simp add: fin_def)
    have dx: "fin ?d x = fin (hdrs h) x" if "x \<in> set (base # bs)" for x using np that by (auto simp: fin_def)
    have "fin (hdrs h) x \<le> unat ?p" if "x \<in> set bs" for x using seg_bounds [OF b(5)] that by fastforce
    then have "apart ?d ?p x" if "x \<in> set bs" for x using that b(4) dx [of x] by (simp add: apart_def word_less_nat_alt)
    moreover have "0 < nu" using nn(3) by (simp add: word_less_nat_alt)
    ultimately have "freeable base ?h bs ?p" using b(3) fin by (simp add: freeable_def)
    from free_eq [OF ok this] obtain h' bs' where f: "free (?p + 8) ?h = Some h'" "heap_ok base h' bs'" "brk h' = brk h + nu * 8"
        "room (hdrs h') bs' = room ?d bs \<union> {unat ?p..<unat (brk h + nu * 8)}" "\<exists>x \<in> set bs'. nu \<le> s_size (hdrs h' x)"
      using fin by auto
    have "room ?d bs = room (hdrs h) bs" by (rule room_cong) (use np in auto)
    moreover have "brk h \<noteq> - 1"
    proof
      assume "brk h = - 1"
      then have "unat (brk h + 1) = 0" by simp
      moreover have "unat (brk h + 1) = unat (brk h) + 1" using unat_brk [OF assms(1)] by (simp add: unat_word_ariths)
      ultimately show False by simp
    qed
    then have "morecore pages n h = Some (freep h', h')"
      using 2(1) f(1) by (simp add: morecore_def nu [symmetric] Let_def)
    moreover have "freep h' \<noteq> 0" by (rule freep_neq_0 [OF f(2)])
    ultimately show ?thesis using f lt nn(1) by (auto intro: order_trans)
  qed
qed

section \<open>The result of malloc\<close>

lemma seg_sides:
  assumes "heap_ok base h (xs @ p # ys)"
  shows "\<And>x. x \<in> set (base # xs) \<Longrightarrow> fin (hdrs h) x < unat p" and "\<And>y. y \<in> set ys \<Longrightarrow> fin (hdrs h) p < unat y"
    and "fin (hdrs h) p \<le> unat (brk h)" and "base < p"
proof -
  have o: "seg (hdrs h) base xs p (unat p)" "seg (hdrs h) p ys base (Suc (unat (brk h)))" using assms by (auto simp: heap_ok_def seg_append)
  show x: "fin (hdrs h) x < unat p" if "x \<in> set (base # xs)" for x using seg_bounds [OF o(1)] that by auto
  show "fin (hdrs h) p < unat y" if "y \<in> set ys" for y using seg_bounds [OF o(2)] that by blast
  show "fin (hdrs h) p \<le> unat (brk h)" using seg_bounds [OF o(2)] by simp
  show "base < p" using x [of base] fin_ge [of base "hdrs h"] by (simp add: word_less_nat_alt)
qed

lemma below: "fin h x < l \<Longrightarrow> unat x < l"
  using fin_ge [of x h] by linarith

text \<open>\<open>block_out\<close>: the block at \<open>q\<close> of \<open>n\<close> units is out of the list, and together with the list it covers the
  addresses \<open>A\<close>.\<close>

definition block_out :: "u32 \<Rightarrow> uheap \<Rightarrow> u32 list \<Rightarrow> u32 \<Rightarrow> u32 \<Rightarrow> nat set \<Rightarrow> bool" where
  "block_out base h bs q n A \<longleftrightarrow> heap_ok base h bs \<and> freeable base h bs q \<and> s_size (hdrs h q) = n
     \<and> room (hdrs h) bs \<union> {unat q..<fin (hdrs h) q} = A"

lemma carve_out:
  assumes "heap_ok base h (xs @ p # ys)" and "n \<le> s_size (hdrs h p)" and "0 < n"
  shows "\<exists>q h' bs'. carve n (last (base # xs)) p h = (q + 8, h') \<and> brk h' = brk h \<and> block_out base h' bs' q n (room (hdrs h) (xs @ p # ys))"
proof (cases "s_size (hdrs h p) = n")
  case True
  note s = seg_sides [OF assms(1)]
  obtain h' where h: "carve n (last (base # xs)) p h = (p + 8, h')" "heap_ok base h' (xs @ ys)" "brk h' = brk h"
      "hdrs h' p = hdrs h p" "room (hdrs h') (xs @ ys) = room (hdrs h) (xs @ ys)" "\<forall>x. fin (hdrs h') x = fin (hdrs h) x"
    using carve_exact [OF assms(1) True] by blast
  have f: "fin (hdrs h') p = fin (hdrs h) p" using h(4) by (simp add: fin_def)
  have "fin (hdrs h') x \<le> unat p \<and> unat x < unat p \<or> fin (hdrs h) p \<le> unat x" if "x \<in> set (xs @ ys)" for x
  proof (cases "x \<in> set xs")
    case True
    then show ?thesis using s(1) [of x] below [of "hdrs h" x "unat p"] h(6) by simp
  next
    case False
    then show ?thesis using s(2) [of x] that by simp
  qed
  then have "apart (hdrs h') p x" if "x \<in> set (xs @ ys)" for x using that f by (auto simp: apart_def)
  then have "freeable base h' (xs @ ys) p" using s(3,4) h(3,4) f assms(3) True by (simp add: freeable_def)
  moreover have "room (hdrs h) (xs @ ys) \<union> {unat p..<fin (hdrs h) p} = room (hdrs h) (xs @ p # ys)" by (auto simp: room_def)
  ultimately show ?thesis using h f True by (auto simp: block_out_def)
next
  case False
  then have lt: "n < s_size (hdrs h p)" using assms(2) by simp
  note s = seg_sides [OF assms(1)]
  obtain q where q: "q = p + 8 * (s_size (hdrs h p) - n)" by simp
  obtain h' where h: "carve n (last (base # xs)) p h = (q + 8, h')" "heap_ok base h' (xs @ p # ys)" "brk h' = brk h"
      "s_size (hdrs h' q) = n" "fin (hdrs h') q = fin (hdrs h) p" "fin (hdrs h') p = unat q" "unat p < unat q"
      "\<forall>z. z \<noteq> p \<longrightarrow> z \<noteq> q \<longrightarrow> hdrs h' z = hdrs h z" "q \<notin> set (base # xs @ p # ys)"
    using carve_split [OF assms(1) lt assms(3) q] by blast
  note s' = seg_sides [OF h(2)]
  have a: "apart (hdrs h') q x" if x: "x \<in> set (xs @ p # ys)" for x
  proof -
    consider "x \<in> set xs" | "x = p" | "x \<in> set ys" using x by auto
    then show ?thesis
    proof cases
      case 1
      then show ?thesis using s'(1) [of x] below [of "hdrs h'" x "unat p"] h(7) by (simp add: apart_def)
    next
      case 2
      then show ?thesis using h(6,7) by (simp add: apart_def)
    next
      case 3
      then show ?thesis using s(2) [of x] h(5) by (simp add: apart_def)
    qed
  qed
  have "base < q" using s(4) h(7) by (simp add: word_less_nat_alt)
  then have fr: "freeable base h' (xs @ p # ys) q" using a s(3) h(3-5) assms(3) by (simp add: freeable_def)
  have d: "distinct (base # xs @ p # ys)" by (rule heap_distinct [OF assms(1)])
  have "room (hdrs h') xs = room (hdrs h) xs" by (rule room_cong) (use h(8,9) d in auto)
  moreover have "room (hdrs h') ys = room (hdrs h) ys" by (rule room_cong) (use h(8,9) d in auto)
  moreover have "unat q \<le> fin (hdrs h) p" using fin_ge [of q "hdrs h'"] h(5) by simp
  moreover have "room d (xs @ p # ys) = room d xs \<union> {unat p..<fin d p} \<union> room d ys" for d by (auto simp: room_def)
  ultimately have "room (hdrs h') (xs @ p # ys) \<union> {unat q..<fin (hdrs h') q} = room (hdrs h) (xs @ p # ys)"
    using h(5-7) by auto
  then show ?thesis using h fr by (auto simp: block_out_def)
qed

lemma scan_result:
  assumes "heap_ok base h bs" and "0 < n" and "unat n < 2 ^ 28"
  shows "look_from pages n h (freep h) = Some (0, h) \<or> (\<exists>q h' bs'. look_from pages n h (freep h) = Some (q + 8, h') \<and> brk h \<le> brk h'
    \<and> block_out base h' bs' q n (room (hdrs h) bs \<union> {unat (brk h)..<unat (brk h')}))"
proof -
  have fit: "\<exists>q h' bs'. look_from pages n t (freep t) = Some (q + 8, h') \<and> brk h' = brk t \<and> block_out base h' bs' q n (room (hdrs t) cs)"
    if "heap_ok base t cs" "\<exists>x \<in> set cs. n \<le> s_size (hdrs t x)" for t cs
  proof -
    obtain x where "x \<in> set cs" "n \<le> s_size (hdrs t x)" using \<open>\<exists>x \<in> set cs. n \<le> s_size (hdrs t x)\<close> by blast
    from scan_fit [OF \<open>heap_ok base t cs\<close> assms(2) this, of pages] obtain xs p ys
      where s: "cs = xs @ p # ys" "n \<le> s_size (hdrs t p)" "look_from pages n t (freep t) = Some (carve n (last (base # xs)) p t)" by blast
    have "heap_ok base t (xs @ p # ys)" using \<open>heap_ok base t cs\<close> s(1) by simp
    from carve_out [OF this s(2) assms(2)] obtain q h' bs' where
      c: "carve n (last (base # xs)) p t = (q + 8, h')" "brk h' = brk t" "block_out base h' bs' q n (room (hdrs t) (xs @ p # ys))" by blast
    have "look_from pages n t (freep t) = Some (q + 8, h')" using s(3) by (simp only: c(1))
    then show ?thesis using c(2,3) s(1) by (intro exI [of _ q] exI [of _ h'] exI [of _ bs']) (simp only: simp_thms)
  qed
  show ?thesis
  proof (cases "\<exists>x \<in> set bs. n \<le> s_size (hdrs h x)")
    case True
    then obtain q h' bs' where "look_from pages n h (freep h) = Some (q + 8, h')" "brk h' = brk h" "block_out base h' bs' q n (room (hdrs h) bs)"
      using fit [OF assms(1)] by blast
    then show ?thesis by (intro disjI2 exI [of _ q] exI [of _ h'] exI [of _ bs']) simp
  next
    case False
    then have e: "look_from pages n h (freep h) = (case morecore pages n h of None \<Rightarrow> None
        | Some (q, h') \<Rightarrow> if q = 0 then Some (0, h') else look_from pages n h' q)"
      by (intro scan_nofit [OF assms(1,2)]) blast
    consider "morecore pages n h = Some (0, h)" | q t cs where "morecore pages n h = Some (q, t)" "q \<noteq> 0" "q = freep t" "heap_ok base t cs"
        "brk h < brk t" "room (hdrs t) cs = room (hdrs h) bs \<union> {unat (brk h)..<unat (brk t)}" "\<exists>x \<in> set cs. n \<le> s_size (hdrs t x)"
      using morecore_eq [OF assms(1,3,2), of pages] by (elim disjE exE conjE) blast+
    then show ?thesis
    proof cases
      case 1
      then show ?thesis unfolding e 1 by simp
    next
      case (2 q t cs)
      then have "look_from pages n h (freep h) = look_from pages n t (freep t)" unfolding e by (simp only: option.case prod.case if_False)
      moreover obtain r h' bs' where b: "look_from pages n t (freep t) = Some (r + 8, h')" "brk h' = brk t" "block_out base h' bs' r n (room (hdrs t) cs)"
        using fit [OF 2(4,7)] by blast
      ultimately have "look_from pages n h (freep h) = Some (r + 8, h')" by (simp only:)
      then show ?thesis using b(2,3) 2(5,6) by (intro disjI2 exI [of _ r] exI [of _ h'] exI [of _ bs']) simp
    qed
  qed
qed

lemma unat_nunits:
  assumes "unat nbytes \<le> 0x7fffffe0"
  shows "unat (nunits_of nbytes) = (unat nbytes + 7) div 8 + 1"
proof -
  have "unat (nbytes + 8 - 1) = unat nbytes + 7" using assms by (simp add: unat_word_ariths unat_sub_if_size)
  then have "unat ((nbytes + 8 - 1) div 8) = (unat nbytes + 7) div 8" by (simp add: unat_div_distrib)
  moreover have "(unat nbytes + 7) div 8 < 2 ^ 31" using assms by simp
  ultimately show ?thesis by (simp add: nunits_of_def unat_word_ariths)
qed

text \<open>The heap before the first call.\<close>

definition heap_new :: "u32 \<Rightarrow> uheap \<Rightarrow> bool" where
  "heap_new base h \<longleftrightarrow> freep h = 0 \<and> 0 < base \<and> base < brk h \<and> brk h \<le> KERNBASE"

lemma heap_new_ok:
  "heap_new base h \<Longrightarrow> heap_ok base (h\<lparr>hdrs := (hdrs h)(base := \<lparr>s_ptr = base, s_size = 0\<rparr>), freep := base\<rparr>) []"
  by (simp add: heap_new_def heap_ok_def fin_def word_less_nat_alt)

lemma malloc_scan:
  assumes "heap_ok base h bs \<or> bs = [] \<and> heap_new base h"
  obtains t where "malloc base pages nbytes h = look_from pages (nunits_of nbytes) t (freep t)" and "heap_ok base t bs" and "brk t = brk h"
    and "room (hdrs t) bs = room (hdrs h) bs"
proof (cases "freep h = 0")
  case True
  then have n: "bs = []" "heap_new base h" using assms freep_neq_0 by blast+
  show ?thesis using heap_new_ok [OF n(2)] n(1) True
    by (intro that [of "h\<lparr>hdrs := (hdrs h)(base := \<lparr>s_ptr = base, s_size = 0\<rparr>), freep := base\<rparr>"]) (simp_all add: malloc_def Let_def room_def)
next
  case False
  then have "heap_ok base h bs" using assms by (auto simp: heap_new_def)
  then show ?thesis using False by (intro that [of h]) (simp_all add: malloc_def Let_def)
qed

section \<open>Properties\<close>

text \<open>C25: giving a block back. For a block that lies in none of the free blocks, \<open>free\<close> finds its place in the
  ring and returns; the ring is again in the order of the addresses with gaps between the blocks, and
  its blocks cover exactly what they covered before and the block given back.\<close>

theorem free_correct:
  assumes "heap_ok base h bs" and "freeable base h bs (ap - 8)"
  shows "\<exists>h' bs'. free ap h = Some h' \<and> heap_ok base h' bs' \<and> brk h' = brk h
    \<and> room (hdrs h') bs' = room (hdrs h) bs \<union> {unat (ap - 8)..<fin (hdrs h) (ap - 8)}"
proof -
  obtain h' bs' where "free (ap - 8 + 8) h = Some h'" "heap_ok base h' bs'" "brk h' = brk h"
      "room (hdrs h') bs' = room (hdrs h) bs \<union> {unat (ap - 8)..<fin (hdrs h) (ap - 8)}"
    using free_eq [OF assms] by (elim exE conjE)
  then show ?thesis by (intro exI [of _ h'] exI [of _ bs']) simp
qed

lemma freeable_disjoint:
  assumes "freeable base h bs q"
  shows "room (hdrs h) bs \<inter> {unat q..<fin (hdrs h) q} = {}"
proof -
  have "{unat x..<fin (hdrs h) x} \<inter> {unat q..<fin (hdrs h) q} = {}" if "x \<in> set bs" for x
    using assms that by (auto simp: freeable_def apart_def)
  then show ?thesis unfolding room_def by blast
qed

text \<open>C24: asking for memory. On a sound heap or before the first call, \<open>malloc\<close> of less than 2 gigabytes
  returns. It returns 0 when no free block is large enough and the kernel gives no memory; otherwise a
  block with room for the bytes asked for that was free or is new memory of the process, and that is no
  longer in the ring, which stays sound. The block can be given back to \<open>free\<close>.\<close>

theorem malloc_correct:
  assumes "heap_ok base h bs \<or> bs = [] \<and> heap_new base h" and "unat nbytes \<le> 0x7fffffe0"
  shows "\<exists>r h' bs'. malloc base pages nbytes h = Some (r, h') \<and> heap_ok base h' bs' \<and> (if r = 0
      then brk h' = brk h \<and> room (hdrs h') bs' = room (hdrs h) bs
      else freeable base h' bs' (r - 8) \<and> unat r + unat nbytes \<le> fin (hdrs h') (r - 8)
        \<and> room (hdrs h') bs' \<inter> {unat r - 8..<fin (hdrs h') (r - 8)} = {}
        \<and> room (hdrs h') bs' \<union> {unat r - 8..<fin (hdrs h') (r - 8)} = room (hdrs h) bs \<union> {unat (brk h)..<unat (brk h')})"
proof -
  let ?n = "nunits_of nbytes"
  have n: "unat ?n = (unat nbytes + 7) div 8 + 1" by (rule unat_nunits [OF assms(2)])
  have n0: "0 < ?n" and n28: "unat ?n < 2 ^ 28" using n assms(2) by (simp_all add: word_less_nat_alt)
  obtain t where t: "malloc base pages nbytes h = look_from pages ?n t (freep t)" "heap_ok base t bs" "brk t = brk h"
      "room (hdrs t) bs = room (hdrs h) bs" using malloc_scan [OF assms(1)] .
  consider "look_from pages ?n t (freep t) = Some (0, t)" | q h' bs' where "look_from pages ?n t (freep t) = Some (q + 8, h')"
      "block_out base h' bs' q ?n (room (hdrs t) bs \<union> {unat (brk t)..<unat (brk h')})"
    using scan_result [OF t(2) n0 n28, of pages] by (elim disjE exE conjE) blast+
  then show ?thesis
  proof cases
    case 1
    then show ?thesis using t by (intro exI [of _ 0] exI [of _ t] exI [of _ bs]) simp
  next
    case (2 q h' bs')
    have o: "heap_ok base h' bs'" "freeable base h' bs' q" "s_size (hdrs h' q) = ?n"
        "room (hdrs h') bs' \<union> {unat q..<fin (hdrs h') q} = room (hdrs t) bs \<union> {unat (brk t)..<unat (brk h')}"
      using 2(2) by (simp_all only: block_out_def)
    have "fin (hdrs h') q \<le> unat (brk h')" using o(2) by (simp only: freeable_def)
    then have "fin (hdrs h') q < 2 ^ 32 - 8" using unat_brk [OF o(1)] by simp
    then have r: "unat (q + 8) = unat q + 8" using fin_ge [of q "hdrs h'"] by (simp add: unat_word_ariths)
    have f: "fin (hdrs h') q = unat q + 8 * unat ?n" by (simp only: fin_def o(3))
    have sz: "unat q + 8 + unat nbytes \<le> fin (hdrs h') q" unfolding f n by simp
    have di: "room (hdrs h') bs' \<inter> {unat q..<fin (hdrs h') q} = {}" by (rule freeable_disjoint [OF o(2)])
    have "unat (q + 8) \<noteq> 0" unfolding r by simp
    then have z: "q + 8 \<noteq> 0" by auto
    have m: "malloc base pages nbytes h = Some (q + 8, h')" unfolding t(1) by (rule 2(1))
    have e: "q + 8 - 8 = q" "unat (q + 8) - 8 = unat q" by (simp_all add: r)
    show ?thesis
      by (intro exI [of _ "q + 8"] exI [of _ h'] exI [of _ bs'])
        (simp only: m o(1,2,4) z e r sz di t(3,4) add_diff_cancel_right' if_False simp_thms)
  qed
qed

lemma nunits_wrap:
  assumes "nbytes \<ge> 0xFFFFFFF9"
  shows "nunits_of nbytes = 1"
proof -
  have u: "4294967289 \<le> unat nbytes" "unat nbytes < 4294967296" using assms unat_lt32 [of nbytes] by (simp_all add: word_le_nat_alt)
  obtain k where "unat nbytes = 4294967289 + k" using u(1) le_Suc_ex by blast
  then have k: "unat nbytes + 7 = k + 4294967296" "k < 7" using u(2) by simp_all
  have "unat (nbytes + 7) = (unat nbytes + 7) mod 4294967296" by (simp add: unat_word_ariths)
  then have "unat (nbytes + 7) = k mod 4294967296" by (simp only: k(1) mod_add_self2)
  then have "unat (nbytes + 7) < 8" using k(2) by simp
  then have "(nbytes + 7) div 8 = 0" by (simp add: word_arith_nat_div)
  moreover have "nbytes + 8 - 1 = nbytes + 7" by simp
  ultimately show ?thesis unfolding nunits_of_def by (simp only: add_0)
qed

text \<open>C26: the size of a request is not checked for overflow. For the seven largest numbers of bytes the
  rounding wraps around to one unit, so that with any free block \<open>malloc\<close> reports success and returns a
  block that consists of its header alone.\<close>

theorem malloc_wraps:
  assumes "heap_ok base h bs" and "x \<in> set bs" and "0 < s_size (hdrs h x)" and "nbytes \<ge> 0xFFFFFFF9"
  shows "\<exists>r h' bs'. malloc base pages nbytes h = Some (r, h') \<and> freeable base h' bs' (r - 8) \<and> fin (hdrs h') (r - 8) = unat (r - 8) + 8"
proof -
  have one: "0 < (1 :: u32)" by simp
  have n: "nunits_of nbytes = 1" by (rule nunits_wrap [OF assms(4)])
  have x: "1 \<le> s_size (hdrs h x)" using assms(3) by (simp add: word_le_nat_alt word_less_nat_alt)
  obtain xs p ys where s: "bs = xs @ p # ys" "1 \<le> s_size (hdrs h p)" "look_from pages 1 h (freep h) = Some (carve 1 (last (base # xs)) p h)"
    using scan_fit [OF assms(1) one assms(2) x, of pages] by (elim exE conjE)
  obtain q h' bs' where q: "carve 1 (last (base # xs)) p h = (q + 8, h')" "block_out base h' bs' q 1 (room (hdrs h) (xs @ p # ys))"
    using carve_out [OF assms(1) [unfolded s(1)] s(2) one] by (elim exE conjE)
  have "malloc base pages nbytes h = Some (q + 8, h')"
    unfolding malloc_def Let_def n s(3) q(1) using freep_neq_0 [OF assms(1)] by (simp only: if_False)
  moreover have "freeable base h' bs' q" "s_size (hdrs h' q) = 1" using q(2) by (simp_all only: block_out_def)
  moreover from this have "fin (hdrs h') q = unat q + 8" by (simp only: fin_def unat_1 mult_1_right)
  ultimately show ?thesis by (intro exI [of _ "q + 8"] exI [of _ h'] exI [of _ bs']) simp
qed

section \<open>A concrete heap\<close>

text \<open>One free block of 512 units, with a block of 16 units in use behind it.\<close>

definition heap_ex :: uheap where
  "heap_ex = \<lparr>hdrs = (\<lambda>_. \<lparr>s_ptr = 0, s_size = 0\<rparr>)(0x100 := \<lparr>s_ptr = 0x1000, s_size = 0\<rparr>, 0x1000 := \<lparr>s_ptr = 0x100, s_size = 512\<rparr>,
     0x2000 := \<lparr>s_ptr = 0, s_size = 16\<rparr>), freep = 0x100, brk = 0x3000\<rparr>"

lemma heap_ex_ok: "heap_ok 0x100 heap_ex [0x1000]" "freeable 0x100 heap_ex [0x1000] 0x2000" "s_size (hdrs heap_ex 0x1000) = 512"
  "room (hdrs heap_ex) [0x1000] = {0x1000..<0x2000}" "fin (hdrs heap_ex) 0x2000 = 0x2080"
  by (simp_all add: heap_ex_def heap_ok_def freeable_def apart_def fin_def KERNBASE_def room_def)

theorem free_correct_witness:
  "\<exists>h' bs'. free 0x2008 heap_ex = Some h' \<and> heap_ok 0x100 h' bs' \<and> room (hdrs h') bs' = {0x1000..<0x2000} \<union> {0x2000..<0x2080}"
  using free_correct [of "0x100" heap_ex "[0x1000]" "0x2008"] heap_ex_ok by auto

theorem malloc_correct_witness:
  "\<exists>r h' bs'. malloc 0x100 (\<lambda>_ _. False) 100 heap_ex = Some (r, h') \<and> heap_ok 0x100 h' bs'
    \<and> (r \<noteq> 0 \<longrightarrow> unat r + 100 \<le> fin (hdrs h') (r - 8))"
proof -
  obtain r h' bs' where "malloc 0x100 (\<lambda>_ _. False) 100 heap_ex = Some (r, h')" "heap_ok 0x100 h' bs'"
      "r \<noteq> 0 \<longrightarrow> unat r + unat (100 :: u32) \<le> fin (hdrs h') (r - 8)"
    using malloc_correct [of "0x100" heap_ex "[0x1000]" 100 "\<lambda>_ _. False"] heap_ex_ok(1) by (auto split: if_splits)
  then show ?thesis by (intro exI [of _ r] exI [of _ h'] exI [of _ bs']) simp
qed

theorem malloc_wraps_witness:
  "\<exists>r h'. malloc 0x100 (\<lambda>_ _. False) 0xFFFFFFFF heap_ex = Some (r, h') \<and> fin (hdrs h') (r - 8) = unat (r - 8) + 8"
  using malloc_wraps [of "0x100" heap_ex "[0x1000]" "0x1000" "0xFFFFFFFF" "\<lambda>_ _. False"] heap_ex_ok by auto

end
