(* ===== verification/Spec2Isabelle.thy ===== *)
theory Spec2Isabelle
  imports Boot Mkfs Paging ShellRun Journal Programs Ulib Umalloc
begin

text \<open>
  A verification development of the xv6 kernel in \<open>src/\<close> (x86, with system-call tracing, a
  priority scheduler and priority inheritance through user-level locks).

  \<^bold>\<open>How the code is modelled.\<close> A kernel routine is a function of the type \<open>('s, 'a) kop\<close> of
  \<open>Prelude\<close>: from a state it is \<open>Done\<close> with a value and a new state, \<open>Switch\<close>es away to the
  scheduler with the state it leaves behind, \<open>Spin\<close>s for ever, or ends in \<open>Panic\<close>. The code after
  a switch is a definition of its own whose name ends in \<open>_resume\<close>. The kernel's state is one
  chain of extensible records, each component adding its fields: the machine and its spin locks
  (\<open>mach\<close>), the console output (\<open>conout\<close>), the page allocator (\<open>kmem\<close>), the address spaces
  (\<open>vmst\<close>), the process table (\<open>kproc\<close>), the traces and filters of \<open>strace\<close> (\<open>ktrace\<close>), sleep
  locks, buffers and the disk (\<open>kbuf\<close>), the log (\<open>klog\<close>), the inode cache (\<open>kfs\<close>), open files and
  pipes (\<open>kfile\<close>), the console input (\<open>kinput\<close>), the registers of the devices and the tables found at
  boot (\<open>kdev\<close>), and the queue of the IDE driver (\<open>kide\<close>). A C \<open>int\<close> is a 32-bit word read with \<open>sint\<close>, a
  pointer into a kernel table is an index, memory is a map from 32-bit addresses to bytes.

  \<^bold>\<open>The theories.\<close>
  \<^item> \<open>Prelude\<close>: kernel computations, their weakest preconditions, reachability, inductive
    invariants and simulations, search in a table.
  \<^item> \<open>Memory\<close>: \<open>string.c\<close> over byte memory.
  \<^item> \<open>Spinlock\<close>: \<open>spinlock.c\<close>; the interleaving of the memory accesses of \<open>acquire\<close> and \<open>release\<close> on
    several CPUs, one word of the lock at a time, with mutual exclusion as an inductive invariant.
  \<^item> \<open>Console\<close>: the output half of \<open>console.c\<close> and \<open>uartputc\<close>.
  \<^item> \<open>Kalloc\<close>: \<open>kalloc.c\<close>, shown to implement the contract of a page pool.
  \<^item> \<open>Vm\<close>: \<open>vm.c\<close> without \<open>loaduvm\<close>.
  \<^item> \<open>Proc\<close>: process slots, both schedulers, \<open>sched\<close>, \<open>yield\<close>, \<open>sleep\<close>, \<open>wakeup\<close>, \<open>kill\<close>,
    \<open>procdump\<close> of \<open>proc.c\<close>.
  \<^item> \<open>Sched\<close>: the abstract scheduler that the code of \<open>Proc\<close> refines.
  \<^item> \<open>Sysarg\<close>: the argument checks of \<open>syscall.c\<close>.
  \<^item> \<open>Paging\<close>: the translation of addresses and what \<open>mappages\<close> of \<open>Vm\<close> does to it.
  \<^item> \<open>Priority\<close>: \<open>sys_nice\<close>, \<open>sys_lock\<close>, \<open>sys_release\<close>.
  \<^item> \<open>Strace\<close>: \<open>syscall\<close> of \<open>syscall.c\<close> with the ring of the last five traces, their text, the
    filters, and the system calls of \<open>strace\<close>. The bytes that \<open>straceBuf\<close> finds on the kernel stack are
    the field \<open>stack_buf\<close> of the state, which no routine sets.
  \<^item> \<open>Bio\<close>: \<open>sleeplock.c\<close>, \<open>memide.c\<close> and \<open>bio.c\<close>.
  \<^item> \<open>Log\<close>: \<open>log.c\<close> and \<open>readsb\<close>.
  \<^item> \<open>Cache\<close>: the routines of \<open>bio.c\<close> as exact steps on the view \<open>iov\<close> of the state that cache and log
    share; the coherence invariant \<open>cache_ok\<close> and the content of a block as a reader sees it.
  \<^item> \<open>Crash\<close>: the sequence of disk writes of \<open>commit\<close>, and recovery from every prefix of it. The log is
    the \<open>log.size\<close> blocks from \<open>log.start\<close> on that the superblock gives it.
  \<^item> \<open>Journal\<close>: the invariant \<open>tracked\<close> of a running transaction, which recovery establishes, and \<open>bzero\<close>
    and \<open>end_op\<close> over it.
  \<^item> \<open>Fs\<close>: \<open>fs.c\<close>, from the free map to path names.
  \<^item> \<open>File\<close>: \<open>pipe.c\<close> and \<open>file.c\<close>; a pipe is interpreted as a bounded byte queue.
  \<^item> \<open>Sysfile\<close>: \<open>sysfile.c\<close> without \<open>sys_exec\<close>.
  \<^item> \<open>Process\<close>: \<open>fork\<close>, \<open>exit\<close>, \<open>wait\<close>, \<open>growproc\<close>, \<open>userinit\<close>, \<open>loaduvm\<close>, \<open>exec\<close> and the
    remaining calls of \<open>sysproc.c\<close>.
  \<^item> \<open>Ports\<close>: the instructions of \<open>x86.h\<close> on ports, \<open>lapicw\<close> and \<open>lapiceoi\<close>. A device register is the list of
    its answers to come, the last of which repeats, and what is written to the devices is a log. The clock
    chip and the I/O APIC have a list for each register, and a read takes the one that the last write to
    the index port or index register selects.
  \<^item> \<open>Trap\<close>: console input, the keyboard, the table of system calls and \<open>trap\<close>, with what \<open>trap\<close> does when
    the process is resumed after a system call that slept or after the tick.
  \<^item> \<open>Device\<close>: \<open>picirq.c\<close>, \<open>ioapic.c\<close>, \<open>lapic.c\<close>, \<open>timer.c\<close>, \<open>mp.c\<close>, \<open>uartinit\<close>, and the interrupt descriptor
    table of \<open>trap.c\<close>.
  \<^item> \<open>Ide\<close>: the disk driver \<open>ide.c\<close>, with its linked queue of buffers.
  \<^item> \<open>Boot\<close>: \<open>main.c\<close>, the composition of the initialisation routines, and the boot loader
    \<open>bootmain.c\<close>.
  \<^item> \<open>Mkfs\<close>: the image builder \<open>mkfs.c\<close>, whose exits on a failed read or write are the value \<open>None\<close>.
  \<^item> \<open>Umalloc\<close>: the allocator \<open>umalloc.c\<close> of user programs, on the headers of its blocks.
  \<^item> \<open>Grep\<close>: the user program \<open>grep\<close> with its regular-expression matcher.
  \<^item> \<open>Ulib\<close>: the routines of \<open>ulib.c\<close> on memory, and \<open>stat\<close>.
  \<^item> \<open>Utils\<close>: the routines of \<open>ulib.c\<close> on strings, \<open>printf.c\<close> and the programs \<open>tail\<close>, \<open>wc\<close>, \<open>cat\<close>,
    \<open>echo\<close>, \<open>kill\<close>, \<open>mkdir\<close>, \<open>rm\<close> and \<open>ln\<close>.
  \<^item> \<open>Programs\<close>: the programs \<open>nice\<close> and \<open>ls\<close>, for the results of their system calls.
  \<^item> \<open>Shell\<close>: the scanner and parser of \<open>sh.c\<close> with \<open>nulterminate\<close>.
  \<^item> \<open>ShellRun\<close>: \<open>runcmd\<close>, the \<open>strace\<close> commands and the line loop of \<open>sh.c\<close>, as trees of system calls
    that an abstract machine of processes and descriptors runs.

  \<^bold>\<open>What is shown.\<close> Scheduling: on every interleaving a RUNNING process is on exactly one CPU, and
  a round picks the most urgent process. Spin locks exclude each other under every
  interleaving of the single memory accesses of \<open>acquire\<close> and \<open>release\<close>. The page allocator is a pool without double allocation, and a page that is
  mapped is translated to its frame. Arguments of system
  calls stay inside the process. Priority inheritance raises the holder and is undone at release.
  The ring of traces keeps the latest ones and the filters print what they select. Sleep locks
  exclude, \<open>begin_op\<close> keeps the log large enough and \<open>end_op\<close> wakes those who wait for it. The buffer cache is
  coherent, and transactions are atomic: a changed block is seen by readers at once and reaches its
  place on the disk only by a commit, and recovery after a crash anywhere in the commit gives all of
  the transaction or nothing. A pipe is a queue, inodes survive the disk, a path is walked element
  by element, the ring of console input does not overrun, and a killed process does not return to
  user mode, whether \<open>trap\<close> ran through, slept in its system call or gave up the CPU at the tick. The parser of the shell ends on every line with a well-formed command whose words are
  terminated strings, and the processes the shell starts are wired as the line says. The matcher of \<open>grep\<close> decides
  the language of its expressions, \<open>wc\<close> counts whatever the reads are, and \<open>tail\<close> prints the last of the
  first hundred lines. The queue of the IDE driver is served in order, each interrupt completing one
  request, waking its sleepers and starting the next; \<open>mpinit\<close> finds the processors of a sound table and
  hangs on an unknown entry; \<open>cmostime\<close> returns the first date that reads the same twice. The ring of free
  blocks of \<open>malloc\<close> stays sorted and joined, and blocks are neither lost nor handed out twice; the map of
  blocks that \<open>mkfs\<close> writes marks exactly the blocks that the layout and its files use, no two of which
  share one. \<open>strcpy\<close> of the user library copies
  and its \<open>memmove\<close> spreads one byte when it moves a block up by one; \<open>nice\<close> asks the kernel for values from 1
  to 5 only. \<open>Sysfile\<close>, \<open>Process\<close>, \<open>Boot\<close> and most of \<open>Vm\<close> are definitions that these
  theorems run through, without properties of their own so far.

  \<^bold>\<open>Fuel.\<close> The loops over pages take a bound of about \<open>2 ^ 20\<close> rounds, the number of pages of a
  32-bit address space, those over file contents and path names one round more than there are
  bytes; running out is the value \<open>Spin\<close>. The parser of the shell takes the depth of its calls as a bound, a
  multiple of the length of the line. That the bound is enough is proved for path names and for
  the parser.
  Every round of the other loops advances by a page or by at least one byte. The search for the end of the
  queue of the IDE driver has one round for each of the \<open>NBUF\<close> buffers, which is proved to be enough. The
  loops of \<open>mpinit\<close>, \<open>cmostime\<close>, \<open>malloc\<close> and \<open>free\<close> are partial functions with \<open>None\<close> for a loop that does
  not end, and a loop that waits for a device register ends when the list of its answers has one. The
  loop of \<open>readseg\<close> in the boot loader has one round more than the address space has sectors, after which
  the address of the C loop repeats, so that a loop cut off there does not end in C either.

  \<^bold>\<open>Limits.\<close> A routine that gives up the CPU inside another one ends in \<open>Switch\<close> with the state it
  leaves; what the caller does after it is resumed is modelled where the \<open>_resume\<close> definitions
  say so, and not for every caller of a routine that may sleep. The theorems on transactions are
  about a process that finds the sleep locks of its buffers free; a crash falls between two disk
  writes, each of which is taken to be atomic. The nesting depth \<open>ncli\<close> of a CPU is an unbounded integer.

  \<^bold>\<open>Not modelled.\<close> The assembly files, which run before or between the C code on
  registers that the model does not have; the test programs, which only call the system; and the user programs that no theory
  names: demonstrations of system calls without a result of their own, and \<open>preprocess.c\<close>, which does
  not compile. The file system runs on the disk in memory (\<open>memide.c\<close>) and not on the IDE driver, whose
  \<open>iderw\<close> gives up the CPU in the middle of every caller.
\<close>

end
